(* ===== verification/Vaco_Prelude.thy ===== *)
theory Vaco_Prelude
  imports Complex_Main "HOL-Library.Word" "HOL-Library.Signed_Division"
begin

unbundle bit_operations_syntax

text \<open>
  Shared vocabulary of the development: Rust's machine integers (ranges, checked and
  saturating arithmetic), checked slicing of byte slices, big- and little-endian
  conversion, and the generic lemmas on them that the component theories use.

  Conventions. A Rust \<^verbatim>\<open>iN\<close>/\<^verbatim>\<open>uN\<close> whose wrap-around or bit pattern matters is an
  \<open>N word\<close>; a wide intermediate (\<^verbatim>\<open>i128\<close>, \<^verbatim>\<open>u128\<close>) or a size
  (\<^verbatim>\<open>usize\<close>, \<^verbatim>\<open>u64\<close>) is an \<open>int\<close> or \<open>nat\<close> whose
  range is written out with \<open>fits_s\<close> and \<open>fits_u\<close>. \<^verbatim>\<open>usize\<close> is 64 bits
  wide. Rust's \<^verbatim>\<open>/\<close> and \<^verbatim>\<open>%\<close> on signed integers truncate: they are
  \<open>sdiv\<close> and \<open>smod\<close>.
\<close>

named_theorems machine_arith \<open>definitions of the checked and saturating operations\<close>
named_theorems slice_defs \<open>definitions of the checked slice accesses\<close>

type_synonym u8 = "8 word"
type_synonym u16 = "16 word"
type_synonym u32 = "32 word"
type_synonym u64 = "64 word"
type_synonym i32 = "32 word"

subsection \<open>Ranges, checked and saturating arithmetic\<close>

definition fits_s :: "nat \<Rightarrow> int \<Rightarrow> bool" where
  "fits_s w x \<longleftrightarrow> - (2 ^ (w - 1)) \<le> x \<and> x < 2 ^ (w - 1)"

definition fits_u :: "nat \<Rightarrow> nat \<Rightarrow> bool" where
  "fits_u w x \<longleftrightarrow> x < 2 ^ w"

definition checked_s :: "nat \<Rightarrow> int \<Rightarrow> int option" where
  "checked_s w x = (if fits_s w x then Some x else None)"

definition checked_u :: "nat \<Rightarrow> nat \<Rightarrow> nat option" where
  "checked_u w x = (if fits_u w x then Some x else None)"

definition sat_u :: "nat \<Rightarrow> nat \<Rightarrow> nat" where
  "sat_u w x = min x (2 ^ w - 1)"

definition sat_s :: "nat \<Rightarrow> int \<Rightarrow> int" where
  "sat_s w x = max (- (2 ^ (w - 1))) (min x (2 ^ (w - 1) - 1))"

abbreviation USIZE_MAX :: nat where "USIZE_MAX \<equiv> 2 ^ 64 - 1"
abbreviation U64_MAX :: nat where "U64_MAX \<equiv> 2 ^ 64 - 1"

lemmas [machine_arith] = fits_s_def fits_u_def checked_s_def checked_u_def sat_u_def sat_s_def

lemma checked_s_eq_Some [simp]: "checked_s w x = Some y \<longleftrightarrow> fits_s w x \<and> y = x"
  by (auto simp: checked_s_def)

lemma checked_s_eq_None [simp]: "checked_s w x = None \<longleftrightarrow> \<not> fits_s w x"
  by (auto simp: checked_s_def)

lemma checked_u_eq_Some [simp]: "checked_u w x = Some y \<longleftrightarrow> fits_u w x \<and> y = x"
  by (auto simp: checked_u_def)

lemma checked_u_eq_None [simp]: "checked_u w x = None \<longleftrightarrow> \<not> fits_u w x"
  by (auto simp: checked_u_def)

lemma sat_u_id: "fits_u w x \<Longrightarrow> sat_u w x = x"
  by (simp add: sat_u_def fits_u_def)

lemma sat_u_le: "sat_u w x \<le> 2 ^ w - 1" "sat_u w x \<le> x"
  by (simp_all add: sat_u_def)

lemma fits_u_sat_u [simp]: "fits_u w (sat_u w x)"
proof -
  have "(0::nat) < 2 ^ w" by simp
  then show ?thesis unfolding sat_u_def fits_u_def by linarith
qed

lemma sat_u_mono: "x \<le> y \<Longrightarrow> sat_u w x \<le> sat_u w y"
  by (simp add: sat_u_def)

lemma fits_s_sat_s: "0 < w \<Longrightarrow> fits_s w (sat_s w x)"
  by (auto simp: sat_s_def fits_s_def min_def max_def)

lemma sat_s_id: "fits_s w x \<Longrightarrow> sat_s w x = x"
  by (simp add: sat_s_def fits_s_def)

lemma fits_s_mono: "fits_s v x \<Longrightarrow> v \<le> w \<Longrightarrow> fits_s w x"
proof -
  assume "fits_s v x" "v \<le> w"
  moreover from \<open>v \<le> w\<close> have "(2::int) ^ (v - 1) \<le> 2 ^ (w - 1)"
    by (intro power_increasing) auto
  ultimately show ?thesis unfolding fits_s_def by linarith
qed

subsection \<open>Two's complement words read as integers\<close>

lemma fits_s_sint [simp]: "fits_s 32 (sint (x :: 32 word))"
  using sint_ge [of x] sint_less [of x] by (simp add: fits_s_def)

lemma sint_word_of_int_fits: "fits_s 32 x \<Longrightarrow> sint (word_of_int x :: 32 word) = x"
  by (simp add: fits_s_def signed_of_int signed_take_bit_int_eq_self)

lemma word_eq_sint_iff: "(x :: 32 word) = y \<longleftrightarrow> sint x = sint y"
  by (auto intro: signed_word_eqI)

subsection \<open>Shifts\<close>

text \<open>
  Rust's \<^verbatim>\<open><<\<close> and \<^verbatim>\<open>>>\<close> on an integer of \<open>w\<close> bits overflow when the amount is
  \<open>w\<close> or more: a build with overflow checks panics, a release build shifts by the amount
  modulo \<open>w\<close>. These are the release build's shifts; where the amount is smaller they are
  the mathematical ones. \<open>shl_usize\<close> shifts a 64-bit unsigned integer kept as a number.
\<close>

definition shr_word :: "'a :: len word \<Rightarrow> nat \<Rightarrow> 'a word" where
  "shr_word x n = drop_bit (n mod LENGTH('a)) x"

definition shl_word :: "'a :: len word \<Rightarrow> nat \<Rightarrow> 'a word" where
  "shl_word x n = push_bit (n mod LENGTH('a)) x"

definition shl_usize :: "nat \<Rightarrow> nat \<Rightarrow> nat" where
  "shl_usize x n = take_bit 64 (push_bit (n mod 64) x)"

lemma shr_word_eq: "n < LENGTH('a) \<Longrightarrow> shr_word (x :: 'a :: len word) n = drop_bit n x"
  by (simp add: shr_word_def)

lemma shl_word_eq: "n < LENGTH('a) \<Longrightarrow> shl_word (x :: 'a :: len word) n = push_bit n x"
  by (simp add: shl_word_def)

lemma shl_usize_eq:
  assumes "x < 2 ^ k" "k + n \<le> 64" "n < 64"
  shows "shl_usize x n = push_bit n x"
proof -
  have "x * 2 ^ n < 2 ^ k * 2 ^ n" using assms(1) by simp
  also have "\<dots> \<le> 2 ^ 64" using assms(2) power_increasing [of "k + n" 64 "2 :: nat"] by (simp add: power_add)
  finally show ?thesis using assms(3) by (simp add: shl_usize_def push_bit_eq_mult take_bit_nat_eq_self)
qed

subsection \<open>Checked slicing\<close>

text \<open>
  \<open>slice_from xs i\<close> is \<^verbatim>\<open>xs.get(i..)\<close>, \<open>slice_range xs i j\<close> is
  \<^verbatim>\<open>xs.get(i..j)\<close> and \<open>first_chunk n xs\<close> is
  \<^verbatim>\<open>xs.first_chunk::<n>()\<close>.
\<close>

definition slice_from :: "'a list \<Rightarrow> nat \<Rightarrow> 'a list option" where
  "slice_from xs i = (if i \<le> length xs then Some (drop i xs) else None)"

definition slice_range :: "'a list \<Rightarrow> nat \<Rightarrow> nat \<Rightarrow> 'a list option" where
  "slice_range xs i j = (if i \<le> j \<and> j \<le> length xs then Some (take (j - i) (drop i xs)) else None)"

definition first_chunk :: "nat \<Rightarrow> 'a list \<Rightarrow> 'a list option" where
  "first_chunk n xs = (if n \<le> length xs then Some (take n xs) else None)"

definition get_at :: "'a list \<Rightarrow> nat \<Rightarrow> 'a option" where
  "get_at xs i = (if i < length xs then Some (xs ! i) else None)"

lemmas [slice_defs] = slice_from_def slice_range_def first_chunk_def get_at_def

lemma first_chunk_from:
  "Option.bind (slice_from xs i) (first_chunk n) =
     (if i \<le> length xs \<and> i + n \<le> length xs then Some (take n (drop i xs)) else None)"
  by (auto simp: slice_defs)

subsection \<open>ASCII case\<close>

text \<open>
  \<^verbatim>\<open>u8::to_ascii_lowercase\<close> and \<^verbatim>\<open>str::eq_ignore_ascii_case\<close>. A Rust string is a list of
  \<open>char\<close>: byte offsets and character positions coincide, as they do for ASCII text.
\<close>

definition ascii_lower :: "char \<Rightarrow> char" where
  "ascii_lower c = (let n = (of_char c :: nat) in if 65 \<le> n \<and> n \<le> 90 then char_of (n + 32) else c)"

definition eq_ignore_ascii_case :: "string \<Rightarrow> string \<Rightarrow> bool" where
  "eq_ignore_ascii_case a b \<longleftrightarrow> map ascii_lower a = map ascii_lower b"

lemma eq_ignore_ascii_case_refl [simp]: "eq_ignore_ascii_case a a"
  by (simp add: eq_ignore_ascii_case_def)

subsection \<open>Truncating division and sign casts\<close>

definition cast_signed :: "nat \<Rightarrow> nat \<Rightarrow> int" where
  "cast_signed w x = (if x < 2 ^ (w - 1) then int x else int x - 2 ^ w)"

lemma sdiv_nonneg: "0 \<le> a \<Longrightarrow> 0 < b \<Longrightarrow> a sdiv b = a div (b :: int)"
  by (cases "a = 0") (simp_all add: signed_divide_int_def sgn_if)

lemma smod_nonneg: "0 \<le> a \<Longrightarrow> 0 < b \<Longrightarrow> a smod b = a mod (b :: int)"
  by (metis minus_div_mult_eq_mod minus_sdiv_mult_eq_smod sdiv_nonneg)

lemma sdiv_dvd: "b dvd a \<Longrightarrow> 0 < b \<Longrightarrow> a sdiv b = a div (b :: int)"
  by (elim dvdE) (auto simp: signed_divide_int_def sgn_mult abs_mult sgn_if zero_less_mult_iff)

lemma sdiv_floor:
  assumes "0 \<le> a" "0 < (b :: int)"
  shows "0 \<le> a sdiv b" "a sdiv b * b \<le> a" "a < (a sdiv b + 1) * b"
proof -
  have "a div b * b + a mod b = a" by (rule div_mult_mod_eq)
  moreover have "a mod b < b" "0 \<le> a mod b" using assms by simp_all
  ultimately show "a sdiv b * b \<le> a" "a < (a sdiv b + 1) * b"
    unfolding sdiv_nonneg [OF assms] distrib_right by linarith+
  show "0 \<le> a sdiv b" using assms by (simp add: sdiv_nonneg pos_imp_zdiv_nonneg_iff)
qed

subsection \<open>Comparison results and the contract of a total comparator\<close>

datatype ordering = Less | Equal | Greater

definition cmp :: "'a :: linorder \<Rightarrow> 'a \<Rightarrow> ordering" where
  "cmp a b = (if a < b then Less else if a = b then Equal else Greater)"

primrec reverse :: "ordering \<Rightarrow> ordering" where
  "reverse Less = Greater"
| "reverse Equal = Equal"
| "reverse Greater = Less"

lemma cmp_simps [simp]:
  "cmp a b = Less \<longleftrightarrow> a < b" "cmp a b = Equal \<longleftrightarrow> a = b" "cmp a b = Greater \<longleftrightarrow> b < a"
  by (auto simp: cmp_def)

lemma reverse_cmp [simp]: "reverse (cmp a b) = cmp b a"
  by (auto simp: cmp_def)

text \<open>
  A comparator that a sort or an ordered map may use: on well-formed arguments it is the
  comparison of a key in a linear order.
\<close>

locale total_comparator =
  fixes compare :: "'a \<Rightarrow> 'a \<Rightarrow> ordering"
    and ok :: "'a \<Rightarrow> bool"
    and key :: "'a \<Rightarrow> 'k :: linorder"
  assumes compare_key: "ok a \<Longrightarrow> ok b \<Longrightarrow> compare a b = cmp (key a) (key b)"
begin

lemma compare_refl: "ok a \<Longrightarrow> compare a a = Equal"
  by (simp add: compare_key)

lemma compare_reverse: "ok a \<Longrightarrow> ok b \<Longrightarrow> compare b a = reverse (compare a b)"
  by (simp add: compare_key)

lemma compare_trans:
  "ok a \<Longrightarrow> ok b \<Longrightarrow> ok c \<Longrightarrow> compare a b = r \<Longrightarrow> compare b c = r \<Longrightarrow> compare a c = r"
  by (cases r) (auto simp: compare_key)

lemma compare_equal_cong:
  "ok a \<Longrightarrow> ok b \<Longrightarrow> ok c \<Longrightarrow> compare a b = Equal \<Longrightarrow> compare a c = compare b c"
  by (simp add: compare_key)

end

subsection \<open>Loops that may fail\<close>

text \<open>\<^verbatim>\<open>for x in xs { ...? }\<close>: the first error ends the loop.\<close>

primrec for_each :: "('a \<Rightarrow> 's \<Rightarrow> 'e + 's) \<Rightarrow> 'a list \<Rightarrow> 's \<Rightarrow> 'e + 's" where
  "for_each f [] s = Inr s"
| "for_each f (x # xs) s = (case f x s of Inl e \<Rightarrow> Inl e | Inr s' \<Rightarrow> for_each f xs s')"

lemma for_each_append:
  "for_each f (xs @ ys) s = (case for_each f xs s of Inl e \<Rightarrow> Inl e | Inr s' \<Rightarrow> for_each f ys s')"
  by (induction xs arbitrary: s) (simp_all split: sum.split)

lemma for_each_map: "for_each f (map g xs) s = for_each (\<lambda>x. f (g x)) xs s"
  by (induction xs arbitrary: s) (simp_all split: sum.split)

text \<open>Two nested loops are one loop over the pairs.\<close>

lemma for_each_nested:
  "for_each (\<lambda>x. for_each (f x) (g x)) xs s =
     for_each (\<lambda>(x, y). f x y) (concat (map (\<lambda>x. map (Pair x) (g x)) xs)) s"
  by (induction xs arbitrary: s) (simp_all add: for_each_append for_each_map split: sum.split)

text \<open>An invariant over the part of the list that is done, and what the errors satisfy.\<close>

lemma for_each_inv:
  assumes "I [] s"
    "\<And>ys x zs t. xs = ys @ x # zs \<Longrightarrow> I ys t \<Longrightarrow> (case f x t of Inl e \<Rightarrow> E e | Inr t' \<Rightarrow> I (ys @ [x]) t')"
  shows "case for_each f xs s of Inl e \<Rightarrow> E e | Inr t \<Rightarrow> I xs t"
proof -
  have "case for_each f zs t of Inl e \<Rightarrow> E e | Inr t' \<Rightarrow> I xs t'" if "xs = ys @ zs" "I ys t" for ys zs t
    using that
  proof (induction zs arbitrary: ys t)
    case (Cons z zs)
    show ?case
    proof (cases "f z t")
      case (Inl e)
      then show ?thesis using assms(2) [OF Cons.prems] by simp
    next
      case (Inr t')
      then show ?thesis using assms(2) [OF Cons.prems] Cons.IH [of "ys @ [z]" t'] Cons.prems(1) by simp
    qed
  qed simp
  from this [of "[]"] show ?thesis using assms(1) by simp
qed

end
