(* ===== verification/Core_Rational.thy ===== *)
theory Core_Rational
  imports Vaco_Prelude
begin

text \<open>
  Exact rational arithmetic: \<^verbatim>\<open>crates/core/vaco-core/src/rational.rs\<close>.

  A \<open>rational\<close> is the raw \<^verbatim>\<open>i32/i32\<close> pair of the source, with the three classes of
  value (finite, infinite, undefined). Its meaning is a point of the extended number line
  \<open>ext\<close>; the arithmetic, the comparison and the reduction of the source are proved to
  implement the corresponding operations on \<open>ext\<close>, and the continued-fraction
  approximation is proved to return a best approximation within its budget.
  The \<^verbatim>\<open>i128\<close> intermediates are unbounded integers here; \<open>canonical_bounds\<close> bounds
  the operands the source forms them from.
\<close>

section \<open>The model\<close>

record rational =
  num :: i32
  den :: i32

abbreviation i32_max :: int where "i32_max \<equiv> 2 ^ 31 - 1"
abbreviation i32_min :: int where "i32_min \<equiv> - (2 ^ 31)"

definition mk_rational :: "int \<Rightarrow> int \<Rightarrow> rational" where
  "mk_rational n d = \<lparr>num = word_of_int n, den = word_of_int d\<rparr>"

definition ZERO :: rational where "ZERO = \<lparr>num = 0, den = 1\<rparr>"
definition ONE :: rational where "ONE = \<lparr>num = 1, den = 1\<rparr>"
definition UNDEFINED :: rational where "UNDEFINED = \<lparr>num = 0, den = 0\<rparr>"
definition INFINITY :: rational where "INFINITY = \<lparr>num = 1, den = 0\<rparr>"
definition NEG_INFINITY :: rational where "NEG_INFINITY = \<lparr>num = - 1, den = 0\<rparr>"
definition MICROSECONDS :: rational where "MICROSECONDS = \<lparr>num = 1, den = 1000000\<rparr>"

definition rational_new :: "i32 \<Rightarrow> i32 \<Rightarrow> rational" where
  "rational_new n d = \<lparr>num = n, den = d\<rparr>"

definition is_defined :: "rational \<Rightarrow> bool" where
  "is_defined r \<longleftrightarrow> den r \<noteq> 0"

definition is_undefined :: "rational \<Rightarrow> bool" where
  "is_undefined r \<longleftrightarrow> den r = 0 \<and> num r = 0"

definition is_infinite :: "rational \<Rightarrow> bool" where
  "is_infinite r \<longleftrightarrow> den r = 0 \<and> num r \<noteq> 0"

definition is_zero :: "rational \<Rightarrow> bool" where
  "is_zero r \<longleftrightarrow> num r = 0 \<and> den r \<noteq> 0"

definition signum :: "rational \<Rightarrow> int" where
  "signum r = (if den r = 0 then sgn (sint (num r)) else sgn (sint (num r)) * sgn (sint (den r)))"

definition rat_class :: "int \<Rightarrow> int \<Rightarrow> int" where
  "rat_class n d = (if d \<noteq> 0 then 0 else if n = 0 then - 2 else if n > 0 then 1 else - 1)"

fun gcd_u128 :: "nat \<Rightarrow> nat \<Rightarrow> nat" where
  "gcd_u128 a b = (if b \<noteq> 0 then gcd_u128 b (a mod b) else a)"

declare gcd_u128.simps [simp del]

definition canonicalise :: "int \<Rightarrow> int \<Rightarrow> int \<times> int" where
  "canonicalise n d =
     (if d = 0 then (sgn n, 0)
      else if n = 0 then (0, 1)
      else let g = cast_signed 128 (gcd_u128 (nat \<bar>n\<bar>) (nat \<bar>d\<bar>));
               n' = n sdiv g; d' = d sdiv g
           in if d' < 0 then (- n', - d') else (n', d'))"

definition canonical :: "rational \<Rightarrow> int \<times> int" where
  "canonical r = canonicalise (sint (num r)) (sint (den r))"

definition exact_from_canonical :: "int \<Rightarrow> int \<Rightarrow> rational option" where
  "exact_from_canonical n d =
     (if d = 0 then Some (mk_rational (sgn n) 0)
      else if fits_s 32 n \<and> fits_s 32 d then Some (mk_rational n d) else None)"

definition closer :: "int \<Rightarrow> int \<Rightarrow> int \<Rightarrow> int \<Rightarrow> int \<Rightarrow> int \<Rightarrow> bool" where
  "closer n d p q r s =
     (let ea = \<bar>n * q - p * d\<bar>; eb = \<bar>n * s - r * d\<bar>
      in case (checked_s 128 (ea * s), checked_s 128 (eb * q)) of
           (Some la, Some lb) \<Rightarrow> la < lb
         | _ \<Rightarrow> False)"

text \<open>
  The loop of \<^verbatim>\<open>approx_canonical\<close>: \<open>h1/k1\<close> is the last accepted convergent and
  \<open>h0/k0\<close> the one before it. The result is the final \<open>(h1, k1, accepted)\<close>.
\<close>

definition semiconvergent ::
  "int \<Rightarrow> int \<Rightarrow> int \<Rightarrow> int \<Rightarrow> int \<Rightarrow> int \<Rightarrow> int \<Rightarrow> int \<Rightarrow> int \<Rightarrow> int \<times> int" where
  "semiconvergent n d max_num max_den a h0 h1 k0 k1 =
     (let t_den = (if k1 = 0 then a else min ((max_den - k0) sdiv k1) a);
          t_num = (if h1 = 0 then t_den else min ((max_num - h0) sdiv h1) t_den);
          t = max t_num 0
      in if t > 0
         then let hs = h0 + t * h1; ks = k0 + t * k1
              in if closer n d hs ks h1 k1 then (hs, ks) else (h1, k1)
         else (h1, k1))"

function approx_loop ::
  "int \<Rightarrow> int \<Rightarrow> int \<Rightarrow> int \<Rightarrow> int \<Rightarrow> int \<Rightarrow> int \<Rightarrow> int \<Rightarrow> int \<Rightarrow> int \<Rightarrow> bool
     \<Rightarrow> int \<times> int \<times> bool" where
  "approx_loop n d max_num max_den x y h0 h1 k0 k1 accepted =
     (if y \<noteq> 0
      then let a = x sdiv y; h = a * h1 + h0; k = a * k1 + k0
           in if h > max_num \<or> k > max_den
              then (if accepted
                    then let (hs, ks) = semiconvergent n d max_num max_den a h0 h1 k0 k1
                         in (hs, ks, accepted)
                    else (h1, k1, accepted))
              else approx_loop n d max_num max_den y (x - a * y) h1 h k1 k True
      else (h1, k1, accepted))"
  by pat_completeness auto
termination
proof (relation "measure (\<lambda>(n, d, mn, md, x, y, h0, h1, k0, k1, acc). nat \<bar>y\<bar>)", goal_cases)
  case 1
  show ?case by simp
next
  case (2 n d mn md x y h0 h1 k0 k1 acc a h k)
  have "\<bar>x smod y\<bar> < \<bar>y\<bar>"
    using smod_int_range [of y x] \<open>y \<noteq> 0\<close> by auto
  moreover have "x - x sdiv y * y = x smod y"
    by (simp add: minus_sdiv_mult_eq_smod)
  ultimately show ?case using 2 by simp
qed

declare approx_loop.simps [simp del]

definition approx_canonical :: "int \<Rightarrow> int \<Rightarrow> int \<Rightarrow> int \<times> int" where
  "approx_canonical n d max_den =
     (let max_num = i32_max; neg = n < 0;
          (h1, k1, accepted) = approx_loop \<bar>n\<bar> d max_num max_den \<bar>n\<bar> d 0 1 1 0 False
      in if \<not> accepted \<or> k1 = 0 then (if neg then - max_num else max_num, 1)
         else (if neg then - h1 else h1, k1))"

definition from_canonical :: "int \<Rightarrow> int \<Rightarrow> rational" where
  "from_canonical n d =
     (case exact_from_canonical n d of
        Some exact \<Rightarrow> exact
      | None \<Rightarrow> (case approx_canonical n d i32_max of (an, ad) \<Rightarrow> mk_rational an ad))"

definition cross_reduce :: "int \<Rightarrow> int \<Rightarrow> int \<times> int" where
  "cross_reduce a b =
     (if a = 0 \<or> b = 0 then (a, b)
      else let g = cast_signed 128 (gcd_u128 (nat \<bar>a\<bar>) (nat \<bar>b\<bar>)) in (a sdiv g, b sdiv g))"

definition mul_canonical :: "rational \<Rightarrow> rational \<Rightarrow> (int \<times> int) option" where
  "mul_canonical a b =
     (case (canonical a, canonical b) of ((an, ad), (bn, bd)) \<Rightarrow>
        if (an = 0 \<and> ad = 0) \<or> (bn = 0 \<and> bd = 0) then None
        else if ad = 0 \<or> bd = 0 then
          (if an = 0 \<or> bn = 0 then None else Some (sgn an * sgn bn, 0))
        else (case (cross_reduce an bd, cross_reduce bn ad) of ((an', bd'), (bn', ad')) \<Rightarrow>
                Some (canonicalise (an' * bn') (ad' * bd'))))"

definition add_canonical :: "rational \<Rightarrow> rational \<Rightarrow> (int \<times> int) option" where
  "add_canonical a b =
     (case (canonical a, canonical b) of ((an, ad), (bn, bd)) \<Rightarrow>
        if (an = 0 \<and> ad = 0) \<or> (bn = 0 \<and> bd = 0) then None
        else if ad = 0 \<and> bd = 0 then (if an = bn then Some (an, 0) else None)
        else if ad = 0 then Some (an, 0)
        else if bd = 0 then Some (bn, 0)
        else Some (canonicalise (an * bd + bn * ad) (ad * bd)))"

definition reduced :: "rational \<Rightarrow> rational" where
  "reduced r = (case canonical r of (n, d) \<Rightarrow>
     (case exact_from_canonical n d of Some e \<Rightarrow> e | None \<Rightarrow> r))"

definition checked_reduced :: "rational \<Rightarrow> rational option" where
  "checked_reduced r = (case canonical r of (n, d) \<Rightarrow> exact_from_canonical n d)"

definition reduce :: "int \<Rightarrow> int \<Rightarrow> int \<Rightarrow> rational \<times> bool" where
  "reduce n0 d0 max0 =
     (let mx = max 1 (min max0 i32_max) in
      case canonicalise n0 d0 of (n, d) \<Rightarrow>
        let approx = (if d = 0 then (from_canonical n d, True)
                      else case approx_canonical n d mx of (an, ad) \<Rightarrow>
                             (from_canonical an ad, an = n \<and> ad = d))
        in if d \<noteq> 0 \<and> d \<le> mx
           then (case exact_from_canonical n d of Some e \<Rightarrow> (e, True) | None \<Rightarrow> approx)
           else approx)"

definition inverse_r :: "rational \<Rightarrow> rational" where
  "inverse_r r = \<lparr>num = den r, den = num r\<rparr>"

definition checked_inverse :: "rational \<Rightarrow> rational option" where
  "checked_inverse r = (if num r = 0 then None else Some (inverse_r r))"

definition neg_value :: "rational \<Rightarrow> rational" where
  "neg_value r =
     (if sint (num r) \<noteq> i32_min then \<lparr>num = - num r, den = den r\<rparr>
      else if sint (den r) \<noteq> i32_min then \<lparr>num = num r, den = - den r\<rparr>
      else \<lparr>num = - 1, den = 1\<rparr>)"

definition cmp_exact :: "rational \<Rightarrow> rational \<Rightarrow> ordering" where
  "cmp_exact a b =
     (case (canonical a, canonical b) of ((an, ad), (bn, bd)) \<Rightarrow>
        (case cmp (rat_class an ad) (rat_class bn bd) of
           Equal \<Rightarrow> (if ad = 0 then Equal else cmp (an * bd) (bn * ad))
         | r \<Rightarrow> r))"

definition partial_cmp :: "rational \<Rightarrow> rational \<Rightarrow> ordering option" where
  "partial_cmp a b = (if is_undefined a \<or> is_undefined b then None else Some (cmp_exact a b))"

definition rat_eq :: "rational \<Rightarrow> rational \<Rightarrow> bool" where
  "rat_eq a b \<longleftrightarrow> cmp_exact a b = Equal"

definition checked_add :: "rational \<Rightarrow> rational \<Rightarrow> rational option" where
  "checked_add a b = (case add_canonical a b of
     None \<Rightarrow> None | Some (n, d) \<Rightarrow> exact_from_canonical n d)"

definition checked_sub :: "rational \<Rightarrow> rational \<Rightarrow> rational option" where
  "checked_sub a b = checked_add a (neg_value b)"

definition checked_mul :: "rational \<Rightarrow> rational \<Rightarrow> rational option" where
  "checked_mul a b = (case mul_canonical a b of
     None \<Rightarrow> None | Some (n, d) \<Rightarrow> exact_from_canonical n d)"

definition checked_div :: "rational \<Rightarrow> rational \<Rightarrow> rational option" where
  "checked_div a b = (case mul_canonical a (inverse_r b) of
     None \<Rightarrow> None | Some (n, d) \<Rightarrow> exact_from_canonical n d)"

definition rat_add :: "rational \<Rightarrow> rational \<Rightarrow> rational" where
  "rat_add a b = (case add_canonical a b of
     Some (n, d) \<Rightarrow> from_canonical n d | None \<Rightarrow> UNDEFINED)"

definition rat_sub :: "rational \<Rightarrow> rational \<Rightarrow> rational" where
  "rat_sub a b = rat_add a (neg_value b)"

definition rat_mul :: "rational \<Rightarrow> rational \<Rightarrow> rational" where
  "rat_mul a b = (case mul_canonical a b of
     Some (n, d) \<Rightarrow> from_canonical n d | None \<Rightarrow> UNDEFINED)"

definition rat_div :: "rational \<Rightarrow> rational \<Rightarrow> rational" where
  "rat_div a b = rat_mul a (inverse_r b)"

section \<open>The extended number line\<close>

datatype ext = Undef | NegInf | Fin rat | PosInf

instantiation ext :: linorder
begin

fun less_eq_ext :: "ext \<Rightarrow> ext \<Rightarrow> bool" where
  "less_eq_ext Undef y \<longleftrightarrow> True"
| "less_eq_ext NegInf y \<longleftrightarrow> y \<noteq> Undef"
| "less_eq_ext (Fin a) y \<longleftrightarrow> (case y of Fin b \<Rightarrow> a \<le> b | PosInf \<Rightarrow> True | _ \<Rightarrow> False)"
| "less_eq_ext PosInf y \<longleftrightarrow> y = PosInf"

definition less_ext :: "ext \<Rightarrow> ext \<Rightarrow> bool" where
  "less_ext x y \<longleftrightarrow> x \<le> y \<and> \<not> y \<le> x"

instance
proof
  fix x y z :: ext
  show "x < y \<longleftrightarrow> x \<le> y \<and> \<not> y \<le> x" by (simp add: less_ext_def)
  show "x \<le> x" by (cases x) auto
  show "x \<le> y \<Longrightarrow> y \<le> z \<Longrightarrow> x \<le> z" by (cases x; cases y; cases z) auto
  show "x \<le> y \<Longrightarrow> y \<le> x \<Longrightarrow> x = y" by (cases x; cases y) auto
  show "x \<le> y \<or> y \<le> x" by (cases x; cases y) auto
qed

end

lemma Fin_less [simp]: "Fin a < Fin b \<longleftrightarrow> a < b"
  by (auto simp: less_ext_def)

definition pair_value :: "int \<Rightarrow> int \<Rightarrow> ext" where
  "pair_value n d =
     (if d \<noteq> 0 then Fin (Fract n d) else if n = 0 then Undef else if n > 0 then PosInf else NegInf)"

definition rvalue :: "rational \<Rightarrow> ext" where
  "rvalue r = pair_value (sint (num r)) (sint (den r))"

definition is_canonical :: "int \<Rightarrow> int \<Rightarrow> bool" where
  "is_canonical n d \<longleftrightarrow> (d = 0 \<and> n \<in> {-1, 0, 1}) \<or> (0 < d \<and> coprime n d)"

fun ext_add :: "ext \<Rightarrow> ext \<Rightarrow> ext" where
  "ext_add Undef y = Undef"
| "ext_add x Undef = Undef"
| "ext_add (Fin a) (Fin b) = Fin (a + b)"
| "ext_add (Fin a) y = y"
| "ext_add x (Fin b) = x"
| "ext_add PosInf NegInf = Undef"
| "ext_add NegInf PosInf = Undef"
| "ext_add PosInf PosInf = PosInf"
| "ext_add NegInf NegInf = NegInf"

fun ext_sign :: "ext \<Rightarrow> int" where
  "ext_sign Undef = 0"
| "ext_sign NegInf = - 1"
| "ext_sign PosInf = 1"
| "ext_sign (Fin a) = (if a < 0 then - 1 else if a = 0 then 0 else 1)"

definition ext_of_sign :: "int \<Rightarrow> ext" where
  "ext_of_sign s = (if s = 0 then Undef else if s > 0 then PosInf else NegInf)"

text \<open>A product with an infinity carries the sign; with zero it is undefined.\<close>

fun ext_mul :: "ext \<Rightarrow> ext \<Rightarrow> ext" where
  "ext_mul Undef y = Undef"
| "ext_mul x Undef = Undef"
| "ext_mul (Fin a) (Fin b) = Fin (a * b)"
| "ext_mul x y = ext_of_sign (ext_sign x * ext_sign y)"

fun ext_neg :: "ext \<Rightarrow> ext" where
  "ext_neg Undef = Undef"
| "ext_neg NegInf = PosInf"
| "ext_neg PosInf = NegInf"
| "ext_neg (Fin a) = Fin (- a)"

section \<open>Canonical pairs\<close>

lemma gcd_u128_eq: "gcd_u128 a b = gcd a b"
proof (induction a b rule: gcd_u128.induct)
  case (1 a b)
  then show ?case
    by (cases "b = 0") (simp_all add: gcd_u128.simps [of a] gcd_red_nat [of a b])
qed

lemma cast_signed_small: "int x < 2 ^ (w - 1) \<Longrightarrow> cast_signed w x = int x"
proof -
  assume "int x < 2 ^ (w - 1)"
  then have "x < 2 ^ (w - 1)"
    by (metis of_nat_less_iff of_nat_numeral of_nat_power)
  then show ?thesis unfolding cast_signed_def by (rule if_P)
qed

lemma cast_gcd:
  assumes "n \<noteq> 0" "\<bar>n\<bar> < 2 ^ 127"
  shows "cast_signed 128 (gcd_u128 (nat \<bar>n\<bar>) (nat \<bar>d\<bar>)) = gcd n d"
proof -
  have eq: "int (gcd (nat \<bar>n\<bar>) (nat \<bar>d\<bar>)) = gcd n d"
    unfolding gcd_int_def ..
  have "gcd n d dvd n" by (rule gcd_dvd1)
  with assms(1) have "\<bar>gcd n d\<bar> \<le> \<bar>n\<bar>" by (rule dvd_imp_le_int)
  from this assms(2) have "\<bar>gcd n d\<bar> < 2 ^ 127" by (rule le_less_trans)
  then have "int (gcd (nat \<bar>n\<bar>) (nat \<bar>d\<bar>)) < 2 ^ (128 - 1)"
    unfolding eq by (simp only: abs_gcd_int, simp)
  then show ?thesis unfolding gcd_u128_eq using eq by (simp only: cast_signed_small)
qed

lemma Fract_div_gcd: "d \<noteq> 0 \<Longrightarrow> Fract (n div gcd n d) (d div gcd n d) = Fract n d"
  by (rule eq_rat(1) [THEN iffD2])
     (auto simp: dvd_div_eq_0_iff dvd_div_mult mult.commute [of d] div_mult_swap [symmetric]
       intro: div_mult_swap)

lemma canonicalise_spec:
  assumes "\<bar>n\<bar> < 2 ^ 127" "canonicalise n d = (n', d')"
  shows "is_canonical n' d'" "pair_value n' d' = pair_value n d" "\<bar>n'\<bar> \<le> \<bar>n\<bar>" "d' \<le> max 1 \<bar>d\<bar>"
proof -
  consider "d = 0" | "d \<noteq> 0" "n = 0" | "d \<noteq> 0" "n \<noteq> 0" by blast
  then have "is_canonical n' d' \<and> pair_value n' d' = pair_value n d \<and> \<bar>n'\<bar> \<le> \<bar>n\<bar> \<and> d' \<le> max 1 \<bar>d\<bar>"
  proof cases
    case 1
    with assms(2) show ?thesis
      by (auto simp: canonicalise_def is_canonical_def pair_value_def sgn_if split: if_splits)
  next
    case 2
    with assms(2) show ?thesis
      by (auto simp: canonicalise_def is_canonical_def pair_value_def rat_number_collapse)
  next
    case 3
    let ?g = "gcd n d"
    have g: "0 < ?g" using 3 by simp
    have eq: "(n', d') = (if d div ?g < 0 then (- (n div ?g), - (d div ?g)) else (n div ?g, d div ?g))"
      using 3 assms g by (auto simp: canonicalise_def Let_def cast_gcd sdiv_dvd)
    have nz: "d div ?g \<noteq> 0" using 3 by (simp add: dvd_div_eq_0_iff)
    have cop: "coprime (n div ?g) (d div ?g)" using 3 by (intro div_gcd_coprime) auto
    have "\<bar>n div ?g\<bar> \<le> \<bar>n\<bar>" "\<bar>d div ?g\<bar> \<le> \<bar>d\<bar>"
      by (auto intro: dvd_imp_le_int simp: 3 div_dvd_iff_mult dvd_div_eq_mult)
    moreover have "Fract (- (n div ?g)) (- (d div ?g)) = Fract (n div ?g) (d div ?g)" by simp
    moreover have "Fract n' d' = Fract n d" "d' \<noteq> 0" "0 < d'" "coprime n' d'"
      using eq nz cop Fract_div_gcd [OF 3(1), of n] by (auto split: if_splits)
    ultimately show ?thesis
      using eq nz 3 by (auto simp: is_canonical_def pair_value_def split: if_splits)
  qed
  then show "is_canonical n' d'" "pair_value n' d' = pair_value n d" "\<bar>n'\<bar> \<le> \<bar>n\<bar>" "d' \<le> max 1 \<bar>d\<bar>"
    by auto
qed

lemma sint_bounds: "- (2 ^ 31) \<le> sint (x :: i32)" "sint (x :: i32) < 2 ^ 31"
  using fits_s_sint [of x] by (simp_all add: fits_s_def)

lemma canonical_spec:
  assumes "canonical r = (n, d)"
  shows "is_canonical n d" "pair_value n d = rvalue r" "\<bar>n\<bar> \<le> 2 ^ 31" "d \<le> 2 ^ 31"
proof -
  have b: "\<bar>sint (num r)\<bar> \<le> 2 ^ 31" "\<bar>sint (den r)\<bar> \<le> 2 ^ 31"
    using sint_bounds [of "num r"] sint_bounds [of "den r"] by linarith+
  then have "\<bar>sint (num r)\<bar> < 2 ^ 127" by simp
  note spec = canonicalise_spec [OF this assms [unfolded canonical_def]]
  show "is_canonical n d" "pair_value n d = rvalue r" using spec by (simp_all add: rvalue_def)
  show "\<bar>n\<bar> \<le> 2 ^ 31" "d \<le> 2 ^ 31" using spec b by simp_all
qed

lemma is_canonical_nonneg: "is_canonical n d \<Longrightarrow> 0 \<le> d"
  by (auto simp: is_canonical_def)

lemma Fract_less_pos:
  "0 < b \<Longrightarrow> 0 < d \<Longrightarrow> Fract a b < Fract c d \<longleftrightarrow> a * d < c * b"
  by (simp add: mult_less_cancel_right_pos zero_less_mult_iff)

lemma Fract_eq_pos:
  "0 < b \<Longrightarrow> 0 < d \<Longrightarrow> Fract a b = Fract c d \<longleftrightarrow> a * d = c * b"
  by (simp add: eq_rat)

lemma pair_value_zero: "pair_value n 0 = ext_of_sign n"
  by (simp add: pair_value_def ext_of_sign_def)

lemma cmp_exact_value: "cmp_exact a b = cmp (rvalue a) (rvalue b)"
proof -
  obtain an ad bn bd where c: "canonical a = (an, ad)" "canonical b = (bn, bd)" by fastforce
  note A = canonical_spec [OF c(1)] and B = canonical_spec [OF c(2)]
  show ?thesis
  proof (cases "ad = 0 \<or> bd = 0")
    case True
    then show ?thesis
      using A(1) B(1) unfolding A(2) [symmetric] B(2) [symmetric]
      by (auto simp: cmp_exact_def c is_canonical_def pair_value_def rat_class_def cmp_def less_ext_def)
  next
    case False
    then have pos: "0 < ad" "0 < bd" using A(1) B(1) by (auto simp: is_canonical_def)
    then show ?thesis
      unfolding A(2) [symmetric] B(2) [symmetric]
      by (simp add: cmp_exact_def c pair_value_def rat_class_def cmp_def Fract_less_pos Fract_eq_pos
          del: less_rat)
  qed
qed

interpretation rat_ord: total_comparator cmp_exact "\<lambda>_. True" rvalue
  by unfold_locales (rule cmp_exact_value)

subsection \<open>Back to a machine pair\<close>

definition representable :: "ext \<Rightarrow> bool" where
  "representable v \<longleftrightarrow>
     v \<in> {PosInf, NegInf} \<or> (\<exists>n d. fits_s 32 n \<and> fits_s 32 d \<and> 0 < d \<and> v = Fin (Fract n d))"

lemma rvalue_mk_rational:
  "fits_s 32 n \<Longrightarrow> fits_s 32 d \<Longrightarrow> rvalue (mk_rational n d) = pair_value n d"
  by (simp add: rvalue_def mk_rational_def sint_word_of_int_fits)

lemma pair_value_sgn: "pair_value (sgn n) 0 = pair_value n 0"
  by (simp add: pair_value_def sgn_if)

lemma exact_from_canonical_value:
  "exact_from_canonical n d = Some r \<Longrightarrow> rvalue r = pair_value n d"
proof -
  assume e: "exact_from_canonical n d = Some r"
  have "fits_s 32 (sgn n)" "fits_s 32 0" by (auto simp: fits_s_def sgn_if)
  with e show ?thesis
    by (auto simp: exact_from_canonical_def rvalue_mk_rational pair_value_sgn split: if_splits)
qed

lemma canonical_least:
  assumes "is_canonical n d" "d \<noteq> 0" "0 < q" "Fract n d = Fract p q"
  shows "d \<le> q" "\<bar>n\<bar> \<le> \<bar>p\<bar>" "sgn n = sgn p"
proof -
  have d: "0 < d" "coprime n d" using assms by (auto simp: is_canonical_def)
  have eq: "n * q = p * d" using assms d by (simp add: Fract_eq_pos)
  have "d dvd n * q" by (simp add: eq)
  then have "d dvd q" using d(2) by (simp add: coprime_commute coprime_dvd_mult_right_iff)
  then obtain k where k: "q = d * k" by (elim dvdE)
  have "0 < k" using k assms(3) d(1) by (simp add: zero_less_mult_iff)
  have p: "p = n * k" using eq k d(1) by (simp add: algebra_simps)
  show "d \<le> q" using k \<open>0 < k\<close> d(1) by (simp add: mult_le_cancel_left1)
  show "\<bar>n\<bar> \<le> \<bar>p\<bar>" using p \<open>0 < k\<close> by (simp add: abs_mult mult_le_cancel_left1)
  show "sgn n = sgn p" using p \<open>0 < k\<close> by (simp add: sgn_mult)
qed

lemma exact_from_canonical_None:
  assumes "is_canonical n d"
  shows "exact_from_canonical n d = None \<longleftrightarrow> pair_value n d \<noteq> Undef \<and> \<not> representable (pair_value n d)"
proof (cases "d = 0")
  case True
  then show ?thesis by (auto simp: exact_from_canonical_def representable_def pair_value_def)
next
  case False
  then have "0 < d" using assms by (auto simp: is_canonical_def)
  have "(fits_s 32 n \<and> fits_s 32 d) \<longleftrightarrow> representable (pair_value n d)"
  proof
    assume "fits_s 32 n \<and> fits_s 32 d"
    then show "representable (pair_value n d)"
      using \<open>0 < d\<close> by (auto simp: representable_def pair_value_def)
  next
    assume "representable (pair_value n d)"
    then obtain p q where pq: "fits_s 32 p" "fits_s 32 q" "0 < q" "Fract n d = Fract p q"
      using False by (auto simp: representable_def pair_value_def)
    have "d \<le> q" "\<bar>n\<bar> \<le> \<bar>p\<bar>" "sgn n = sgn p"
      using canonical_least [OF assms False pq(3,4)] .
    then show "fits_s 32 n \<and> fits_s 32 d"
      using pq \<open>0 < d\<close> by (auto simp: fits_s_def sgn_if abs_if split: if_splits)
  qed
  then show ?thesis using False by (auto simp: exact_from_canonical_def pair_value_def)
qed

section \<open>Arithmetic implements the extended number line\<close>

text \<open>
  What a checked operation promises for the exact result \<open>v\<close>: the exact value when it is
  representable, and a refusal exactly when \<open>v\<close> is undefined or does not fit.
\<close>

definition checked_result :: "ext \<Rightarrow> rational option \<Rightarrow> bool" where
  "checked_result v res \<longleftrightarrow>
     (case res of
        Some c \<Rightarrow> v \<noteq> Undef \<and> rvalue c = v
      | None \<Rightarrow> v = Undef \<or> \<not> representable v)"

lemma checked_result_canonical:
  assumes "is_canonical n d" "pair_value n d = v" "v \<noteq> Undef"
  shows "checked_result v (exact_from_canonical n d)"
  using exact_from_canonical_None [OF assms(1)] assms(2,3) exact_from_canonical_value [of n d]
  by (auto simp: checked_result_def split: option.splits)

lemma add_canonical_spec:
  "case add_canonical a b of
     None \<Rightarrow> ext_add (rvalue a) (rvalue b) = Undef
   | Some (n, d) \<Rightarrow> is_canonical n d \<and> pair_value n d = ext_add (rvalue a) (rvalue b)
       \<and> ext_add (rvalue a) (rvalue b) \<noteq> Undef \<and> \<bar>n\<bar> \<le> 2 ^ 63 \<and> d \<le> 2 ^ 62"
proof -
  obtain an ad bn bd where c: "canonical a = (an, ad)" "canonical b = (bn, bd)" by fastforce
  note A = canonical_spec [OF c(1)] and B = canonical_spec [OF c(2)]
  show ?thesis
  proof (cases "ad = 0 \<or> bd = 0")
    case True
    then show ?thesis
      using A(1) B(1) unfolding A(2) [symmetric] B(2) [symmetric]
      by (auto simp: add_canonical_def c is_canonical_def pair_value_def)
  next
    case False
    then have pos: "0 < ad" "0 < bd" using A(1) B(1) by (auto simp: is_canonical_def)
    obtain n d where nd: "canonicalise (an * bd + bn * ad) (ad * bd) = (n, d)" by fastforce
    have m: "\<bar>an * bd\<bar> \<le> 2 ^ 31 * 2 ^ 31" "\<bar>bn * ad\<bar> \<le> 2 ^ 31 * 2 ^ 31" "ad * bd \<le> 2 ^ 31 * 2 ^ 31"
      unfolding abs_mult using A(3,4) B(3,4) pos by (intro mult_mono; simp)+
    then have "\<bar>an * bd + bn * ad\<bar> < 2 ^ 127" by simp
    note C = canonicalise_spec [OF this nd]
    have "Fract (an * bd + bn * ad) (ad * bd) = Fract an ad + Fract bn bd"
      using pos by (simp add: mult.commute)
    then have "pair_value n d = ext_add (rvalue a) (rvalue b)"
      unfolding C(2) A(2) [symmetric] B(2) [symmetric] using pos by (simp add: pair_value_def)
    moreover have "ext_add (rvalue a) (rvalue b) \<noteq> Undef"
      unfolding A(2) [symmetric] B(2) [symmetric] using pos by (simp add: pair_value_def)
    moreover have "\<bar>n\<bar> \<le> 2 ^ 63" "d \<le> 2 ^ 62"
      using C(3,4) m pos by auto
    ultimately show ?thesis
      using False C(1) by (simp add: add_canonical_def c nd)
  qed
qed

lemma cross_reduce_spec:
  assumes "cross_reduce a b = (a', b')" "\<bar>a\<bar> < 2 ^ 127" "0 < b"
  shows "0 < b'" "Fract a' b' = Fract a b" "\<bar>a'\<bar> \<le> \<bar>a\<bar>" "b' \<le> b"
proof -
  have "0 < b' \<and> Fract a' b' = Fract a b \<and> \<bar>a'\<bar> \<le> \<bar>a\<bar> \<and> b' \<le> b"
  proof (cases "a = 0")
    case True
    then show ?thesis using assms by (simp add: cross_reduce_def)
  next
    case False
    let ?g = "gcd a b"
    have g: "0 < ?g" using False by simp
    have eq: "a' = a div ?g" "b' = b div ?g"
      using assms(1,3) False g cast_gcd [OF False assms(2), of b]
      by (auto simp: cross_reduce_def Let_def sdiv_dvd)
    have "0 < b div ?g" using assms(3) g by (simp add: pos_imp_zdiv_pos_iff zdvd_imp_le)
    moreover have "\<bar>a div ?g\<bar> \<le> \<bar>a\<bar>" "b div ?g dvd b"
      using False assms(3) by (auto intro: dvd_imp_le_int simp: div_dvd_iff_mult dvd_div_eq_mult)
    moreover have "b div ?g \<le> b" using \<open>b div ?g dvd b\<close> assms(3) by (rule zdvd_imp_le)
    ultimately show ?thesis using eq Fract_div_gcd [of b a] assms(3) by auto
  qed
  then show "0 < b'" "Fract a' b' = Fract a b" "\<bar>a'\<bar> \<le> \<bar>a\<bar>" "b' \<le> b" by auto
qed

lemma sign_pair: "0 < d \<Longrightarrow> ext_sign (Fin (Fract n d)) = sgn n"
  by (auto simp: Fract_less_zero_iff Zero_rat_def eq_rat sgn_if mult_less_0_iff zero_less_mult_iff)

lemma mul_canonical_spec:
  "case mul_canonical a b of
     None \<Rightarrow> ext_mul (rvalue a) (rvalue b) = Undef
   | Some (n, d) \<Rightarrow> is_canonical n d \<and> pair_value n d = ext_mul (rvalue a) (rvalue b)
       \<and> ext_mul (rvalue a) (rvalue b) \<noteq> Undef \<and> \<bar>n\<bar> \<le> 2 ^ 63 \<and> d \<le> 2 ^ 62"
proof -
  obtain an ad bn bd where c: "canonical a = (an, ad)" "canonical b = (bn, bd)" by fastforce
  note A = canonical_spec [OF c(1)] and B = canonical_spec [OF c(2)]
  consider "ad = 0" | "bd = 0" "ad \<noteq> 0" | "0 < ad" "0 < bd"
    using A(1) B(1) by (auto simp: is_canonical_def)
  then show ?thesis
  proof cases
    case 1
    then show ?thesis
      using A(1) B(1) sign_pair [of bd bn] unfolding A(2) [symmetric] B(2) [symmetric]
      by (auto simp: mul_canonical_def c is_canonical_def pair_value_def ext_of_sign_def sgn_if
            simp del: ext_sign.simps(4) split: if_splits)
  next
    case 2
    then show ?thesis
      using A(1) B(1) sign_pair [of ad an] unfolding A(2) [symmetric] B(2) [symmetric]
      by (auto simp: mul_canonical_def c is_canonical_def pair_value_def ext_of_sign_def sgn_if
            simp del: ext_sign.simps(4) split: if_splits)
  next
    case 3
    obtain an' bd' bn' ad' where
      x: "cross_reduce an bd = (an', bd')" "cross_reduce bn ad = (bn', ad')" by fastforce
    have big: "\<bar>an\<bar> < 2 ^ 127" "\<bar>bn\<bar> < 2 ^ 127" using A(3) B(3) by auto
    note X = cross_reduce_spec [OF x(1) big(1) 3(2)] and Y = cross_reduce_spec [OF x(2) big(2) 3(1)]
    obtain n d where nd: "canonicalise (an' * bn') (ad' * bd') = (n, d)" by fastforce
    have m: "\<bar>an' * bn'\<bar> \<le> 2 ^ 31 * 2 ^ 31" "ad' * bd' \<le> 2 ^ 31 * 2 ^ 31"
      unfolding abs_mult using A(3,4) B(3,4) X Y by (intro mult_mono; simp)+
    then have "\<bar>an' * bn'\<bar> < 2 ^ 127" by simp
    note C = canonicalise_spec [OF this nd]
    have "Fract (an' * bn') (ad' * bd') = Fract an' bd' * Fract bn' ad'"
      by (simp add: mult.commute)
    also have "\<dots> = Fract an ad * Fract bn bd"
      using X(2) Y(2) by (simp add: mult.commute)
    finally have "pair_value n d = ext_mul (rvalue a) (rvalue b)"
      unfolding C(2) A(2) [symmetric] B(2) [symmetric] using 3 X(1) Y(1)
      by (simp add: pair_value_def)
    moreover have "ext_mul (rvalue a) (rvalue b) \<noteq> Undef"
      unfolding A(2) [symmetric] B(2) [symmetric] using 3 by (simp add: pair_value_def)
    moreover have "\<bar>n\<bar> \<le> 2 ^ 63" "d \<le> 2 ^ 62"
      using C(3,4) m X(1) Y(1) by auto
    ultimately show ?thesis
      using 3 C(1) by (simp add: mul_canonical_def c x nd)
  qed
qed

lemma sint_uminus: "sint x \<noteq> i32_min \<Longrightarrow> sint (- x :: i32) = - sint x"
proof -
  assume "sint x \<noteq> i32_min"
  then have "fits_s 32 (- sint x)" using sint_bounds [of x] by (simp add: fits_s_def)
  then have "sint (word_of_int (- sint x) :: i32) = - sint x" by (rule sint_word_of_int_fits)
  then show ?thesis by simp
qed

lemma ext_neg_pair: "ext_neg (pair_value n d) = pair_value (- n) d"
  by (auto simp: pair_value_def)

lemma pair_value_minus: "d \<noteq> 0 \<Longrightarrow> pair_value n (- d) = pair_value (- n) d"
  by (simp add: pair_value_def eq_rat)

lemma neg_value_value:
  "rvalue (neg_value r) =
     (if sint (num r) = i32_min \<and> den r = 0 then NegInf else ext_neg (rvalue r))"
proof -
  have z: "den r = 0 \<longleftrightarrow> sint (den r) = 0" by (simp add: word_eq_sint_iff)
  consider "sint (num r) \<noteq> i32_min"
    | "sint (num r) = i32_min" "sint (den r) \<noteq> i32_min" "sint (den r) \<noteq> 0"
    | "sint (num r) = i32_min" "sint (den r) = 0"
    | "sint (num r) = i32_min" "sint (den r) = i32_min" by blast
  then show ?thesis
  proof cases
    case 1
    then show ?thesis by (simp add: neg_value_def rvalue_def sint_uminus ext_neg_pair)
  next
    case 2
    then show ?thesis
      by (simp add: z neg_value_def rvalue_def sint_uminus ext_neg_pair pair_value_minus)
  next
    case 3
    then have "den r = 0" by (simp add: z)
    with 3 show ?thesis
      by (simp add: neg_value_def rvalue_def pair_value_def)
  next
    case 4
    then show ?thesis
      by (simp add: z neg_value_def rvalue_def pair_value_def eq_rat)
  qed
qed

lemma inverse_r_sign: "inverse_r (inverse_r r) = r"
  by (simp add: inverse_r_def)

lemma checked_result_of_canonical:
  assumes "case r of None \<Rightarrow> v = Undef
    | Some (n, d) \<Rightarrow> is_canonical n d \<and> pair_value n d = v \<and> v \<noteq> Undef \<and> \<bar>n\<bar> \<le> A \<and> d \<le> B"
  shows "checked_result v (case r of None \<Rightarrow> None | Some (n, d) \<Rightarrow> exact_from_canonical n d)"
proof (cases r)
  case None
  with assms show ?thesis by (simp add: checked_result_def)
next
  case (Some nd)
  then obtain n d where "r = Some (n, d)" by (cases nd) auto
  with assms show ?thesis by (simp add: checked_result_canonical)
qed

lemma checked_add_result: "checked_result (ext_add (rvalue a) (rvalue b)) (checked_add a b)"
  unfolding checked_add_def by (rule checked_result_of_canonical [OF add_canonical_spec])

lemma checked_mul_result: "checked_result (ext_mul (rvalue a) (rvalue b)) (checked_mul a b)"
  unfolding checked_mul_def by (rule checked_result_of_canonical [OF mul_canonical_spec])

section \<open>The approximation is a best approximation\<close>

text \<open>
  \<open>best_in mn md n d p q\<close>: among the fractions with numerator at most \<open>mn\<close> and
  denominator in \<open>1..md\<close>, none is nearer to \<open>n/d\<close> than \<open>p/q\<close>. Distances are
  compared after multiplying by the positive denominators, as the source does.
\<close>

definition in_budget :: "int \<Rightarrow> int \<Rightarrow> int \<Rightarrow> int \<Rightarrow> bool" where
  "in_budget mn md p q \<longleftrightarrow> 0 \<le> p \<and> p \<le> mn \<and> 1 \<le> q \<and> q \<le> md"

definition best_in :: "int \<Rightarrow> int \<Rightarrow> int \<Rightarrow> int \<Rightarrow> int \<Rightarrow> int \<Rightarrow> bool" where
  "best_in mn md n d p q \<longleftrightarrow> in_budget mn md p q \<and>
     (\<forall>p' q'. in_budget mn md p' q' \<longrightarrow> \<bar>n * q - p * d\<bar> * q' \<le> \<bar>n * q' - p' * d\<bar> * q)"

text \<open>
  The loop invariant: \<open>h1/k1\<close> and \<open>h0/k0\<close> are neighbours, and the remainders
  \<open>x\<close>, \<open>y\<close> express \<open>n/d\<close> in their basis.
\<close>

definition cf_inv :: "int \<Rightarrow> int \<Rightarrow> int \<Rightarrow> int \<Rightarrow> int \<Rightarrow> int \<Rightarrow> int \<Rightarrow> int \<Rightarrow> int \<Rightarrow> int \<Rightarrow> bool" where
  "cf_inv mn md n d x y h0 h1 k0 k1 \<longleftrightarrow>
     0 \<le> y \<and> y < x \<and> n = h1 * x + h0 * y \<and> d = k1 * x + k0 * y \<and>
     \<bar>h1 * k0 - h0 * k1\<bar> = 1 \<and> 0 \<le> h0 \<and> h0 \<le> mn \<and> 0 \<le> h1 \<and> h1 \<le> mn \<and>
     0 \<le> k0 \<and> k0 \<le> k1 \<and> 1 \<le> k1 \<and> k1 \<le> md"

lemma best_trans:
  fixes e1 e2 e3 q1 q2 q3 :: int
  assumes "e1 * q2 \<le> e2 * q1" "e2 * q3 \<le> e3 * q2" "0 < q1" "0 < q2" "0 < q3"
  shows "e1 * q3 \<le> e3 * q1"
proof -
  have "e1 * q3 * q2 \<le> e2 * q1 * q3" using mult_right_mono [OF assms(1), of q3] assms by (simp add: ac_simps)
  also have "\<dots> \<le> e3 * q2 * q1" using mult_right_mono [OF assms(2), of q1] assms by (simp add: ac_simps)
  finally have "(e1 * q3) * q2 \<le> (e3 * q1) * q2" by (simp add: ac_simps)
  then show ?thesis using assms(4) by simp
qed

text \<open>
  Every fraction lies on one side of two neighbours unless both its coordinates in their
  basis are positive, and then it is at least as large as their mediant.
\<close>

lemma neighbour_cases:
  fixes h1 k1 hs ks p q y z e n d :: int
  assumes det: "h1 * ks - hs * k1 = e" and e: "e = 1 \<or> e = - 1"
    and n1: "n * k1 - h1 * d = - e * y" and n2: "n * ks - hs * d = e * z"
    and pos: "0 \<le> y" "0 \<le> z" "0 \<le> h1" "0 \<le> hs" "0 \<le> ks" "1 \<le> k1" "1 \<le> q"
    and out: "\<not> (h1 + hs \<le> p \<and> k1 + ks \<le> q)"
  shows "y * q \<le> \<bar>n * q - p * d\<bar> * k1 \<or> (z * q \<le> \<bar>n * q - p * d\<bar> * ks \<and> 0 < ks)"
proof -
  define u v where "u = e * (p * ks - q * hs)" and "v = e * (q * h1 - p * k1)"
  have ee: "e * e = 1" using e by auto
  have "u * h1 + v * hs = e * (p * (h1 * ks - hs * k1))"
    by (simp add: u_def v_def algebra_simps)
  then have p: "p = u * h1 + v * hs" using ee by (simp add: det algebra_simps)
  have "u * k1 + v * ks = e * (q * (h1 * ks - hs * k1))"
    by (simp add: u_def v_def algebra_simps)
  then have q: "q = u * k1 + v * ks" using ee by (simp add: det algebra_simps)
  have "n * q - p * d = u * (n * k1 - h1 * d) + v * (n * ks - hs * d)"
    by (simp add: p q algebra_simps)
  also have "\<dots> = e * (v * z - u * y)" unfolding n1 n2 by (simp add: algebra_simps)
  finally have c: "n * q - p * d = e * (v * z - u * y)" .
  have abs_c: "\<bar>n * q - p * d\<bar> = \<bar>v * z - u * y\<bar>" unfolding c using e by auto
  have "\<not> (1 \<le> u \<and> 1 \<le> v)"
  proof
    assume "1 \<le> u \<and> 1 \<le> v"
    then have "1 * h1 + 1 * hs \<le> p" "1 * k1 + 1 * ks \<le> q"
      unfolding p q using pos by (intro add_mono mult_right_mono; simp)+
    with out show False by simp
  qed
  moreover have "\<not> (u \<le> 0 \<and> v \<le> 0)"
  proof
    assume "u \<le> 0 \<and> v \<le> 0"
    then have "u * k1 \<le> 0" "v * ks \<le> 0" using pos by (auto intro: mult_nonpos_nonneg)
    with q pos show False by linarith
  qed
  ultimately consider "1 \<le> u" "v \<le> 0" | "u \<le> 0" "1 \<le> v" by linarith
  then show ?thesis
  proof cases
    case 1
    have "v * z \<le> 0" "0 \<le> u * y" "v * ks \<le> 0" using 1 pos by (auto intro: mult_nonpos_nonneg)
    then have "u * y \<le> \<bar>n * q - p * d\<bar>" "q \<le> u * k1" using abs_c q by auto
    then have "y * q \<le> y * (u * k1)" "(u * y) * k1 \<le> \<bar>n * q - p * d\<bar> * k1"
      using pos by (auto intro: mult_left_mono mult_right_mono)
    then show ?thesis by (simp add: ac_simps)
  next
    case 2
    have "0 \<le> v * z" "u * y \<le> 0" "u * k1 \<le> 0" using 2 pos by (auto intro: mult_nonpos_nonneg)
    then have "v * z \<le> \<bar>n * q - p * d\<bar>" "q \<le> v * ks" using abs_c q by auto
    then have "z * q \<le> z * (v * ks)" "(v * z) * ks \<le> \<bar>n * q - p * d\<bar> * ks" "0 < v * ks"
      using pos by (auto intro: mult_left_mono mult_right_mono)
    moreover have "0 < ks" using \<open>0 < v * ks\<close> 2 by (simp add: zero_less_mult_iff)
    ultimately have "z * q \<le> \<bar>n * q - p * d\<bar> * ks"
      by (metis mult.assoc mult.commute order_trans)
    then show ?thesis using \<open>0 < ks\<close> by blast
  qed
qed

lemma mult_le_of_le: "t \<le> m \<Longrightarrow> m * k \<le> c \<Longrightarrow> 0 \<le> k \<Longrightarrow> t * k \<le> (c :: int)"
  using mult_right_mono [of t m k] by linarith

lemma semiconvergent_step:
  fixes h0 h1 k0 k1 a mn md t :: int
  defines "td \<equiv> min ((md - k0) sdiv k1) a"
  assumes b: "0 \<le> h0" "h0 \<le> mn" "0 \<le> h1" "0 \<le> k0" "k0 \<le> md" "1 \<le> k1" "0 \<le> a"
    and over: "a * h1 + h0 > mn \<or> a * k1 + k0 > md"
    and t: "t = max (if h1 = 0 then td else min ((mn - h0) sdiv h1) td) 0"
  shows "0 \<le> t" "t < a" "h0 + t * h1 \<le> mn" "k0 + t * k1 \<le> md"
    "h0 + (t + 1) * h1 > mn \<or> k0 + (t + 1) * k1 > md"
proof -
  let ?m = "(md - k0) sdiv k1" and ?l = "(mn - h0) sdiv h1"
  have m: "0 \<le> ?m" "?m * k1 \<le> md - k0" "md - k0 < (?m + 1) * k1"
    using sdiv_floor [of "md - k0" k1] b by auto
  have l: "0 \<le> ?l" "?l * h1 \<le> mn - h0" "mn - h0 < (?l + 1) * h1" if "h1 \<noteq> 0"
    using sdiv_floor [of "mn - h0" h1] b that by auto
  have am: "?m < a" if "a * k1 + k0 > md"
    using mult_le_of_le [OF _ m(2), of a] that b by force
  have al: "?l < a" if "a * h1 + h0 > mn" "h1 \<noteq> 0"
    using mult_le_of_le [OF _ l(2) [OF that(2)], of a] that b by force
  have t_eq: "t = (if h1 = 0 then td else min ?l td)" "0 \<le> td" "td \<le> ?m"
    using t b m(1) l(1) by (auto simp: td_def)
  show "0 \<le> t" using t by simp
  have tm: "t \<le> ?m" using t_eq by auto
  have tl: "h1 \<noteq> 0 \<Longrightarrow> t \<le> ?l" using t_eq by auto
  show "k0 + t * k1 \<le> md" using mult_le_of_le [OF tm m(2)] b by linarith
  show "h0 + t * h1 \<le> mn"
    using mult_le_of_le [OF tl l(2)] b by (cases "h1 = 0") (simp, force)
  show "t < a"
  proof (cases "h1 = 0")
    case True
    with over b am t_eq show ?thesis by auto
  next
    case False
    with over am al tm tl show ?thesis by force
  qed
  then have "t = ?m \<or> (h1 \<noteq> 0 \<and> t = ?l)" using t_eq(1) by (auto simp: td_def min_def split: if_splits)
  then show "h0 + (t + 1) * h1 > mn \<or> k0 + (t + 1) * k1 > md"
    using m(3) l(3) by force
qed

lemma closer_iff:
  assumes "fits_s 128 (\<bar>n * q - p * d\<bar> * s)" "fits_s 128 (\<bar>n * s - r * d\<bar> * q)"
  shows "closer n d p q r s \<longleftrightarrow> \<bar>n * q - p * d\<bar> * s < \<bar>n * s - r * d\<bar> * q"
  using assms by (simp add: closer_def Let_def checked_s_def)

lemma semiconvergent_best:
  assumes inv: "cf_inv mn md n d x y h0 h1 k0 k1" and y: "0 < y" and fit: "d * md < 2 ^ 127"
    and over: "x sdiv y * h1 + h0 > mn \<or> x sdiv y * k1 + k0 > md"
    and res: "semiconvergent n d mn md (x sdiv y) h0 h1 k0 k1 = (P, Q)"
  shows "best_in mn md n d P Q"
proof -
  have xy: "y < x" and nd: "n = h1 * x + h0 * y" "d = k1 * x + k0 * y"
    and det0: "\<bar>h1 * k0 - h0 * k1\<bar> = 1"
    and h: "0 \<le> h0" "h0 \<le> mn" "0 \<le> h1" "h1 \<le> mn"
    and k: "0 \<le> k0" "k0 \<le> k1" "1 \<le> k1" "k1 \<le> md" "k0 \<le> md"
    using inv unfolding cf_inv_def by auto
  define a where "a = x sdiv y"
  define td where "td = min ((md - k0) sdiv k1) a"
  define t where "t = max (if h1 = 0 then td else min ((mn - h0) sdiv h1) td) 0"
  define hs ks where "hs = h0 + t * h1" and "ks = k0 + t * k1"
  define e z where "e = h1 * k0 - h0 * k1" and "z = x - t * y"
  have a: "0 \<le> a" "a * y \<le> x" unfolding a_def using sdiv_floor [of x y] xy y by auto
  note S = semiconvergent_step [OF h(1-3) k(1,5,3) a(1) over [folded a_def] t_def [unfolded td_def]]
  have T: "0 \<le> t" "hs \<le> mn" "ks \<le> md" "\<not> (h1 + hs \<le> mn \<and> k1 + ks \<le> md)"
    using S unfolding hs_def ks_def distrib_right by linarith+
  have hk: "0 \<le> hs" "0 \<le> ks" using h k T(1) by (simp_all add: hs_def ks_def)
  have "t * y \<le> a * y" using S(2) y by (intro mult_right_mono) auto
  moreover have "0 \<le> t * y" using T(1) y by simp
  ultimately have z: "0 \<le> z" "z \<le> x" using a(2) unfolding z_def by linarith+
  have e: "e = 1 \<or> e = - 1" using det0 unfolding e_def by linarith
  have det: "h1 * ks - hs * k1 = e" by (simp add: hs_def ks_def e_def algebra_simps)
  have n1: "n * k1 - h1 * d = - e * y" unfolding nd e_def by (simp add: algebra_simps)
  have n2: "n * ks - hs * d = e * z" unfolding nd e_def z_def hs_def ks_def by (simp add: algebra_simps)
  have abs: "\<bar>n * k1 - h1 * d\<bar> = y" "\<bar>n * ks - hs * d\<bar> = z"
    unfolding n1 n2 using e y z by auto
  have xd: "x \<le> d"
  proof -
    have "1 * x \<le> k1 * x" "0 \<le> k0 * y" using k xy y by (auto intro: mult_right_mono)
    then show ?thesis unfolding nd by linarith
  qed
  have sides: "y * q \<le> \<bar>n * q - p * d\<bar> * k1 \<or> (z * q \<le> \<bar>n * q - p * d\<bar> * ks \<and> 0 < ks)"
    if b: "in_budget mn md p q" for p q
  proof (rule neighbour_cases [OF det e n1 n2])
    show "\<not> (h1 + hs \<le> p \<and> k1 + ks \<le> q)" "1 \<le> q"
      using T(4) b unfolding in_budget_def by linarith+
  qed (use y z h hk k in simp_all)
  have first: "best_in mn md n d h1 k1" if le: "y * ks \<le> z * k1"
  proof -
    have "y * q \<le> \<bar>n * q - p * d\<bar> * k1" if b: "in_budget mn md p q" for p q
      using sides [OF b] best_trans [OF le, of q "\<bar>n * q - p * d\<bar>"] k(3) b
      unfolding in_budget_def by linarith
    then show ?thesis unfolding best_in_def abs(1) in_budget_def using h k by blast
  qed
  have second: "best_in mn md n d hs ks" if le: "z * k1 < y * ks"
  proof -
    have "0 \<le> z * k1" using z k by simp
    then have "ks \<noteq> 0" using le by auto
    then have ks: "0 < ks" using hk by simp
    then have "z * q \<le> \<bar>n * q - p * d\<bar> * ks" if b: "in_budget mn md p q" for p q
      using sides [OF b] best_trans [OF less_imp_le [OF le], of q "\<bar>n * q - p * d\<bar>"] k(3) b
      unfolding in_budget_def by linarith
    then show ?thesis unfolding best_in_def abs(2) in_budget_def using T hk ks
      by (metis int_one_le_iff_zero_less)
  qed
  have fit1: "fits_s 128 (z * k1)" "fits_s 128 (y * ks)"
  proof -
    have "z * k1 \<le> d * md" "y * ks \<le> d * md"
      using z xd k xy y T(3) hk by (intro mult_mono; linarith)+
    moreover have "0 \<le> z * k1" "0 \<le> y * ks" using z k y hk by simp_all
    ultimately show "fits_s 128 (z * k1)" "fits_s 128 (y * ks)"
      using fit unfolding fits_s_def by simp_all
  qed
  have cl: "closer n d hs ks h1 k1 \<longleftrightarrow> z * k1 < y * ks"
    using closer_iff [of n ks hs d k1 h1] fit1 by (simp only: abs)
  have "semiconvergent n d mn md a h0 h1 k0 k1 =
      (if t > 0 then (if closer n d hs ks h1 k1 then (hs, ks) else (h1, k1)) else (h1, k1))"
    using k(3) by (simp add: semiconvergent_def Let_def td_def t_def hs_def ks_def)
  then have res': "(P, Q) = (if t > 0 \<and> z * k1 < y * ks then (hs, ks) else (h1, k1))"
    using res unfolding cl a_def by (simp split: if_splits)
  show ?thesis
  proof (cases "t > 0 \<and> z * k1 < y * ks")
    case True
    with res' second show ?thesis by simp
  next
    case False
    have "y * ks \<le> z * k1"
    proof (cases "t > 0")
      case True
      with False show ?thesis by simp
    next
      case False
      then have "t = 0" using T(1) by simp
      then have "ks = k0" "z = x" by (simp_all add: ks_def z_def)
      then show ?thesis using xy y k by (simp add: mult_mono)
    qed
    with False res' first show ?thesis by simp
  qed
qed

lemma cf_inv_step:
  assumes inv: "cf_inv mn md n d x y h0 h1 k0 k1" and y: "0 < y"
    and fit: "x sdiv y * h1 + h0 \<le> mn" "x sdiv y * k1 + k0 \<le> md"
  shows "cf_inv mn md n d y (x - x sdiv y * y) h1 (x sdiv y * h1 + h0) k1 (x sdiv y * k1 + k0)"
proof -
  define a where "a = x sdiv y"
  have xy: "y < x" and nd: "n = h1 * x + h0 * y" "d = k1 * x + k0 * y"
    and det0: "\<bar>h1 * k0 - h0 * k1\<bar> = 1"
    and h: "0 \<le> h0" "0 \<le> h1" "h1 \<le> mn"
    and k: "0 \<le> k0" "1 \<le> k1" using inv unfolding cf_inv_def by auto
  have a: "a * y \<le> x" "x < (a + 1) * y" "0 \<le> a" unfolding a_def using sdiv_floor [of x y] xy y by auto
  have "\<not> a + 1 \<le> 1" using mult_right_mono [of "a + 1" 1 y] a(2) xy y by linarith
  then have "1 \<le> a" by simp
  then have "1 * k1 \<le> a * k1" using k by (intro mult_right_mono) auto
  then have k1: "k1 \<le> a * k1 + k0" using k by linarith
  have "(a * h1 + h0) * k1 - h1 * (a * k1 + k0) = - (h1 * k0 - h0 * k1)"
    by (simp add: algebra_simps)
  then have "\<bar>(a * h1 + h0) * k1 - h1 * (a * k1 + k0)\<bar> = 1" using det0 by simp
  moreover have "n = (a * h1 + h0) * y + h1 * (x - a * y)" "d = (a * k1 + k0) * y + k1 * (x - a * y)"
    unfolding nd by (simp_all add: algebra_simps)
  moreover have "0 \<le> x - a * y" "x - a * y < y" using a by (simp_all add: algebra_simps)
  moreover have "0 \<le> a * h1" using a h by simp
  ultimately show ?thesis
    using fit h k k1 unfolding cf_inv_def a_def [symmetric] by simp
qed

lemma approx_loop_best:
  assumes "cf_inv mn md n d x y h0 h1 k0 k1" "d * md < 2 ^ 127"
    "approx_loop n d mn md x y h0 h1 k0 k1 True = (P, Q, acc)"
  shows "acc \<and> best_in mn md n d P Q"
  using assms
proof (induction n d mn md x y h0 h1 k0 k1 True rule: approx_loop.induct)
  case (1 n d mn md x y h0 h1 k0 k1)
  note inv = 1(2) and fit = 1(3) and eq = 1(4)
  let ?a = "x sdiv y"
  consider "y = 0" | "y \<noteq> 0" "?a * h1 + h0 > mn \<or> ?a * k1 + k0 > md"
    | "y \<noteq> 0" "?a * h1 + h0 \<le> mn" "?a * k1 + k0 \<le> md" by linarith
  then show ?case
  proof cases
    case 1
    then have "P = h1" "Q = k1" "acc" using eq by (simp_all add: approx_loop.simps)
    moreover have "n * k1 - h1 * d = 0" using inv 1 by (simp add: cf_inv_def)
    ultimately show ?thesis using inv by (simp add: best_in_def in_budget_def cf_inv_def)
  next
    case 2
    obtain P' Q' where s: "semiconvergent n d mn md ?a h0 h1 k0 k1 = (P', Q')" by fastforce
    have "0 < y" using 2(1) inv by (simp add: cf_inv_def)
    moreover have "P = P'" "Q = Q'" "acc"
      using eq 2 s by (simp_all add: approx_loop.simps [of _ _ _ _ x y] Let_def split: if_splits)
    ultimately show ?thesis using semiconvergent_best [OF inv _ fit 2(2) s] by simp
  next
    case 3
    have y: "0 < y" using 3(1) inv by (simp add: cf_inv_def)
    have "approx_loop n d mn md y (x - ?a * y) h1 (?a * h1 + h0) k1 (?a * k1 + k0) True = (P, Q, acc)"
      using eq 3 by (simp add: approx_loop.simps [of _ _ _ _ x y] Let_def)
    then show ?thesis
      using 1(1) [OF 3(1) refl refl refl _ cf_inv_step [OF inv y 3(2,3)] fit] 3 by simp
  qed
qed

lemma approx_start:
  assumes "0 \<le> n" "0 < d" "1 \<le> md" "d * md < 2 ^ 127" "1 \<le> mn"
    "approx_loop n d mn md n d 0 1 1 0 False = (P, Q, acc)"
  shows "if acc \<and> Q \<noteq> 0 then best_in mn md n d P Q else best_in mn md n d mn 1"
proof -
  let ?a = "n sdiv d"
  have a: "0 \<le> ?a" "?a * d \<le> n" "n < (?a + 1) * d" using sdiv_floor [of n d] assms by auto
  show ?thesis
  proof (cases "?a > mn")
    case True
    then have "\<not> acc" using assms by (simp add: approx_loop.simps Let_def)
    have "mn * d \<le> n" using True a assms mult_right_mono [of mn ?a d] by linarith
    have "\<bar>n * 1 - mn * d\<bar> * q \<le> \<bar>n * q - p * d\<bar> * 1" if "in_budget mn md p q" for p q
    proof -
      have "mn * 1 \<le> mn * q" using that assms(5) by (intro mult_left_mono) (auto simp: in_budget_def)
      then have "p \<le> mn * q" using that by (simp add: in_budget_def)
      then have "p * d \<le> mn * q * d" using assms by simp
      then have "(n - mn * d) * q \<le> n * q - p * d" by (simp add: algebra_simps)
      then show ?thesis using \<open>mn * d \<le> n\<close> by simp
    qed
    then show ?thesis using \<open>\<not> acc\<close> assms by (auto simp: best_in_def in_budget_def)
  next
    case False
    have "approx_loop n d mn md d (n - ?a * d) 1 ?a 0 1 True = (P, Q, acc)"
      using assms False by (simp add: approx_loop.simps [of n d mn md n d] Let_def)
    moreover have "cf_inv mn md n d d (n - ?a * d) 1 ?a 0 1"
      using a assms False by (simp add: cf_inv_def algebra_simps)
    ultimately have "acc \<and> best_in mn md n d P Q" using approx_loop_best assms(4) by blast
    then show ?thesis by (auto simp: best_in_def in_budget_def)
  qed
qed

definition dist :: "int \<Rightarrow> int \<Rightarrow> int \<Rightarrow> int \<Rightarrow> rat" where
  "dist n d p q = \<bar>Fract n d - Fract p q\<bar>"

lemma dist_eq: "0 < d \<Longrightarrow> 0 < q \<Longrightarrow> dist n d p q = Fract \<bar>n * q - p * d\<bar> (d * q)"
  by (simp add: dist_def)

lemma Fract_le_pos: "0 < b \<Longrightarrow> 0 < d \<Longrightarrow> Fract a b \<le> Fract c d \<longleftrightarrow> a * d \<le> c * b"
  unfolding not_less [symmetric] by (simp only: Fract_less_pos)

lemma dist_le_iff:
  assumes "0 < d" "0 < q" "0 < q'"
  shows "dist n d p q \<le> dist n d p' q' \<longleftrightarrow> \<bar>n * q - p * d\<bar> * q' \<le> \<bar>n * q' - p' * d\<bar> * q"
proof -
  define a b where "a = \<bar>n * q - p * d\<bar>" and "b = \<bar>n * q' - p' * d\<bar>"
  have "dist n d p q \<le> dist n d p' q' \<longleftrightarrow> a * (d * q') \<le> b * (d * q)"
    using assms by (simp only: dist_eq a_def b_def Fract_le_pos zero_less_mult_iff, simp)
  also have "\<dots> \<longleftrightarrow> d * (a * q') \<le> d * (b * q)"
    by (simp only: mult.left_commute)
  also have "\<dots> \<longleftrightarrow> a * q' \<le> b * q"
    using assms(1) by (simp only: mult_le_cancel_left_pos)
  finally show ?thesis unfolding a_def b_def .
qed

lemma best_in_signed:
  assumes best: "best_in mn md \<bar>n\<bar> d P Q" and d: "0 < d" and q: "1 \<le> q" "q \<le> md" "\<bar>p\<bar> \<le> mn"
  shows "dist n d (if n < 0 then - P else P) Q \<le> dist n d p q"
proof -
  let ?p = "max 0 (if n < 0 then - p else p)"
  have b: "in_budget mn md P Q" and Q: "0 < Q" using best by (auto simp: best_in_def in_budget_def)
  have "in_budget mn md ?p q" using q by (auto simp: in_budget_def)
  then have "\<bar>\<bar>n\<bar> * Q - P * d\<bar> * q \<le> \<bar>\<bar>n\<bar> * q - ?p * d\<bar> * Q"
    using best by (auto simp: best_in_def)
  also have "\<dots> \<le> \<bar>n * q - p * d\<bar> * Q"
  proof (rule mult_right_mono)
    have nq: "0 \<le> \<bar>n\<bar> * q" using q by simp
    have "(if n < 0 then - p else p) < 0 \<Longrightarrow> (if n < 0 then - p else p) * d < 0"
      by (rule mult_neg_pos) (use d in simp_all)
    then show "\<bar>\<bar>n\<bar> * q - ?p * d\<bar> \<le> \<bar>n * q - p * d\<bar>"
      using nq by (cases "n < 0") (auto simp: abs_if max_def split: if_splits)
  qed (use Q in simp)
  finally have "\<bar>\<bar>n\<bar> * Q - P * d\<bar> * q \<le> \<bar>n * q - p * d\<bar> * Q" .
  moreover have "\<bar>n * Q - (if n < 0 then - P else P) * d\<bar> = \<bar>\<bar>n\<bar> * Q - P * d\<bar>"
  proof (cases "n < 0")
    case True
    then have "\<bar>n\<bar> * Q - P * d = - (n * Q - (- P) * d)" by simp
    with True show ?thesis by (simp only: abs_minus_cancel if_True)
  qed simp
  ultimately show ?thesis using d Q q by (simp add: dist_le_iff)
qed

lemma approx_canonical_spec:
  assumes "0 < d" "d \<le> 2 ^ 64" "1 \<le> md" "md \<le> i32_max" "approx_canonical n d md = (P, Q)"
  obtains P' where "P = (if n < 0 then - P' else P')" "best_in i32_max md \<bar>n\<bar> d P' Q"
proof -
  obtain h k acc where l: "approx_loop \<bar>n\<bar> d i32_max md \<bar>n\<bar> d 0 1 1 0 False = (h, k, acc)"
    using prod_cases3 by blast
  have "d * md \<le> 2 ^ 64 * i32_max" using assms by (intro mult_mono) auto
  then have "d * md < 2 ^ 127" by (rule le_less_trans) simp
  with l assms have "if acc \<and> k \<noteq> 0 then best_in i32_max md \<bar>n\<bar> d h k
      else best_in i32_max md \<bar>n\<bar> d i32_max 1"
    by (intro approx_start) simp_all
  moreover have "(P, Q) = (if acc \<and> k \<noteq> 0 then (if n < 0 then - h else h, k)
      else (if n < 0 then - i32_max else i32_max, 1))"
    using assms(5) l by (simp add: approx_canonical_def Let_def split: if_splits)
  ultimately show thesis using that by (auto split: if_splits)
qed

section \<open>Properties\<close>

text \<open>
  C9. The continued-fraction approximation \<^verbatim>\<open>approx_canonical\<close> stays within its
  budget (a denominator in \<open>1..md\<close>, a numerator of magnitude at most
  \<^verbatim>\<open>i32::MAX\<close>) and is a best approximation: no fraction within the budget is closer
  to \<open>n/d\<close>.
\<close>

theorem approx_canonical_best:
  assumes "0 < d" "d \<le> 2 ^ 64" "1 \<le> md" "md \<le> i32_max" "approx_canonical n d md = (P, Q)"
  shows "1 \<le> Q \<and> Q \<le> md \<and> \<bar>P\<bar> \<le> i32_max \<and>
    (\<forall>p q. 1 \<le> q \<and> q \<le> md \<and> \<bar>p\<bar> \<le> i32_max \<longrightarrow>
       \<bar>Fract n d - Fract P Q\<bar> \<le> \<bar>Fract n d - Fract p q\<bar>)"
proof -
  obtain P' where P: "P = (if n < 0 then - P' else P')" "best_in i32_max md \<bar>n\<bar> d P' Q"
    using approx_canonical_spec [OF assms] .
  then have "\<bar>Fract n d - Fract P Q\<bar> \<le> \<bar>Fract n d - Fract p q\<bar>"
    if "1 \<le> q" "q \<le> md" "\<bar>p\<bar> \<le> i32_max" for p q
    using best_in_signed [OF P(2) assms(1) that] by (simp add: dist_def)
  moreover have "1 \<le> Q" "Q \<le> md" "\<bar>P\<bar> \<le> i32_max"
    using P by (auto simp: best_in_def in_budget_def)
  ultimately show ?thesis by blast
qed

theorem approx_canonical_best_witness:
  "approx_canonical 314159265 100000000 1000 = (355, 113) \<and>
   \<bar>Fract 314159265 100000000 - Fract 355 113\<bar> \<le> \<bar>Fract 314159265 100000000 - Fract 22 (7::int)\<bar>"
proof -
  have e: "approx_canonical 314159265 100000000 1000 = (355, 113)"
    by code_simp
  show ?thesis
    using approx_canonical_best [OF _ _ _ _ e] e by simp
qed

text \<open>
  C33. \<^verbatim>\<open>cmp_exact\<close>, \<^verbatim>\<open>==\<close> and \<^verbatim>\<open>partial_cmp\<close> are the order of the
  extended number line: undefined below minus infinity below every finite number below
  infinity, with equality by value and no partial order position for undefined.
\<close>

theorem rational_order_refines:
  "cmp_exact a b = cmp (rvalue a) (rvalue b) \<and>
   (rat_eq a b \<longleftrightarrow> rvalue a = rvalue b) \<and>
   partial_cmp a b =
     (if rvalue a = Undef \<or> rvalue b = Undef then None else Some (cmp (rvalue a) (rvalue b)))"
proof -
  have "is_undefined r \<longleftrightarrow> rvalue r = Undef" for r
    by (auto simp: is_undefined_def rvalue_def pair_value_def word_eq_sint_iff)
  then show ?thesis by (simp add: rat_eq_def partial_cmp_def cmp_exact_value)
qed

text \<open>
  Exact addition and multiplication: a result is the exact sum or product on the
  extended number line, and a refusal means that it is undefined (an undefined operand,
  infinity minus infinity, zero times infinity) or has no \<^verbatim>\<open>i32/i32\<close> representation
  with a positive denominator.
\<close>

theorem checked_arith_exact:
  "checked_result (ext_add (rvalue a) (rvalue b)) (checked_add a b) \<and>
   checked_result (ext_mul (rvalue a) (rvalue b)) (checked_mul a b)"
  using checked_add_result checked_mul_result by blast

text \<open>
  Negation and subtraction are exact except at one value: \<^verbatim>\<open>i32::MIN/0\<close> is
  negative infinity and negating it returns negative infinity again, since moving the sign to
  a zero denominator loses it; subtracting it from a finite number therefore gives negative
  infinity.
\<close>

theorem negation_and_subtraction:
  "rvalue (neg_value r) =
     (if sint (num r) = i32_min \<and> den r = 0 then NegInf else ext_neg (rvalue r)) \<and>
   checked_result
     (ext_add (rvalue a)
       (if sint (num r) = i32_min \<and> den r = 0 then NegInf else ext_neg (rvalue r)))
     (checked_sub a r)"
  unfolding checked_sub_def
  using checked_add_result [of a "neg_value r"] by (simp add: neg_value_value)

lemma rvalue_inverse:
  assumes "rvalue b = Fin y" "y \<noteq> 0"
  shows "rvalue (inverse_r b) = Fin (1 / y)"
proof -
  have d: "sint (den b) \<noteq> 0" and y: "y = Fract (sint (num b)) (sint (den b))"
    using assms(1) by (auto simp: rvalue_def pair_value_def split: if_splits)
  have "sint (num b) \<noteq> 0" using assms(2) d unfolding y by (auto simp: rat_number_collapse)
  then show ?thesis
    by (simp add: rvalue_def inverse_r_def pair_value_def y divide_rat_def)
qed

text \<open>
  Division by a finite non-zero rational is exact multiplication by its reciprocal, with
  the same refusals.
\<close>

theorem checked_div_exact:
  assumes "rvalue b = Fin y" "y \<noteq> 0"
  shows "checked_result (ext_mul (rvalue a) (Fin (1 / y))) (checked_div a b)"
proof -
  have "checked_div a b = checked_mul a (inverse_r b)"
    by (simp add: checked_div_def checked_mul_def)
  then show ?thesis
    using checked_mul_result [of a "inverse_r b"] rvalue_inverse [OF assms] by simp
qed

theorem checked_div_exact_witness:
  "checked_result (ext_mul (rvalue ONE) (Fin (1 / Fract 1 2))) (checked_div ONE (mk_rational 1 2))"
  by (rule checked_div_exact) (simp_all add: rvalue_def mk_rational_def pair_value_def eq_rat Zero_rat_def)

subsection \<open>Rounding to the nearest machine rational\<close>

definition nearest :: "int \<Rightarrow> ext \<Rightarrow> rational \<Rightarrow> bool" where
  "nearest md v r \<longleftrightarrow> (\<exists>x y. v = Fin x \<and> rvalue r = Fin y \<and>
     (\<forall>p q. 1 \<le> q \<and> q \<le> md \<and> \<bar>p\<bar> \<le> i32_max \<longrightarrow> \<bar>x - y\<bar> \<le> \<bar>x - Fract p q\<bar>))"

lemma approx_fits:
  assumes "0 < d" "d \<le> 2 ^ 64" "1 \<le> md" "md \<le> i32_max" "approx_canonical n d md = (P, Q)"
  shows "fits_s 32 P" "fits_s 32 Q" "Q \<noteq> 0" "nearest md (Fin (Fract n d)) (mk_rational P Q)"
proof -
  obtain P' where P: "P = (if n < 0 then - P' else P')" and best: "best_in i32_max md \<bar>n\<bar> d P' Q"
    using approx_canonical_spec [OF assms] .
  then show f: "fits_s 32 P" "fits_s 32 Q" "Q \<noteq> 0"
    using assms(4) by (auto simp: best_in_def in_budget_def fits_s_def)
  show "nearest md (Fin (Fract n d)) (mk_rational P Q)"
    using best_in_signed [OF best assms(1)] f P
    by (simp add: nearest_def rvalue_mk_rational pair_value_def dist_def)
qed

lemma from_canonical_result:
  assumes "is_canonical n d" "d \<le> 2 ^ 64"
  shows "if representable (pair_value n d) \<or> pair_value n d = Undef
    then rvalue (from_canonical n d) = pair_value n d
    else nearest i32_max (pair_value n d) (from_canonical n d)"
proof (cases "exact_from_canonical n d")
  case None
  then have "d \<noteq> 0" by (auto simp: exact_from_canonical_def split: if_splits)
  then have d: "0 < d" "pair_value n d = Fin (Fract n d)"
    using assms by (auto simp: is_canonical_def pair_value_def)
  obtain P Q where a: "approx_canonical n d i32_max = (P, Q)" by fastforce
  then show ?thesis
    using approx_fits(4) [OF d(1) assms(2) _ _ a] None d(2)
      exact_from_canonical_None [OF assms(1)] by (simp add: from_canonical_def)
next
  case (Some r)
  then show ?thesis
    using exact_from_canonical_value exact_from_canonical_None [OF assms(1)]
    by (auto simp: from_canonical_def)
qed

definition operator_result :: "ext \<Rightarrow> rational \<Rightarrow> bool" where
  "operator_result v r \<longleftrightarrow>
     (if representable v \<or> v = Undef then rvalue r = v else nearest i32_max v r)"

lemma operator_result_of_canonical:
  assumes "case r of None \<Rightarrow> v = Undef
    | Some (n, d) \<Rightarrow> is_canonical n d \<and> pair_value n d = v \<and> v \<noteq> Undef \<and> \<bar>n\<bar> \<le> A \<and> d \<le> 2 ^ 62"
  shows "operator_result v (case r of Some (n, d) \<Rightarrow> from_canonical n d | None \<Rightarrow> UNDEFINED)"
proof (cases r)
  case None
  with assms show ?thesis
    by (simp add: operator_result_def UNDEFINED_def rvalue_def pair_value_def)
next
  case (Some nd)
  then obtain n d where nd: "r = Some (n, d)" by (cases nd) auto
  with assms have "is_canonical n d" "pair_value n d = v" "d \<le> 2 ^ 64" by auto
  with from_canonical_result [of n d] nd show ?thesis
    by (auto simp: operator_result_def split: if_splits)
qed

text \<open>
  The infallible operators \<^verbatim>\<open>+\<close> and \<^verbatim>\<open>*\<close>: the exact value whenever it is
  representable, undefined when it is undefined, and otherwise a rational nearest to it among
  all \<^verbatim>\<open>i32/i32\<close> pairs with a positive denominator and a numerator above
  \<^verbatim>\<open>i32::MIN\<close>.
\<close>

theorem rational_operators_nearest:
  "operator_result (ext_add (rvalue a) (rvalue b)) (rat_add a b) \<and>
   operator_result (ext_mul (rvalue a) (rvalue b)) (rat_mul a b)"
  unfolding rat_add_def rat_mul_def
  by (rule conjI) (rule operator_result_of_canonical [OF add_canonical_spec]
      operator_result_of_canonical [OF mul_canonical_spec])+

text \<open>
  Reduction never changes the value, and it either returns the lowest-terms pair with a
  positive denominator or, when that pair does not fit, the argument itself.
\<close>

theorem reduced_preserves_value:
  "rvalue (reduced r) = rvalue r \<and>
   (is_canonical (sint (num (reduced r))) (sint (den (reduced r))) \<or> reduced r = r)"
proof -
  obtain n d where c: "canonical r = (n, d)" by fastforce
  note C = canonical_spec [OF c]
  show ?thesis
  proof (cases "exact_from_canonical n d")
    case None
    then show ?thesis by (simp add: reduced_def c)
  next
    case (Some e)
    have "sgn n = n" if "d = 0" using C(1) that by (auto simp: is_canonical_def)
    then have "sint (num e) = n \<and> sint (den e) = d"
      using Some C(1) sint_word_of_int_fits
      by (auto simp: exact_from_canonical_def mk_rational_def is_canonical_def split: if_splits)
    then show ?thesis
      using Some C exact_from_canonical_value by (simp add: reduced_def c)
  qed
qed

text \<open>
  \<^verbatim>\<open>Rational::reduce\<close> on a 64-bit pair: when the flag is set the value is exact;
  when it is not, the result is a nearest rational whose denominator respects the clamped
  bound.
\<close>

theorem reduce_flag_exact:
  assumes "fits_s 64 n" "fits_s 64 d" "reduce n d mx = (r, exact)"
  shows "if exact then rvalue r = pair_value n d
    else nearest (max 1 (min mx i32_max)) (pair_value n d) r \<and> 1 \<le> sint (den r) \<and>
      sint (den r) \<le> max 1 (min mx i32_max)"
proof -
  let ?m = "max 1 (min mx i32_max)"
  obtain n' d' where c: "canonicalise n d = (n', d')" by fastforce
  have "\<bar>n\<bar> < 2 ^ 127" "\<bar>d\<bar> \<le> 2 ^ 63" using assms(1,2) by (auto simp: fits_s_def)
  note C = canonicalise_spec [OF this(1) c]
  have d64: "d' \<le> 2 ^ 64" using C(4) \<open>\<bar>d\<bar> \<le> 2 ^ 63\<close> by simp
  show ?thesis
  proof (cases "d' = 0 \<or> (d' \<le> ?m \<and> exact_from_canonical n' d' \<noteq> None)")
    case True
    then have "exact \<and> exact_from_canonical n' d' = Some r"
      using assms(3) by (auto simp: reduce_def c Let_def from_canonical_def exact_from_canonical_def
          split: if_splits option.splits)
    moreover from this have "rvalue r = pair_value n' d'"
      using exact_from_canonical_value C(1) by blast
    ultimately show ?thesis using C(2) by simp
  next
    case False
    then have pos: "0 < d'" using C(1) by (auto simp: is_canonical_def)
    obtain P Q where a: "approx_canonical n' d' ?m = (P, Q)" by fastforce
    have m: "1 \<le> ?m" "?m \<le> i32_max" by auto
    note A = approx_fits [OF pos d64 m a]
    have r: "r = mk_rational P Q" "exact \<longleftrightarrow> P = n' \<and> Q = d'"
      using assms(3) False a A by (auto simp: reduce_def c Let_def from_canonical_def
          exact_from_canonical_def split: if_splits option.splits)
    have v: "pair_value n d = Fin (Fract n' d')" using C(2) pos by (simp add: pair_value_def)
    have "1 \<le> Q \<and> Q \<le> ?m"
      using approx_canonical_spec [OF pos d64 m a] by (metis best_in_def in_budget_def)
    then have "1 \<le> sint (den r) \<and> sint (den r) \<le> ?m"
      by (simp add: r mk_rational_def sint_word_of_int_fits A)
    then show ?thesis
      using A(4) rvalue_mk_rational [OF A(1,2)] C(2) v r by auto
  qed
qed

theorem reduce_flag_exact_witness:
  "reduce 60000000000 2002000000 1001 = (mk_rational 30000 1001, True) \<and>
   rvalue (mk_rational 30000 1001) = pair_value 60000000000 2002000000"
proof -
  have e: "reduce 60000000000 2002000000 1001 = (mk_rational 30000 1001, True)"
    by (simp add: reduce_def canonicalise_def gcd_u128.simps cast_signed_def sdiv_nonneg
        exact_from_canonical_def fits_s_def)
  have "fits_s 64 60000000000" "fits_s 64 2002000000" by (simp_all add: fits_s_def)
  from reduce_flag_exact [OF this e] e show ?thesis by simp
qed

end
