(* ===== verification/Core_Time.thy ===== *)
theory Core_Time
  imports Core_Rational "HOL-Library.Monad_Syntax"
begin

text \<open>
  Timestamps, time bases and exact durations: \<^verbatim>\<open>crates/core/vaco-core/src/time.rs\<close>.

  A tick count (\<^verbatim>\<open>i64\<close>) and the \<^verbatim>\<open>i128\<close> terms of a duration are integers; every
  checked operation of the source writes its range out with \<open>checked_s\<close> and
  \<open>checked_u\<close>. The specification side is rational arithmetic: \<open>round_to\<close> is the
  rounding a mode asks for, \<open>base_value\<close> and \<open>dvalue\<close> the seconds a time base and
  a duration stand for.
\<close>

section \<open>The model\<close>

datatype timestamp = Timestamp "int option"

abbreviation TS_NONE :: timestamp where "TS_NONE \<equiv> Timestamp None"
abbreviation TS_ZERO :: timestamp where "TS_ZERO \<equiv> Timestamp (Some 0)"

definition timestamp_new :: "int \<Rightarrow> timestamp" where
  "timestamp_new t = Timestamp (Some t)"

primrec ticks :: "timestamp \<Rightarrow> int option" where
  "ticks (Timestamp t) = t"

definition offset :: "timestamp \<Rightarrow> int \<Rightarrow> timestamp" where
  "offset ts delta =
     (case ticks ts of Some t \<Rightarrow> Timestamp (Some (sat_s 64 (t + delta))) | None \<Rightarrow> TS_NONE)"

datatype rounding = Zero | Infinity | Down | Up | NearestAwayFromZero

definition default_rounding :: rounding where
  "default_rounding = NearestAwayFromZero"

record duration =
  numerator :: int
  denominator :: int

definition DURATION_ZERO :: duration where
  "DURATION_ZERO = \<lparr>numerator = 0, denominator = 1\<rparr>"

definition finite_base :: "rational \<Rightarrow> (int \<times> int) option" where
  "finite_base tb =
     (if den tb = 0 \<or> num tb = 0 then None
      else let n = sint (num tb); d = sint (den tb)
           in if d < 0 then Some (- n, - d) else Some (n, d))"

text \<open>
  The bit-serial loop of \<^verbatim>\<open>unsigned_muldiv\<close>; the first argument counts the bits of
  \<open>b\<close> that are left, so the bit looked at is the one below it.
\<close>

primrec muldiv_loop :: "nat \<Rightarrow> nat \<Rightarrow> nat \<Rightarrow> nat \<Rightarrow> nat \<Rightarrow> nat \<Rightarrow> (nat \<times> nat) option" where
  "muldiv_loop 0 b dn addend quot remainder = Some (quot, remainder)"
| "muldiv_loop (Suc i) b dn addend quot remainder = do {
     q1 \<leftarrow> checked_u 128 (quot * 2);
     (q2, r2) \<leftarrow>
       (if remainder \<ge> dn - remainder
        then do { q \<leftarrow> checked_u 128 (q1 + 1); Some (q, remainder - (dn - remainder)) }
        else Some (q1, remainder + remainder));
     (q3, r3) \<leftarrow>
       (if (b div 2 ^ i) mod 2 \<noteq> 0
        then (if r2 \<ge> dn - addend
              then do { q \<leftarrow> checked_u 128 (q2 + 1); Some (q, r2 - (dn - addend)) }
              else Some (q2, r2 + addend))
        else Some (q2, r2));
     muldiv_loop i b dn addend q3 r3
   }"

definition unsigned_muldiv :: "nat \<Rightarrow> nat \<Rightarrow> nat \<Rightarrow> (nat \<times> nat) option" where
  "unsigned_muldiv a b dn =
     (case checked_u 128 (a * b) of
        Some product \<Rightarrow> Some (product div dn, product mod dn)
      | None \<Rightarrow> do {
          whole \<leftarrow> checked_u 128 (a div dn * b);
          (quot, remainder) \<leftarrow> muldiv_loop 128 b dn (a mod dn) 0 0;
          q \<leftarrow> checked_u 128 (whole + quot);
          Some (q, remainder)
        })"

definition away :: "rounding \<Rightarrow> bool \<Rightarrow> nat \<Rightarrow> nat \<Rightarrow> bool" where
  "away rnd negative remainder dn =
     (case rnd of
        Zero \<Rightarrow> False
      | Infinity \<Rightarrow> True
      | Down \<Rightarrow> negative
      | Up \<Rightarrow> \<not> negative
      | NearestAwayFromZero \<Rightarrow> remainder \<ge> dn - remainder)"

definition muldiv_rnd :: "int \<Rightarrow> int \<Rightarrow> int \<Rightarrow> rounding \<Rightarrow> int option" where
  "muldiv_rnd a b c rnd =
     (if c = 0 then None
      else let negative = (((a < 0) \<noteq> (b < 0)) \<noteq> (c < 0)); dn = nat \<bar>c\<bar> in do {
        (quot, remainder) \<leftarrow> unsigned_muldiv (nat \<bar>a\<bar>) (nat \<bar>b\<bar>) dn;
        q \<leftarrow> (if remainder \<noteq> 0 \<and> away rnd negative remainder dn
             then checked_u 128 (quot + 1) else Some quot);
        if negative \<and> q = 2 ^ 127 then Some (- (2 ^ 127))
        else do {
          r \<leftarrow> checked_s 128 (int q);
          Some (if negative then - r else r)
        }
      })"

definition clamp_i64 :: "int \<Rightarrow> int" where
  "clamp_i64 v = sat_s 64 v"

definition rescale_rnd :: "int \<Rightarrow> int \<Rightarrow> int \<Rightarrow> rounding \<Rightarrow> int option" where
  "rescale_rnd a b c rnd = do { v \<leftarrow> muldiv_rnd a b c rnd; checked_s 64 v }"

definition rescale_factors :: "rational \<Rightarrow> rational \<Rightarrow> (int \<times> int) option" where
  "rescale_factors from to = do {
     (fnum, fden) \<leftarrow> finite_base from;
     (tnum, tden) \<leftarrow> finite_base to;
     Some (fnum * tden, fden * tnum)
   }"

definition rescale :: "timestamp \<Rightarrow> rational \<Rightarrow> rational \<Rightarrow> rounding \<Rightarrow> timestamp" where
  "rescale ts from to rnd =
     (case ticks ts of None \<Rightarrow> TS_NONE
      | Some t \<Rightarrow> (case rescale_factors from to of None \<Rightarrow> TS_NONE
        | Some (b, c) \<Rightarrow> (case muldiv_rnd t b c rnd of
             Some v \<Rightarrow> Timestamp (Some (clamp_i64 v))
           | None \<Rightarrow> TS_NONE)))"

definition checked_rescale ::
  "timestamp \<Rightarrow> rational \<Rightarrow> rational \<Rightarrow> rounding \<Rightarrow> timestamp option" where
  "checked_rescale ts from to rnd = do {
     t \<leftarrow> ticks ts;
     (b, c) \<leftarrow> rescale_factors from to;
     v \<leftarrow> muldiv_rnd t b c rnd;
     map_option timestamp_new (checked_s 64 v)
   }"

definition ts_compare :: "timestamp \<Rightarrow> rational \<Rightarrow> timestamp \<Rightarrow> rational \<Rightarrow> ordering option" where
  "ts_compare s self_base ot other_base = do {
     a \<leftarrow> ticks s;
     b \<leftarrow> ticks ot;
     (an, ad) \<leftarrow> finite_base self_base;
     (bn, bd) \<leftarrow> finite_base other_base;
     Some (cmp (a * an * bd) (b * bn * ad))
   }"

subsection \<open>Durations\<close>

function gcd_loop :: "int \<Rightarrow> int \<Rightarrow> int" where
  "gcd_loop a b = (if b \<noteq> 0 then gcd_loop b (a smod b) else a)"
  by pat_completeness auto
termination
  by (relation "measure (\<lambda>(a, b). nat \<bar>b\<bar>)") (auto simp: abs_mod_less signed_modulo_int_def sgn_if)

declare gcd_loop.simps [simp del]

definition gcd_i128 :: "int \<Rightarrow> int \<Rightarrow> int" where
  "gcd_i128 a b = (let g = gcd_loop a b in if g > 1 then g else 1)"

definition from_ratio :: "int \<Rightarrow> int \<Rightarrow> duration" where
  "from_ratio n d =
     (if n = 0 then DURATION_ZERO
      else let g = gcd_i128 \<bar>n smod d\<bar> d
           in \<lparr>numerator = n sdiv g, denominator = d sdiv g\<rparr>)"

definition from_micros :: "int \<Rightarrow> duration" where
  "from_micros micros = from_ratio micros 1000000"

definition from_ticks :: "int \<Rightarrow> rational \<Rightarrow> duration option" where
  "from_ticks t time_base = do {
     (n, d) \<leftarrow> finite_base time_base;
     Some (from_ratio (t * n) d)
   }"

definition from_fraction :: "int \<Rightarrow> int \<Rightarrow> duration option" where
  "from_fraction n d = (if d > 0 then Some (from_ratio n d) else None)"

definition as_ratio :: "duration \<Rightarrow> int \<times> int" where
  "as_ratio x = (numerator x, denominator x)"

definition as_micros :: "duration \<Rightarrow> int" where
  "as_micros x =
     (case muldiv_rnd (numerator x) 1000000 (denominator x) default_rounding of
        None \<Rightarrow> if numerator x < 0 then - (2 ^ 63) else 2 ^ 63 - 1
      | Some v \<Rightarrow> clamp_i64 v)"

definition checked_micros :: "duration \<Rightarrow> rounding \<Rightarrow> int option" where
  "checked_micros x rnd = do {
     v \<leftarrow> muldiv_rnd (numerator x) 1000000 (denominator x) rnd;
     checked_s 64 v
   }"

definition to_ticks_rounding :: "duration \<Rightarrow> rational \<Rightarrow> rounding \<Rightarrow> int option" where
  "to_ticks_rounding x base rnd = do {
     (n, d) \<leftarrow> finite_base base;
     c \<leftarrow> checked_s 128 (denominator x * n);
     v \<leftarrow> muldiv_rnd (numerator x) d c rnd;
     checked_s 64 v
   }"

definition to_ticks :: "duration \<Rightarrow> rational \<Rightarrow> int option" where
  "to_ticks x base = to_ticks_rounding x base default_rounding"

definition round_micros :: "duration \<Rightarrow> rounding \<Rightarrow> duration option" where
  "round_micros x rnd = map_option from_micros (checked_micros x rnd)"

definition to_duration :: "timestamp \<Rightarrow> rational \<Rightarrow> duration option" where
  "to_duration ts base = do { t \<leftarrow> ticks ts; from_ticks t base }"

definition checked_combine :: "duration \<Rightarrow> duration \<Rightarrow> bool \<Rightarrow> duration option" where
  "checked_combine x y subtract =
     (let g = gcd_i128 (denominator x) (denominator y) in do {
        lhs \<leftarrow> checked_s 128 (numerator x * (denominator y sdiv g));
        rhs \<leftarrow> checked_s 128 (numerator y * (denominator x sdiv g));
        n \<leftarrow> (if subtract then checked_s 128 (lhs - rhs) else checked_s 128 (lhs + rhs));
        if n = 0 then Some DURATION_ZERO
        else let reduction = gcd_i128 \<bar>n smod g\<bar> g in do {
          d \<leftarrow> checked_s 128 ((denominator x sdiv g) * (denominator y sdiv reduction));
          Some (from_ratio (n sdiv reduction) d)
        }
      })"

definition duration_add :: "duration \<Rightarrow> duration \<Rightarrow> duration option" where
  "duration_add x y = checked_combine x y False"

definition duration_sub :: "duration \<Rightarrow> duration \<Rightarrow> duration option" where
  "duration_sub x y = checked_combine x y True"

text \<open>
  The comparison by continued fractions. A zero denominator makes the source's division
  panic; that is the value \<open>None\<close>.
\<close>

function cmp_nonnegative_ratios ::
  "nat \<Rightarrow> nat \<Rightarrow> nat \<Rightarrow> nat \<Rightarrow> bool \<Rightarrow> ordering option" where
  "cmp_nonnegative_ratios a b c d rv =
     (if b = 0 \<or> d = 0 then None
      else let left = a div b; right = c div d
           in if left \<noteq> right then Some (if rv then cmp right left else cmp left right)
              else let left_rem = a mod b; right_rem = c mod d
                   in if left_rem = 0 \<and> right_rem = 0 then Some Equal
                      else if left_rem = 0 then Some (if rv then Greater else Less)
                      else if right_rem = 0 then Some (if rv then Less else Greater)
                      else cmp_nonnegative_ratios b left_rem d right_rem (\<not> rv))"
  by pat_completeness auto
termination
  by (relation "measure (\<lambda>(a, b, c, d, rv). b)") auto

declare cmp_nonnegative_ratios.simps [simp del]

definition duration_cmp :: "duration \<Rightarrow> duration \<Rightarrow> ordering option" where
  "duration_cmp x y =
     (let a = sgn (numerator x); b = sgn (numerator y)
      in if a \<noteq> b then Some (cmp a b)
         else if a = 0 then Some Equal
         else if a = 1
         then cmp_nonnegative_ratios (nat \<bar>numerator x\<bar>) (nat (denominator x))
                (nat \<bar>numerator y\<bar>) (nat (denominator y)) False
         else cmp_nonnegative_ratios (nat \<bar>numerator y\<bar>) (nat (denominator y))
                (nat \<bar>numerator x\<bar>) (nat (denominator x)) False)"

subsection \<open>Decimal seconds\<close>

definition is_ascii_digit :: "char \<Rightarrow> bool" where
  "is_ascii_digit c \<longleftrightarrow> 48 \<le> (of_char c :: nat) \<and> (of_char c :: nat) \<le> 57"

definition digits_val :: "string \<Rightarrow> int" where
  "digits_val ds = foldl (\<lambda>acc c. acc * 10 + (of_char c - 48)) 0 ds"

text \<open>
  \<^verbatim>\<open>str::parse::<i128>\<close> on a non-empty string of ASCII digits: the value, or an
  error when it overflows.
\<close>

definition parse_i128 :: "string \<Rightarrow> int option" where
  "parse_i128 ds = checked_s 128 (digits_val ds)"

definition strip_prefix_char :: "char \<Rightarrow> string \<Rightarrow> string option" where
  "strip_prefix_char p s = (case s of [] \<Rightarrow> None | c # cs \<Rightarrow> if c = p then Some cs else None)"

primrec split_once_char :: "char \<Rightarrow> string \<Rightarrow> (string \<times> string) option" where
  "split_once_char sep [] = None"
| "split_once_char sep (c # cs) =
     (if c = sep then Some ([], cs)
      else map_option (\<lambda>(a, b). (c # a, b)) (split_once_char sep cs))"

primrec scale_loop :: "nat \<Rightarrow> int \<Rightarrow> int option" where
  "scale_loop 0 scale = Some scale"
| "scale_loop (Suc k) scale = do { s \<leftarrow> checked_s 128 (scale * 10); scale_loop k s }"

definition from_decimal_seconds :: "string \<Rightarrow> duration option" where
  "from_decimal_seconds s =
     (let (negative, v) = (case strip_prefix_char CHR ''-'' s of
            Some rest \<Rightarrow> (True, rest) | None \<Rightarrow> (False, s));
          (whole, fraction) = (case split_once_char CHR ''.'' v of Some p \<Rightarrow> p | None \<Rightarrow> (v, []))
      in if (whole = [] \<and> fraction = []) \<or> \<not> list_all is_ascii_digit whole \<or>
            \<not> list_all is_ascii_digit fraction
         then None
         else do {
           w \<leftarrow> (if whole = [] then Some 0 else parse_i128 whole);
           f \<leftarrow> (if fraction = [] then Some 0 else parse_i128 fraction);
           scale \<leftarrow> scale_loop (length fraction) 1;
           ws \<leftarrow> checked_s 128 (w * scale);
           n \<leftarrow> checked_s 128 (ws + f);
           m \<leftarrow> (if negative then checked_s 128 (- n) else Some n);
           Some (from_ratio m scale)
         })"

section \<open>Multiply and divide without a wide product\<close>

text \<open>
  One conditional subtraction of the loop: adding \<open>s\<close> to the remainder modulo
  \<open>d\<close> without forming \<open>r + s\<close>.
\<close>

lemma mod_add_step:
  assumes "r < d" "s < (d :: nat)"
  shows "d - s \<le> r \<Longrightarrow> (q + 1) * d + (r - (d - s)) = q * d + r + s \<and> r - (d - s) < d"
    and "\<not> d - s \<le> r \<Longrightarrow> r + s < d"
proof -
  assume "d - s \<le> r"
  then obtain k where r: "r = (d - s) + k" by (metis le_add_diff_inverse)
  have "(q + 1) * d = q * d + d" by simp
  moreover have "d - s + s = d" using assms by simp
  ultimately show "(q + 1) * d + (r - (d - s)) = q * d + r + s \<and> r - (d - s) < d"
    using r assms(1) by linarith
qed (use assms in linarith)

lemma quotient_le_factor: "q * d + r = m * s \<Longrightarrow> s < d \<Longrightarrow> q \<le> (m :: nat)"
proof -
  assume "q * d + r = m * s" "s < d"
  then have "q * d \<le> m * s" by linarith
  also have "\<dots> \<le> m * d" using \<open>s < d\<close> by simp
  finally show ?thesis using \<open>s < d\<close> by simp
qed

lemma muldiv_loop_spec:
  assumes "r < dn" "addend < dn" "q * dn + r = b div 2 ^ i * addend" "fits_u 128 b"
  shows "muldiv_loop i b dn addend q r = Some (b * addend div dn, b * addend mod dn)"
  using assms
proof (induction i arbitrary: q r)
  case 0
  then have "b * addend = q * dn + r" by simp
  moreover have "(q * dn + r) div dn = q" "(q * dn + r) mod dn = r"
    using 0(1) by simp_all
  ultimately show ?case by (simp only: muldiv_loop.simps)
next
  case (Suc i)
  let ?B = "b div 2 ^ Suc i" and ?bit = "b div 2 ^ i mod 2"
  have Bi: "b div 2 ^ i = 2 * ?B + ?bit"
    by (metis div_mult2_eq mult_div_mod_eq power_Suc2)
  have "b div 2 ^ i \<le> b" by simp
  then have le: "2 * ?B \<le> b" "2 * ?B + ?bit \<le> b" using Bi by linarith+
  have ok: "fits_u 128 x" if "x \<le> b" for x using that Suc.prems(4) unfolding fits_u_def by linarith
  have q: "q \<le> ?B" using quotient_le_factor [OF Suc.prems(3,2)] .
  have dbl: "q * 2 * dn + r + r = 2 * ?B * addend" using Suc.prems(3) by linarith
  obtain q2 r2 where s2: "(q2, r2) = (if dn - r \<le> r then (q * 2 + 1, r - (dn - r)) else (q * 2, r + r))"
    by (metis surj_pair)
  then have 2: "q2 * dn + r2 = 2 * ?B * addend" "r2 < dn"
    using mod_add_step(1) [OF Suc.prems(1,1), of "q * 2"] mod_add_step(2) [OF Suc.prems(1,1)] dbl by (auto split: if_splits)
  have q2: "q2 \<le> 2 * ?B" using quotient_le_factor [OF 2(1) Suc.prems(2)] .
  obtain q3 r3 where s3: "(q3, r3) = (if ?bit \<noteq> 0
      then (if dn - addend \<le> r2 then (q2 + 1, r2 - (dn - addend)) else (q2, r2 + addend))
      else (q2, r2))"
    by (metis surj_pair)
  have bit: "?bit = 0 \<or> ?bit = 1" by auto
  have "q3 * dn + r3 = (2 * ?B + ?bit) * addend \<and> r3 < dn"
    using s3 2 mod_add_step(1) [OF 2(2) Suc.prems(2), of q2] mod_add_step(2) [OF 2(2) Suc.prems(2)] bit
    by (auto simp: distrib_right split: if_splits)
  then have 3: "q3 * dn + r3 = b div 2 ^ i * addend \<and> r3 < dn" using Bi by metis
  have q3: "q3 \<le> 2 * ?B + ?bit"
    using quotient_le_factor [OF _ Suc.prems(2)] 3 Bi by metis
  have f: "fits_u 128 (q * 2)" "fits_u 128 q2" "fits_u 128 q3"
    using ok [of "q * 2"] ok [of q2] ok [of q3] q q2 q3 le by linarith+
  have e0: "checked_u 128 (q * 2) = Some (q * 2)" using f(1) by simp
  have e1: "(if dn - r \<le> r
      then do { q \<leftarrow> checked_u 128 (q * 2 + 1); Some (q, r - (dn - r)) }
      else Some (q * 2, r + r)) = Some (q2, r2)"
    using s2 f(2) by (auto simp: checked_u_def split: if_splits)
  have e2: "(if ?bit \<noteq> 0
      then (if dn - addend \<le> r2
            then do { q \<leftarrow> checked_u 128 (q2 + 1); Some (q, r2 - (dn - addend)) }
            else Some (q2, r2 + addend))
      else Some (q2, r2)) = Some (q3, r3)"
    using s3 f(3) by (auto simp: checked_u_def split: if_splits)
  have "muldiv_loop (Suc i) b dn addend q r = muldiv_loop i b dn addend q3 r3"
    by (simp only: muldiv_loop.simps e0 e1 e2 bind.bind_lunit prod.case)
  also have "\<dots> = Some (b * addend div dn, b * addend mod dn)"
    using Suc.IH 3 Suc.prems(2,4) by blast
  finally show ?case .
qed

lemma muldiv_split:
  assumes "0 < (dn :: nat)"
  shows "a * b div dn = a div dn * b + b * (a mod dn) div dn" "a * b mod dn = b * (a mod dn) mod dn"
proof -
  have "a * b = (a div dn * dn + a mod dn) * b" by (simp only: div_mult_mod_eq)
  also have "\<dots> = b * (a mod dn) + dn * (a div dn * b)"
    by (simp only: distrib_right mult.commute mult.left_commute add.commute distrib_left)
  finally have *: "a * b = b * (a mod dn) + dn * (a div dn * b)" .
  show "a * b div dn = a div dn * b + b * (a mod dn) div dn" using assms by (simp add: *)
  show "a * b mod dn = b * (a mod dn) mod dn" by (simp add: *)
qed

lemma unsigned_muldiv_spec:
  assumes "0 < dn" "b < 2 ^ 128"
  shows "unsigned_muldiv a b dn =
    (if a * b div dn < 2 ^ 128 then Some (a * b div dn, a * b mod dn) else None)"
proof (cases "a * b < 2 ^ 128")
  case True
  moreover from this have "a * b div dn < 2 ^ 128" by (rule le_less_trans [OF div_le_dividend])
  ultimately show ?thesis by (simp add: unsigned_muldiv_def checked_u_def fits_u_def)
next
  case False
  have "muldiv_loop 128 b dn (a mod dn) 0 0 = Some (b * (a mod dn) div dn, b * (a mod dn) mod dn)"
    using assms by (intro muldiv_loop_spec) (simp_all add: fits_u_def)
  then show ?thesis
    using False assms muldiv_split [OF assms(1), of a b]
    by (auto simp: unsigned_muldiv_def checked_u_def fits_u_def simp del: muldiv_loop.simps)
qed

section \<open>Rounding\<close>

definition round_to :: "rounding \<Rightarrow> rat \<Rightarrow> int" where
  "round_to rnd x =
     (case rnd of
        Zero \<Rightarrow> if x < 0 then \<lceil>x\<rceil> else \<lfloor>x\<rfloor>
      | Infinity \<Rightarrow> if x < 0 then \<lfloor>x\<rfloor> else \<lceil>x\<rceil>
      | Down \<Rightarrow> \<lfloor>x\<rfloor>
      | Up \<Rightarrow> \<lceil>x\<rceil>
      | NearestAwayFromZero \<Rightarrow> if x < 0 then \<lceil>x - 1 / 2\<rceil> else \<lfloor>x + 1 / 2\<rfloor>)"

primrec mirror_mode :: "rounding \<Rightarrow> rounding" where
  "mirror_mode Zero = Zero"
| "mirror_mode Infinity = Infinity"
| "mirror_mode Down = Up"
| "mirror_mode Up = Down"
| "mirror_mode NearestAwayFromZero = NearestAwayFromZero"

lemma floor_half: "\<lfloor>1 / 2 :: rat\<rfloor> = 0"
  by (simp add: floor_unique)

lemma round_to_neg: "round_to rnd (- x) = - round_to (mirror_mode rnd) x"
  by (cases rnd; cases "x = 0")
    (auto simp: round_to_def ceiling_def floor_half algebra_simps not_less order_le_less)

lemma away_mirror: "away rnd True r d = away (mirror_mode rnd) False r d"
  by (cases rnd) (simp_all add: away_def)

lemma round_to_int: "round_to rnd (of_int k) = k"
proof -
  have "\<lfloor>of_int k + 1 / 2 :: rat\<rfloor> = k" "\<lceil>of_int k - 1 / 2 :: rat\<rceil> = k"
    by (simp_all add: floor_unique ceiling_unique)
  then show ?thesis by (cases rnd) (simp_all add: round_to_def)
qed

lemma round_to_quotient:
  assumes "0 < (d :: nat)"
  shows "round_to rnd (of_nat n / of_nat d) =
    int (if n mod d \<noteq> 0 \<and> away rnd False (n mod d) d then n div d + 1 else n div d)"
proof -
  let ?x = "of_nat n / of_nat d :: rat" and ?q = "n div d" and ?r = "n mod d"
  have "n = ?q * d + ?r" by simp
  then have "(of_nat n :: rat) = of_nat ?q * of_nat d + of_nat ?r"
    by (metis of_nat_add of_nat_mult)
  then have x: "?x = of_nat ?q + of_nat ?r / of_nat d"
    using assms by (simp add: field_simps)
  have r: "0 \<le> (of_nat ?r / of_nat d :: rat)" "(of_nat ?r / of_nat d :: rat) < 1"
    using assms by simp_all
  have nn: "\<not> ?x < 0" by (simp add: not_less)
  have fl: "\<lfloor>?x\<rfloor> = int ?q" using r unfolding x by (intro floor_unique) simp_all
  have ce: "\<lceil>?x\<rceil> = int (if ?r = 0 then ?q else ?q + 1)"
  proof (cases "?r = 0")
    case True
    then show ?thesis unfolding x by simp
  next
    case False
    then have "0 < (of_nat ?r / of_nat d :: rat)" using assms by simp
    with False r show ?thesis unfolding x by (intro ceiling_unique) simp_all
  qed
  have half: "d - ?r \<le> ?r \<longleftrightarrow> 1 / 2 \<le> (of_nat ?r / of_nat d :: rat)"
  proof -
    have "d - ?r \<le> ?r \<longleftrightarrow> d \<le> 2 * ?r" by linarith
    also have "\<dots> \<longleftrightarrow> (of_nat d :: rat) \<le> of_nat (2 * ?r)" by (simp only: of_nat_le_iff)
    also have "\<dots> \<longleftrightarrow> 1 / 2 \<le> (of_nat ?r / of_nat d :: rat)" using assms by (simp add: field_simps)
    finally show ?thesis .
  qed
  have ne: "\<lfloor>?x + 1 / 2\<rfloor> = int (if d - ?r \<le> ?r then ?q + 1 else ?q)"
  proof (cases "d - ?r \<le> ?r")
    case True
    then have "of_int (int ?q + 1) \<le> ?x + 1 / 2" "?x + 1 / 2 < of_int (int ?q + 1) + 1"
      using half r unfolding x by (simp_all add: field_simps)
    with True show ?thesis by (simp add: floor_unique)
  next
    case False
    then have "of_int (int ?q) \<le> ?x + 1 / 2" "?x + 1 / 2 < of_int (int ?q) + 1"
      using half r unfolding x of_int_of_nat_eq by linarith+
    with False show ?thesis by (simp add: floor_unique)
  qed
  have "d - ?r \<le> ?r \<Longrightarrow> ?r \<noteq> 0" using assms by linarith
  with nn fl ce ne show ?thesis by (cases rnd) (auto simp: round_to_def away_def)
qed

lemma signed_result:
  "(if neg \<and> Q = 2 ^ 127 then Some (- (2 ^ 127))
    else do { r \<leftarrow> checked_s 128 (int Q); Some (if neg then - r else r) }) =
   checked_s 128 (if neg then - int Q else int Q)"
  by (cases neg) (auto simp: checked_s_def fits_s_def)

lemma checked_u_if:
  "fits_u 128 q \<Longrightarrow> (if P then checked_u 128 (q + 1) else Some q) = checked_u 128 (if P then q + 1 else q)"
  by (simp add: checked_u_def)

lemma too_big: "\<not> fits_u 128 Q \<Longrightarrow> \<not> fits_s 128 (if neg then - int Q else int Q)"
  by (simp add: fits_u_def fits_s_def)

lemma muldiv_rnd_spec:
  assumes "fits_s 128 a" "fits_s 128 b" "fits_s 128 c"
  shows "muldiv_rnd a b c rnd =
    (if c = 0 then None else checked_s 128 (round_to rnd (of_int (a * b) / of_int c)))"
proof (cases "c = 0")
  case True
  then show ?thesis by (simp add: muldiv_rnd_def)
next
  case False
  let ?neg = "((a < 0) \<noteq> (b < 0)) \<noteq> (c < 0)" and ?n = "nat \<bar>a\<bar> * nat \<bar>b\<bar>" and ?d = "nat \<bar>c\<bar>"
  let ?x = "of_nat ?n / of_nat ?d :: rat" and ?q = "?n div ?d" and ?r = "?n mod ?d"
  define Q where "Q = (if ?r \<noteq> 0 \<and> away rnd ?neg ?r ?d then ?q + 1 else ?q)"
  have d: "0 < ?d" using False by simp
  have b: "nat \<bar>b\<bar> < 2 ^ 128" using assms(2) by (auto simp: fits_s_def nat_less_iff)
  have "of_int (a * b) / of_int c = (if ?neg then - ?x else ?x)"
    by (auto simp: of_nat_nat abs_if)
  then have spec: "round_to rnd (of_int (a * b) / of_int c) = (if ?neg then - int Q else int Q)"
    unfolding Q_def using round_to_quotient [OF d, of rnd ?n]
      round_to_quotient [OF d, of "mirror_mode rnd" ?n]
    by (cases ?neg) (simp_all only: round_to_neg away_mirror if_True if_False not_False_eq_True)
  have "?q \<le> Q" by (simp add: Q_def)
  have m: "muldiv_rnd a b c rnd =
      do {
        (quot, remainder) \<leftarrow> unsigned_muldiv (nat \<bar>a\<bar>) (nat \<bar>b\<bar>) ?d;
        q \<leftarrow> (if remainder \<noteq> 0 \<and> away rnd ?neg remainder ?d
             then checked_u 128 (quot + 1) else Some quot);
        checked_s 128 (if ?neg then - int q else int q) }"
    using False by (simp only: muldiv_rnd_def Let_def if_False signed_result)
  show ?thesis
  proof (cases "?q < 2 ^ 128")
    case True
    have "(if ?r \<noteq> 0 \<and> away rnd ?neg ?r ?d then checked_u 128 (?q + 1) else Some ?q) =
        checked_u 128 Q"
      unfolding Q_def by (rule checked_u_if) (use True in \<open>simp only: fits_u_def\<close>)
    then have "muldiv_rnd a b c rnd =
        do { q \<leftarrow> checked_u 128 Q; checked_s 128 (if ?neg then - int q else int q) }"
      using True by (simp only: m unsigned_muldiv_spec [OF d b] if_True bind.bind_lunit prod.case)
    moreover have "\<not> fits_s 128 (if ?neg then - int Q else int Q)" if "\<not> fits_u 128 Q"
      using that too_big by simp
    ultimately show ?thesis unfolding spec using False
      by (cases "fits_u 128 Q") (simp_all only: checked_u_def if_True if_False bind.bind_lunit
          bind.bind_lzero checked_s_eq_None [symmetric] not_False_eq_True)
  next
    case q: False
    then have "\<not> fits_u 128 Q" using \<open>?q \<le> Q\<close> unfolding fits_u_def by linarith
    then have "\<not> fits_s 128 (if ?neg then - int Q else int Q)" using too_big by simp
    moreover have "muldiv_rnd a b c rnd = None"
      using q by (simp only: m unsigned_muldiv_spec [OF d b] if_False bind.bind_lzero)
    ultimately show ?thesis unfolding spec using False by (simp only: checked_s_def if_False)
  qed
qed

text \<open>
  C4. The primitive under every rescale: for 128-bit operands \<^verbatim>\<open>muldiv_rnd\<close> returns
  \<open>a * b / c\<close> rounded once by the requested mode, although the product may need 256
  bits, and refuses exactly a zero divisor or a result outside \<^verbatim>\<open>i128\<close>.
\<close>

theorem muldiv_rnd_exact:
  assumes "fits_s 128 a" "fits_s 128 b" "fits_s 128 c"
  shows "muldiv_rnd a b c rnd =
    (if c = 0 then None else checked_s 128 (round_to rnd (of_int (a * b) / of_int c)))"
  using assms by (rule muldiv_rnd_spec)

theorem muldiv_rnd_exact_witness:
  "muldiv_rnd (2 ^ 120) (3 * 2 ^ 120) (2 ^ 121) Down = Some (3 * 2 ^ 119)"
proof -
  have "of_int (2 ^ 120 * (3 * 2 ^ 120)) / of_int (2 ^ 121) = (of_int (3 * 2 ^ 119) :: rat)" by simp
  then show ?thesis
    using muldiv_rnd_exact [of "2 ^ 120" "3 * 2 ^ 120" "2 ^ 121" Down]
    by (simp only: round_to_int) (simp add: fits_s_def checked_s_def)
qed

section \<open>Rescaling and comparing timestamps\<close>

definition base_value :: "rational \<Rightarrow> rat" where
  "base_value tb = of_int (sint (num tb)) / of_int (sint (den tb))"

definition usable :: "rational \<Rightarrow> bool" where
  "usable tb \<longleftrightarrow> num tb \<noteq> 0 \<and> den tb \<noteq> 0"

lemma finite_base_None [simp]: "finite_base tb = None \<longleftrightarrow> \<not> usable tb"
  by (auto simp: finite_base_def usable_def Let_def)

lemma sint_nonzero: "(x :: i32) \<noteq> 0 \<Longrightarrow> sint x \<noteq> 0"
  using word_eq_sint_iff [of x 0] by simp

lemma finite_base_Some:
  assumes "finite_base tb = Some (n, d)"
  shows "0 < d" "n \<noteq> 0" "of_int n / of_int d = base_value tb" "\<bar>n\<bar> \<le> 2 ^ 31" "d \<le> 2 ^ 31" "usable tb"
  using assms sint_bounds [of "num tb"] sint_bounds [of "den tb"] sint_nonzero [of "den tb"]
    sint_nonzero [of "num tb"]
  by (auto simp: finite_base_def usable_def base_value_def Let_def split: if_splits)

lemma base_value_nonzero: "usable tb \<Longrightarrow> base_value tb \<noteq> 0"
  using sint_nonzero unfolding usable_def base_value_def divide_eq_0_iff of_int_eq_0_iff by blast

lemma abs_prod_le:
  "\<bar>a\<bar> \<le> x \<Longrightarrow> \<bar>b\<bar> \<le> y \<Longrightarrow> \<bar>a * b\<bar> \<le> x * (y :: int)"
  unfolding abs_mult by (intro mult_mono) auto

lemma fits_s_abs: "0 < w \<Longrightarrow> \<bar>x\<bar> < 2 ^ (w - 1) \<Longrightarrow> fits_s w x"
  by (auto simp: fits_s_def)

lemma round_to_bound: "\<bar>of_int (round_to rnd x) - x\<bar> < 1"
proof -
  have "of_int \<lfloor>x\<rfloor> \<le> x" "x < of_int \<lfloor>x\<rfloor> + 1" "x \<le> of_int \<lceil>x\<rceil>" "of_int \<lceil>x\<rceil> < x + 1"
    "of_int \<lfloor>x + 1 / 2\<rfloor> \<le> x + 1 / 2" "x + 1 / 2 < of_int \<lfloor>x + 1 / 2\<rfloor> + 1"
    "x - 1 / 2 \<le> of_int \<lceil>x - 1 / 2\<rceil>" "of_int \<lceil>x - 1 / 2\<rceil> < x - 1 / 2 + 1"
    by linarith+
  then show ?thesis by (cases rnd) (auto simp: round_to_def abs_less_iff simp del: le_of_int_ceiling of_int_floor_le)
qed

lemma fits_s_round_to:
  assumes "\<bar>x\<bar> < 2 ^ 126"
  shows "fits_s 128 (round_to rnd x)"
proof -
  have "\<bar>of_int (round_to rnd x) :: rat\<bar> < 2 ^ 126 + 1"
    using round_to_bound [of rnd x] assms by linarith
  then have "of_int \<bar>round_to rnd x\<bar> < (of_int (2 ^ 126 + 1) :: rat)" by simp
  then have "\<bar>round_to rnd x\<bar> < 2 ^ 126 + 1" by (simp only: of_int_less_iff)
  then show ?thesis by (intro fits_s_abs) simp_all
qed

lemma rescale_factors_spec:
  assumes "usable from" "usable to"
  shows "\<exists>b c. rescale_factors from to = Some (b, c) \<and> c \<noteq> 0 \<and>
    of_int b / of_int c = base_value from / base_value to \<and> \<bar>b\<bar> \<le> 2 ^ 62 \<and> \<bar>c\<bar> \<le> 2 ^ 62"
proof -
  obtain fn fd tn td where e: "finite_base from = Some (fn, fd)" "finite_base to = Some (tn, td)"
    using assms by (metis finite_base_None option.exhaust surj_pair)
  note F = finite_base_Some [OF e(1)] and T = finite_base_Some [OF e(2)]
  have "of_int (fn * td) / of_int (fd * tn) = (base_value from / base_value to :: rat)"
    unfolding F(3) [symmetric] T(3) [symmetric] by simp
  moreover have "\<bar>fn * td\<bar> \<le> 2 ^ 31 * 2 ^ 31" "\<bar>fd * tn\<bar> \<le> 2 ^ 31 * 2 ^ 31"
    using F T by (intro abs_prod_le; simp)+
  ultimately show ?thesis using e F T by (simp add: rescale_factors_def)
qed

lemma muldiv_ticks:
  assumes "fits_s 64 t" "\<bar>b\<bar> \<le> 2 ^ 62" "\<bar>c\<bar> \<le> 2 ^ 62" "c \<noteq> 0"
  shows "muldiv_rnd t b c rnd = Some (round_to rnd (of_int t * (of_int b / of_int c)))"
proof -
  have t: "\<bar>t\<bar> \<le> 2 ^ 63" using assms(1) by (auto simp: fits_s_def)
  have "fits_s 128 t" "fits_s 128 b" "fits_s 128 c"
    using t assms by (intro fits_s_abs; simp)+
  note S = muldiv_rnd_spec [OF this, of rnd]
  have tb: "\<bar>t * b\<bar> \<le> 2 ^ 63 * 2 ^ 62" using abs_prod_le [OF t assms(2)] .
  have "\<bar>of_int (t * b) / of_int c\<bar> = of_int \<bar>t * b\<bar> / (of_int \<bar>c\<bar> :: rat)" by simp
  also have "\<dots> \<le> of_int \<bar>t * b\<bar> / 1"
    proof (rule divide_left_mono)
    show "1 \<le> rat_of_int \<bar>c\<bar>" using assms(4) unfolding of_int_1_le_iff by linarith
  qed (use assms(4) in simp_all)
  also have "\<dots> \<le> of_int (2 ^ 63 * 2 ^ 62)" unfolding div_by_1 of_int_le_iff by (rule tb)
  also have "\<dots> < 2 ^ 126" by simp
  finally have "fits_s 128 (round_to rnd (of_int (t * b) / of_int c))" by (rule fits_s_round_to)
  then show ?thesis unfolding S using assms(4) by (simp add: checked_s_def)
qed

text \<open>
  C28. Rescaling is exact up to the one requested rounding: for every tick count and every
  pair of bases that name a tick length, \<^verbatim>\<open>rescale\<close> returns the rounded
  \<open>t * from / to\<close> clamped to 64 bits and \<^verbatim>\<open>checked_rescale\<close> returns it exactly when it
  fits; with an absent timestamp or an unusable base neither returns a tick count.
\<close>

theorem rescale_exact:
  assumes "fits_s 64 t"
    and "exact = round_to rnd (of_int t * (base_value from / base_value to))"
  shows "rescale (Timestamp (Some t)) from to rnd =
      (if usable from \<and> usable to then Timestamp (Some (sat_s 64 exact)) else TS_NONE) \<and>
    checked_rescale (Timestamp (Some t)) from to rnd =
      (if usable from \<and> usable to \<and> fits_s 64 exact then Some (Timestamp (Some exact)) else None) \<and>
    rescale TS_NONE from to rnd = TS_NONE \<and> checked_rescale TS_NONE from to rnd = None"
proof -
  consider "\<not> usable from \<or> \<not> usable to" | "usable from" "usable to" by blast
  then show ?thesis
  proof cases
    case 1
    then have "rescale_factors from to = None"
      by (cases "finite_base from"; cases "finite_base to")
        (auto simp: rescale_factors_def dest: finite_base_Some(6) simp del: finite_base_None)
    with 1 show ?thesis by (auto simp: rescale_def checked_rescale_def)
  next
    case 2
    then obtain b c where bc: "rescale_factors from to = Some (b, c)" "c \<noteq> 0"
      "of_int b / of_int c = base_value from / base_value to" "\<bar>b\<bar> \<le> 2 ^ 62" "\<bar>c\<bar> \<le> 2 ^ 62"
      using rescale_factors_spec by blast
    with 2 show ?thesis
      by (simp add: rescale_def checked_rescale_def muldiv_ticks [OF assms(1)] clamp_i64_def
          assms(2) checked_s_def timestamp_new_def)
  qed
qed

theorem rescale_exact_witness:
  "rescale (Timestamp (Some 3003)) (rational_new 1 90000) (rational_new 1001 30000) Zero =
    Timestamp (Some (sat_s 64 (round_to Zero 1)))"
proof -
  have "base_value (rational_new 1 90000) / base_value (rational_new 1001 30000) = 1 / 3003"
    by (simp add: base_value_def rational_new_def)
  moreover have "usable (rational_new 1 90000)" "usable (rational_new 1001 30000)" "fits_s 64 3003"
    by (simp_all add: usable_def rational_new_def fits_s_def)
  ultimately show ?thesis using rescale_exact [OF _ refl, of 3003] by simp
qed

lemma cmp_divide: "0 < k \<Longrightarrow> cmp (of_int x / of_int k :: rat) (of_int y / of_int k) = cmp x y"
  by (simp add: cmp_def divide_less_cancel)

text \<open>
  Comparing two timestamps in different bases is the exact comparison of the seconds
  they stand for, and is refused only when one is absent or a base names no tick length.
\<close>

theorem ts_compare_exact:
  "ts_compare s sb ot ob =
     (case (ticks s, ticks ot) of
        (Some a, Some b) \<Rightarrow> if usable sb \<and> usable ob
          then Some (cmp (of_int a * base_value sb) (of_int b * base_value ob)) else None
      | _ \<Rightarrow> None)"
proof -
  have "finite_base sb = Some (an, ad) \<Longrightarrow> finite_base ob = Some (bn, bd) \<Longrightarrow>
      cmp (a * an * bd) (b * bn * ad) = cmp (of_int a * base_value sb) (of_int b * base_value ob)"
    for a b an ad bn bd
  proof -
    assume e: "finite_base sb = Some (an, ad)" "finite_base ob = Some (bn, bd)"
    note S = finite_base_Some [OF e(1)] and O = finite_base_Some [OF e(2)]
    have "of_int a * base_value sb = of_int (a * an * bd) / (of_int (ad * bd) :: rat)"
      "of_int b * base_value ob = of_int (b * bn * ad) / (of_int (ad * bd) :: rat)"
      unfolding S(3) [symmetric] O(3) [symmetric] using S(1) O(1) by (simp_all add: field_simps)
    then show ?thesis by (simp only: cmp_divide mult_pos_pos [OF S(1) O(1)])
  qed
  then show ?thesis
    by (cases "ticks s"; cases "ticks ot"; cases "finite_base sb"; cases "finite_base ob")
      (auto simp: ts_compare_def dest: finite_base_Some(6) finite_base_None [THEN iffD1]
        simp del: finite_base_None)
qed

section \<open>Exact durations\<close>

definition dvalue :: "duration \<Rightarrow> rat" where
  "dvalue x = of_int (numerator x) / of_int (denominator x)"

definition duration_ok :: "duration \<Rightarrow> bool" where
  "duration_ok x \<longleftrightarrow> 0 < denominator x \<and> coprime (numerator x) (denominator x) \<and>
     fits_s 128 (numerator x) \<and> fits_s 128 (denominator x)"

lemma gcd_loop_eq: "0 \<le> a \<Longrightarrow> 0 \<le> b \<Longrightarrow> gcd_loop a b = gcd a b"
proof (induction a b rule: gcd_loop.induct)
  case (1 a b)
  show ?case
  proof (cases "b = 0")
    case True
    with 1 show ?thesis by (simp add: gcd_loop.simps [of a])
  next
    case False
    with 1 have "gcd_loop b (a mod b) = gcd b (a mod b)" by (simp add: smod_nonneg)
    with False 1 show ?thesis
      by (simp add: gcd_loop.simps [of a] smod_nonneg gcd_red_int [of a b])
  qed
qed

lemma gcd_i128_eq: "0 \<le> a \<Longrightarrow> 0 < b \<Longrightarrow> gcd_i128 a b = gcd a b"
proof -
  assume "0 \<le> a" "0 < b"
  moreover have "0 < gcd a b" using \<open>0 < b\<close> by simp
  then have "gcd a b = 1" if "\<not> 1 < gcd a b" using that by linarith
  ultimately show ?thesis by (simp add: gcd_i128_def gcd_loop_eq Let_def)
qed

lemma gcd_smod: "gcd \<bar>n smod d\<bar> d = gcd n (d :: int)"
proof -
  have "gcd d (n smod d) = gcd d ((n sdiv d) * d + n smod d)" by (simp only: gcd_add_mult)
  also have "(n sdiv d) * d + n smod d = n"
    by (metis add.commute diff_add_cancel minus_sdiv_mult_eq_smod)
  finally show ?thesis by (simp add: gcd.commute)
qed

lemma gcd_i128_rem: "0 < d \<Longrightarrow> gcd_i128 \<bar>n smod d\<bar> d = gcd n d"
  by (simp only: gcd_i128_eq abs_ge_zero gcd_smod)

lemma from_ratio_spec:
  assumes "0 < d" "fits_s 128 n" "fits_s 128 d"
  shows "duration_ok (from_ratio n d)" "dvalue (from_ratio n d) = of_int n / of_int d"
    "\<bar>numerator (from_ratio n d)\<bar> \<le> \<bar>n\<bar>" "denominator (from_ratio n d) \<le> d"
proof -
  have "duration_ok (from_ratio n d) \<and> dvalue (from_ratio n d) = of_int n / of_int d \<and>
    \<bar>numerator (from_ratio n d)\<bar> \<le> \<bar>n\<bar> \<and> denominator (from_ratio n d) \<le> d"
  proof (cases "n = 0")
    case True
    with assms show ?thesis
      by (simp add: from_ratio_def DURATION_ZERO_def duration_ok_def dvalue_def fits_s_def)
  next
    case False
    let ?g = "gcd n d"
    have g: "0 < ?g" using False by simp
    then have g1: "1 \<le> ?g" by linarith
    have e: "from_ratio n d = \<lparr>numerator = n div ?g, denominator = d div ?g\<rparr>"
      using False assms g by (simp add: from_ratio_def gcd_i128_rem sdiv_dvd Let_def)
    obtain n' d' where nd: "n = n' * ?g" "d = d' * ?g" "coprime n' d'"
      using gcd_coprime_exists [of n d] g by auto
    have q: "n div ?g = n'" "d div ?g = d'" using nd g by (metis nonzero_mult_div_cancel_right less_irrefl)+
    have an: "\<bar>n'\<bar> * ?g = \<bar>n\<bar>" using nd(1) by (metis abs_mult abs_gcd_int)
    have le: "\<bar>n'\<bar> \<le> \<bar>n\<bar>" "0 < d'" "d' \<le> d"
    proof -
      have "\<bar>n'\<bar> * 1 \<le> \<bar>n'\<bar> * ?g" using g1 by (intro mult_left_mono) simp_all
      also have "\<dots> = \<bar>n\<bar>" by (rule an)
      finally show "\<bar>n'\<bar> \<le> \<bar>n\<bar>" by simp
      have "0 < d' * ?g" using nd(2) assms(1) by simp
      then show "0 < d'" using g by (simp add: zero_less_mult_iff)
      then have "d' * 1 \<le> d' * ?g" using g1 by (intro mult_left_mono) simp_all
      then show "d' \<le> d" using nd(2) by simp
    qed
    have "fits_s 128 n'"
    proof (cases "?g = 1")
      case True
      then show ?thesis using nd(1) assms(2) by simp
    next
      case False
      then have "2 \<le> ?g" using g by linarith
      then have "\<bar>n'\<bar> * 2 \<le> \<bar>n'\<bar> * ?g" by (intro mult_left_mono) auto
      also have "\<dots> = \<bar>n\<bar>" by (rule an)
      finally show ?thesis using assms(2) by (auto simp: fits_s_def)
    qed
    moreover have "fits_s 128 d'" using le assms(3) by (auto simp: fits_s_def)
    moreover have "(of_int n' / of_int d' :: rat) = of_int (n' * ?g) / of_int (d' * ?g)"
      using g by simp
    then have "(of_int n' / of_int d' :: rat) = of_int n / of_int d"
      by (simp only: nd(1,2) [symmetric])
    ultimately show ?thesis
      using le nd(3) by (simp add: e q duration_ok_def dvalue_def)
  qed
  then show "duration_ok (from_ratio n d)" "dvalue (from_ratio n d) = of_int n / of_int d"
    "\<bar>numerator (from_ratio n d)\<bar> \<le> \<bar>n\<bar>" "denominator (from_ratio n d) \<le> d" by blast+
qed

subsection \<open>Comparison by continued fractions\<close>

lemma div_less_cross: "0 < b \<Longrightarrow> 0 < d \<Longrightarrow> a div b < c div d \<Longrightarrow> a * d < c * (b :: nat)"
proof -
  assume pos: "0 < b" "0 < d" and lt: "a div b < c div d"
  have "a < Suc (a div b) * b" using dividend_less_div_times [OF pos(1), of a] by simp
  also have "\<dots> \<le> c div d * b" using lt by (intro mult_right_mono) simp_all
  finally have "a * d < c div d * b * d" using pos by simp
  also have "\<dots> = c div d * d * b" by simp
  also have "\<dots> \<le> c * b" by (intro mult_right_mono) simp_all
  finally show ?thesis .
qed

lemma cross_rem:
  fixes a :: nat
  assumes "a = l * b + r" "c = l * d + s"
  shows "cmp (a * d) (c * b) = cmp (r * d) (s * b)" "cmp (c * b) (a * d) = cmp (s * b) (r * d)"
proof -
  have "a * d = l * b * d + r * d" "c * b = l * b * d + s * b"
    unfolding assms by (simp_all add: algebra_simps)
  then show "cmp (a * d) (c * b) = cmp (r * d) (s * b)" "cmp (c * b) (a * d) = cmp (s * b) (r * d)"
    by (simp_all only: cmp_def add_less_cancel_left add_left_cancel)
qed

lemma cmp_sgn: "sgn x \<noteq> sgn y \<Longrightarrow> cmp x y = cmp (sgn x) (sgn (y :: int))"
  by (auto simp: cmp_def sgn_if)

lemma sgn_mult_pos: "0 < d \<Longrightarrow> sgn (a * d) = sgn (a :: int)"
  by (simp add: sgn_mult)

lemma cmp_nonnegative_ratios_spec:
  "0 < b \<Longrightarrow> 0 < d \<Longrightarrow> cmp_nonnegative_ratios a b c d rv =
     Some (if rv then cmp (c * b) (a * d) else cmp (a * d) (c * b))"
proof (induction a b c d rv rule: cmp_nonnegative_ratios.induct)
  case (1 a b c d rv)
  let ?l = "a div b" and ?r = "a mod b" and ?s = "c mod d"
  consider "?l < c div d" | "c div d < ?l" | "?l = c div d" by linarith
  then show ?case
  proof cases
    case 1
    then show ?thesis
      using div_less_cross [OF \<open>0 < b\<close> \<open>0 < d\<close> 1] \<open>0 < b\<close> \<open>0 < d\<close>
      by (simp add: cmp_nonnegative_ratios.simps [of a b] cmp_def)
  next
    case 2
    then show ?thesis
      using div_less_cross [OF \<open>0 < d\<close> \<open>0 < b\<close> 2] \<open>0 < b\<close> \<open>0 < d\<close>
      by (simp add: cmp_nonnegative_ratios.simps [of a b] cmp_def)
  next
    case 3
    have "a = ?l * b + ?r" "c = ?l * d + ?s" by (simp, simp add: 3)
    note c = cross_rem [OF this]
    have IH: "cmp_nonnegative_ratios b ?r d ?s (\<not> rv) =
        Some (if \<not> rv then cmp (d * ?r) (b * ?s) else cmp (b * ?s) (d * ?r))" if "?r \<noteq> 0" "?s \<noteq> 0"
      by (rule 1(1) [OF _ refl refl _ refl refl]) (use that 3 \<open>0 < b\<close> \<open>0 < d\<close> in simp_all)
    have u: "cmp_nonnegative_ratios a b c d rv =
       (if ?r = 0 \<and> ?s = 0 then Some Equal
        else if ?r = 0 then Some (if rv then Greater else Less)
        else if ?s = 0 then Some (if rv then Less else Greater)
        else cmp_nonnegative_ratios b ?r d ?s (\<not> rv))"
      using 3 \<open>0 < b\<close> \<open>0 < d\<close> by (subst cmp_nonnegative_ratios.simps) (simp add: Let_def)
    show ?thesis
    proof (cases "?r = 0 \<or> ?s = 0")
      case True
      then show ?thesis unfolding c u using \<open>0 < b\<close> \<open>0 < d\<close> by (auto simp: cmp_def)
    next
      case False
      then have "?r \<noteq> 0" "?s \<noteq> 0" by auto
      note IH = IH [OF this]
      show ?thesis unfolding c u IH using False
        by (cases rv) (simp_all add: mult.commute)
    qed
  qed
qed

lemma cmp_dvalue:
  assumes "0 < denominator x" "0 < denominator y"
  shows "cmp (dvalue x) (dvalue y) =
    cmp (numerator x * denominator y) (numerator y * denominator x)"
proof -
  have "dvalue x = of_int (numerator x * denominator y) / of_int (denominator x * denominator y)"
    "dvalue y = of_int (numerator y * denominator x) / of_int (denominator x * denominator y)"
    using assms by (simp_all add: dvalue_def field_simps)
  then show ?thesis by (simp only: cmp_divide mult_pos_pos [OF assms])
qed

lemma duration_cmp_value:
  assumes "duration_ok x" "duration_ok y"
  shows "duration_cmp x y = Some (cmp (dvalue x) (dvalue y))"
proof -
  let ?a = "numerator x" and ?b = "denominator x" and ?c = "numerator y" and ?d = "denominator y"
  have d: "0 < ?b" "0 < ?d" using assms by (simp_all add: duration_ok_def)
  consider "0 < ?a" "0 < ?c" | "?a < 0" "?c < 0" | "?a = 0 \<or> ?c = 0 \<or> (0 < ?a) \<noteq> (0 < ?c)"
    by linarith
  then show ?thesis
  proof cases
    case 1
    then have "cmp (nat \<bar>?a\<bar> * nat ?d) (nat \<bar>?c\<bar> * nat ?b) = cmp (?a * ?d) (?c * ?b)"
      using d by (simp add: cmp_def nat_mult_distrib [symmetric] nat_eq_iff zless_nat_conj)
    with 1 show ?thesis
      using d by (simp add: duration_cmp_def cmp_nonnegative_ratios_spec cmp_dvalue)
  next
    case 2
    then have "nat \<bar>?a\<bar> * nat ?d = nat (- (?a * ?d))" "nat \<bar>?c\<bar> * nat ?b = nat (- (?c * ?b))"
      using d by (simp_all add: nat_mult_distrib [symmetric])
    moreover have "?a * ?d < 0" "?c * ?b < 0" using 2 d by (simp_all add: mult_neg_pos)
    ultimately have "cmp (nat \<bar>?c\<bar> * nat ?b) (nat \<bar>?a\<bar> * nat ?d) = cmp (?a * ?d) (?c * ?b)"
      by (auto simp: cmp_def)
    with 2 show ?thesis
      using d by (simp add: duration_cmp_def cmp_nonnegative_ratios_spec cmp_dvalue)
  next
    case 3
    show ?thesis
    proof (cases "sgn ?a = sgn ?c")
      case True
      with 3 have "?a = 0 \<and> ?c = 0" by (auto simp: sgn_if split: if_splits)
      then show ?thesis using d by (simp add: duration_cmp_def dvalue_def cmp_def)
    next
      case False
      then show ?thesis
        using d cmp_sgn [of "?a * ?d" "?c * ?b"]
        by (simp add: duration_cmp_def Let_def cmp_dvalue sgn_mult_pos)
    qed
  qed
qed

interpretation duration_ord: total_comparator "\<lambda>x y. the (duration_cmp x y)" duration_ok dvalue
  by unfold_locales (simp add: duration_cmp_value)

text \<open>
  \<^verbatim>\<open>Duration::cmp\<close> never cross-multiplies, yet on canonical durations it always
  returns and its answer is the comparison of the two rational values; so it is reflexive,
  antisymmetric and transitive, and equal means the same pair.
\<close>

theorem duration_cmp_total_order:
  assumes "duration_ok x" "duration_ok y" "duration_ok z"
  shows "duration_cmp x y = Some (cmp (dvalue x) (dvalue y)) \<and>
    the (duration_cmp y x) = reverse (the (duration_cmp x y)) \<and>
    (duration_cmp x y = Some r \<and> duration_cmp y z = Some r \<longrightarrow> duration_cmp x z = Some r) \<and>
    (duration_cmp x y = Some Equal \<longleftrightarrow> x = y)"
proof -
  have "dvalue x = dvalue y \<longleftrightarrow> x = y"
  proof
    assume "dvalue x = dvalue y"
    then have "Fract (numerator x) (denominator x) = Fract (numerator y) (denominator y)"
      by (simp add: dvalue_def Fract_of_int_quotient)
    moreover have "quotient_of (Fract (numerator v) (denominator v)) = (numerator v, denominator v)"
      if "duration_ok v" for v using that by (simp add: duration_ok_def quotient_of_Fract normalize_stable)
    ultimately have "(numerator x, denominator x) = (numerator y, denominator y)"
      using assms by metis
    then show "x = y" by simp
  qed simp
  then show ?thesis
    using duration_cmp_value assms duration_ord.compare_reverse [of x y]
      duration_ord.compare_trans [of x y z r] by auto
qed

theorem duration_cmp_total_order_witness:
  "duration_cmp (from_ratio 1 3) (from_ratio 2 5) = Some Less"
proof -
  have ok: "duration_ok (from_ratio 1 3)" "duration_ok (from_ratio 2 5)"
    by (rule from_ratio_spec; simp add: fits_s_def)+
  have "dvalue (from_ratio 1 3) = 1 / 3" "dvalue (from_ratio 2 5) = 2 / 5"
    using from_ratio_spec(2) [of 3 1] from_ratio_spec(2) [of 5 2] by (simp_all add: fits_s_def)
  then show ?thesis
    using duration_cmp_total_order [OF ok ok(1)] by (simp add: cmp_def)
qed

subsection \<open>Exact addition and subtraction\<close>

definition combined :: "duration \<Rightarrow> duration \<Rightarrow> bool \<Rightarrow> rat" where
  "combined x y subtract = (if subtract then dvalue x - dvalue y else dvalue x + dvalue y)"

definition combined_num :: "duration \<Rightarrow> duration \<Rightarrow> bool \<Rightarrow> int \<Rightarrow> int \<Rightarrow> int" where
  "combined_num x y subtract X Y =
     (if subtract then numerator x * Y - numerator y * X else numerator x * Y + numerator y * X)"

lemma exact_factor: "0 < (g :: int) \<Longrightarrow> g dvd d \<Longrightarrow> 0 < d \<Longrightarrow> \<exists>k > 0. d = k * g"
  by (metis dvd_def mult.commute zero_less_mult_pos)

lemma fits_s_factor: "0 < (k :: int) \<Longrightarrow> fits_s w (x * k) \<Longrightarrow> fits_s w x"
proof -
  assume k: "0 < k" and f: "fits_s w (x * k)"
  show ?thesis
  proof (cases "0 \<le> x")
    case True
    then have "x * 1 \<le> x * k" using k by (intro mult_left_mono) simp_all
    then have "x < 2 ^ (w - 1)" using f unfolding fits_s_def by linarith
    moreover have "- (2 ^ (w - 1)) \<le> x"
      using True by (meson le_numeral_extra(3) neg_le_0_iff_le order_trans zero_le_numeral zero_le_power)
    ultimately show ?thesis by (simp add: fits_s_def)
  next
    case False
    then have "x * k \<le> x * 1" using k by (intro mult_left_mono_neg) simp_all
    then have "- (2 ^ (w - 1)) \<le> x" using f unfolding fits_s_def by linarith
    moreover have "x < 2 ^ (w - 1)"
      using False by (meson not_le order_less_le_trans zero_le_numeral zero_le_power)
    ultimately show ?thesis by (simp add: fits_s_def)
  qed
qed

lemma combined_value:
  assumes "0 < X" "0 < Y" "0 < (g :: int)" "denominator x = X * g" "denominator y = Y * g"
  shows "combined x y subtract = of_int (combined_num x y subtract X Y) / of_int (X * Y * g)"
  using assms by (simp add: combined_def combined_num_def dvalue_def field_simps)

lemma checked_combine_cases:
  assumes "0 < X" "0 < Y" "0 < g" "denominator x = X * g" "denominator y = Y * g"
    "g = gcd (denominator x) (denominator y)"
    and n: "n = combined_num x y subtract X Y"
  shows "checked_combine x y subtract =
    (if fits_s 128 (numerator x * Y) \<and> fits_s 128 (numerator y * X) \<and> fits_s 128 n
     then if n = 0 then Some DURATION_ZERO
          else let d = X * (denominator y sdiv gcd n g)
               in if fits_s 128 d then Some (from_ratio (n sdiv gcd n g) d) else None
     else None)"
proof -
  have pos: "0 \<le> denominator x" "0 < denominator y"
    unfolding assms(4,5) using assms(1-3) by simp_all
  have g: "gcd_i128 (denominator x) (denominator y) = g"
    by (simp only: assms(6) gcd_i128_eq [OF pos])
  have XY: "denominator x sdiv g = X" "denominator y sdiv g = Y"
    using assms(1-5) by (simp_all add: sdiv_nonneg)
  show ?thesis
    unfolding checked_combine_def Let_def g XY gcd_i128_rem [OF assms(3)] n combined_num_def
    by (simp add: checked_s_def)
qed

lemma checked_combine_sound:
  assumes "duration_ok x" "duration_ok y" "checked_combine x y subtract = Some z"
  shows "duration_ok z \<and> dvalue z = combined x y subtract"
proof -
  have pos: "0 < denominator x" "0 < denominator y" using assms by (simp_all add: duration_ok_def)
  define g where "g = gcd (denominator x) (denominator y)"
  have g: "0 < g" using pos by (simp add: g_def)
  obtain X Y where XY: "0 < X" "0 < Y" "denominator x = X * g" "denominator y = Y * g"
    using exact_factor [OF g] pos by (metis g_def gcd_dvd1 gcd_dvd2)
  define n where "n = combined_num x y subtract X Y"
  note C = checked_combine_cases [OF XY(1,2) g XY(3,4) g_def n_def]
  note V = combined_value [OF XY(1,2) g XY(3,4), of subtract, folded n_def]
  show ?thesis
  proof (cases "n = 0")
    case True
    then have "z = DURATION_ZERO" using assms(3) unfolding C by (simp split: if_splits)
    with True V show ?thesis
      by (simp add: DURATION_ZERO_def duration_ok_def dvalue_def fits_s_def)
  next
    case False
    define red where "red = gcd n g"
    have red: "0 < red" using g by (simp add: red_def)
    obtain G where G: "0 < G" "g = G * red"
      using exact_factor [OF red] g by (metis red_def gcd_dvd2)
    obtain N where N: "n = N * red" by (metis red_def gcd_dvd1 dvd_def mult.commute)
    have d: "denominator y sdiv red = Y * G" "n sdiv red = N"
      using red G XY by (simp_all add: N sdiv_dvd)
    have z: "fits_s 128 n" "fits_s 128 (X * (Y * G))" "z = from_ratio N (X * (Y * G))"
      using assms(3) False unfolding C red_def [symmetric] Let_def d by (auto split: if_splits)
    have "fits_s 128 N" using fits_s_factor red z(1) unfolding N by blast
    have p: "0 < X * (Y * G)" using XY G by simp
    have "of_int n / (of_int (X * Y * g) :: rat) = of_int N / of_int (X * (Y * G))"
      unfolding N G(2) using red by simp
    then show ?thesis
      using from_ratio_spec [OF p \<open>fits_s 128 N\<close> z(2)] V z(3) by simp
  qed
qed

definition small_duration :: "duration \<Rightarrow> bool" where
  "small_duration x \<longleftrightarrow> \<bar>numerator x\<bar> < 2 ^ 62 \<and> denominator x < 2 ^ 62"

lemma fits_prod_62: "\<bar>a\<bar> \<le> 2 ^ 62 \<Longrightarrow> \<bar>b\<bar> \<le> 2 ^ 62 \<Longrightarrow> \<bar>a * b\<bar> \<le> (2 ^ 124 :: int)"
  using abs_prod_le [of a "2 ^ 62" b "2 ^ 62"] by simp

lemma checked_combine_complete:
  assumes "duration_ok x" "duration_ok y" "small_duration x" "small_duration y"
  shows "checked_combine x y subtract \<noteq> None"
proof -
  have pos: "0 < denominator x" "0 < denominator y" using assms by (simp_all add: duration_ok_def)
  define g where "g = gcd (denominator x) (denominator y)"
  have g: "0 < g" using pos by (simp add: g_def)
  obtain X Y where XY: "0 < X" "0 < Y" "denominator x = X * g" "denominator y = Y * g"
    using exact_factor [OF g] pos by (metis g_def gcd_dvd1 gcd_dvd2)
  define n where "n = combined_num x y subtract X Y"
  note C = checked_combine_cases [OF XY(1,2) g XY(3,4) g_def n_def]
  have le: "X \<le> denominator x" "Y \<le> denominator y" using XY g by simp_all
  then have b: "\<bar>X\<bar> \<le> 2 ^ 62" "\<bar>Y\<bar> \<le> 2 ^ 62" "\<bar>numerator x\<bar> \<le> 2 ^ 62" "\<bar>numerator y\<bar> \<le> 2 ^ 62"
    using XY(1,2) assms(3,4) by (auto simp: small_duration_def)
  then have lr: "\<bar>numerator x * Y\<bar> \<le> 2 ^ 124" "\<bar>numerator y * X\<bar> \<le> 2 ^ 124"
    using fits_prod_62 by blast+
  then have "\<bar>n\<bar> < 2 ^ 127" by (auto simp: n_def combined_num_def)
  moreover have "\<bar>X * (denominator y sdiv gcd n g)\<bar> \<le> 2 ^ 124"
  proof (rule fits_prod_62 [OF b(1)])
    have "0 < gcd n g" using g by simp
    then have "denominator y sdiv gcd n g = denominator y div gcd n g"
      using pos by (simp add: sdiv_nonneg)
    moreover have "denominator y div gcd n g \<le> denominator y" "0 \<le> denominator y div gcd n g"
      using zdiv_mono2 [of "denominator y" 1 "gcd n g"] pos \<open>0 < gcd n g\<close>
        pos_imp_zdiv_nonneg_iff [of "gcd n g" "denominator y"] by (auto simp: int_one_le_iff_zero_less simp del: gcd_pos_int)
    ultimately show "\<bar>denominator y sdiv gcd n g\<bar> \<le> 2 ^ 62"
      using assms(4) by (simp add: small_duration_def)
  qed
  ultimately show ?thesis
    using lr unfolding C Let_def by (simp add: fits_s_abs)
qed

text \<open>
  Duration arithmetic is exact: a sum or difference that is returned is canonical and
  has the exact rational value, and it is always returned while the terms of the operands
  stay below \<open>2^62\<close> (every duration built from microseconds or container ticks of up
  to that size).
\<close>

theorem duration_arith_exact:
  assumes "duration_ok x" "duration_ok y"
  shows "(\<forall>z. duration_add x y = Some z \<longrightarrow> duration_ok z \<and> dvalue z = dvalue x + dvalue y) \<and>
    (\<forall>z. duration_sub x y = Some z \<longrightarrow> duration_ok z \<and> dvalue z = dvalue x - dvalue y) \<and>
    (small_duration x \<and> small_duration y \<longrightarrow> duration_add x y \<noteq> None \<and> duration_sub x y \<noteq> None)"
  using assms checked_combine_sound [of x y] checked_combine_complete [of x y]
  by (auto simp: duration_add_def duration_sub_def combined_def)

theorem duration_arith_exact_witness:
  "\<exists>z. duration_add (from_ratio 1 3) (from_ratio 1 6) = Some z \<and> dvalue z = 1 / 2"
proof -
  have ok: "duration_ok (from_ratio 1 3)" "duration_ok (from_ratio 1 6)"
    by (rule from_ratio_spec; simp add: fits_s_def)+
  have "small_duration (from_ratio 1 3)" "small_duration (from_ratio 1 6)"
    using from_ratio_spec(3,4) [of 3 1] from_ratio_spec(3,4) [of 6 1]
    by (simp_all add: small_duration_def fits_s_def)
  moreover have "dvalue (from_ratio 1 3) = 1 / 3" "dvalue (from_ratio 1 6) = 1 / 6"
    using from_ratio_spec(2) [of 3 1] from_ratio_spec(2) [of 6 1] by (simp_all add: fits_s_def)
  ultimately show ?thesis using duration_arith_exact [OF ok] by fastforce
qed

subsection \<open>Ticks\<close>

lemma to_ticks_rounding_value:
  assumes "duration_ok x" "finite_base base = Some (n, d)" "fits_s 128 (denominator x * n)"
  shows "to_ticks_rounding x base rnd =
    (let t = round_to rnd (dvalue x / base_value base) in if fits_s 64 t then Some t else None)"
proof -
  note B = finite_base_Some [OF assms(2)]
  have d: "fits_s 128 d" using B(1,5) by (intro fits_s_abs) simp_all
  have x: "fits_s 128 (numerator x)" "denominator x * n \<noteq> 0"
    using assms(1) B(2) by (auto simp: duration_ok_def)
  have v: "of_int (numerator x * d) / of_int (denominator x * n) = dvalue x / base_value base"
    unfolding B(3) [symmetric] dvalue_def by simp
  have "fits_s 64 t \<Longrightarrow> fits_s 128 t" for t by (erule fits_s_mono) simp
  then show ?thesis
    using assms(2,3) muldiv_rnd_spec [OF x(1) d assms(3), of rnd, unfolded v] x(2)
    by (simp add: to_ticks_rounding_def Let_def checked_s_def)
qed

lemma from_ticks_value:
  assumes "fits_s 64 t" "usable base"
  shows "\<exists>x n d. from_ticks t base = Some x \<and> duration_ok x \<and> dvalue x = of_int t * base_value base \<and>
    finite_base base = Some (n, d) \<and> fits_s 128 (denominator x * n)"
proof -
  obtain n d where e: "finite_base base = Some (n, d)"
    using assms(2) by (metis finite_base_None option.exhaust surj_pair)
  note B = finite_base_Some [OF e]
  have "\<bar>t\<bar> \<le> 2 ^ 63" using assms(1) by (auto simp: fits_s_def)
  then have "\<bar>t * n\<bar> \<le> 2 ^ 63 * 2 ^ 31" by (rule abs_prod_le [OF _ B(4)])
  then have f: "fits_s 128 (t * n)" "fits_s 128 d" using B(1,5) by (intro fits_s_abs; simp)+
  note R = from_ratio_spec [OF B(1) f]
  have "\<bar>denominator (from_ratio (t * n) d) * n\<bar> \<le> 2 ^ 31 * 2 ^ 31"
    using R(1,4) B(5) by (intro abs_prod_le B(4)) (simp add: duration_ok_def)
  then have "fits_s 128 (denominator (from_ratio (t * n) d) * n)" by (intro fits_s_abs) simp_all
  moreover have "of_int (t * n) / of_int d = of_int t * base_value base"
    unfolding B(3) [symmetric] by simp
  ultimately show ?thesis using e R by (simp add: from_ticks_def)
qed

text \<open>
  Ticks and durations: a tick count in a usable base becomes a canonical duration of
  exactly that many seconds, and converting it back to the same base, under every rounding
  mode, gives the same count; a conversion to any base rounds the exact quotient once and
  refuses what does not fit in 64 bits.
\<close>

theorem ticks_round_trip:
  assumes "fits_s 64 t" "usable base"
  shows "\<exists>x. from_ticks t base = Some x \<and> duration_ok x \<and> dvalue x = of_int t * base_value base \<and>
    to_ticks_rounding x base rnd = Some t \<and> to_ticks x base = Some t \<and>
    to_duration (Timestamp (Some t)) base = Some x"
proof -
  obtain x n d where x: "from_ticks t base = Some x" "duration_ok x"
    "dvalue x = of_int t * base_value base" "finite_base base = Some (n, d)"
    "fits_s 128 (denominator x * n)"
    using from_ticks_value [OF assms] by blast
  have "dvalue x / base_value base = of_int t"
    using x(3) base_value_nonzero [OF assms(2)] by simp
  then have "to_ticks_rounding x base r = Some t" for r
    using to_ticks_rounding_value [OF x(2,4,5), of r] assms(1) by (simp add: round_to_int)
  with x show ?thesis by (simp add: to_ticks_def to_duration_def)
qed

theorem ticks_round_trip_witness:
  "\<exists>x. from_ticks 3003 (rational_new 1 90000) = Some x \<and>
     to_ticks_rounding x (rational_new 1 90000) Up = Some 3003"
  using ticks_round_trip [of 3003 "rational_new 1 90000" Up]
  by (auto simp: usable_def rational_new_def fits_s_def)

subsection \<open>Parsing decimal seconds\<close>

lemma digits_val_snoc: "digits_val (ds @ [c]) = digits_val ds * 10 + (of_char c - 48)"
  by (simp add: digits_val_def)

lemma digits_val_Nil [simp]: "digits_val [] = 0"
  by (simp add: digits_val_def)

lemma digit_bounds: "is_ascii_digit c \<Longrightarrow> 0 \<le> (of_char c - 48 :: int) \<and> (of_char c - 48 :: int) \<le> 9"
proof -
  assume "is_ascii_digit c"
  then have "48 \<le> int (of_char c)" "int (of_char c) \<le> 57" by (auto simp: is_ascii_digit_def)
  then show ?thesis unfolding of_nat_of_char by linarith
qed

lemma digits_val_bounds:
  "list_all is_ascii_digit ds \<Longrightarrow> 0 \<le> digits_val ds \<and> digits_val ds < 10 ^ length ds"
proof (induction ds rule: rev_induct)
  case (snoc c ds)
  then show ?case using digit_bounds [of c] by (auto simp: digits_val_snoc)
qed simp

lemma digits_val_append: "digits_val (ds @ es) = digits_val ds * 10 ^ length es + digits_val es"
proof (induction es rule: rev_induct)
  case (snoc e es)
  then show ?case
    using digits_val_snoc [of "ds @ es" e] by (simp add: digits_val_snoc algebra_simps)
qed simp

lemma scale_loop_value:
  "0 < s \<Longrightarrow> fits_s 128 s \<Longrightarrow> scale_loop k s = checked_s 128 (s * 10 ^ k)"
proof (induction k arbitrary: s)
  case 0
  then show ?case by (simp add: checked_s_def)
next
  case (Suc k)
  show ?case
  proof (cases "fits_s 128 (s * 10)")
    case True
    then show ?thesis using Suc by (simp add: checked_s_def mult.assoc)
  next
    case False
    have "s * 10 * 1 \<le> s * 10 * 10 ^ k" using Suc.prems by (intro mult_left_mono) simp_all
    then have le: "s * 10 \<le> s * 10 ^ Suc k" by (simp add: mult.assoc)
    have "0 < s * 10" using Suc.prems by simp
    with le False have "\<not> fits_s 128 (s * 10 ^ Suc k)" unfolding fits_s_def by linarith
    with False show ?thesis by (simp add: checked_s_def)
  qed
qed

lemma split_once_absent: "sep \<notin> set a \<Longrightarrow> split_once_char sep a = None"
  by (induction a) auto

lemma split_once_present: "sep \<notin> set a \<Longrightarrow> split_once_char sep (a @ sep # b) = Some (a, b)"
  by (induction a) auto

lemma split_once_result: "split_once_char sep s = Some (a, b) \<Longrightarrow> s = a @ sep # b"
  by (induction s arbitrary: a) (auto split: if_splits)

lemma digit_not_punct:
  "list_all is_ascii_digit ds \<Longrightarrow> CHR ''.'' \<notin> set ds \<and> CHR ''-'' \<notin> set ds"
  by (induction ds) (auto simp: is_ascii_digit_def)

definition decimal_text :: "bool \<Rightarrow> string \<Rightarrow> bool \<Rightarrow> string \<Rightarrow> string" where
  "decimal_text negative w dot f = (if negative then ''-'' else []) @ w @ (if dot then ''.'' else []) @ f"

definition decimal_shape :: "string \<Rightarrow> bool \<Rightarrow> string \<Rightarrow> bool" where
  "decimal_shape w dot f \<longleftrightarrow> (w \<noteq> [] \<or> f \<noteq> []) \<and> (\<not> dot \<longrightarrow> f = []) \<and>
     list_all is_ascii_digit w \<and> list_all is_ascii_digit f"

lemma fits_prefix:
  assumes "0 \<le> w" "0 \<le> f" "f < k" "fits_s 128 (w * k + f)" "0 < (k :: int)"
  shows "fits_s 128 w" "fits_s 128 (w * k)"
proof -
  have "w * 1 \<le> w * k" using assms by (intro mult_left_mono) simp_all
  with assms show "fits_s 128 w" "fits_s 128 (w * k)" by (auto simp: fits_s_def)
qed

lemma decimal_value:
  assumes "list_all is_ascii_digit w" "list_all is_ascii_digit f"
  shows "do {
      a \<leftarrow> (if w = [] then Some 0 else parse_i128 w);
      b \<leftarrow> (if f = [] then Some 0 else parse_i128 f);
      scale \<leftarrow> scale_loop (length f) 1;
      ws \<leftarrow> checked_s 128 (a * scale);
      n \<leftarrow> checked_s 128 (ws + b);
      m \<leftarrow> (if negative then checked_s 128 (- n) else Some n);
      Some (from_ratio m scale) } =
    (if fits_s 128 (10 ^ length f) \<and> fits_s 128 (digits_val (w @ f))
     then Some (from_ratio (if negative then - digits_val (w @ f) else digits_val (w @ f)) (10 ^ length f))
     else None)"
proof -
  let ?k = "10 ^ length f :: int"
  note W = digits_val_bounds [OF assms(1)] and F = digits_val_bounds [OF assms(2)]
  have p: "(if ds = [] then Some 0 else parse_i128 ds) = checked_s 128 (digits_val ds)" for ds
    by (simp add: parse_i128_def checked_s_def fits_s_def)
  have s: "scale_loop (length f) 1 = checked_s 128 ?k"
    using scale_loop_value [of 1 "length f"] by (simp add: fits_s_def)
  have k: "0 < ?k" by simp
  have neg: "fits_s 128 (- n)" if "fits_s 128 n" "0 \<le> n" for n using that by (auto simp: fits_s_def)
  have A: "digits_val (w @ f) = digits_val w * ?k + digits_val f" by (rule digits_val_append)
  have nn: "0 \<le> digits_val w * ?k + digits_val f" using W F by simp
  show ?thesis
  proof (cases "fits_s 128 ?k \<and> fits_s 128 (digits_val (w @ f))")
    case True
    note P = fits_prefix [OF W [THEN conjunct1] F [THEN conjunct1] F [THEN conjunct2] _ k]
    have f: "fits_s 128 (digits_val f)" using True F by (auto simp: fits_s_def)
    have "fits_s 128 (- (digits_val w * ?k + digits_val f))" using True nn A by (intro neg) simp_all
    then show ?thesis unfolding p s using True P f by (simp add: checked_s_def A)
  next
    case False
    then have "\<not> fits_s 128 ?k \<or> \<not> fits_s 128 (digits_val w * ?k + digits_val f)" using A by simp
    then show ?thesis unfolding p s A
      by (cases "fits_s 128 (digits_val w)"; cases "fits_s 128 (digits_val f)"; cases "fits_s 128 ?k";
          cases "fits_s 128 (digits_val w * ?k)") (simp_all add: checked_s_def)
  qed
qed

lemma from_decimal_shape:
  assumes "decimal_shape w dot f"
  shows "from_decimal_seconds (decimal_text negative w dot f) =
    (if fits_s 128 (10 ^ length f) \<and> fits_s 128 (digits_val (w @ f))
     then Some (from_ratio (if negative then - digits_val (w @ f) else digits_val (w @ f)) (10 ^ length f))
     else None)"
proof -
  let ?v = "w @ (if dot then ''.'' else []) @ f"
  have d: "list_all is_ascii_digit w" "list_all is_ascii_digit f" using assms by (simp_all add: decimal_shape_def)
  have sp: "(case split_once_char CHR ''.'' ?v of Some p \<Rightarrow> p | None \<Rightarrow> (?v, [])) = (w, f)"
    using assms d(1) [THEN digit_not_punct]
    by (auto simp: split_once_present split_once_absent decimal_shape_def)
  have "CHR ''-'' \<notin> set ?v" using d [THEN digit_not_punct] by auto
  then have "(case strip_prefix_char CHR ''-'' (decimal_text negative w dot f) of
        Some rest \<Rightarrow> (True, rest) | None \<Rightarrow> (False, decimal_text negative w dot f)) = (negative, ?v)"
    unfolding decimal_text_def strip_prefix_char_def by (cases negative; cases ?v) auto
  then show ?thesis
    unfolding from_decimal_seconds_def Let_def
    using assms sp decimal_value [OF d, of negative] by (auto simp: decimal_shape_def split del: if_split)
qed

lemma decimal_shape_complete:
  assumes "from_decimal_seconds s = Some z"
  shows "\<exists>negative w dot f. s = decimal_text negative w dot f \<and> decimal_shape w dot f"
proof -
  obtain negative v where nv: "(case strip_prefix_char CHR ''-'' s of
      Some rest \<Rightarrow> (True, rest) | None \<Rightarrow> (False, s)) = (negative, v)" by (metis surj_pair)
  obtain w f where wf: "(case split_once_char CHR ''.'' v of Some p \<Rightarrow> p | None \<Rightarrow> (v, [])) = (w, f)"
    by (metis surj_pair)
  have g: "(w \<noteq> [] \<or> f \<noteq> []) \<and> list_all is_ascii_digit w \<and> list_all is_ascii_digit f"
  proof (rule ccontr)
    assume "\<not> ?thesis"
    then have "(w = [] \<and> f = []) \<or> \<not> list_all is_ascii_digit w \<or> \<not> list_all is_ascii_digit f"
      by blast
    then have "from_decimal_seconds s = None"
      by (simp only: from_decimal_seconds_def Let_def nv wf prod.case if_True)
    with assms show False by simp
  qed
  have "s = (if negative then ''-'' else []) @ v"
    using nv by (auto simp: strip_prefix_char_def split: list.splits if_splits)
  moreover have "\<exists>dot. v = w @ (if dot then ''.'' else []) @ f \<and> (\<not> dot \<longrightarrow> f = [])"
  proof (cases "split_once_char CHR ''.'' v")
    case None
    with wf show ?thesis by (intro exI [of _ False]) simp
  next
    case (Some p)
    with wf show ?thesis by (intro exI [of _ True]) (auto dest: split_once_result)
  qed
  then obtain dot where "v = w @ (if dot then ''.'' else []) @ f" "\<not> dot \<longrightarrow> f = []" by blast
  ultimately have "s = decimal_text negative w dot f \<and> decimal_shape w dot f"
    using g by (simp add: decimal_text_def decimal_shape_def)
  then show ?thesis by blast
qed

text \<open>
  Parsing decimal seconds: the accepted texts are exactly an optional sign, digits and
  an optional fraction (at least one digit in all), and an accepted text becomes the canonical
  duration of exactly the written decimal value; it is refused only when the scale or the
  digits do not fit in 128 bits.
\<close>

theorem from_decimal_seconds_exact:
  "(decimal_shape w dot f \<longrightarrow>
      (case from_decimal_seconds (decimal_text negative w dot f) of
         Some z \<Rightarrow> duration_ok z \<and>
           dvalue z = (if negative then - 1 else 1) * of_int (digits_val (w @ f)) / 10 ^ length f
       | None \<Rightarrow> \<not> fits_s 128 (10 ^ length f) \<or> \<not> fits_s 128 (digits_val (w @ f)))) \<and>
   (from_decimal_seconds s \<noteq> None \<longrightarrow>
      (\<exists>n w d f. s = decimal_text n w d f \<and> decimal_shape w d f))"
proof (intro conjI impI)
  assume sh: "decimal_shape w dot f"
  let ?D = "digits_val (w @ f)" and ?k = "10 ^ length f :: int"
  have nn: "0 \<le> ?D"
    using sh digits_val_bounds [of "w @ f"] by (simp add: decimal_shape_def)
  show "case from_decimal_seconds (decimal_text negative w dot f) of
         Some z \<Rightarrow> duration_ok z \<and>
           dvalue z = (if negative then - 1 else 1) * of_int ?D / 10 ^ length f
       | None \<Rightarrow> \<not> fits_s 128 ?k \<or> \<not> fits_s 128 ?D"
  proof (cases "fits_s 128 ?k \<and> fits_s 128 ?D")
    case True
    then have "fits_s 128 (if negative then - ?D else ?D)" using nn by (auto simp: fits_s_def)
    note R = from_ratio_spec(1,2) [OF _ this True [THEN conjunct1]]
    have k: "0 < ?k" by simp
    have "(of_int (if negative then - ?D else ?D) / of_int ?k :: rat) =
        (if negative then - 1 else 1) * of_int ?D / 10 ^ length f" by simp
    then show ?thesis
      using from_decimal_shape [OF sh, of negative] R [OF k] True by (simp only: if_True option.case simp_thms)
  next
    case False
    then show ?thesis using from_decimal_shape [OF sh, of negative] by (simp only: if_False option.case) blast
  qed
next
  assume "from_decimal_seconds s \<noteq> None"
  then show "\<exists>n w d f. s = decimal_text n w d f \<and> decimal_shape w d f"
    using decimal_shape_complete by blast
qed

theorem from_decimal_seconds_exact_witness:
  "\<exists>z. from_decimal_seconds ''-1.25'' = Some z \<and> dvalue z = - 5 / 4"
proof -
  have sh: "decimal_shape ''1'' True ''25''" by (simp add: decimal_shape_def is_ascii_digit_def)
  have t: "decimal_text True ''1'' True ''25'' = ''-1.25''" by (simp add: decimal_text_def)
  have v: "digits_val (''1'' @ ''25'') = 125" by (simp add: digits_val_def)
  from from_decimal_seconds_exact [of "''1''" True "''25''" True "[]"] sh show ?thesis
    unfolding t v by (auto simp: fits_s_def split: option.splits)
qed

end
