(* ===== verification/Core_Escape.thy ===== *)
theory Core_Escape
  imports Vaco_Prelude
begin

text \<open>
  The escaping grammar of option values and filter graphs:
  \<^verbatim>\<open>crates/core/vaco-core/src/escape.rs\<close>.

  A string is a list of characters; the slices that the code cuts by byte offset are
  accumulated here character by character. What a client of the grammar relies on, that an
  encoded string decodes to itself and is passed over whole by every split, is the locale
  \<open>escaping\<close>.
\<close>

section \<open>The model\<close>

abbreviation quote :: char where "quote \<equiv> CHR 0x27"
abbreviation backslash :: char where "backslash \<equiv> CHR 0x5C"

definition OPT_VALUE_SPECIAL :: string where "OPT_VALUE_SPECIAL = '':=''"
definition FILTERGRAPH_SPECIAL :: string where "FILTERGRAPH_SPECIAL = ''[],;''"

datatype mode = Auto | Backslash | Quote

datatype escape_error = UnterminatedQuote | TrailingBackslash

definition needs_escaping :: "string \<Rightarrow> string \<Rightarrow> bool" where
  "needs_escaping s special \<longleftrightarrow> list_ex (\<lambda>c. c = backslash \<or> c = quote \<or> c \<in> set special) s"

definition escape_backslash :: "string \<Rightarrow> string \<Rightarrow> string" where
  "escape_backslash special s =
     concat (map (\<lambda>c. if c = backslash \<or> c = quote \<or> c \<in> set special then [backslash, c] else [c]) s)"

definition escape_quote :: "string \<Rightarrow> string" where
  "escape_quote s =
     [quote] @ concat (map (\<lambda>c. if c = quote then [quote, backslash, quote, quote] else [c]) s) @ [quote]"

definition escape :: "string \<Rightarrow> string \<Rightarrow> mode \<Rightarrow> string" where
  "escape s special mode =
     (case mode of
        Auto \<Rightarrow> if \<not> needs_escaping s special then s else escape_backslash special s
      | Backslash \<Rightarrow> escape_backslash special s
      | Quote \<Rightarrow> escape_quote s)"

fun unescape_loop :: "bool \<Rightarrow> string \<Rightarrow> string" where
  "unescape_loop q [] = []"
| "unescape_loop q (c # cs) =
     (if c = quote then unescape_loop (\<not> q) cs
      else if c = backslash \<and> \<not> q
      then (case cs of n # cs' \<Rightarrow> n # unescape_loop q cs' | [] \<Rightarrow> [backslash])
      else c # unescape_loop q cs)"

definition unescape :: "string \<Rightarrow> escape_error + string" where
  "unescape s = Inr (unescape_loop False s)"

text \<open>The piece being collected is the second argument.\<close>

fun split_loop :: "string \<Rightarrow> bool \<Rightarrow> string \<Rightarrow> string \<Rightarrow> string list" where
  "split_loop seps q piece [] = [piece]"
| "split_loop seps q piece (c # cs) =
     (if c = quote then split_loop seps (\<not> q) (piece @ [c]) cs
      else if c = backslash \<and> \<not> q
      then (case cs of n # cs' \<Rightarrow> split_loop seps q (piece @ [c, n]) cs' | [] \<Rightarrow> [piece @ [c]])
      else if \<not> q \<and> c \<in> set seps then piece # split_loop seps q [] cs
      else split_loop seps q (piece @ [c]) cs)"

definition split_raw :: "string \<Rightarrow> string \<Rightarrow> escape_error + string list" where
  "split_raw s seps = Inr (split_loop seps False [] s)"

definition needs_unescaping :: "string \<Rightarrow> bool" where
  "needs_unescaping s \<longleftrightarrow> backslash \<in> set s \<or> quote \<in> set s"

fun collect_results :: "('e + 'a) list \<Rightarrow> 'e + 'a list" where
  "collect_results [] = Inr []"
| "collect_results (Inl e # rs) = Inl e"
| "collect_results (Inr x # rs) = (case collect_results rs of Inl e \<Rightarrow> Inl e | Inr xs \<Rightarrow> Inr (x # xs))"

definition split_str :: "string \<Rightarrow> char \<Rightarrow> escape_error + string list" where
  "split_str s sep =
     (case split_raw s [sep] of
        Inl e \<Rightarrow> Inl e
      | Inr ps \<Rightarrow> collect_results (map (\<lambda>p. if needs_unescaping p then unescape p else Inr p) ps))"

fun once_loop :: "string \<Rightarrow> bool \<Rightarrow> string \<Rightarrow> string \<Rightarrow> escape_error + (string \<times> string) option" where
  "once_loop seps q hd_part [] = (if q then Inl UnterminatedQuote else Inr None)"
| "once_loop seps q hd_part (c # cs) =
     (if c = quote then once_loop seps (\<not> q) (hd_part @ [c]) cs
      else if c = backslash \<and> \<not> q
      then (case cs of n # cs' \<Rightarrow> once_loop seps q (hd_part @ [c, n]) cs' | [] \<Rightarrow> Inr None)
      else if \<not> q \<and> c \<in> set seps then Inr (Some (hd_part, cs))
      else once_loop seps q (hd_part @ [c]) cs)"

definition split_once_raw :: "string \<Rightarrow> string \<Rightarrow> escape_error + (string \<times> string) option" where
  "split_once_raw s seps = once_loop seps False [] s"

section \<open>What clients of the grammar rely on\<close>

locale escaping =
  fixes enc :: "string \<Rightarrow> string" and special :: string
  assumes decodes: "unescape_loop False (enc s @ t) = s @ unescape_loop False t"
    and split_opaque: "set seps \<subseteq> set special \<Longrightarrow>
      split_loop seps False piece (enc s @ t) = split_loop seps False (piece @ enc s) t"
    and once_opaque: "set seps \<subseteq> set special \<Longrightarrow>
      once_loop seps False piece (enc s @ t) = once_loop seps False (piece @ enc s) t"
begin

lemma decodes_all: "unescape (enc s) = Inr s"
  using decodes [of s "[]"] by (simp add: unescape_def)

text \<open>Joining encoded pieces with a separator.\<close>

fun join :: "char \<Rightarrow> string list \<Rightarrow> string" where
  "join sep [] = []"
| "join sep [x] = enc x"
| "join sep (x # xs) = enc x @ sep # join sep xs"

lemma split_join:
  assumes "sep \<in> set special" "sep \<noteq> quote" "sep \<noteq> backslash" "xs \<noteq> []"
  shows "split_raw (join sep xs) [sep] = Inr (map enc xs)"
proof -
  have "split_loop [sep] False [] (join sep xs) = map enc xs"
    using assms(4)
  proof (induction xs rule: induct_list012)
    case (2 x)
    then show ?case using split_opaque [of "[sep]" "[]" x "[]"] assms(1) by simp
  next
    case (3 x y ys)
    then show ?case using split_opaque [of "[sep]" "[]" x] assms by simp
  qed simp
  then show ?thesis by (simp add: split_raw_def)
qed

lemma split_once_enc:
  assumes "sep \<in> set special" "sep \<noteq> quote" "sep \<noteq> backslash"
  shows "split_once_raw (enc k @ sep # t) [sep] = Inr (Some (enc k, t))"
  using once_opaque [of "[sep]" "[]" k "sep # t"] assms by (simp add: split_once_raw_def)

end

section \<open>The two encodings keep the contract\<close>

lemma backslash_char:
  "unescape_loop False (escape_backslash special [c] @ t) = c # unescape_loop False t"
  "set seps \<subseteq> set special \<Longrightarrow>
    split_loop seps False piece (escape_backslash special [c] @ t) =
    split_loop seps False (piece @ escape_backslash special [c]) t"
  "set seps \<subseteq> set special \<Longrightarrow>
    once_loop seps False piece (escape_backslash special [c] @ t) =
    once_loop seps False (piece @ escape_backslash special [c]) t"
  by (auto simp: escape_backslash_def)

lemma escape_backslash_Cons:
  "escape_backslash special (c # s) = escape_backslash special [c] @ escape_backslash special s"
  by (simp add: escape_backslash_def)

interpretation bs: escaping "escape_backslash special" special for special
proof
  fix s t seps piece
  show "unescape_loop False (escape_backslash special s @ t) = s @ unescape_loop False t"
  proof (induction s)
    case (Cons c s)
    then show ?case by (simp only: escape_backslash_Cons [of special c s] append_assoc backslash_char(1) append_Cons)
  qed (simp add: escape_backslash_def)
  assume seps: "set seps \<subseteq> set special"
  show "split_loop seps False piece (escape_backslash special s @ t) =
      split_loop seps False (piece @ escape_backslash special s) t"
  proof (induction s arbitrary: piece)
    case (Cons c s)
    then show ?case
      by (simp only: escape_backslash_Cons [of special c s] append_assoc backslash_char(2,3) [OF seps])
  qed (simp add: escape_backslash_def)
  show "once_loop seps False piece (escape_backslash special s @ t) =
      once_loop seps False (piece @ escape_backslash special s) t"
  proof (induction s arbitrary: piece)
    case (Cons c s)
    then show ?case
      by (simp only: escape_backslash_Cons [of special c s] append_assoc backslash_char(2,3) [OF seps])
  qed (simp add: escape_backslash_def)
qed

abbreviation quoted_body :: "string \<Rightarrow> string" where
  "quoted_body s \<equiv> concat (map (\<lambda>c. if c = quote then [quote, backslash, quote, quote] else [c]) s)"

lemma quoted_body_loops:
  "unescape_loop True (quoted_body s @ quote # t) = s @ unescape_loop False t"
  "split_loop seps True piece (quoted_body s @ quote # t) = split_loop seps False (piece @ quoted_body s @ [quote]) t"
  "once_loop seps True piece (quoted_body s @ quote # t) = once_loop seps False (piece @ quoted_body s @ [quote]) t"
  by (induction s arbitrary: piece) auto

interpretation qt: escaping escape_quote special for special
  by unfold_locales (simp_all add: escape_quote_def quoted_body_loops)

lemma plain_escape: "\<not> needs_escaping s special \<Longrightarrow> escape_backslash special s = s"
  by (induction s) (auto simp: needs_escaping_def escape_backslash_def)

lemma escape_cases: "escape s special mode = (if mode = Quote then escape_quote s else escape_backslash special s)"
  by (cases mode) (simp_all add: escape_def plain_escape)

interpretation esc: escaping "\<lambda>s. escape s special mode" special for special mode
proof (cases "mode = Quote")
  case True
  then show "escaping (\<lambda>s. escape s special mode) special"
    unfolding escape_cases using qt.escaping_axioms by simp
next
  case False
  then show "escaping (\<lambda>s. escape s special mode) special"
    unfolding escape_cases using bs.escaping_axioms by simp
qed

section \<open>Properties of the grammar\<close>

lemma unescape_plain: "\<not> needs_unescaping p \<Longrightarrow> unescape p = Inr p"
proof -
  have "\<not> needs_unescaping p \<Longrightarrow> unescape_loop False p = p"
    by (induction p) (auto simp: needs_unescaping_def)
  then show "\<not> needs_unescaping p \<Longrightarrow> unescape p = Inr p" by (simp add: unescape_def)
qed

lemma collect_results_Inr: "collect_results (map Inr xs) = Inr xs"
  by (induction xs) simp_all

text \<open>The text a caller builds: the pieces escaped and joined by the separator.\<close>

fun join_escaped :: "string \<Rightarrow> mode \<Rightarrow> char \<Rightarrow> string list \<Rightarrow> string" where
  "join_escaped special mode sep [] = []"
| "join_escaped special mode sep [x] = escape x special mode"
| "join_escaped special mode sep (x # xs) = escape x special mode @ sep # join_escaped special mode sep xs"

lemma join_escaped_esc: "join_escaped special mode sep xs = esc.join special mode sep xs"
  by (induction xs rule: induct_list012) simp_all

text \<open>
  C11. Escaping round-trips on every string, for every mode and every set of special characters,
  and so does escaping at two levels; a list of strings escaped and joined by a separator is
  split back into the escaped pieces by \<^verbatim>\<open>split_raw\<close>, and into the strings themselves by
  \<^verbatim>\<open>split\<close>, when the separator is special and is neither a quote nor a backslash.
\<close>

theorem escape_round_trip:
  "unescape (escape s special mode) = Inr s \<and>
   (case unescape (escape (escape s special mode) special' mode') of
      Inr t \<Rightarrow> unescape t = Inr s | Inl _ \<Rightarrow> False) \<and>
   (sep \<in> set special \<and> sep \<noteq> quote \<and> sep \<noteq> backslash \<and> xs \<noteq> [] \<longrightarrow>
      split_raw (join_escaped special mode sep xs) [sep] = Inr (map (\<lambda>x. escape x special mode) xs) \<and>
      split_str (join_escaped special mode sep xs) sep = Inr xs)"
proof (intro conjI impI)
  show "unescape (escape s special mode) = Inr s" by (rule esc.decodes_all)
  show "case unescape (escape (escape s special mode) special' mode') of
      Inr t \<Rightarrow> unescape t = Inr s | Inl _ \<Rightarrow> False"
    by (simp add: esc.decodes_all)
  assume "sep \<in> set special \<and> sep \<noteq> quote \<and> sep \<noteq> backslash \<and> xs \<noteq> []"
  then show r: "split_raw (join_escaped special mode sep xs) [sep] = Inr (map (\<lambda>x. escape x special mode) xs)"
    unfolding join_escaped_esc by (intro esc.split_join) auto
  have "(if needs_unescaping p then unescape p else Inr p) = unescape p" for p
    using unescape_plain [of p] by simp
  then show "split_str (join_escaped special mode sep xs) sep = Inr xs"
    by (simp add: split_str_def r comp_def esc.decodes_all collect_results_Inr)
qed

theorem escape_round_trip_witness:
  "split_str (join_escaped '':='' Auto CHR '':'' [''a:b'', ''c'']) CHR '':'' = Inr [''a:b'', ''c'']"
  using escape_round_trip [of "[]" "'':=''" Auto "[]" Auto "CHR '':''" "[''a:b'', ''c'']"] by simp

end
