(* ===== verification/Core_Dict.thy ===== *)
theory Core_Dict
  imports Core_Escape
begin

text \<open>
  The insertion-ordered string dictionary: \<^verbatim>\<open>crates/core/vaco-core/src/dict.rs\<close>, a client of
  the escaping grammar. Its exact-key operations are proved to be those of a finite map that
  keeps its keys in insertion order, and its text form to be read back.
\<close>

section \<open>The model\<close>

record dict =
  entries :: "(string \<times> string) list"

record dict_flags =
  match_case :: bool
  ignore_suffix :: bool
  dont_overwrite :: bool
  append_value :: bool
  multikey :: bool

definition exact :: dict_flags where
  "exact = \<lparr>match_case = True, ignore_suffix = False, dont_overwrite = False, append_value = False,
            multikey = False\<rparr>"

definition starts_with :: "string \<Rightarrow> string \<Rightarrow> bool" where
  "starts_with s p \<longleftrightarrow> take (length p) s = p"

definition key_matches :: "string \<Rightarrow> string \<Rightarrow> dict_flags \<Rightarrow> bool" where
  "key_matches have_key want f \<longleftrightarrow>
     (if ignore_suffix f
      then if match_case f then starts_with have_key want
           else length have_key \<ge> length want \<and>
                (case slice_range have_key 0 (length want) of
                   Some h \<Rightarrow> eq_ignore_ascii_case h want | None \<Rightarrow> False)
      else if match_case f then have_key = want
      else eq_ignore_ascii_case have_key want)"

definition dict_new :: dict where "dict_new = \<lparr>entries = []\<rparr>"

definition dict_from_iter :: "(string \<times> string) list \<Rightarrow> dict" where
  "dict_from_iter kvs = \<lparr>entries = kvs\<rparr>"

definition get_with :: "dict \<Rightarrow> string \<Rightarrow> nat option \<Rightarrow> dict_flags \<Rightarrow> (nat \<times> string \<times> string) option" where
  "get_with d key prev f =
     (let start = (case prev of None \<Rightarrow> 0 | Some p \<Rightarrow> p + 1)
      in List.find (\<lambda>(i, k, v). key_matches k key f) (drop start (enumerate 0 (entries d))))"

definition dict_get :: "dict \<Rightarrow> string \<Rightarrow> string option" where
  "dict_get d key = map_option (\<lambda>(i, k, v). v) (get_with d key None exact)"

fun position :: "('a \<Rightarrow> bool) \<Rightarrow> 'a list \<Rightarrow> nat option" where
  "position P [] = None"
| "position P (x # xs) = (if P x then Some 0 else map_option Suc (position P xs))"

definition set_with :: "string \<Rightarrow> string \<Rightarrow> dict_flags \<Rightarrow> dict \<Rightarrow> dict" where
  "set_with key val f d =
     (case (if multikey f then None else position (\<lambda>(k, _). key_matches k key f) (entries d)) of
        Some pos \<Rightarrow>
          if dont_overwrite f then d
          else let (k, v) = entries d ! pos
               in d\<lparr>entries := (entries d)[pos := (k, if append_value f then v @ val else val)]\<rparr>
      | None \<Rightarrow> d\<lparr>entries := entries d @ [(key, val)]\<rparr>)"

definition dict_set :: "string \<Rightarrow> string \<Rightarrow> dict \<Rightarrow> dict" where
  "dict_set key val d = set_with key val exact d"

definition dict_remove :: "string \<Rightarrow> dict \<Rightarrow> string option \<times> dict" where
  "dict_remove key d =
     (case position (\<lambda>(k, _). k = key) (entries d) of
        None \<Rightarrow> (None, d)
      | Some pos \<Rightarrow>
          (Some (snd (entries d ! pos)),
           d\<lparr>entries := take pos (entries d) @ drop (Suc pos) (entries d)\<rparr>))"

definition dict_len :: "dict \<Rightarrow> nat" where "dict_len d = length (entries d)"

definition dict_clear :: "dict \<Rightarrow> dict" where "dict_clear d = d\<lparr>entries := []\<rparr>"

fun parse_pairs :: "string \<Rightarrow> dict_flags \<Rightarrow> string list \<Rightarrow> dict \<Rightarrow> (escape_error + unit) \<times> dict" where
  "parse_pairs kv_sep f [] d = (Inr (), d)"
| "parse_pairs kv_sep f (pair # ps) d =
     (if pair = [] then parse_pairs kv_sep f ps d
      else case split_once_raw pair kv_sep of
             Inl e \<Rightarrow> (Inl e, d)
           | Inr (Some (k, v)) \<Rightarrow>
               (case unescape k of
                  Inl e \<Rightarrow> (Inl e, d)
                | Inr k' \<Rightarrow>
                    (case unescape v of
                       Inl e \<Rightarrow> (Inl e, d)
                     | Inr v' \<Rightarrow> parse_pairs kv_sep f ps (set_with k' v' f d)))
           | Inr None \<Rightarrow>
               (case unescape pair of
                  Inl e \<Rightarrow> (Inl e, d)
                | Inr k' \<Rightarrow> parse_pairs kv_sep f ps (set_with k' [] f d)))"

definition parse_string ::
  "string \<Rightarrow> string \<Rightarrow> string \<Rightarrow> dict_flags \<Rightarrow> dict \<Rightarrow> (escape_error + unit) \<times> dict" where
  "parse_string s kv_sep pairs_sep f d =
     (if s = [] then (Inr (), d)
      else case split_raw s pairs_sep of
             Inl e \<Rightarrow> (Inl e, d)
           | Inr pairs \<Rightarrow> parse_pairs kv_sep f pairs d)"

definition show_pair :: "char \<Rightarrow> char \<Rightarrow> string \<times> string \<Rightarrow> string" where
  "show_pair kv_sep pairs_sep e =
     (case e of (k, v) \<Rightarrow>
        escape k [kv_sep, pairs_sep] Auto @ [kv_sep] @ escape v [kv_sep, pairs_sep] Auto)"

fun show_pairs :: "char \<Rightarrow> char \<Rightarrow> (string \<times> string) list \<Rightarrow> string" where
  "show_pairs kv_sep pairs_sep [] = []"
| "show_pairs kv_sep pairs_sep [e] = show_pair kv_sep pairs_sep e"
| "show_pairs kv_sep pairs_sep (e # es) =
     show_pair kv_sep pairs_sep e @ [pairs_sep] @ show_pairs kv_sep pairs_sep es"

definition to_string_with :: "dict \<Rightarrow> char \<Rightarrow> char \<Rightarrow> string" where
  "to_string_with d kv_sep pairs_sep = show_pairs kv_sep pairs_sep (entries d)"

section \<open>Exact keys: an ordered finite map\<close>

lemma position_Some:
  "position P xs = Some i \<Longrightarrow> i < length xs \<and> P (xs ! i) \<and> (\<forall>j < i. \<not> P (xs ! j))"
proof (induction xs arbitrary: i)
  case (Cons x xs)
  then show ?case by (cases i) (auto split: if_splits simp: less_Suc_eq_0_disj)
qed simp

lemma position_None: "position P xs = None \<longleftrightarrow> (\<forall>x \<in> set xs. \<not> P x)"
  by (induction xs) auto

lemma find_enumerate:
  "List.find (\<lambda>(i, k, v). k = key) (enumerate n es) = None \<longleftrightarrow> key \<notin> fst ` set es"
  "map_option (\<lambda>(i, k, v). v) (List.find (\<lambda>(i, k, v). k = key) (enumerate n es)) = map_of es key"
  by (induction es arbitrary: n) auto

lemma dict_get_map_of: "dict_get d key = map_of (entries d) key"
  using find_enumerate(2) [of key 0 "entries d"]
  by (simp add: dict_get_def get_with_def key_matches_def exact_def)

definition keys :: "dict \<Rightarrow> string list" where
  "keys d = map fst (entries d)"

lemma split_at_position:
  assumes "position (\<lambda>(k, _). k = key) es = Some i"
  obtains as v bs where "es = as @ (key, v) # bs" "length as = i" "key \<notin> fst ` set as"
proof -
  note p = position_Some [OF assms]
  have "es = take i es @ es ! i # drop (Suc i) es" using p by (simp add: id_take_nth_drop)
  moreover have "key \<notin> fst ` set (take i es)"
  proof
    assume "key \<in> fst ` set (take i es)"
    then obtain x where "x \<in> set (take i es)" "fst x = key" by auto
    then obtain j where "j < i" "es ! j = x" by (auto simp: in_set_conv_nth)
    then show False using p \<open>fst x = key\<close> by (cases x) auto
  qed
  moreover obtain v where "es ! i = (key, v)" using p by (cases "es ! i") auto
  ultimately show thesis using p by (intro that [of "take i es" v "drop (Suc i) es"]) auto
qed

lemma dict_set_cases:
  "(\<exists>as v0 bs. entries d = as @ (key, v0) # bs \<and> key \<notin> fst ` set as \<and>
      entries (dict_set key val d) = as @ (key, val) # bs) \<or>
   key \<notin> set (keys d) \<and> entries (dict_set key val d) = entries d @ [(key, val)]"
proof (cases "position (\<lambda>(k, _). k = key) (entries d)")
  case None
  then have "key \<notin> set (keys d)" by (auto simp: position_None keys_def)
  then show ?thesis using None by (simp add: dict_set_def set_with_def key_matches_def exact_def)
next
  case (Some i)
  then obtain as v0 bs where e: "entries d = as @ (key, v0) # bs" "length as = i" "key \<notin> fst ` set as"
    by (rule split_at_position)
  then have "entries (dict_set key val d) = as @ (key, val) # bs"
    using Some by (auto simp: dict_set_def set_with_def key_matches_def exact_def list_update_append)
  then show ?thesis using e by blast
qed

lemma dict_remove_cases:
  "(\<exists>as v bs. entries d = as @ (key, v) # bs \<and> key \<notin> fst ` set as \<and>
      fst (dict_remove key d) = Some v \<and> entries (snd (dict_remove key d)) = as @ bs) \<or>
   key \<notin> set (keys d) \<and> dict_remove key d = (None, d)"
proof (cases "position (\<lambda>(k, _). k = key) (entries d)")
  case None
  then have "key \<notin> set (keys d)" by (auto simp: position_None keys_def)
  then show ?thesis using None by (simp add: dict_remove_def)
next
  case (Some i)
  then obtain as v bs where e: "entries d = as @ (key, v) # bs" "length as = i" "key \<notin> fst ` set as"
    by (rule split_at_position)
  then show ?thesis using Some by (auto simp: dict_remove_def nth_append)
qed

lemma filter_other_keys: "key \<notin> fst ` set es \<Longrightarrow> filter (\<lambda>k. k \<noteq> key) (map fst es) = map fst es"
  by (induction es) auto

text \<open>
  With exact keys the dictionary is an ordered finite map: \<^verbatim>\<open>set\<close> changes the binding of
  its key and no other, keeps the position of a key that is present and appends a new one at
  the end; \<^verbatim>\<open>remove\<close> returns the binding and, when keys are distinct, removes it and no
  other; both keep keys distinct.
\<close>

theorem dict_refines_map:
  "dict_get (dict_set key val d) = (dict_get d)(key \<mapsto> val) \<and>
   keys (dict_set key val d) = (if key \<in> set (keys d) then keys d else keys d @ [key]) \<and>
   fst (dict_remove key d) = dict_get d key \<and>
   (distinct (keys d) \<longrightarrow>
      distinct (keys (dict_set key val d)) \<and> distinct (keys (snd (dict_remove key d))) \<and>
      dict_get (snd (dict_remove key d)) = (dict_get d)(key := None) \<and>
      keys (snd (dict_remove key d)) = filter (\<lambda>k. k \<noteq> key) (keys d))"
proof (intro conjI impI)
  note s = dict_set_cases [of d key val] and r = dict_remove_cases [of d key]
  show "dict_get (dict_set key val d) = (dict_get d)(key \<mapsto> val)"
    using s by (auto simp: dict_get_map_of fun_eq_iff map_add_def keys_def
        split: option.splits dest!: map_of_eq_None_iff [THEN iffD2])
  show ks: "keys (dict_set key val d) = (if key \<in> set (keys d) then keys d else keys d @ [key])"
    using s by (auto simp: keys_def)
  show "fst (dict_remove key d) = dict_get d key"
    using r by (auto simp: dict_get_map_of map_add_def keys_def
        split: option.splits dest!: map_of_eq_None_iff [THEN iffD2])
  assume "distinct (keys d)"
  then show "distinct (keys (dict_set key val d))" "distinct (keys (snd (dict_remove key d)))"
    using ks r by (auto simp: keys_def)
  show "dict_get (snd (dict_remove key d)) = (dict_get d)(key := None)"
    using r \<open>distinct (keys d)\<close>
    by (auto simp: dict_get_map_of fun_eq_iff map_add_def keys_def
        split: option.splits dest!: map_of_eq_None_iff [THEN iffD2])
  show "keys (snd (dict_remove key d)) = filter (\<lambda>k. k \<noteq> key) (keys d)"
    using r \<open>distinct (keys d)\<close> by (auto simp: keys_def filter_other_keys)
qed

theorem dict_refines_map_witness:
  "dict_get (dict_set ''b'' ''2'' (dict_from_iter [(''a'', ''1'')])) ''a'' = Some ''1'' \<and>
   keys (snd (dict_remove ''a'' (dict_from_iter [(''a'', ''1'')]))) = []"
  using dict_refines_map [of "''b''" "''2''" "dict_from_iter [(''a'', ''1'')]"]
    dict_refines_map [of "''a''" "[]" "dict_from_iter [(''a'', ''1'')]"]
  by (simp add: keys_def dict_from_iter_def dict_get_map_of)

section \<open>The text form\<close>

text \<open>What parsing does with a list of pairs.\<close>

definition set_all :: "dict_flags \<Rightarrow> (string \<times> string) list \<Rightarrow> dict \<Rightarrow> dict" where
  "set_all f es d = fold (\<lambda>(k, v). set_with k v f) es d"

definition plain_seps :: "char \<Rightarrow> char \<Rightarrow> bool" where
  "plain_seps kv ps \<longleftrightarrow> kv \<noteq> ps \<and> kv \<noteq> quote \<and> kv \<noteq> backslash \<and> ps \<noteq> quote \<and> ps \<noteq> backslash"

lemma split_show_pair:
  assumes "plain_seps kv ps"
  shows "split_loop [ps] False piece (show_pair kv ps e @ t) = split_loop [ps] False (piece @ show_pair kv ps e) t"
proof (cases e)
  case (Pair k v)
  note o = esc.split_opaque [of "[ps]" "[kv, ps]" _ _ Auto]
  show ?thesis using assms by (simp add: Pair show_pair_def o plain_seps_def)
qed

lemma split_show_pairs:
  assumes "plain_seps kv ps" "es \<noteq> []"
  shows "split_loop [ps] False [] (show_pairs kv ps es) = map (show_pair kv ps) es"
  using assms(2)
proof (induction es rule: induct_list012)
  case (2 e)
  then show ?case using split_show_pair [OF assms(1), of "[]" e "[]"] by simp
next
  case (3 e e' es)
  then show ?case using split_show_pair [OF assms(1), of "[]" e] assms(1) by (simp add: plain_seps_def)
qed simp

lemma parse_show_pairs:
  assumes "plain_seps kv ps"
  shows "parse_pairs [kv] f (map (show_pair kv ps) es) d = (Inr (), set_all f es d)"
proof (induction es arbitrary: d)
  case (Cons e es)
  obtain k v where e: "e = (k, v)" by fastforce
  have "split_once_raw (show_pair kv ps e) [kv] =
      Inr (Some (escape k [kv, ps] Auto, escape v [kv, ps] Auto))"
    using esc.split_once_enc [of kv "[kv, ps]" k Auto] assms by (simp add: e show_pair_def plain_seps_def)
  moreover have "show_pair kv ps e \<noteq> []" by (simp add: e show_pair_def)
  ultimately show ?case using Cons.IH by (simp add: e set_all_def esc.decodes_all)
qed (simp add: set_all_def)

lemma set_all_multikey: "multikey f \<Longrightarrow> entries (set_all f es d) = entries d @ es"
  by (induction es arbitrary: d) (auto simp: set_all_def set_with_def)

lemma set_all_exact:
  "distinct (map fst es) \<Longrightarrow> set (map fst es) \<inter> set (keys d) = {} \<Longrightarrow> entries (set_all exact es d) = entries d @ es"
proof (induction es arbitrary: d)
  case (Cons e es)
  obtain k v where e: "e = (k, v)" by fastforce
  then have "k \<notin> set (keys d)" using Cons.prems(2) by auto
  then have s: "entries (dict_set k v d) = entries d @ [(k, v)]"
    using dict_set_cases [of d k v] by (auto simp: keys_def)
  then have "set (map fst es) \<inter> set (keys (dict_set k v d)) = {}"
    using Cons.prems e by (auto simp: keys_def)
  then show ?case using Cons.IH [of "dict_set k v d"] Cons.prems s by (simp add: set_all_def e dict_set_def)
qed (simp add: set_all_def)

text \<open>
  C10. The text form is read back: for separators that differ and are neither quote nor
  backslash, and whatever characters keys and values contain, parsing the rendered dictionary
  succeeds and performs exactly the sets of its entries in order; into an empty dictionary
  this gives the same entries, in multi-key mode always and with exact keys when they are
  distinct.
\<close>

theorem dict_text_round_trip:
  assumes "plain_seps kv ps"
  shows "parse_string (to_string_with d kv ps) [kv] [ps] f d0 = (Inr (), set_all f (entries d) d0) \<and>
    (multikey f \<or> f = exact \<and> distinct (keys d) \<longrightarrow>
      entries (snd (parse_string (to_string_with d kv ps) [kv] [ps] f dict_new)) = entries d)"
proof -
  have P: "parse_string (to_string_with d kv ps) [kv] [ps] f d0 = (Inr (), set_all f (entries d) d0)" for d0
  proof (cases "entries d = []")
    case True
    then show ?thesis by (simp add: to_string_with_def parse_string_def set_all_def)
  next
    case False
    then have "show_pairs kv ps (entries d) \<noteq> []"
      using split_show_pairs [OF assms False] by (auto simp: show_pair_def split: prod.splits)
    then show ?thesis
      using split_show_pairs [OF assms False] parse_show_pairs [OF assms]
      by (simp add: to_string_with_def parse_string_def split_raw_def)
  qed
  moreover have "entries (set_all f (entries d) dict_new) = entries d"
    if "multikey f \<or> f = exact \<and> distinct (keys d)"
    using that set_all_multikey [of f "entries d" dict_new] set_all_exact [of "entries d" dict_new]
    by (auto simp: dict_new_def keys_def)
  ultimately show ?thesis by simp
qed

theorem dict_text_round_trip_witness:
  "entries (snd (parse_string (to_string_with (dict_from_iter [(''a:'', ''x=y''), (''b'', [])]) CHR ''='' CHR '':'')
      ''='' '':'' exact dict_new)) = [(''a:'', ''x=y''), (''b'', [])]"
proof -
  have "plain_seps CHR ''='' CHR '':''" by (simp add: plain_seps_def)
  from conjunct2 [OF dict_text_round_trip [OF this, of "dict_from_iter [(''a:'', ''x=y''), (''b'', [])]" exact]]
  show ?thesis by (simp add: keys_def dict_from_iter_def)
qed

end
