(* ===== verification/Bits_Reader.thy ===== *)
theory Bits_Reader
  imports Vaco_Prelude
begin

text \<open>
  The MSB-first bit reader: \<^verbatim>\<open>crates/core/vaco-bitstream/src/reader.rs\<close> and the
  zero-padded buffer of \<^verbatim>\<open>padded.rs\<close>.

  The reader keeps a 64-bit cache that is refilled eight bytes at a time and whose bits below
  \<^verbatim>\<open>cache_bits\<close> are not cleared. Its contract is stated on the infinite bit stream
  \<open>sbit data\<close> of the buffer (zeros past its end): \<open>reader_ok\<close> ties cache and
  position to that stream, and every read is proved to be a read of the stream at
  \<open>cursor\<close>. The documented stream ends at the logical end instead (\<open>logical_stream\<close>); the
  two agree where the slice holds only zeros past it (\<open>zero_tail\<close>). The interface the code decoders rely on is the locale \<open>bit_cursor\<close>.
\<close>

section \<open>The model\<close>

datatype bitstream_error = Overrun | Malformed | ValueTooLarge nat nat

record bit_reader =
  br_data :: "u8 list"
  br_logical_bits :: nat
  br_pos :: nat
  br_cache :: u64
  br_cache_bits :: nat
  br_flagged :: bool

record mark =
  mk_pos :: nat
  mk_cache :: u64
  mk_cache_bits :: nat
  mk_flagged :: bool

record padded =
  pd_bytes :: "u8 list"
  pd_logical_len :: nat

definition PAD :: nat where "PAD = 64"

definition padded_new :: "u8 list \<Rightarrow> nat \<Rightarrow> padded option" where
  "padded_new bytes logical_len =
     (case slice_from bytes logical_len of None \<Rightarrow> None
      | Some rest \<Rightarrow> (case slice_range rest 0 PAD of None \<Rightarrow> None
        | Some pad \<Rightarrow> if list_ex (\<lambda>b. b \<noteq> 0) pad then None
                     else Some \<lparr>pd_bytes = bytes, pd_logical_len = logical_len\<rparr>))"

definition from_slice_copying :: "u8 list \<Rightarrow> padded" where
  "from_slice_copying src = \<lparr>pd_bytes = src @ replicate PAD 0, pd_logical_len = length src\<rparr>"

definition logical_bytes :: "padded \<Rightarrow> u8 list" where
  "logical_bytes p =
     (case slice_range (pd_bytes p) 0 (pd_logical_len p) of Some xs \<Rightarrow> xs | None \<Rightarrow> pd_bytes p)"

definition br_start :: "u8 list \<Rightarrow> nat \<Rightarrow> bit_reader" where
  "br_start bytes logical_len =
     \<lparr>br_data = bytes, br_logical_bits = sat_u 64 (logical_len * 8), br_pos = 0, br_cache = 0,
      br_cache_bits = 0, br_flagged = False\<rparr>"

definition br_new :: "u8 list \<Rightarrow> bit_reader" where
  "br_new bytes = br_start bytes (length bytes)"

definition br_new_padded :: "padded \<Rightarrow> bit_reader" where
  "br_new_padded p = br_start (pd_bytes p) (pd_logical_len p)"

definition br_with_logical_len :: "u8 list \<Rightarrow> nat \<Rightarrow> bit_reader" where
  "br_with_logical_len bytes logical_len = br_start bytes (min logical_len (length bytes))"

text \<open>\<^verbatim>\<open>u64::from_be_bytes\<close> and the byte-at-a-time tail.\<close>

definition be_word :: "u8 list \<Rightarrow> u64" where
  "be_word bs = foldl (\<lambda>w b. push_bit 8 w OR ucast b) 0 bs"

definition tail_word :: "bit_reader \<Rightarrow> u64" where
  "tail_word r =
     foldl (\<lambda>w i. push_bit 8 w OR
         ucast (case get_at (br_data r) (sat_u 64 (br_pos r + i)) of Some b \<Rightarrow> b | None \<Rightarrow> 0))
       0 [0..<8]"

definition refill :: "bit_reader \<Rightarrow> bit_reader" where
  "refill r =
     (if br_cache_bits r > 56 then r
      else let chunk = (case Option.bind (slice_from (br_data r) (br_pos r)) (first_chunk 8) of
                          Some c \<Rightarrow> be_word c | None \<Rightarrow> tail_word r);
               take = (64 - br_cache_bits r) div 8
           in r\<lparr>br_cache := br_cache r OR drop_bit (br_cache_bits r) chunk,
                br_pos := sat_u 64 (br_pos r + take),
                br_cache_bits := br_cache_bits r + take * 8\<rparr>)"

definition consume :: "nat \<Rightarrow> bit_reader \<Rightarrow> bit_reader" where
  "consume n r = r\<lparr>br_cache := push_bit n (br_cache r), br_cache_bits := br_cache_bits r - n\<rparr>"

definition top_bits :: "nat \<Rightarrow> u64 \<Rightarrow> u32" where
  "top_bits n c = ucast (drop_bit (64 - n) c)"

definition br_get :: "nat \<Rightarrow> bit_reader \<Rightarrow> u32 \<times> bit_reader" where
  "br_get n0 r =
     (let n = min n0 32
      in if n = 0 then (0, r)
         else let r' = (if br_cache_bits r < n then refill r else r)
              in (top_bits n (br_cache r'), consume n r'))"

definition br_get_bit :: "bit_reader \<Rightarrow> u32 \<times> bit_reader" where
  "br_get_bit r = br_get 1 r"

definition br_peek :: "nat \<Rightarrow> bit_reader \<Rightarrow> u32 \<times> bit_reader" where
  "br_peek n0 r =
     (let n = min n0 32
      in if n = 0 then (0, r)
         else let r' = (if br_cache_bits r < n then refill r else r)
              in (top_bits n (br_cache r'), r'))"

definition skip_rest :: "nat \<Rightarrow> nat \<Rightarrow> bit_reader \<Rightarrow> bit_reader" where
  "skip_rest bytes bits r =
     (let r' = r\<lparr>br_cache := 0, br_cache_bits := 0, br_pos := sat_u 64 (br_pos r + bytes)\<rparr>
      in if bits \<noteq> 0 then consume bits (refill r') else r')"

definition br_skip :: "nat \<Rightarrow> bit_reader \<Rightarrow> bit_reader" where
  "br_skip n r =
     (if n = 0 then r
      else if n < br_cache_bits r then consume n r
      else let rest = n - br_cache_bits r in skip_rest (rest div 8) (rest mod 8) r)"

definition br_skip_long :: "nat \<Rightarrow> bit_reader \<Rightarrow> bit_reader" where
  "br_skip_long n r =
     (if n \<le> br_cache_bits r then br_skip n r
      else let rest = n - br_cache_bits r in skip_rest (rest div 8) (rest mod 8) r)"

definition br_skip_bytes :: "nat \<Rightarrow> bit_reader \<Rightarrow> bit_reader" where
  "br_skip_bytes n r = br_skip_long (sat_u 64 (n * 8)) r"

definition br_get_long :: "nat \<Rightarrow> bit_reader \<Rightarrow> u64 \<times> bit_reader" where
  "br_get_long n0 r =
     (let n = min n0 64
      in if n \<le> 32 then (case br_get n r of (v, r') \<Rightarrow> (ucast v, r'))
         else case br_get (n - 32) r of (hi, r1) \<Rightarrow>
              (case br_get 32 r1 of (lo, r2) \<Rightarrow> (push_bit 32 (ucast hi) OR ucast lo, r2)))"

text \<open>The arithmetic right shift of the source is \<open>signed_drop_bit\<close>.\<close>

definition br_get_signed :: "nat \<Rightarrow> bit_reader \<Rightarrow> i32 \<times> bit_reader" where
  "br_get_signed n0 r =
     (let n = min n0 32
      in if n = 0 then (0, r)
         else case br_get n r of (v, r') \<Rightarrow>
                (signed_drop_bit (32 - n) (push_bit (32 - n) v), r'))"

definition br_bit_pos :: "bit_reader \<Rightarrow> nat" where
  "br_bit_pos r = sat_u 64 (br_pos r * 8) - br_cache_bits r"

definition br_bits_left :: "bit_reader \<Rightarrow> nat" where
  "br_bits_left r = (if br_flagged r then 0 else br_logical_bits r - br_bit_pos r)"

definition br_overrun :: "bit_reader \<Rightarrow> bool" where
  "br_overrun r \<longleftrightarrow> br_flagged r \<or> br_bit_pos r > br_logical_bits r"

definition br_try_get :: "nat \<Rightarrow> bit_reader \<Rightarrow> (bitstream_error + u32) \<times> bit_reader" where
  "br_try_get n r =
     (if br_flagged r \<or> n > br_bits_left r then (Inl Overrun, r)
      else case br_get n r of (v, r') \<Rightarrow> (Inr v, r'))"

definition br_align :: "bit_reader \<Rightarrow> bit_reader" where
  "br_align r = br_skip (br_cache_bits r mod 8) r"

definition br_is_aligned :: "bit_reader \<Rightarrow> bool" where
  "br_is_aligned r \<longleftrightarrow> 8 dvd br_cache_bits r"

definition br_flag_malformed :: "bit_reader \<Rightarrow> bit_reader" where
  "br_flag_malformed r = r\<lparr>br_flagged := True\<rparr>"

definition br_check :: "bit_reader \<Rightarrow> bitstream_error + unit" where
  "br_check r = (if br_overrun r then Inl Overrun else Inr ())"

definition br_mark :: "bit_reader \<Rightarrow> mark" where
  "br_mark r = \<lparr>mk_pos = br_pos r, mk_cache = br_cache r, mk_cache_bits = br_cache_bits r,
                mk_flagged = br_flagged r\<rparr>"

definition br_restore :: "mark \<Rightarrow> bit_reader \<Rightarrow> bit_reader" where
  "br_restore m r = r\<lparr>br_pos := mk_pos m, br_cache := mk_cache m,
                      br_cache_bits := mk_cache_bits m, br_flagged := mk_flagged m\<rparr>"

definition br_remaining_bytes :: "bit_reader \<Rightarrow> u8 list" where
  "br_remaining_bytes r =
     (let start = (br_bit_pos r + 7) div 8; fin = br_logical_bits r div 8
      in if start \<ge> fin then []
         else case slice_range (br_data r) start fin of Some xs \<Rightarrow> xs | None \<Rightarrow> [])"

section \<open>Bit streams\<close>

definition sbit :: "u8 list \<Rightarrow> nat \<Rightarrow> bool" where
  "sbit bs i \<longleftrightarrow> i div 8 < length bs \<and> bit (bs ! (i div 8)) (7 - i mod 8)"

definition bits_val :: "bool list \<Rightarrow> nat" where
  "bits_val xs = horner_sum of_bool 2 (rev xs)"

definition window :: "(nat \<Rightarrow> bool) \<Rightarrow> nat \<Rightarrow> bool list" where
  "window f n = map f [0..<n]"

lemma length_window [simp]: "length (window f n) = n"
  by (simp add: window_def)

lemma nth_window [simp]: "i < n \<Longrightarrow> window f n ! i = f i"
  by (simp add: window_def)

lemma window_add: "window f (m + n) = window f m @ window (\<lambda>i. f (i + m)) n"
  by (rule nth_equalityI) (auto simp: nth_append)

lemma bit_bits_val: "bit (bits_val xs) k \<longleftrightarrow> k < length xs \<and> xs ! (length xs - 1 - k)"
  by (auto simp: bits_val_def bit_horner_sum_bit_iff rev_nth)

lemma bits_val_append: "bits_val (xs @ ys) = bits_val xs * 2 ^ length ys + bits_val ys"
  by (simp add: bits_val_def horner_sum_append)

lemma bits_val_less: "bits_val xs < 2 ^ length xs"
  by (induction xs rule: rev_induct) (auto simp: bits_val_def)

lemma unat_eq_bits_valI:
  fixes w :: "'a :: len word"
  assumes "\<And>k. bit w k \<longleftrightarrow> k < length xs \<and> xs ! (length xs - 1 - k)"
  shows "unat w = bits_val xs"
  by (rule bit_eqI) (use assms in \<open>simp add: bit_bits_val bit_unsigned_iff\<close>)

section \<open>The cache invariant\<close>

definition cursor :: "bit_reader \<Rightarrow> nat" where
  "cursor r = 8 * br_pos r - br_cache_bits r"

definition stream :: "bit_reader \<Rightarrow> nat \<Rightarrow> bool" where
  "stream r i = sbit (br_data r) (cursor r + i)"

definition reader_ok :: "bit_reader \<Rightarrow> bool" where
  "reader_ok r \<longleftrightarrow> br_cache_bits r \<le> 64 \<and> br_cache_bits r \<le> 8 * br_pos r \<and>
     (\<forall>j < 64. (bit (br_cache r) (63 - j) \<longrightarrow> stream r j) \<and>
              (j < br_cache_bits r \<longrightarrow> stream r j \<longrightarrow> bit (br_cache r) (63 - j)))"

text \<open>
  No counter saturates while \<open>n\<close> more bits are consumed: the position stays far below
  \<open>2^64\<close> bits.
\<close>

definition room :: "bit_reader \<Rightarrow> nat \<Rightarrow> bool" where
  "room r n \<longleftrightarrow> cursor r + n + 128 < 2 ^ 64"

lemma bit_step: "bit (push_bit 8 w OR ucast (b :: u8) :: u64) k \<longleftrightarrow> (if k < 8 then bit b k else k < 64 \<and> bit w (k - 8))"
proof -
  have "8 \<le> k \<Longrightarrow> \<not> bit b k" using bit_imp_le_length [of b k] by auto
  then show ?thesis by (auto simp: bit_or_iff bit_push_bit_iff bit_ucast_iff)
qed

lemma bit_be_word:
  "length bs \<le> 8 \<Longrightarrow>
     bit (be_word bs) k \<longleftrightarrow> k < 8 * length bs \<and> bit (bs ! (length bs - 1 - k div 8)) (k mod 8)"
proof (induction bs arbitrary: k rule: rev_induct)
  case Nil
  then show ?case by (simp add: be_word_def)
next
  case (snoc b bs)
  have e: "be_word (bs @ [b]) = push_bit 8 (be_word bs) OR ucast b" by (simp add: be_word_def)
  have len: "length bs \<le> 8" using snoc.prems by simp
  show ?case
  proof (cases "k < 8")
    case True
    then show ?thesis using snoc.prems by (simp add: e bit_step)
  next
    case False
    then obtain m where k: "k = m + 8" by (metis add.commute le_Suc_ex not_less)
    have "bit (be_word (bs @ [b])) k \<longleftrightarrow> k < 64 \<and> bit (be_word bs) m"
      by (simp add: e bit_step k)
    also have "\<dots> \<longleftrightarrow> m < 8 * length bs \<and> bit (bs ! (length bs - 1 - m div 8)) (m mod 8)"
      unfolding snoc.IH [OF len] using snoc.prems k by auto
    also have "\<dots> \<longleftrightarrow> k < 8 * length (bs @ [b]) \<and>
        bit ((bs @ [b]) ! (length (bs @ [b]) - 1 - k div 8)) (k mod 8)"
    proof -
      have "length (bs @ [b]) - 1 - k div 8 = length bs - 1 - m div 8" "k mod 8 = m mod 8"
        by (simp_all add: k)
      moreover have "m < 8 * length bs \<Longrightarrow> length bs - 1 - m div 8 < length bs" by (cases bs) auto
      ultimately show ?thesis by (auto simp: nth_append k)
    qed
    finally show ?thesis .
  qed
qed
lemma tail_word_be:
  assumes "br_pos r + 8 < 2 ^ 64"
  shows "tail_word r = be_word (map (\<lambda>i. case get_at (br_data r) (br_pos r + i) of
      Some b \<Rightarrow> b | None \<Rightarrow> 0) [0..<8])"
proof -
  have "sat_u 64 (br_pos r + i) = br_pos r + i" if "i < 8" for i
    using assms that by (intro sat_u_id) (simp add: fits_u_def)
  then show ?thesis
    unfolding tail_word_def be_word_def foldl_map by (intro foldl_cong) auto
qed

definition chunk_at :: "bit_reader \<Rightarrow> u64" where
  "chunk_at r = (case Option.bind (slice_from (br_data r) (br_pos r)) (first_chunk 8) of
     Some c \<Rightarrow> be_word c | None \<Rightarrow> tail_word r)"

lemma rev_index:
  assumes "(k :: nat) < 64"
  shows "7 - (63 - k) div 8 = k div 8" "(63 - k) mod 8 = 7 - k mod 8"
proof -
  obtain a c where k: "k div 8 = a" "k mod 8 = c" by simp
  have "63 - k = (7 - c) + 8 * (7 - a)" "a \<le> 7"
    using div_mult_mod_eq [of k 8] mod_less_divisor [of 8 k] assms unfolding k by linarith+
  moreover have "((7 - c) + 8 * (7 - a)) div 8 = 7 - a" "((7 - c) + 8 * (7 - a)) mod 8 = 7 - c"
    by simp_all
  ultimately show "7 - (63 - k) div 8 = k div 8" "(63 - k) mod 8 = 7 - k mod 8"
    unfolding k by simp_all
qed

text \<open>Both refill paths load the same 64 stream bits.\<close>

lemma bit_chunk_at:
  assumes "br_pos r + 8 < 2 ^ 64" "k < 64"
  shows "bit (chunk_at r) (63 - k) \<longleftrightarrow> sbit (br_data r) (8 * br_pos r + k)"
proof -
  note i = rev_index [OF assms(2)]
  have p: "(8 * br_pos r + k) div 8 = br_pos r + k div 8" "(8 * br_pos r + k) mod 8 = k mod 8" by simp_all
  have k8: "k div 8 < 8" and lt: "63 - k < 64" using assms(2) by simp_all
  show ?thesis
  proof (cases "br_pos r + 8 \<le> length (br_data r)")
    case True
    then have "chunk_at r = be_word (take 8 (drop (br_pos r) (br_data r)))"
      by (simp add: chunk_at_def first_chunk_from)
    moreover have "length (take 8 (drop (br_pos r) (br_data r))) = 8" using True by simp
    ultimately show ?thesis
      using True k8 lt by (simp add: bit_be_word i p sbit_def)
  next
    case False
    then have "chunk_at r = tail_word r" by (simp add: chunk_at_def first_chunk_from)
    then show ?thesis
      using lt k8 by (simp add: tail_word_be [OF assms(1)] bit_be_word i p sbit_def get_at_def)
  qed
qed

lemma refill_alt:
  "refill r = (if br_cache_bits r > 56 then r else
     r\<lparr>br_cache := br_cache r OR drop_bit (br_cache_bits r) (chunk_at r),
       br_pos := sat_u 64 (br_pos r + (64 - br_cache_bits r) div 8),
       br_cache_bits := br_cache_bits r + (64 - br_cache_bits r) div 8 * 8\<rparr>)"
  by (simp add: refill_def chunk_at_def Let_def)

lemma refill_frame:
  "br_data (refill r) = br_data r" "br_logical_bits (refill r) = br_logical_bits r"
  "br_flagged (refill r) = br_flagged r"
  by (simp_all add: refill_alt)

lemma refill_ok:
  assumes "reader_ok r" "room r 0"
  shows "reader_ok (refill r)" "cursor (refill r) = cursor r" "57 \<le> br_cache_bits (refill r)"
proof -
  let ?cb = "br_cache_bits r"
  define t where "t = (64 - ?cb) div 8"
  have ok: "?cb \<le> 64" "?cb \<le> 8 * br_pos r" using assms(1) by (simp_all add: reader_ok_def)
  have c8: "8 * br_pos r = cursor r + ?cb" using ok by (simp add: cursor_def)
  have small: "br_pos r + 8 < 2 ^ 64" using assms(2) c8 ok unfolding room_def by linarith
  have "reader_ok (refill r) \<and> cursor (refill r) = cursor r \<and> 57 \<le> br_cache_bits (refill r)"
  proof (cases "?cb > 56")
    case True
    then show ?thesis using assms(1) by (simp add: refill_alt)
  next
    case False
    have t: "?cb + t * 8 \<le> 64" "57 \<le> ?cb + t * 8" "t \<le> 8"
      using ok(1) False div_mult_mod_eq [of "64 - ?cb" 8] mod_less_divisor [of 8 "64 - ?cb"]
      unfolding t_def by linarith+
    have sat: "sat_u 64 (br_pos r + t) = br_pos r + t"
      using small t by (intro sat_u_id) (simp add: fits_u_def)
    let ?r = "refill r"
    have r: "?r = r\<lparr>br_cache := br_cache r OR drop_bit ?cb (chunk_at r), br_pos := br_pos r + t,
        br_cache_bits := ?cb + t * 8\<rparr>"
      using False sat by (simp add: refill_alt t_def)
    have cur: "cursor ?r = cursor r" using ok(2) by (simp add: r cursor_def)
    then have st: "stream ?r = stream r" by (simp add: stream_def fun_eq_iff refill_frame)
    have bit: "bit (br_cache ?r) (63 - j) \<longleftrightarrow> bit (br_cache r) (63 - j) \<or> ?cb \<le> j \<and> stream r j"
      if "j < 64" for j
    proof (cases "?cb \<le> j")
      case True
      have "?cb + (63 - j) = 63 - (j - ?cb)" using that True by simp
      then have "bit (drop_bit ?cb (chunk_at r)) (63 - j) \<longleftrightarrow> sbit (br_data r) (8 * br_pos r + (j - ?cb))"
        using bit_chunk_at [OF small, of "j - ?cb"] that by (simp add: bit_drop_bit_eq)
      also have "8 * br_pos r + (j - ?cb) = cursor r + j" using c8 True by simp
      finally show ?thesis using True by (simp add: r bit_or_iff stream_def)
    next
      case j: False
      have "\<not> bit (chunk_at r) (?cb + (63 - j))"
        using bit_imp_le_length [of "chunk_at r" "?cb + (63 - j)"] j that by auto
      then show ?thesis using j by (simp add: r bit_or_iff bit_drop_bit_eq)
    qed
    have fields: "br_cache_bits ?r = ?cb + t * 8" "br_pos ?r = br_pos r + t"
      by (simp_all add: r)
    have inv: "bit (br_cache r) (63 - j) \<Longrightarrow> stream r j" "j < ?cb \<Longrightarrow> stream r j \<Longrightarrow> bit (br_cache r) (63 - j)"
      if "j < 64" for j using assms(1) that unfolding reader_ok_def by blast+
    have "reader_ok ?r"
      unfolding reader_ok_def st
    proof (intro conjI allI impI)
      fix j :: nat assume j: "j < 64"
      show "bit (br_cache ?r) (63 - j) \<Longrightarrow> stream r j" using bit [OF j] inv(1) [OF j] by blast
      show "stream r j \<Longrightarrow> bit (br_cache ?r) (63 - j)"
        using bit [OF j] inv(2) [OF j] not_less by blast
    qed (use t ok in \<open>simp_all add: fields\<close>)
    then show ?thesis using cur t by (simp add: fields)
  qed
  then show "reader_ok (refill r)" "cursor (refill r) = cursor r" "57 \<le> br_cache_bits (refill r)"
    by blast+
qed

lemma consume_ok:
  assumes "reader_ok r" "n \<le> br_cache_bits r"
  shows "reader_ok (consume n r)" "cursor (consume n r) = cursor r + n"
proof -
  have ok: "br_cache_bits r \<le> 64" "br_cache_bits r \<le> 8 * br_pos r"
    using assms(1) by (simp_all add: reader_ok_def)
  show cur: "cursor (consume n r) = cursor r + n"
    using assms(2) ok by (simp add: cursor_def consume_def)
  have st: "stream (consume n r) j = stream r (j + n)" for j
    unfolding stream_def cur by (simp add: consume_def ac_simps)
  have bit: "bit (br_cache (consume n r)) (63 - j) \<longleftrightarrow> j + n < 64 \<and> bit (br_cache r) (63 - (j + n))"
    if "j < 64" for j
    using that by (auto simp: consume_def bit_push_bit_iff)
  have inv: "j < 64 \<Longrightarrow> j < br_cache_bits r \<Longrightarrow> stream r j \<Longrightarrow> bit (br_cache r) (63 - j)" for j
    using assms(1) unfolding reader_ok_def by blast
  show "reader_ok (consume n r)"
    unfolding reader_ok_def st
  proof (intro conjI allI impI)
    fix j :: nat assume j: "j < 64"
    show "bit (br_cache (consume n r)) (63 - j) \<Longrightarrow> stream r (j + n)"
      using assms(1) unfolding bit [OF j] reader_ok_def by blast
    show "j < br_cache_bits (consume n r) \<Longrightarrow> stream r (j + n) \<Longrightarrow> bit (br_cache (consume n r)) (63 - j)"
      using assms ok inv [of "j + n"] unfolding bit [OF j] by (auto simp: consume_def)
  qed (use ok in \<open>simp_all add: consume_def\<close>)
qed

lemma unat_top_bits:
  assumes "reader_ok r" "n \<le> br_cache_bits r" "n \<le> 32" "0 < n"
  shows "unat (top_bits n (br_cache r)) = bits_val (window (stream r) n)"
proof (rule unat_eq_bits_valI)
  fix k
  show "bit (top_bits n (br_cache r)) k \<longleftrightarrow>
    k < length (window (stream r) n) \<and> window (stream r) n ! (length (window (stream r) n) - 1 - k)"
  proof (cases "k < n")
    case True
    then have "64 - n + k = 63 - (n - 1 - k)" using assms(3) by simp
    then have "bit (top_bits n (br_cache r)) k \<longleftrightarrow> bit (br_cache r) (63 - (n - 1 - k))"
      using True assms(3) by (simp add: top_bits_def bit_ucast_iff bit_drop_bit_eq)
    also have "\<dots> \<longleftrightarrow> stream r (n - 1 - k)"
    proof -
      have "n - 1 - k < 64" "n - 1 - k < br_cache_bits r" using assms(2-4) by linarith+
      then show ?thesis using assms(1) unfolding reader_ok_def by blast
    qed
    finally show ?thesis using True by simp
  next
    case False
    then have "\<not> bit (br_cache r) (64 - n + k)"
      using bit_imp_le_length [of "br_cache r" "64 - n + k"] assms(3) by auto
    with False show ?thesis by (simp add: top_bits_def bit_ucast_iff bit_drop_bit_eq)
  qed
qed

section \<open>Reads as reads of the stream\<close>

definition same_source :: "bit_reader \<Rightarrow> bit_reader \<Rightarrow> bool" where
  "same_source r r' \<longleftrightarrow> br_data r' = br_data r \<and> br_logical_bits r' = br_logical_bits r \<and>
     br_flagged r' = br_flagged r"

text \<open>\<open>r'\<close> is the reader \<open>r\<close> after consuming \<open>n\<close> bits.\<close>

definition advanced :: "bit_reader \<Rightarrow> nat \<Rightarrow> bit_reader \<Rightarrow> bool" where
  "advanced r n r' \<longleftrightarrow> reader_ok r' \<and> cursor r' = cursor r + n \<and> same_source r r'"

lemma advanced_refl: "reader_ok r \<Longrightarrow> advanced r 0 r"
  by (simp add: advanced_def same_source_def)

lemma advanced_trans: "advanced r m r' \<Longrightarrow> advanced r' n r'' \<Longrightarrow> advanced r (m + n) r''"
  by (simp add: advanced_def same_source_def)

lemma advanced_stream: "advanced r n r' \<Longrightarrow> stream r' = (\<lambda>i. stream r (i + n))"
  by (simp add: advanced_def same_source_def stream_def fun_eq_iff ac_simps)

lemma advanced_room: "advanced r n r' \<Longrightarrow> room r (n + m) \<Longrightarrow> room r' m"
  by (simp add: advanced_def room_def add.assoc)

lemma room_mono: "room r n \<Longrightarrow> m \<le> n \<Longrightarrow> room r m"
  by (simp add: room_def)

lemma refill_advanced: "reader_ok r \<Longrightarrow> room r 0 \<Longrightarrow> advanced r 0 (refill r)"
  by (simp add: advanced_def same_source_def refill_ok refill_frame)

lemma consume_advanced: "reader_ok r \<Longrightarrow> n \<le> br_cache_bits r \<Longrightarrow> advanced r n (consume n r)"
  using consume_ok by (simp add: advanced_def same_source_def) (simp add: consume_def)

lemma loaded_ok:
  assumes "reader_ok r" "room r 0" "n \<le> 32"
    and "r' = (if br_cache_bits r < n then refill r else r)"
  shows "advanced r 0 r'" "n \<le> br_cache_bits r'"
  using assms refill_advanced [of r] refill_ok(3) [of r] advanced_refl [of r] by auto

lemma br_peek_spec:
  assumes "reader_ok r" "room r 0" "n \<le> 32" "br_peek n r = (v, r')"
  shows "unat v = bits_val (window (stream r) n) \<and> advanced r 0 r'"
proof (cases "n = 0")
  case True
  then show ?thesis using assms by (simp add: br_peek_def advanced_refl window_def bits_val_def)
next
  case False
  define q where "q = (if br_cache_bits r < n then refill r else r)"
  note L = loaded_ok [OF assms(1-3) q_def]
  have "v = top_bits n (br_cache q)" "r' = q" using assms(3,4) False by (auto simp: br_peek_def q_def Let_def)
  moreover have "unat (top_bits n (br_cache q)) = bits_val (window (stream q) n)"
    using L assms(3) False by (intro unat_top_bits) (simp_all add: advanced_def)
  ultimately show ?thesis using L advanced_stream [OF L(1)] by simp
qed

lemma br_get_spec:
  assumes "reader_ok r" "room r n" "n \<le> 32" "br_get n r = (v, r')"
  shows "unat v = bits_val (window (stream r) n) \<and> advanced r n r'"
proof (cases "n = 0")
  case True
  then show ?thesis using assms by (simp add: br_get_def advanced_refl window_def bits_val_def)
next
  case False
  have "room r 0" using assms(2) by (rule room_mono) simp
  obtain w q where p: "br_peek n r = (w, q)" by fastforce
  note P = br_peek_spec [OF assms(1) \<open>room r 0\<close> assms(3) p]
  have "n \<le> br_cache_bits q" "v = w" "r' = consume n q"
    using assms(3,4) p False loaded_ok(2) [OF assms(1) \<open>room r 0\<close> assms(3) refl]
    by (auto simp: br_get_def br_peek_def Let_def)
  then show ?thesis
    using P consume_advanced [of q n] advanced_trans [of r 0 q n r'] by (simp add: advanced_def)
qed

lemma skip_rest_spec:
  assumes "reader_ok r" "room r (br_cache_bits r + 8 * bytes + bits)" "bits < 8"
  shows "advanced r (br_cache_bits r + 8 * bytes + bits) (skip_rest bytes bits r)"
proof -
  have c: "8 * br_pos r = cursor r + br_cache_bits r"
    using assms(1) by (simp add: reader_ok_def cursor_def)
  have sat: "sat_u 64 (br_pos r + bytes) = br_pos r + bytes"
    using assms(2) c unfolding room_def by (intro sat_u_id) (simp add: fits_u_def)
  define q where "q = r\<lparr>br_cache := 0, br_cache_bits := 0, br_pos := br_pos r + bytes\<rparr>"
  have q: "advanced r (br_cache_bits r + 8 * bytes) q"
    unfolding advanced_def reader_ok_def same_source_def
    using c by (simp add: q_def cursor_def)
  then have "room q bits" using advanced_room assms(2) by (simp add: add.assoc)
  then have rm: "room q 0" by (rule room_mono) simp
  have ok: "reader_ok q" using q by (simp add: advanced_def)
  have e: "skip_rest bytes bits r = (if bits \<noteq> 0 then consume bits (refill q) else q)"
    by (simp add: skip_rest_def sat q_def)
  show ?thesis
  proof (cases "bits = 0")
    case True
    then show ?thesis using q e by simp
  next
    case False
    have "advanced q (0 + bits) (consume bits (refill q))"
      using refill_advanced [OF ok rm] refill_ok [OF ok rm] assms(3)
      by (intro advanced_trans [of q 0 "refill q"] consume_advanced) simp_all
    then show ?thesis using advanced_trans [OF q] False e by (simp add: add.assoc)
  qed
qed

lemma skip_parts: "n \<ge> c \<Longrightarrow> n = c + 8 * ((n - c) div 8) + (n - c) mod (8 :: nat)"
  by (metis add.assoc le_add_diff_inverse mult_div_mod_eq)

lemma br_skip_spec:
  assumes "reader_ok r" "room r n"
  shows "advanced r n (br_skip n r)"
proof -
  consider "n = 0" | "n \<noteq> 0" "n < br_cache_bits r" | "n \<noteq> 0" "br_cache_bits r \<le> n" by linarith
  then show ?thesis
  proof cases
    case 3
    then show ?thesis
      using skip_rest_spec [of r "(n - br_cache_bits r) div 8" "(n - br_cache_bits r) mod 8"]
        skip_parts [OF 3(2)] assms by (simp add: br_skip_def Let_def)
  qed (use assms in \<open>simp_all add: br_skip_def advanced_refl consume_advanced\<close>)
qed

lemma br_skip_long_spec:
  assumes "reader_ok r" "room r n"
  shows "advanced r n (br_skip_long n r)"
proof (cases "n \<le> br_cache_bits r")
  case True
  then show ?thesis using br_skip_spec assms by (simp add: br_skip_long_def)
next
  case False
  then have "br_cache_bits r \<le> n" by simp
  then show ?thesis
    using skip_rest_spec [of r "(n - br_cache_bits r) div 8" "(n - br_cache_bits r) mod 8"]
      skip_parts [of "br_cache_bits r" n] assms False by (simp add: br_skip_long_def Let_def)
qed

text \<open>Whatever the state of the reader, a read of \<open>n\<close> bits is below \<open>2^n\<close>.\<close>

lemma unat_drop: "unat (drop_bit n w) = unat w div 2 ^ n"
  using unsigned_less [of w, where ?'a = nat]
  by (simp add: unsigned_drop_bit_eq take_bit_nat_eq_self) (simp add: drop_bit_eq_div)

lemma unat_top_bits_less: "n \<le> 32 \<Longrightarrow> unat (top_bits n c) < 2 ^ n"
proof -
  assume n: "n \<le> 32"
  have "unat (top_bits n c) = take_bit 32 (unat c div 2 ^ (64 - n))"
    by (simp add: top_bits_def unsigned_ucast_eq unat_drop)
  also have "\<dots> \<le> unat c div 2 ^ (64 - n)" by (rule take_bit_nat_less_eq_self)
  also have "\<dots> < 2 ^ n"
  proof (rule less_mult_imp_div_less)
    show "unat c < 2 ^ n * 2 ^ (64 - n)"
      using unsigned_less [of c, where ?'a = nat] n by (simp flip: power_add)
  qed
  finally show ?thesis .
qed

lemma br_peek_less: "n \<le> 32 \<Longrightarrow> br_peek n r = (v, r') \<Longrightarrow> unat v < 2 ^ n"
  using unat_top_bits_less by (auto simp: br_peek_def Let_def split: if_splits)

lemma br_get_less: "n \<le> 32 \<Longrightarrow> br_get n r = (v, r') \<Longrightarrow> unat v < 2 ^ n"
  using unat_top_bits_less by (auto simp: br_get_def Let_def split: if_splits)

section \<open>The interface of the decoders\<close>

definition leading_zeros :: "'a :: len word \<Rightarrow> nat" where
  "leading_zeros w = length (takeWhile Not (map (bit w) (rev [0..<LENGTH('a)])))"

lemma bits_of_value:
  fixes w :: "'a :: len word"
  assumes "unat w = bits_val xs" "length xs = LENGTH('a)"
  shows "map (bit w) (rev [0..<LENGTH('a)]) = xs"
proof (rule nth_equalityI)
  fix i assume "i < length (map (bit w) (rev [0..<LENGTH('a)]))"
  then have i: "i < LENGTH('a)" by simp
  have "bit w (LENGTH('a) - 1 - i) \<longleftrightarrow> bit (unat w) (LENGTH('a) - 1 - i)"
    by (simp add: bit_unsigned_iff)
  then show "map (bit w) (rev [0..<LENGTH('a)]) ! i = xs ! i"
    using i assms by (simp add: rev_nth bit_bits_val)
qed (use assms in simp)

lemma takeWhile_window:
  "(\<forall>i < k. \<not> f i) \<Longrightarrow> k < n \<Longrightarrow> f k \<Longrightarrow> length (takeWhile Not (window f n)) = k"
proof -
  assume a: "\<forall>i < k. \<not> f i" "k < n" "f k"
  have "window f n = window f k @ f k # window (\<lambda>i. f (i + Suc k)) (n - Suc k)"
    using a(2) window_add [of f k "n - k"] window_add [of "\<lambda>i. f (i + k)" 1 "n - Suc k"]
    by (simp add: window_def [of _ "Suc 0"] Suc_diff_Suc)
  moreover have "takeWhile Not (window f k) = window f k"
    using a(1) by (simp add: takeWhile_eq_all_conv window_def)
  ultimately show ?thesis using a(1,3) by (simp add: takeWhile_append window_def)
qed

locale bit_cursor =
  fixes peek :: "nat \<Rightarrow> 's \<Rightarrow> u32 \<times> 's"
    and get :: "nat \<Rightarrow> 's \<Rightarrow> u32 \<times> 's"
    and skip :: "nat \<Rightarrow> 's \<Rightarrow> 's"
    and str :: "'s \<Rightarrow> nat \<Rightarrow> bool"
    and after :: "'s \<Rightarrow> nat \<Rightarrow> 's \<Rightarrow> bool"
    and fits :: "'s \<Rightarrow> nat \<Rightarrow> bool"
  assumes fits_le: "fits s n \<Longrightarrow> m \<le> n \<Longrightarrow> fits s m"
    and after_trans: "after s m t \<Longrightarrow> after t n u \<Longrightarrow> after s (m + n) u"
    and after_str: "after s n t \<Longrightarrow> str t = (\<lambda>i. str s (i + n))"
    and after_fits: "after s n t \<Longrightarrow> fits s (n + m) \<Longrightarrow> fits t m"
    and peek_law: "fits s n \<Longrightarrow> n \<le> 32 \<Longrightarrow> peek n s = (v, t) \<Longrightarrow>
      unat v = bits_val (window (str s) n) \<and> after s 0 t"
    and get_law: "fits s n \<Longrightarrow> n \<le> 32 \<Longrightarrow> get n s = (v, t) \<Longrightarrow>
      unat v = bits_val (window (str s) n) \<and> after s n t"
    and skip_law: "fits s n \<Longrightarrow> after s n (skip n s)"
begin

lemma get_get:
  assumes "fits s (m + n)" "m \<le> 32" "n \<le> 32" "get m s = (v, t)" "get n t = (w, u)"
  shows "unat v * 2 ^ n + unat w = bits_val (window (str s) (m + n)) \<and> after s (m + n) u"
proof -
  have 1: "unat v = bits_val (window (str s) m)" "after s m t"
    using get_law [OF fits_le [OF assms(1)] assms(2,4)] by simp_all
  then have 2: "unat w = bits_val (window (str t) n)" "after t n u"
    using get_law [OF after_fits [OF 1(2) assms(1)] assms(3,5)] by simp_all
  show ?thesis
    using 1 2 after_trans after_str [OF 1(2)] by (simp add: window_add bits_val_append)
qed

text \<open>The length of a unary prefix, seen through a 32-bit peek.\<close>

lemma peek_zeros:
  assumes "fits s 32" "peek 32 s = (v, t)" "\<forall>i < z. \<not> str s i" "z < 32" "str s z"
  shows "leading_zeros v = z"
proof -
  have "map (bit v) (rev [0..<32]) = window (str s) 32"
    using peek_law [OF assms(1) _ assms(2)] bits_of_value [of v "window (str s) 32"] by simp
  then show ?thesis
    using takeWhile_window [OF assms(3-5)] by (simp add: leading_zeros_def)
qed

lemma peek_all_zeros:
  assumes "fits s 32" "peek 32 s = (v, t)" "\<forall>i < 32. \<not> str s i"
  shows "leading_zeros v = 32"
proof -
  have "map (bit v) (rev [0..<32]) = window (str s) 32"
    using peek_law [OF assms(1) _ assms(2)] bits_of_value [of v "window (str s) 32"] by simp
  moreover have "takeWhile Not (window (str s) 32) = window (str s) 32"
    using assms(3) unfolding takeWhile_eq_all_conv window_def by auto
  ultimately show ?thesis by (simp add: leading_zeros_def del: takeWhile_eq_all_conv)
qed

text \<open>A prefix of \<open>z\<close> zeros and a one, then \<open>n\<close> suffix bits.\<close>

lemma prefix_code:
  assumes "fits s (z + 1 + n)" "fits s 32" "n \<le> 32" "\<forall>i < z. \<not> str s i" "str s z" "z < 32"
    and "peek 32 s = (p, s1)" "get n (skip (z + 1) s1) = (v, s2)"
  shows "leading_zeros p = z \<and> unat v = bits_val (window (\<lambda>i. str s (i + (z + 1))) n) \<and>
    after s (z + 1 + n) s2"
proof -
  have 1: "after s 0 s1" using peek_law [OF assms(2) _ assms(7)] by simp
  then have f1: "fits s1 (z + 1 + n)" using after_fits assms(1) by simp
  then have 2: "after s1 (z + 1) (skip (z + 1) s1)" using skip_law fits_le by simp
  then have f2: "fits (skip (z + 1) s1) n" using after_fits f1 by blast
  have 12: "after s (z + 1) (skip (z + 1) s1)" using after_trans [OF 1 2] by simp
  note G = get_law [OF f2 assms(3,8)]
  show ?thesis
    using peek_zeros [OF assms(2,7,4,6,5)] G after_trans [OF 12] after_str [OF 12] by simp
qed

end

interpretation br: bit_cursor br_peek br_get br_skip stream advanced
  "\<lambda>r n. reader_ok r \<and> room r n"
proof unfold_locales
  show "reader_ok r \<and> room r n \<Longrightarrow> m \<le> n \<Longrightarrow> reader_ok r \<and> room r m" for r n m
    using room_mono by blast
  show "advanced r n t \<Longrightarrow> reader_ok r \<and> room r (n + m) \<Longrightarrow> reader_ok t \<and> room t m" for r n t m
    using advanced_room advanced_def by blast
  show "reader_ok r \<and> room r n \<Longrightarrow> n \<le> 32 \<Longrightarrow> br_peek n r = (v, t) \<Longrightarrow>
      unat v = bits_val (window (stream r) n) \<and> advanced r 0 t" for r n v t
    using br_peek_spec room_mono by blast
qed (use advanced_trans advanced_stream br_get_spec br_skip_spec in blast)+

section \<open>Properties of the reader\<close>

lemma br_start_ok: "reader_ok (br_start bs n)" "cursor (br_start bs n) = 0"
  by (simp_all add: reader_ok_def br_start_def cursor_def)

lemma stream_start: "stream (br_start bs n) = sbit bs"
  by (simp add: stream_def br_start_def cursor_def fun_eq_iff)

text \<open>
  The documented stream ends at the logical end: zeros from there on. The reader itself stops
  at the end of its slice, so the two agree on the next \<open>n\<close> bits when what the slice holds
  between the logical end and the last of these bits is zero (\<open>zero_tail\<close>). That is so
  for every read inside the logical length, for every reader made by \<^verbatim>\<open>new\<close>, and for one made by
  \<^verbatim>\<open>new_padded\<close> through the whole 64 bytes of padding; a reader made by
  \<^verbatim>\<open>with_logical_len\<close> over other bytes returns those bytes instead.
\<close>

definition logical_stream :: "bit_reader \<Rightarrow> nat \<Rightarrow> bool" where
  "logical_stream r i \<longleftrightarrow> cursor r + i < br_logical_bits r \<and> stream r i"

definition zero_tail :: "bit_reader \<Rightarrow> nat \<Rightarrow> bool" where
  "zero_tail r n \<longleftrightarrow> (\<forall>i < n. br_logical_bits r \<le> cursor r + i \<longrightarrow> \<not> stream r i)"

lemma zero_tail_window: "zero_tail r n \<Longrightarrow> window (logical_stream r) n = window (stream r) n"
  by (auto simp: zero_tail_def logical_stream_def window_def not_le)

lemma zero_tail_inside: "cursor r + n \<le> br_logical_bits r \<Longrightarrow> zero_tail r n"
  by (simp add: zero_tail_def)

lemma advanced_start:
  assumes "advanced (br_start bs len) k r"
  shows "reader_ok r" "cursor r = k" "br_logical_bits r = sat_u 64 (len * 8)"
    "stream r = (\<lambda>i. sbit bs (k + i))"
  using assms
  by (simp_all add: advanced_def same_source_def stream_def fun_eq_iff)
    (simp_all add: br_start_def cursor_def)

lemma zero_tail_new:
  assumes "8 * length bs < 2 ^ 64" "advanced (br_new bs) k r"
  shows "zero_tail r n"
proof -
  note A = advanced_start [OF assms(2) [unfolded br_new_def]]
  have "br_logical_bits r = 8 * length bs"
    using A(3) assms(1) sat_u_id [of 64 "length bs * 8"] by (simp add: fits_u_def mult.commute)
  then show ?thesis by (auto simp: zero_tail_def A sbit_def)
qed

lemma padded_new_Some:
  "padded_new bs n = Some p \<longleftrightarrow>
     n + PAD \<le> length bs \<and> (\<forall>i < PAD. bs ! (n + i) = 0) \<and> p = \<lparr>pd_bytes = bs, pd_logical_len = n\<rparr>"
proof (cases "n + PAD \<le> length bs")
  case True
  then have "list_ex (\<lambda>b. b \<noteq> 0) (take PAD (drop n bs)) \<longleftrightarrow> \<not> (\<forall>i < PAD. bs ! (n + i) = 0)"
    using all_set_conv_all_nth [of "take PAD (drop n bs)" "\<lambda>b. b = 0"] by (auto simp: list_ex_iff)
  with True show ?thesis by (auto simp: padded_new_def slice_from_def slice_range_def)
next
  case False
  then show ?thesis by (auto simp: padded_new_def slice_from_def slice_range_def)
qed

lemma sbit_padding:
  assumes "n + PAD \<le> length bs" "\<forall>i < PAD. bs ! (n + i) = 0" "i < 8 * (n + PAD)"
  shows "sbit bs i = sbit (take n bs) i"
proof (cases "i div 8 < n")
  case True
  then show ?thesis using assms(1) by (simp add: sbit_def)
next
  case False
  then obtain d where d: "i div 8 = n + d" by (metis le_iff_add not_less)
  then have "d < PAD" using assms(3) by simp
  then show ?thesis using assms d by (simp add: sbit_def)
qed

lemma zero_tail_padded:
  assumes "padded_new bs len = Some p" "8 * length bs < 2 ^ 64" "advanced (br_new_padded p) k r"
    "k + n \<le> 8 * (len + PAD)"
  shows "zero_tail r n"
proof -
  have p: "len + PAD \<le> length bs" "\<forall>i < PAD. bs ! (len + i) = 0"
    "p = \<lparr>pd_bytes = bs, pd_logical_len = len\<rparr>"
    using assms(1) unfolding padded_new_Some by blast+
  have "advanced (br_start bs len) k r" using assms(3) p(3) by (simp add: br_new_padded_def)
  note A = advanced_start [OF this]
  have "br_logical_bits r = 8 * len"
    using A(3) assms(2) p(1) sat_u_id [of 64 "len * 8"] by (simp add: fits_u_def mult.commute)
  moreover have "stream r i \<longleftrightarrow> sbit (take len bs) (k + i)" if "i < n" for i
    using sbit_padding [OF p(1,2), of "k + i"] that assms(4) by (simp add: A)
  moreover have "\<not> sbit (take len bs) i" if "8 * len \<le> i" for i
  proof -
    have "\<not> i div 8 < len" using that by presburger
    then show ?thesis by (simp add: sbit_def)
  qed
  ultimately show ?thesis unfolding zero_tail_def A(2) by presburger
qed

text \<open>
  C3. The cached reader is a reader of the documented bit stream: from every reachable cache
  state, \<^verbatim>\<open>get\<close> and \<^verbatim>\<open>peek\<close> return the next \<open>n\<close> bits of the data up to the logical
  end and zeros after it (on the eight-byte path and on the tail path alike), \<^verbatim>\<open>get\<close> and both
  skips advance by exactly \<open>n\<close>, \<^verbatim>\<open>peek\<close> by nothing, and the cache invariant is kept. The
  reads covered are those with nothing but zeros in the slice between the logical end and the
  end of the read: all reads within the logical length, all reads of a reader made by
  \<^verbatim>\<open>new\<close>, and those of a padded reader up to the end of its padding. Reads past
  the logical end of a \<^verbatim>\<open>with_logical_len\<close> reader over other bytes are excluded: the code
  returns those bytes there.
\<close>

theorem reader_reads_stream:
  assumes "reader_ok r" "room r n" "zero_tail r n"
  shows "(n \<le> 32 \<longrightarrow>
      (\<exists>v r'. br_get n r = (v, r') \<and> unat v = bits_val (window (logical_stream r) n) \<and> advanced r n r') \<and>
      (\<exists>v r'. br_peek n r = (v, r') \<and> unat v = bits_val (window (logical_stream r) n) \<and> advanced r 0 r')) \<and>
    advanced r n (br_skip n r) \<and> advanced r n (br_skip_long n r)"
  unfolding zero_tail_window [OF assms(3)]
proof (intro conjI impI)
  assume n: "n \<le> 32"
  show "\<exists>v r'. br_get n r = (v, r') \<and> unat v = bits_val (window (stream r) n) \<and> advanced r n r'"
    using br_get_spec [OF assms(1,2) n] by (metis surj_pair)
  show "\<exists>v r'. br_peek n r = (v, r') \<and> unat v = bits_val (window (stream r) n) \<and> advanced r 0 r'"
    using br_peek_spec [OF assms(1) room_mono [OF assms(2)] n] by (metis surj_pair zero_le)
qed (use br_skip_spec br_skip_long_spec assms(1,2) in blast)+

text \<open>Seven bits of a one-byte buffer and of the zeros after it, three bits into it.\<close>

theorem reader_reads_stream_witness:
  "\<exists>v r'. br_get 7 (br_skip 3 (br_new [0xAD])) = (v, r') \<and>
     unat v = bits_val [False, True, True, False, True, False, False]"
proof -
  define s where "s = br_start [0xAD] 1"
  define q where "q = br_skip 3 s"
  have new: "br_new [0xAD] = s" by (simp add: s_def br_new_def)
  have s: "advanced s 3 q" unfolding s_def q_def by (rule br_skip_spec) (simp_all add: br_start_ok room_def)
  note A = advanced_start [OF s [unfolded s_def]]
  have room: "room q 7" using A(2) unfolding room_def by simp
  have z: "zero_tail q 7" by (rule zero_tail_new [of "[0xAD]" 3]) (use s new in simp_all)
  have "window (logical_stream q) 7 = window (\<lambda>i. 3 + i < 8 \<and> sbit [0xAD] (3 + i)) 7"
    by (simp add: window_def logical_stream_def A sat_u_def)
  also have "\<dots> = [False, True, True, False, True, False, False]"
    by (simp add: window_def upt_rec sbit_def bit_simps)
  finally have w: "window (logical_stream q) 7 = [False, True, True, False, True, False, False]" .
  show ?thesis
    unfolding new q_def [symmetric] using reader_reads_stream [OF A(1) room z, unfolded w] by auto
qed

text \<open>
  The documentation promises zeros past the logical end of every reader; over a longer slice
  the code returns the bytes that follow.
\<close>

lemma logical_len_reads_on:
  "fst (br_get 8 (br_skip 8 (br_with_logical_len [0xAA, 0xFF] 1))) = 0xFF \<and>
   \<not> logical_stream (br_skip 8 (br_with_logical_len [0xAA, 0xFF] 1)) 0"
proof -
  define s where "s = br_start [0xAA, 0xFF] 1"
  define q where "q = br_skip 8 s"
  have new: "br_with_logical_len [0xAA, 0xFF] 1 = s" by (simp add: s_def br_with_logical_len_def)
  have s: "advanced s 8 q" unfolding s_def q_def by (rule br_skip_spec) (simp_all add: br_start_ok room_def)
  note A = advanced_start [OF s [unfolded s_def]]
  have room: "room q 8" using A(2) unfolding room_def by simp
  obtain v r where g: "br_get 8 q = (v, r)" by fastforce
  have "window (stream q) 8 = [True, True, True, True, True, True, True, True]"
    by (simp add: A window_def upt_rec sbit_def bit_simps)
  then have "unat v = unat (0xFF :: u32)"
    using br_get_spec [OF A(1) room _ g] by (simp add: bits_val_def)
  then have "v = 0xFF" by (simp only: word_unat_eq_iff)
  then show ?thesis unfolding new q_def [symmetric] using g A(2,3) by (simp add: logical_stream_def sat_u_def)
qed

lemma bit_hi_lo:
  "bit (push_bit 32 (ucast (hi :: u32)) OR ucast (lo :: u32) :: u64) k \<longleftrightarrow>
     (if k < 32 then bit lo k else bit hi (k - 32))"
proof -
  have "bit hi (k - 32) \<Longrightarrow> k < 64" "bit lo k \<Longrightarrow> k < 32"
    using bit_imp_le_length [of hi "k - 32"] bit_imp_le_length [of lo k] by auto
  then show ?thesis by (auto simp: bit_or_iff bit_push_bit_iff bit_ucast_iff)
qed

lemma bit_of_unat: "unat w = bits_val xs \<Longrightarrow> bit w k \<longleftrightarrow> k < length xs \<and> xs ! (length xs - 1 - k)"
  by (metis bit_bits_val bit_of_nat_iff_bit bit_unsigned_iff bit_imp_le_length possible_bit_nat)

lemma unat_hi_lo:
  assumes "unat (hi :: u32) = bits_val xs" "unat (lo :: u32) = bits_val ys" "length ys = 32"
  shows "unat (push_bit 32 (ucast hi) OR ucast lo :: u64) = bits_val (xs @ ys)"
proof (rule unat_eq_bits_valI)
  fix k
  show "bit (push_bit 32 (ucast hi) OR ucast lo :: u64) k \<longleftrightarrow>
    k < length (xs @ ys) \<and> (xs @ ys) ! (length (xs @ ys) - 1 - k)"
  proof (cases "k < 32")
    case True
    then have "length xs + 32 - 1 - k = length xs + (31 - k)" by simp
    moreover have "(xs @ ys) ! (length xs + (31 - k)) = ys ! (31 - k)" by (rule nth_append_length_plus)
    ultimately show ?thesis
      using True assms(3) by (simp add: bit_hi_lo bit_of_unat [OF assms(2)] del: nth_append_length_plus)
  next
    case False
    then have "length xs + 32 - 1 - k = length xs - 1 - (k - 32)" by simp
    then show ?thesis
      using False assms(3) by (auto simp: bit_hi_lo bit_of_unat [OF assms(1)] nth_append)
  qed
qed

lemma br_get_long_spec:
  assumes "reader_ok r" "room r n" "n \<le> 64" "br_get_long n r = (v, r')"
  shows "unat v = bits_val (window (stream r) n) \<and> advanced r n r'"
proof (cases "n \<le> 32")
  case True
  obtain w q where g: "br_get n r = (w, q)" by fastforce
  have "unat (ucast w :: u64) = unat w"
    by (rule bit_eqI) (auto simp: bit_unsigned_iff bit_ucast_iff dest: bit_imp_le_length)
  then show ?thesis
    using br_get_spec [OF assms(1,2) True g] assms(4) True g by (auto simp: br_get_long_def)
next
  case False
  obtain hi r1 where g1: "br_get (n - 32) r = (hi, r1)" by fastforce
  obtain lo r2 where g2: "br_get 32 r1 = (lo, r2)" by fastforce
  have n: "n - 32 \<le> 32" "(n - 32) + 32 = n" using assms(3) False by simp_all
  have "room r (n - 32)" using assms(2) by (rule room_mono) simp
  note 1 = br_get_spec [OF assms(1) this n(1) g1]
  have "reader_ok r1" "room r1 32"
    using 1 advanced_room [of r "n - 32" r1 32] assms(2) n(2) by (simp_all add: advanced_def)
  note 2 = br_get_spec [OF this order_refl g2]
  have "window (stream r) n = window (stream r) (n - 32) @ window (stream r1) 32"
    using window_add [of "stream r" "n - 32" 32] advanced_stream [of r "n - 32" r1] 1 n(2) by simp
  then show ?thesis
    using 1 2 unat_hi_lo [of hi "window (stream r) (n - 32)" lo "window (stream r1) 32"]
      advanced_trans [of r "n - 32" r1 32 r2] assms(3,4) n(2) g1 g2 False
    by (auto simp: br_get_long_def)
qed

lemma sint_sign_extend:
  assumes "0 < n" "n \<le> 32"
  shows "sint (signed_drop_bit (32 - n) (push_bit (32 - n) (v :: u32))) = signed_take_bit (n - 1) (uint v)"
proof (rule bit_eqI)
  fix k
  let ?m = "32 - n" and ?i = "min 31 (32 - n + k)"
  have i: "?m \<le> ?i" "?i < 32" "?i - ?m = min k (n - 1)" using assms by (auto simp: min_def)
  have "bit (sint (signed_drop_bit ?m (push_bit ?m v))) k \<longleftrightarrow> bit (sint (push_bit ?m v)) (?m + k)"
    by (simp only: sint_signed_drop_bit_eq bit_drop_bit_eq o_def)
  also have "\<dots> \<longleftrightarrow> bit (push_bit ?m v) ?i" by (simp add: bit_signed_iff)
  also have "\<dots> \<longleftrightarrow> bit v (min k (n - 1))" using i by (simp add: bit_push_bit_iff)
  also have "\<dots> \<longleftrightarrow> bit (signed_take_bit (n - 1) (uint v)) k"
    by (simp add: bit_signed_take_bit_iff bit_unsigned_iff min.commute)
  finally show "bit (sint (signed_drop_bit ?m (push_bit ?m v))) k \<longleftrightarrow>
      bit (signed_take_bit (n - 1) (uint v)) k" .
qed

lemma br_get_signed_spec:
  assumes "reader_ok r" "room r n" "n \<le> 32" "0 < n" "br_get_signed n r = (v, r')"
  shows "sint v = int (bits_val (window (stream r) n)) - (if stream r 0 then 2 ^ n else 0) \<and>
    advanced r n r'"
proof -
  obtain w q where g: "br_get n r = (w, q)" by fastforce
  note G = br_get_spec [OF assms(1-3) g]
  let ?u = "bits_val (window (stream r) n)"
  have v: "v = signed_drop_bit (32 - n) (push_bit (32 - n) w)" "r' = q"
    using assms(3-5) g by (auto simp: br_get_signed_def)
  have u: "uint w = int ?u" using G by (simp add: uint_nat)
  have "?u < 2 ^ n" using bits_val_less [of "window (stream r) n"] by simp
  then have "take_bit n (int ?u) = int ?u" by (simp add: take_bit_int_eq_self)
  moreover have "bit (int ?u) (n - 1) \<longleftrightarrow> stream r 0"
    using assms(4) by (simp add: bit_of_nat_iff bit_bits_val)
  ultimately have "signed_take_bit (n - 1) (int ?u) = int ?u - (if stream r 0 then 2 ^ n else 0)"
    using assms(4) by (simp add: signed_take_bit_eq_take_bit_minus)
  then show ?thesis using G v sint_sign_extend [OF assms(4,3), of w] by (simp only: u)
qed

text \<open>
  Wide and signed reads: \<^verbatim>\<open>get_long\<close> returns up to 64 stream bits as a number although
  it is assembled from two 32-bit reads, and \<^verbatim>\<open>get_signed\<close> is their two's-complement value.
\<close>

theorem wide_and_signed_reads:
  assumes "reader_ok r" "room r n"
  shows "(n \<le> 64 \<longrightarrow> (\<exists>v r'. br_get_long n r = (v, r') \<and>
        unat v = bits_val (window (stream r) n) \<and> advanced r n r')) \<and>
    (0 < n \<and> n \<le> 32 \<longrightarrow> (\<exists>v r'. br_get_signed n r = (v, r') \<and>
        sint v = int (bits_val (window (stream r) n)) - (if stream r 0 then 2 ^ n else 0) \<and>
        advanced r n r'))"
  using br_get_long_spec [OF assms] br_get_signed_spec [OF assms] by (metis surj_pair)

theorem wide_and_signed_reads_witness:
  "\<exists>v r'. br_get_signed 4 (br_new [0xE0]) = (v, r') \<and> sint v = - 2"
proof -
  have "window (stream (br_new [0xE0])) 4 = [True, True, True, False]"
    by (simp add: br_new_def stream_start window_def upt_rec sbit_def bit_simps)
  moreover have "stream (br_new [0xE0]) 0"
    by (simp add: br_new_def stream_start sbit_def bit_simps)
  moreover have "reader_ok (br_new [0xE0])" "room (br_new [0xE0]) 4"
    by (simp_all add: br_new_def br_start_ok room_def)
  ultimately show ?thesis
    using wide_and_signed_reads [of "br_new [0xE0]" 4] by (auto simp: bits_val_def)
qed

subsection \<open>Position, alignment and the sticky overrun\<close>

lemma bit_pos_cursor:
  assumes "reader_ok r" "room r 0"
  shows "br_bit_pos r = cursor r"
proof -
  have "br_cache_bits r \<le> 64" using assms(1) unfolding reader_ok_def by blast
  then have "fits_u 64 (br_pos r * 8)" using assms(2) by (simp add: room_def cursor_def fits_u_def)
  then show ?thesis by (simp add: br_bit_pos_def cursor_def sat_u_id mult.commute)
qed

lemma aligned_iff:
  assumes "reader_ok r"
  shows "8 dvd cursor r \<longleftrightarrow> 8 dvd br_cache_bits r"
proof -
  have "br_cache_bits r \<le> 8 * br_pos r" using assms unfolding reader_ok_def by blast
  then have "8 * br_pos r = cursor r + br_cache_bits r" by (simp add: cursor_def)
  moreover have "8 dvd 8 * br_pos r" by simp
  ultimately show ?thesis by (metis dvd_add_left_iff dvd_add_right_iff)
qed

text \<open>
  The sticky model: reads never fail, \<^verbatim>\<open>overrun\<close> holds exactly when the reader was
  flagged or has consumed more than the logical bits, once it holds every later read keeps
  it, and \<^verbatim>\<open>try_get\<close> refuses, without moving, exactly the reads that would pass the end.
\<close>

theorem overrun_sticky:
  assumes "reader_ok r" "room r n"
  shows "(br_overrun r \<longleftrightarrow> br_flagged r \<or> br_logical_bits r < cursor r) \<and>
    (br_check r = Inr () \<longleftrightarrow> \<not> br_overrun r) \<and>
    (\<forall>r'. advanced r n r' \<and> br_overrun r \<longrightarrow> br_overrun r') \<and>
    (n \<le> 32 \<longrightarrow> (if br_flagged r \<or> br_logical_bits r < cursor r + n \<and> 0 < n
       then br_try_get n r = (Inl Overrun, r)
       else \<exists>v r'. br_try_get n r = (Inr v, r') \<and> br_get n r = (v, r') \<and> \<not> (0 < n \<and> br_overrun r')))"
proof -
  have "room r 0" using assms(2) by (rule room_mono) simp
  note P = bit_pos_cursor [OF assms(1) this]
  have P': "br_bit_pos r' = cursor r + n" if "advanced r n r'" for r'
    using that advanced_room [of r n r' 0] assms(2) bit_pos_cursor [of r'] by (simp add: advanced_def)
  have "br_overrun r'" if "advanced r n r'" "br_overrun r" for r'
    using that P P' [OF that(1)] by (auto simp: br_overrun_def advanced_def same_source_def)
  moreover have "if br_flagged r \<or> br_logical_bits r < cursor r + n \<and> 0 < n
       then br_try_get n r = (Inl Overrun, r)
       else \<exists>v r'. br_try_get n r = (Inr v, r') \<and> br_get n r = (v, r') \<and> \<not> (0 < n \<and> br_overrun r')"
    if "n \<le> 32"
  proof (cases "br_flagged r \<or> br_logical_bits r < cursor r + n \<and> 0 < n")
    case True
    then show ?thesis by (auto simp: br_try_get_def br_bits_left_def P)
  next
    case False
    obtain v r' where g: "br_get n r = (v, r')" by fastforce
    then have "advanced r n r'" using br_get_spec [OF assms that] by simp
    then have "\<not> (0 < n \<and> br_overrun r')"
      using P' False by (auto simp: br_overrun_def advanced_def same_source_def)
    moreover have "br_try_get n r = (Inr v, r')"
      using False g by (auto simp: br_try_get_def br_bits_left_def P)
    ultimately show ?thesis using False g by auto
  qed
  ultimately show ?thesis using P by (auto simp: br_overrun_def br_check_def)
qed

theorem overrun_sticky_witness:
  "br_try_get 9 (br_new [0xFF]) = (Inl Overrun, br_new [0xFF])"
proof -
  have "reader_ok (br_new [0xFF])" "room (br_new [0xFF]) 9" "cursor (br_new [0xFF]) = 0"
    by (simp_all add: br_new_def br_start_ok room_def)
  moreover have "br_logical_bits (br_new [0xFF]) = 8"
    by (simp add: br_new_def br_start_def sat_u_def)
  ultimately show ?thesis using overrun_sticky [of "br_new [0xFF]" 9] by simp
qed

text \<open>
  Alignment: \<^verbatim>\<open>align\<close> moves to the next byte boundary and only there, less than a byte
  away; a reader is aligned exactly when its position is a multiple of eight; the remaining
  bytes start at that boundary and end at the logical end; restoring a mark gives the reader
  back after any reads.
\<close>

theorem align_and_mark:
  assumes "reader_ok r" "room r 8"
  shows "(\<exists>k < 8. advanced r k (br_align r) \<and> 8 dvd cursor (br_align r)) \<and>
    (br_is_aligned r \<longleftrightarrow> 8 dvd cursor r) \<and>
    (br_logical_bits r \<le> 8 * length (br_data r) \<longrightarrow>
      br_remaining_bytes r =
        drop ((cursor r + 7) div 8) (take (br_logical_bits r div 8) (br_data r))) \<and>
    (same_source r r' \<longrightarrow> br_restore (br_mark r) r' = r)"
proof -
  let ?k = "br_cache_bits r mod 8"
  have k: "?k < 8" by simp
  have "room r ?k" using assms(2) by (rule room_mono) simp
  then have a: "advanced r ?k (br_align r)" using assms(1) br_skip_spec by (simp add: br_align_def)
  have cb: "br_cache_bits r \<le> 8 * br_pos r" using assms(1) unfolding reader_ok_def by blast
  have "cursor r + ?k = 8 * (br_pos r - br_cache_bits r div 8)"
    using cb div_mult_mod_eq [of "br_cache_bits r" 8] unfolding cursor_def by linarith
  then have "8 dvd cursor (br_align r)" using a by (simp add: advanced_def)
  then have "\<exists>k < 8. advanced r k (br_align r) \<and> 8 dvd cursor (br_align r)"
    using a k by (intro exI [of _ ?k]) simp
  moreover have "br_remaining_bytes r =
      drop ((cursor r + 7) div 8) (take (br_logical_bits r div 8) (br_data r))"
    if "br_logical_bits r \<le> 8 * length (br_data r)"
  proof -
    have "br_logical_bits r div 8 \<le> length (br_data r)"
      using div_le_mono [OF that, of 8] by simp
    moreover have "br_bit_pos r = cursor r"
      using bit_pos_cursor [OF assms(1)] assms(2) by (simp add: room_def)
    ultimately show ?thesis
      by (auto simp: br_remaining_bytes_def Let_def slice_range_def drop_take)
  qed
  moreover have "br_restore (br_mark r) r' = r" if "same_source r r'"
    using that by (simp add: br_restore_def br_mark_def same_source_def)
  ultimately show ?thesis using aligned_iff [OF assms(1)] by (simp add: br_is_aligned_def)
qed

theorem align_and_mark_witness:
  "\<exists>k < 8. advanced (br_new [1, 2]) k (br_align (br_new [1, 2]))"
  using align_and_mark [of "br_new [1, 2]" "br_new [1, 2]"]
  by (auto simp: br_new_def br_start_ok room_def)

subsection \<open>Padded buffers\<close>

text \<open>
  Padding is invisible: a reader over a padded buffer sees, through the whole 64 bytes of
  padding, the same stream and the same logical end as a reader over just the logical bytes,
  and copying a slice into a padded buffer always qualifies.
\<close>

theorem padded_reader_equivalent:
  assumes "padded_new bs n = Some p" "i < 8 * (n + PAD)"
  shows "stream (br_new_padded p) i = stream (br_new (logical_bytes p)) i \<and>
    br_logical_bits (br_new_padded p) = br_logical_bits (br_new (logical_bytes p)) \<and>
    reader_ok (br_new_padded p) \<and>
    padded_new (pd_bytes (from_slice_copying src)) (length src) = Some (from_slice_copying src) \<and>
    logical_bytes (from_slice_copying src) = src"
proof -
  have p: "n + PAD \<le> length bs" "\<forall>i < PAD. bs ! (n + i) = 0"
    "p = \<lparr>pd_bytes = bs, pd_logical_len = n\<rparr>"
    using assms(1) unfolding padded_new_Some by blast+
  have l: "logical_bytes p = take n bs" using p by (simp add: logical_bytes_def slice_range_def)
  have "sbit bs i = sbit (take n bs) i" using sbit_padding [OF p(1,2) assms(2)] .
  moreover have "padded_new (pd_bytes (from_slice_copying src)) (length src) =
      Some (from_slice_copying src)"
    unfolding padded_new_Some by (simp add: from_slice_copying_def nth_append)
  moreover have "logical_bytes (from_slice_copying src) = src"
    by (simp add: from_slice_copying_def logical_bytes_def slice_range_def)
  ultimately show ?thesis
    unfolding l using p(1) by (simp add: p(3) br_new_padded_def br_new_def stream_start br_start_ok)
      (simp add: br_start_def)
qed

theorem padded_reader_equivalent_witness:
  "stream (br_new_padded (from_slice_copying [0x80])) 0 =
     stream (br_new (logical_bytes (from_slice_copying [0x80]))) 0"
proof -
  have "padded_new (pd_bytes (from_slice_copying [0x80])) 1 = Some (from_slice_copying [0x80])"
    unfolding padded_new_Some by (simp add: from_slice_copying_def)
  from padded_reader_equivalent [OF this, of 0] show ?thesis by (simp add: PAD_def)
qed

end
