(* ===== verification/Bits_Golomb.thy ===== *)
theory Bits_Golomb
  imports Bits_Reader
begin

text \<open>
  Exp-Golomb reads over the bit reader: \<^verbatim>\<open>crates/core/vaco-bitstream/src/golomb.rs\<close>.
  The decoders use the reader only through the laws of \<open>bit_cursor\<close>.
\<close>

section \<open>The model\<close>

definition MAX_PREFIX_32 :: nat where "MAX_PREFIX_32 = 31"
definition MAX_PREFIX_64 :: nat where "MAX_PREFIX_64 = 63"

definition br_ue :: "bit_reader \<Rightarrow> u32 \<times> bit_reader" where
  "br_ue r =
     (case br_peek 32 r of (prefix, r1) \<Rightarrow>
        let lz = leading_zeros prefix
        in if lz > MAX_PREFIX_32 then (0, br_flag_malformed r1)
           else case br_get lz (br_skip (lz + 1) r1) of (suffix, r2) \<Rightarrow>
                  (push_bit lz 1 - 1 + suffix, r2))"

definition se_of_code :: "u32 \<Rightarrow> i32" where
  "se_of_code k = (let half = drop_bit 1 k in if k AND 1 = 1 then half + 1 else - half)"

definition br_se :: "bit_reader \<Rightarrow> i32 \<times> bit_reader" where
  "br_se r = (case br_ue r of (k, r') \<Rightarrow> (se_of_code k, r'))"

definition br_ue_max :: "u32 \<Rightarrow> bit_reader \<Rightarrow> (bitstream_error + u32) \<times> bit_reader" where
  "br_ue_max mx r =
     (let before = br_overrun r
      in case br_ue r of (v, r') \<Rightarrow>
           if \<not> before \<and> br_overrun r'
           then (Inl (if br_bits_left r' = 0 then Overrun else Malformed), r')
           else if v > mx then (Inl (ValueTooLarge (unat v) (unat mx)), r')
           else (Inr v, r'))"

definition br_se_range :: "int \<Rightarrow> int \<Rightarrow> bit_reader \<Rightarrow> (bitstream_error + i32) \<times> bit_reader" where
  "br_se_range mn mx r =
     (let before = br_overrun r
      in case br_se r of (v, r') \<Rightarrow>
           if \<not> before \<and> br_overrun r' then (Inl Overrun, r')
           else if sint v < mn \<or> sint v > mx
           then (Inl (ValueTooLarge (nat \<bar>sint v\<bar>) (nat \<bar>mx\<bar>)), r')
           else (Inr v, r'))"

text \<open>
  The order of \<^verbatim>\<open>ue_golomb_k\<close> is a \<^verbatim>\<open>u32\<close>: the sum \<^verbatim>\<open>lz + k\<close> and the shift by \<open>k\<close> are
  those of a release build. With overflow checks the sum panics for an order above
  \<open>2^32 - 32\<close> or so, and the shift for order 32 on a code without a prefix.
\<close>

definition br_ue_golomb_k :: "u32 \<Rightarrow> bit_reader \<Rightarrow> u32 \<times> bit_reader" where
  "br_ue_golomb_k k r =
     (if k = 0 then br_ue r
      else case br_peek 32 r of (prefix, r1) \<Rightarrow>
        let lz = leading_zeros prefix
        in if lz > MAX_PREFIX_32 \<or> of_nat lz + k > 32 then (0, br_flag_malformed r1)
           else case br_get (unat (of_nat lz + k)) (br_skip (lz + 1) r1) of (suffix, r2) \<Rightarrow>
                  (shl_word (shl_word 1 lz - 1) (unat k) + suffix, r2))"

text \<open>
  The prefix loop of \<^verbatim>\<open>ue_long\<close>: the prefix length with the prefix and its one bit
  consumed, or \<open>None\<close> when the reader was flagged.
\<close>

function ue_long_prefix :: "nat \<Rightarrow> bit_reader \<Rightarrow> nat option \<times> bit_reader" where
  "ue_long_prefix lz r =
     (case br_peek 32 r of (p, r1) \<Rightarrow>
        let z = leading_zeros p
        in if z < 32
           then let lz' = lz + z
                in if lz' > MAX_PREFIX_64 then (None, br_flag_malformed r1)
                   else (Some lz', br_skip (z + 1) r1)
           else let lz' = lz + 32
                in if lz' > MAX_PREFIX_64 then (None, br_flag_malformed r1)
                   else ue_long_prefix lz' (br_skip 32 r1))"
  by pat_completeness auto
termination
  by (relation "measure (\<lambda>(lz, r). 64 - lz)") (auto simp: MAX_PREFIX_64_def)

declare ue_long_prefix.simps [simp del]

definition br_ue_long :: "bit_reader \<Rightarrow> u64 \<times> bit_reader" where
  "br_ue_long r =
     (case ue_long_prefix 0 r of
        (None, r1) \<Rightarrow> (0, r1)
      | (Some lz, r1) \<Rightarrow> (case br_get_long lz r1 of (suffix, r2) \<Rightarrow> (push_bit lz 1 - 1 + suffix, r2)))"

section \<open>The codes\<close>

text \<open>The stream starts with \<open>z\<close> zeros and a one.\<close>

definition unary_prefix :: "(nat \<Rightarrow> bool) \<Rightarrow> nat \<Rightarrow> bool" where
  "unary_prefix f z \<longleftrightarrow> (\<forall>i < z. \<not> f i) \<and> f z"

definition suffix_value :: "(nat \<Rightarrow> bool) \<Rightarrow> nat \<Rightarrow> nat \<Rightarrow> nat" where
  "suffix_value f z n = bits_val (window (\<lambda>i. f (i + (z + 1))) n)"

lemma suffix_value_less: "suffix_value f z n < 2 ^ n"
  using bits_val_less [of "window (\<lambda>i. f (i + (z + 1))) n"] by (simp add: suffix_value_def)

lemma unat_pow_minus:
  assumes "z < LENGTH('a)"
  shows "unat (push_bit z 1 - 1 :: 'a :: len word) = 2 ^ z - 1"
proof -
  have "push_bit z (1 :: 'a word) = word_of_nat (2 ^ z)" by (simp add: push_bit_eq_mult)
  then have "push_bit z 1 - 1 = (word_of_nat (2 ^ z - 1) :: 'a word)" by (simp add: of_nat_diff)
  moreover have "2 ^ z - 1 < (2 :: nat) ^ LENGTH('a)"
    using assms by (meson diff_le_self le_less_trans one_less_numeral_iff power_strict_increasing semiring_norm(76))
  ultimately show ?thesis by (simp only: unat_of_nat mod_less)
qed

lemma unat_plus_small:
  fixes a b :: "'a :: len word"
  shows "unat a + unat b < 2 ^ LENGTH('a) \<Longrightarrow> unat (a + b) = unat a + unat b"
  by (simp add: unat_word_ariths)

lemma code_bound: "z \<le> w \<Longrightarrow> s < 2 ^ z \<Longrightarrow> (2 ^ z - 1) + s \<le> 2 ^ Suc w - (2 :: nat)"
proof -
  assume "z \<le> w" "s < 2 ^ z"
  moreover have "(2 :: nat) ^ z \<le> 2 ^ w" using \<open>z \<le> w\<close> by (rule power_increasing) simp
  ultimately show ?thesis unfolding power_Suc by arith
qed

lemma br_ue_spec:
  assumes "reader_ok r" "room r 64" "unary_prefix (stream r) z" "z < 32"
  shows "\<exists>v r'. br_ue r = (v, r') \<and> unat v = 2 ^ z - 1 + suffix_value (stream r) z z \<and>
    unat v \<le> 2 ^ 32 - 2 \<and> advanced r (2 * z + 1) r'"
proof -
  obtain p r1 where pk: "br_peek 32 r = (p, r1)" by fastforce
  obtain sx r2 where g: "br_get z (br_skip (z + 1) r1) = (sx, r2)" by fastforce
  have "room r (z + 1 + z)" "room r 32"
    by (rule room_mono [OF assms(2)], use assms(4) in linarith)+
  then have P: "leading_zeros p = z" "unat sx = suffix_value (stream r) z z" "advanced r (z + 1 + z) r2"
    using br.prefix_code [OF _ _ _ _ _ assms(4) pk g] assms
    by (simp_all add: unary_prefix_def suffix_value_def)
  have e: "br_ue r = (push_bit z 1 - 1 + sx, r2)"
    using assms(4) pk g P(1) by (simp add: br_ue_def MAX_PREFIX_32_def)
  have b: "2 ^ z - 1 + unat sx \<le> 2 ^ 32 - 2"
    using code_bound [of z 31 "unat sx"] suffix_value_less [of "stream r" z z] assms(4) P(2) by simp
  have "unat (push_bit z 1 - 1 :: u32) = 2 ^ z - 1" using assms(4) unat_pow_minus [where 'a = 32] by simp
  moreover from this have "unat (push_bit z 1 - 1 + sx) = unat (push_bit z 1 - 1 :: u32) + unat sx"
    using b by (intro unat_plus_small) simp
  ultimately have "unat (push_bit z 1 - 1 + sx) = 2 ^ z - 1 + unat sx" by simp
  then show ?thesis using e P(2,3) b by (auto simp: mult_2 add.commute)
qed

lemma br_ue_malformed:
  assumes "reader_ok r" "room r 32" "\<forall>i < 32. \<not> stream r i"
  shows "\<exists>r1. br_ue r = (0, br_flag_malformed r1) \<and> advanced r 0 r1"
proof -
  obtain p r1 where pk: "br_peek 32 r = (p, r1)" by fastforce
  have "leading_zeros p = 32" using br.peek_all_zeros [OF _ pk assms(3)] assms by blast
  moreover have "advanced r 0 r1" using br.peek_law [OF _ _ pk] assms by simp
  ultimately show ?thesis using pk by (auto simp: br_ue_def MAX_PREFIX_32_def)
qed

lemma sint_se_of_code:
  assumes "unat k \<le> 2 ^ 32 - 2"
  shows "sint (se_of_code k) = (if odd (unat k) then (int (unat k) + 1) div 2 else - (int (unat k) div 2))"
proof -
  let ?h = "int (unat k div 2)"
  have "unat (drop_bit 1 k) = unat k div 2"
    by (simp add: unsigned_drop_bit_eq drop_bit_eq_div unat_div)
  then have half: "drop_bit 1 k = word_of_int ?h"
    by (metis word_of_int_uint uint_nat)
  have o: "k AND 1 = 1 \<longleftrightarrow> odd (unat k)"
  proof -
    have "bit (unat k) 0 \<longleftrightarrow> bit k 0" by (simp add: bit_unsigned_iff)
    then show ?thesis by (simp add: bit_0 and_one_eq odd_iff_mod_2_eq_one)
  qed
  show ?thesis
  proof (cases "odd (unat k)")
    case True
    then have "fits_s 32 (?h + 1)" using assms by (auto simp: fits_s_def elim!: oddE)
    then have "sint (word_of_int (?h + 1) :: i32) = ?h + 1" by (rule sint_word_of_int_fits)
    moreover have "se_of_code k = word_of_int (?h + 1)"
      using True o by (simp only: se_of_code_def Let_def half if_True of_int_add of_int_1 not_False_eq_True)
    moreover have "?h + 1 = (int (unat k) + 1) div 2" using True by presburger
    ultimately show ?thesis using True by (simp only: if_True not_False_eq_True)
  next
    case False
    then have "fits_s 32 (- ?h)" using assms by (auto simp: fits_s_def)
    then have "sint (word_of_int (- ?h) :: i32) = - ?h" by (rule sint_word_of_int_fits)
    moreover have "se_of_code k = word_of_int (- ?h)"
      using False o by (simp only: se_of_code_def Let_def half if_False of_int_minus)
    moreover have "- ?h = - (int (unat k) div 2)" by (simp add: zdiv_int)
    ultimately show ?thesis using False by (simp only: if_False)
  qed
qed



lemma ue_max_error:
  assumes "\<not> br_overrun r" "br_ue r = (v, r')" "br_overrun r'"
  shows "br_ue_max mx r = (Inl Overrun, r')"
proof -
  have "br_bits_left r' = 0" using assms(3) by (auto simp: br_overrun_def br_bits_left_def)
  then show ?thesis using assms by (simp add: br_ue_max_def)
qed

text \<open>
  \<^verbatim>\<open>ue_max\<close> and \<^verbatim>\<open>se_range\<close> on a reader that was fine: a value in range is returned
  unchanged, a value outside it is \<^verbatim>\<open>ValueTooLarge\<close>, and every code that leaves the reader
  overrun is \<^verbatim>\<open>Overrun\<close> (the \<^verbatim>\<open>Malformed\<close> result of \<^verbatim>\<open>ue_max\<close> is never produced).
\<close>

theorem bounded_golomb_results:
  assumes "\<not> br_overrun r" "br_ue r = (k, r')"
  shows "fst (br_ue_max mx r) =
      (if br_overrun r' then Inl Overrun
       else if unat k \<le> unat mx then Inr k else Inl (ValueTooLarge (unat k) (unat mx))) \<and>
    fst (br_se_range mn mxs r) =
      (if br_overrun r' then Inl Overrun
       else if mn \<le> sint (se_of_code k) \<and> sint (se_of_code k) \<le> mxs then Inr (se_of_code k)
       else Inl (ValueTooLarge (nat \<bar>sint (se_of_code k)\<bar>) (nat \<bar>mxs\<bar>))) \<and>
    fst (br_ue_max mx s) \<noteq> Inl Malformed"
proof -
  have "fst (br_ue_max mx s) \<noteq> Inl Malformed"
  proof -
    obtain w s' where u: "br_ue s = (w, s')" by fastforce
    have "br_overrun s' \<Longrightarrow> br_bits_left s' = 0" by (auto simp: br_overrun_def br_bits_left_def)
    then show ?thesis using u by (auto simp: br_ue_max_def)
  qed
  moreover have "fst (br_ue_max mx r) = (if br_overrun r' then Inl Overrun
       else if unat k \<le> unat mx then Inr k else Inl (ValueTooLarge (unat k) (unat mx)))"
    using assms ue_max_error [OF assms] by (auto simp: br_ue_max_def word_less_nat_alt not_less)
  ultimately show ?thesis
    using assms by (auto simp: br_se_range_def br_se_def)
qed

theorem bounded_golomb_results_witness:
  "fst (br_ue_max 3 (br_new [0x28])) = Inl (ValueTooLarge 4 3)"
proof -
  let ?r = "br_new [0x28]"
  have "unary_prefix (stream ?r) 2"
    by (auto simp: unary_prefix_def br_new_def stream_start sbit_def bit_simps less_Suc_eq numeral_2_eq_2)
  moreover have "suffix_value (stream ?r) 2 2 = 1"
    by (simp add: suffix_value_def br_new_def stream_start window_def upt_rec sbit_def bit_simps bits_val_def)
  moreover have ok: "reader_ok ?r" "room ?r 64" "room ?r 0"
    by (simp_all add: br_new_def br_start_ok room_def)
  ultimately obtain v r' where v: "br_ue ?r = (v, r')" "unat v = 4" "advanced ?r 5 r'"
    using br_ue_spec [of ?r 2] by auto
  have c: "cursor ?r = 0" by (simp add: br_new_def br_start_ok)
  have l: "br_logical_bits ?r = 8" "\<not> br_flagged ?r" by (simp_all add: br_new_def br_start_def sat_u_def)
  have "\<not> br_overrun ?r" using bit_pos_cursor [OF ok(1,3)] l c by (simp add: br_overrun_def)
  moreover have "\<not> br_overrun r'"
    using v(3) bit_pos_cursor [of r'] c l by (auto simp: advanced_def same_source_def room_def br_overrun_def)
  ultimately show ?thesis using bounded_golomb_results [OF _ v(1), of 3 0 0 ?r] v(2) by simp
qed

end
