(* ===== verification/Bits_Writer.thy ===== *)
theory Bits_Writer
  imports Bits_Golomb
begin

text \<open>
  The MSB-first bit writer: \<^verbatim>\<open>BitWriter\<close> of
  \<^verbatim>\<open>crates/core/vaco-bitstream/src/writer.rs\<close>.

  The abstract state of a writer is the list of bits written so far (\<open>wbits\<close>); every
  write is proved to append its code to that list, and a sequence of syntax elements written
  with it is proved to be read back by the reader.
\<close>

section \<open>The model\<close>

record bit_writer =
  bw_out :: "u8 list"
  bw_cache :: u64
  bw_cache_bits :: nat

definition bw_new :: bit_writer where
  "bw_new = \<lparr>bw_out = [], bw_cache = 0, bw_cache_bits = 0\<rparr>"

function flush_bytes :: "bit_writer \<Rightarrow> bit_writer" where
  "flush_bytes w =
     (if bw_cache_bits w \<ge> 8
      then flush_bytes (w\<lparr>bw_out := bw_out w @ [ucast (drop_bit 56 (bw_cache w))],
                          bw_cache := push_bit 8 (bw_cache w),
                          bw_cache_bits := bw_cache_bits w - 8\<rparr>)
      else w)"
  by pat_completeness auto
termination
  by (relation "measure bw_cache_bits") auto

declare flush_bytes.simps [simp del]

definition bw_put :: "nat \<Rightarrow> u32 \<Rightarrow> bit_writer \<Rightarrow> bit_writer" where
  "bw_put n0 v w =
     (let n = min n0 32
      in if n = 0 then w
         else let masked = (if n = 32 then v else v AND (push_bit n 1 - 1));
                  shift = 64 - bw_cache_bits w - n
              in flush_bytes (w\<lparr>bw_cache := bw_cache w OR push_bit shift (ucast masked),
                                bw_cache_bits := bw_cache_bits w + n\<rparr>))"

definition bw_put_long :: "nat \<Rightarrow> u64 \<Rightarrow> bit_writer \<Rightarrow> bit_writer" where
  "bw_put_long n0 v w =
     (let n = min n0 64
      in if n \<le> 32 then bw_put n (ucast v) w
         else bw_put 32 (ucast v) (bw_put (n - 32) (ucast (drop_bit 32 v)) w))"

definition bw_put_signed :: "nat \<Rightarrow> i32 \<Rightarrow> bit_writer \<Rightarrow> bit_writer" where
  "bw_put_signed n v w = bw_put n v w"

fun bw_put_zeros :: "nat \<Rightarrow> bit_writer \<Rightarrow> bit_writer" where
  "bw_put_zeros left w =
     (if left > 32 then bw_put_zeros (left - 32) (bw_put 32 0 w) else bw_put left 0 w)"

declare bw_put_zeros.simps [simp del]

definition bw_ue :: "u32 \<Rightarrow> bit_writer \<Rightarrow> bit_writer" where
  "bw_ue v w =
     (let code = ucast (min v (- 1 - 1)) + 1 :: u64;
          bits = 64 - leading_zeros code
      in bw_put_long bits code (bw_put_zeros (bits - 1) w))"

text \<open>
  The multiplications of \<^verbatim>\<open>se\<close> are by two of a magnitude below \<open>2^31\<close>, in
  \<^verbatim>\<open>u32\<close>.
\<close>

definition se_code :: "i32 \<Rightarrow> u32" where
  "se_code v0 =
     (let v = (if sint v0 < - (2 ^ 31 - 1) then word_of_int (- (2 ^ 31 - 1)) else v0)
      in if sint v > 0 then v * 2 - 1 else word_of_nat (nat \<bar>sint v\<bar>) * 2)"

definition bw_se :: "i32 \<Rightarrow> bit_writer \<Rightarrow> bit_writer" where
  "bw_se v w = bw_ue (se_code v) w"

definition pad_bits :: "bit_writer \<Rightarrow> nat" where
  "pad_bits w = (8 - bw_cache_bits w mod 8) mod 8"

definition bw_align_zero :: "bit_writer \<Rightarrow> bit_writer" where
  "bw_align_zero w = bw_put (pad_bits w) 0 w"

definition bw_align_one :: "bit_writer \<Rightarrow> bit_writer" where
  "bw_align_one w = (if pad_bits w \<noteq> 0 then bw_put (pad_bits w) (- 1) w else w)"

definition bw_rbsp_trailing :: "bit_writer \<Rightarrow> bit_writer" where
  "bw_rbsp_trailing w = bw_align_zero (bw_put 1 1 w)"

definition bw_bit_len :: "bit_writer \<Rightarrow> nat" where
  "bw_bit_len w = sat_u 64 (sat_u 64 (length (bw_out w) * 8) + bw_cache_bits w)"

definition bw_finish :: "bit_writer \<Rightarrow> u8 list" where
  "bw_finish w = bw_out (bw_align_zero w)"

definition bw_reset :: "bit_writer \<Rightarrow> u8 list \<times> bit_writer" where
  "bw_reset w = (bw_out (bw_align_zero w), \<lparr>bw_out = [], bw_cache = 0, bw_cache_bits = 0\<rparr>)"

definition bw_clear :: "bit_writer \<Rightarrow> bit_writer" where
  "bw_clear w = w\<lparr>bw_out := [], bw_cache := 0, bw_cache_bits := 0\<rparr>"

section \<open>The bits written\<close>

definition byte_bits :: "u8 \<Rightarrow> bool list" where
  "byte_bits b = map (\<lambda>j. bit b (7 - j)) [0..<8]"

definition bytes_bits :: "u8 list \<Rightarrow> bool list" where
  "bytes_bits bs = concat (map byte_bits bs)"

definition cache_top :: "u64 \<Rightarrow> nat \<Rightarrow> bool list" where
  "cache_top c n = map (\<lambda>j. bit c (63 - j)) [0..<n]"

definition wbits :: "bit_writer \<Rightarrow> bool list" where
  "wbits w = bytes_bits (bw_out w) @ cache_top (bw_cache w) (bw_cache_bits w)"

text \<open>The low \<open>n\<close> bits of a word, most significant first.\<close>

definition low_bits :: "nat \<Rightarrow> 'a :: len word \<Rightarrow> bool list" where
  "low_bits n v = map (\<lambda>j. bit v (n - 1 - j)) [0..<n]"

definition clean_below :: "u64 \<Rightarrow> nat \<Rightarrow> bool" where
  "clean_below c n \<longleftrightarrow> (\<forall>j < 64. n \<le> j \<longrightarrow> \<not> bit c (63 - j))"

definition writer_ok :: "bit_writer \<Rightarrow> bool" where
  "writer_ok w \<longleftrightarrow> bw_cache_bits w \<le> 7 \<and> clean_below (bw_cache w) (bw_cache_bits w)"

lemma length_simps [simp]:
  "length (byte_bits b) = 8" "length (cache_top c n) = n" "length (low_bits n v) = n"
  by (simp_all add: byte_bits_def cache_top_def low_bits_def)

lemma length_bytes_bits [simp]: "length (bytes_bits bs) = 8 * length bs"
  by (induction bs) (simp_all add: bytes_bits_def)

lemma bytes_bits_append [simp]: "bytes_bits (a @ b) = bytes_bits a @ bytes_bits b"
  by (simp add: bytes_bits_def)

lemma bytes_bits_single [simp]: "bytes_bits [b] = byte_bits b"
  by (simp add: bytes_bits_def)

lemma nth_bytes_bits: "i < 8 * length bs \<Longrightarrow> bytes_bits bs ! i = sbit bs i"
proof (induction bs arbitrary: i)
  case (Cons b bs)
  show ?case
  proof (cases "i < 8")
    case True
    then show ?thesis by (simp add: bytes_bits_def nth_append byte_bits_def sbit_def)
  next
    case False
    then obtain m where i: "i = m + 8" by (metis add.commute le_Suc_ex not_less)
    then show ?thesis using Cons by (simp add: bytes_bits_def nth_append sbit_def)
  qed
qed simp

lemma sbit_bytes_bits: "sbit bs i \<longleftrightarrow> i < 8 * length bs \<and> bytes_bits bs ! i"
  using nth_bytes_bits [of i bs] by (cases "i < 8 * length bs") (auto simp: sbit_def)

lemma cache_top_add:
  "cache_top c (m + n) = cache_top c m @ map (\<lambda>j. bit c (63 - (j + m))) [0..<n]"
  by (rule nth_equalityI) (auto simp: cache_top_def nth_append)

lemma byte_of_cache: "byte_bits (ucast (drop_bit 56 c)) = cache_top c 8"
  by (auto simp: byte_bits_def cache_top_def bit_ucast_iff bit_drop_bit_eq upt_rec)

lemma bit_shifted: "j < 64 \<Longrightarrow> bit (push_bit 8 (c :: u64)) (63 - j) \<longleftrightarrow> j + 8 < 64 \<and> bit c (63 - (j + 8))"
  by (auto simp: bit_push_bit_iff)

lemma flush_bytes_ok:
  assumes "bw_cache_bits w \<le> 64" "clean_below (bw_cache w) (bw_cache_bits w)"
  shows "wbits (flush_bytes w) = wbits w \<and> writer_ok (flush_bytes w)"
  using assms
proof (induction w rule: flush_bytes.induct)
  case (1 w)
  show ?case
  proof (cases "bw_cache_bits w \<ge> 8")
    case False
    then show ?thesis using 1 by (simp add: flush_bytes.simps [of w] writer_ok_def)
  next
    case True
    let ?w = "w\<lparr>bw_out := bw_out w @ [ucast (drop_bit 56 (bw_cache w))],
      bw_cache := push_bit 8 (bw_cache w), bw_cache_bits := bw_cache_bits w - 8\<rparr>"
    obtain m where m: "bw_cache_bits w = 8 + m" using True le_Suc_ex by blast
    have "cache_top (push_bit 8 (bw_cache w)) m = map (\<lambda>j. bit (bw_cache w) (63 - (j + 8))) [0..<m]"
      unfolding cache_top_def using m "1.prems"(1) by (intro map_cong) (auto simp: bit_shifted)
    then have "wbits ?w = wbits w"
      by (simp add: wbits_def m byte_of_cache cache_top_add)
    moreover have "clean_below (push_bit 8 (bw_cache w)) m"
      unfolding clean_below_def
    proof (intro allI impI)
      fix j :: nat assume j: "j < 64" "m \<le> j"
      show "\<not> bit (push_bit 8 (bw_cache w)) (63 - j)"
        using "1.prems"(2) [unfolded clean_below_def, rule_format, of "j + 8"] j m
        by (simp add: bit_shifted)
    qed
    ultimately show ?thesis
      using "1.IH" [OF True] True "1.prems"(1) m by (simp add: flush_bytes.simps [of w])
  qed
qed

lemma bit_masked:
  assumes "n \<le> 32"
  shows "bit (if n = 32 then v else v AND (push_bit n 1 - 1) :: u32) i \<longleftrightarrow> i < n \<and> bit v i"
proof (cases "n = 32")
  case True
  then show ?thesis using bit_imp_le_length [of v i] by auto
next
  case False
  have "push_bit n 1 - 1 = (mask n :: u32)" by (simp add: mask_eq_exp_minus_1 push_bit_eq_mult)
  then show ?thesis using False by (auto simp: bit_and_iff bit_mask_iff dest: bit_imp_le_length)
qed

lemma bw_put_ok:
  assumes "writer_ok w" "n \<le> 32"
  shows "wbits (bw_put n v w) = wbits w @ low_bits n v \<and> writer_ok (bw_put n v w)"
proof (cases "n = 0")
  case True
  then show ?thesis using assms by (simp add: bw_put_def low_bits_def)
next
  case False
  let ?cb = "bw_cache_bits w" and ?c = "bw_cache w"
  define masked where "masked = (if n = 32 then v else v AND (push_bit n 1 - 1))"
  have mb: "bit masked i \<longleftrightarrow> i < n \<and> bit v i" for i
    unfolding masked_def by (rule bit_masked [OF assms(2)])
  define c' where "c' = ?c OR push_bit (64 - ?cb - n) (ucast masked)"
  have cb: "?cb \<le> 7" and clean: "\<And>j. j < 64 \<Longrightarrow> ?cb \<le> j \<Longrightarrow> \<not> bit ?c (63 - j)"
    using assms(1) unfolding writer_ok_def clean_below_def by blast+
  have b: "bit c' (63 - j) \<longleftrightarrow> (if j < ?cb then bit ?c (63 - j) else j < ?cb + n \<and> bit v (?cb + n - 1 - j))"
    if j: "j < 64" for j
  proof -
    have "bit (push_bit (64 - ?cb - n) (ucast masked) :: u64) (63 - j) \<longleftrightarrow>
        64 - ?cb - n \<le> 63 - j \<and> bit masked (63 - j - (64 - ?cb - n))"
      using j by (auto simp: bit_push_bit_iff bit_ucast_iff)
    also have "\<dots> \<longleftrightarrow> j < ?cb + n \<and> ?cb \<le> j \<and> bit v (?cb + n - 1 - j)"
    proof (cases "j < ?cb + n")
      case True
      then have "63 - j - (64 - ?cb - n) = ?cb + n - 1 - j" "64 - ?cb - n \<le> 63 - j"
        using cb assms(2) j by linarith+
      moreover have "?cb + n - 1 - j < n \<longleftrightarrow> ?cb \<le> j" using \<open>n \<noteq> 0\<close> True by linarith
      ultimately show ?thesis using True by (simp only: mb simp_thms)
    next
      case False
      then have "\<not> 64 - ?cb - n \<le> 63 - j" using cb assms(2) j by linarith
      with False show ?thesis by simp
    qed
    finally show ?thesis using clean [OF j] by (auto simp: c'_def bit_or_iff)
  qed
  have "cache_top c' (?cb + n) = cache_top ?c ?cb @ low_bits n v"
  proof -
    have "cache_top c' ?cb = cache_top ?c ?cb"
      unfolding cache_top_def using cb by (intro map_cong) (auto simp: b)
    moreover have "map (\<lambda>j. bit c' (63 - (j + ?cb))) [0..<n] = low_bits n v"
      unfolding low_bits_def using cb assms(2) by (intro map_cong) (auto simp: b)
    ultimately show ?thesis by (simp add: cache_top_add)
  qed
  moreover have "clean_below c' (?cb + n)" unfolding clean_below_def using b by auto
  moreover have "bw_put n v w = flush_bytes (w\<lparr>bw_cache := c', bw_cache_bits := ?cb + n\<rparr>)"
    using False assms(2) by (simp add: bw_put_def c'_def masked_def Let_def)
  ultimately show ?thesis
    using flush_bytes_ok [of "w\<lparr>bw_cache := c', bw_cache_bits := ?cb + n\<rparr>"] cb assms(2)
    by (simp add: wbits_def)
qed

lemma low_bits_add: "low_bits (m + n) v = low_bits m (drop_bit n v) @ low_bits n v"
  by (rule nth_equalityI) (auto simp: low_bits_def nth_append bit_drop_bit_eq intro!: arg_cong [of _ _ "bit v"])

lemma low_bits_ucast: "n \<le> 32 \<Longrightarrow> low_bits n (ucast (v :: u64) :: u32) = low_bits n v"
  unfolding low_bits_def by (intro map_cong) (auto simp: bit_ucast_iff)

lemma low_bits_zero: "low_bits n 0 = replicate n False"
  by (rule nth_equalityI) (auto simp: low_bits_def)

lemma bw_put_long_ok:
  assumes "writer_ok w" "n \<le> 64"
  shows "wbits (bw_put_long n v w) = wbits w @ low_bits n v \<and> writer_ok (bw_put_long n v w)"
proof (cases "n \<le> 32")
  case True
  then show ?thesis
    using bw_put_ok [OF assms(1) True, of "ucast v"] assms by (simp add: bw_put_long_def low_bits_ucast)
next
  case False
  then obtain m where n: "n = m + 32" "m \<le> 32" using assms(2) by (metis add.commute le_Suc_ex nat_add_left_cancel_le nat_le_linear numeral_Bit0)
  let ?w = "bw_put m (ucast (drop_bit 32 v)) w"
  have 1: "wbits ?w = wbits w @ low_bits m (drop_bit 32 v)" "writer_ok ?w"
    using bw_put_ok [OF assms(1) n(2)] n(2) by (simp_all add: low_bits_ucast)
  have "bw_put_long n v w = bw_put 32 (ucast v) ?w" using False assms(2) n by (simp add: bw_put_long_def)
  then show ?thesis
    using bw_put_ok [OF 1(2), of 32 "ucast v"] 1(1) n by (simp add: low_bits_ucast low_bits_add)
qed

lemma bw_put_zeros_ok:
  "writer_ok w \<Longrightarrow> wbits (bw_put_zeros n w) = wbits w @ replicate n False \<and> writer_ok (bw_put_zeros n w)"
proof (induction n w rule: bw_put_zeros.induct)
  case (1 n w)
  show ?case
  proof (cases "n > 32")
    case True
    have p: "wbits (bw_put 32 0 w) = wbits w @ replicate 32 False" "writer_ok (bw_put 32 0 w)"
      using bw_put_ok [OF "1.prems", of 32 0] by (simp_all add: low_bits_zero)
    moreover have "replicate 32 False @ replicate (n - 32) False = replicate n False"
      using True by (simp add: replicate_add [symmetric])
    ultimately show ?thesis
      using "1.IH" [OF True p(2)] True by (simp add: bw_put_zeros.simps [of n])
  next
    case False
    then show ?thesis
      using bw_put_ok [OF "1.prems", of n 0] by (simp add: bw_put_zeros.simps [of n] low_bits_zero)
  qed
qed

lemma leading_zeros_spec:
  fixes w :: "'a :: len word"
  assumes "w \<noteq> 0"
  shows "leading_zeros w < LENGTH('a)" "bit w (LENGTH('a) - 1 - leading_zeros w)"
    "\<And>i. LENGTH('a) - 1 - leading_zeros w < i \<Longrightarrow> \<not> bit w i"
proof -
  let ?xs = "map (bit w) (rev [0..<LENGTH('a)])" and ?z = "leading_zeros w"
  have nth: "?xs ! i = bit w (LENGTH('a) - 1 - i)" if "i < LENGTH('a)" for i
    using that by (simp add: rev_nth)
  have z: "?z = length (takeWhile Not ?xs)" by (simp add: leading_zeros_def)
  obtain k where "bit w k" using assms by (auto simp: bit_eq_iff)
  then have k: "k < LENGTH('a)" "bit w k" using bit_imp_le_length by blast+
  have "?z \<noteq> LENGTH('a)"
  proof
    assume "?z = LENGTH('a)"
    then have "takeWhile Not ?xs = ?xs"
      by (metis z length_map length_rev length_upt diff_zero takeWhile_eq_take take_all order_refl)
    then have "\<forall>x \<in> set ?xs. \<not> x" by (simp only: takeWhile_eq_all_conv)
    then show False using k by auto
  qed
  moreover have "?z \<le> LENGTH('a)" unfolding z using length_takeWhile_le [of Not ?xs] by simp
  ultimately show lt: "?z < LENGTH('a)" by simp
  then show "bit w (LENGTH('a) - 1 - ?z)"
    using nth_length_takeWhile [of Not ?xs] nth [OF lt] by (simp add: z)
  show "\<not> bit w i" if i: "LENGTH('a) - 1 - ?z < i" for i
  proof
    assume b: "bit w i"
    then have il: "i < LENGTH('a)" using bit_imp_le_length by blast
    let ?j = "LENGTH('a) - 1 - i"
    have "?j < ?z" using i il lt by linarith
    then have "\<not> ?xs ! ?j" using z by (metis nth_mem set_takeWhileD takeWhile_nth)
    then show False using b nth [of ?j] il by simp
  qed
qed

lemma unat_take_bit_low: "bits_val (low_bits n v) = unat (take_bit n v)"
  by (rule unat_eq_bits_valI [symmetric]) (auto simp: bit_take_bit_iff low_bits_def)

section \<open>Exp-Golomb codes as bit strings\<close>

definition code_len :: "u64 \<Rightarrow> nat" where
  "code_len code = 64 - leading_zeros code"

definition code_bits :: "u64 \<Rightarrow> bool list" where
  "code_bits code = replicate (code_len code - 1) False @ low_bits (code_len code) code"

definition ue_code :: "u32 \<Rightarrow> u64" where
  "ue_code v = ucast (min v (- 1 - 1)) + 1"

lemma bit_le_nat: "bit (n :: nat) k \<Longrightarrow> 2 ^ k \<le> n"
  by (rule ccontr) (simp add: bit_iff_odd)

lemma code_len_spec:
  assumes "code \<noteq> 0" "unat code < 2 ^ 32"
  shows "0 < code_len code" "code_len code \<le> 32"
    "low_bits (code_len code) code = True # low_bits (code_len code - 1) code"
    "bits_val (low_bits (code_len code) code) = unat code"
proof -
  note Z = leading_zeros_spec [OF assms(1)]
  show pos: "0 < code_len code" using Z(1) by (simp add: code_len_def)
  have top: "bit code (code_len code - 1)" using Z(2) by (simp add: code_len_def)
  then have "bit (unat code) (code_len code - 1)" by (simp add: bit_unsigned_iff)
  then have "2 ^ (code_len code - 1) \<le> unat code" by (rule bit_le_nat)
  then have "(2 :: nat) ^ (code_len code - 1) < 2 ^ 32" using assms(2) by linarith
  then have "code_len code - 1 < 32" by (rule power_less_imp_less_exp [rotated]) simp
  then show "code_len code \<le> 32" by simp
  have "\<not> bit code i" if "code_len code \<le> i" for i using Z(3) [of i] Z(1) that by (simp add: code_len_def)
  then have "take_bit (code_len code) code = code"
    by (intro bit_eqI) (metis bit_take_bit_iff not_le)
  then show "bits_val (low_bits (code_len code) code) = unat code" by (simp add: unat_take_bit_low)
  have "low_bits (Suc 0 + (code_len code - 1)) code = True # low_bits (code_len code - 1) code"
    unfolding low_bits_add using top by (simp add: low_bits_def bit_drop_bit_eq)
  then show "low_bits (code_len code) code = True # low_bits (code_len code - 1) code"
    using pos by simp
qed

lemma unat_ue_code: "unat (ue_code v) = min (unat v) (2 ^ 32 - 2) + 1"
proof -
  let ?m = "min v (- 1 - 1)"
  have "unat (- 1 - 1 :: u32) = 2 ^ 32 - 2" by simp
  then have m: "unat ?m = min (unat v) (2 ^ 32 - 2)" by (auto simp: min_def word_le_nat_alt)
  have u: "unat (ucast ?m :: u64) = unat ?m"
    by (rule bit_eqI) (auto simp: bit_unsigned_iff bit_ucast_iff dest: bit_imp_le_length)
  have "unat (ucast ?m :: u64) \<le> 2 ^ 32 - 2" unfolding u m by simp
  then have "unat (ucast ?m + 1 :: u64) = unat (ucast ?m :: u64) + unat (1 :: u64)"
    by (intro unat_plus_small) simp
  then show ?thesis unfolding ue_code_def u m by (simp only: unat_1)
qed

lemma ue_code_ok: "ue_code v \<noteq> 0" "unat (ue_code v) < 2 ^ 32"
  using unat_ue_code [of v] by (auto simp: min_def)

lemma bw_ue_ok:
  assumes "writer_ok w"
  shows "wbits (bw_ue v w) = wbits w @ code_bits (ue_code v) \<and> writer_ok (bw_ue v w)"
proof -
  let ?L = "code_len (ue_code v)"
  note Z = bw_put_zeros_ok [OF assms, of "?L - 1"]
  have "?L \<le> 64" using code_len_spec(2) [OF ue_code_ok] by (rule order_trans) simp
  then show ?thesis
    using bw_put_long_ok [of "bw_put_zeros (?L - 1) w" ?L "ue_code v"] Z
    by (simp add: bw_ue_def ue_code_def code_len_def code_bits_def Let_def)
qed

lemma code_bits_read:
  assumes "reader_ok r" "room r 64" "code \<noteq> 0" "unat code < 2 ^ 32"
    "window (stream r) (length (code_bits code)) = code_bits code"
  shows "\<exists>v r'. br_ue r = (v, r') \<and> unat v = unat code - 1 \<and> unat v \<le> 2 ^ 32 - 2 \<and>
    advanced r (length (code_bits code)) r'"
proof -
  define z where "z = code_len code - 1"
  note L = code_len_spec [OF assms(3,4)]
  have z: "code_len code = Suc z" "z < 32" using L(1,2) by (simp_all add: z_def)
  have cb: "code_bits code = replicate z False @ True # low_bits z code"
    using L(3) by (simp add: code_bits_def z)
  have len: "length (code_bits code) = z + (1 + z)" by (simp add: cb)
  have "window (stream r) z @ window (\<lambda>i. stream r (i + z)) 1 @ window (\<lambda>i. stream r (i + (z + 1))) z =
      replicate z False @ [True] @ low_bits z code"
  proof -
    have "window (stream r) (z + (1 + z)) = window (stream r) z @ window (\<lambda>i. stream r (i + z)) (1 + z)"
      by (rule window_add)
    moreover have "window (\<lambda>i. stream r (i + z)) (1 + z) =
        window (\<lambda>i. stream r (i + z)) 1 @ window (\<lambda>i. stream r (i + 1 + z)) z"
      by (rule window_add)
    moreover have "(\<lambda>i. stream r (i + 1 + z)) = (\<lambda>i. stream r (i + (z + 1)))" by (simp add: ac_simps)
    ultimately show ?thesis using assms(5) unfolding len by (simp only: cb append.simps)
  qed
  then have w: "window (stream r) z = replicate z False" "window (\<lambda>i. stream r (i + z)) 1 = [True]"
      "window (\<lambda>i. stream r (i + (z + 1))) z = low_bits z code"
    by (simp_all add: window_def [of _ "Suc 0"])
  have "\<not> stream r i" if "i < z" for i using w(1) nth_window [OF that, of "stream r"] that by simp
  moreover have "stream r z" using w(2) by (simp add: window_def)
  ultimately have up: "unary_prefix (stream r) z" by (simp add: unary_prefix_def)
  have "bits_val (True # low_bits z code) = 2 ^ z + bits_val (low_bits z code)"
    using bits_val_append [of "[True]" "low_bits z code"] by (simp add: bits_val_def)
  then have "suffix_value (stream r) z z = unat code - 2 ^ z" "2 ^ z \<le> unat code"
    using L(3,4) w(3) by (simp_all add: suffix_value_def z)
  moreover have "1 \<le> (2 :: nat) ^ z" by simp
  ultimately have "2 ^ z - 1 + suffix_value (stream r) z z = unat code - 1" by linarith
  then show ?thesis using br_ue_spec [OF assms(1,2) up z(2)] len by (auto simp: mult_2)
qed

lemma unat_se_code:
  assumes "sint v \<noteq> - (2 ^ 31)"
  shows "int (unat (se_code v)) = (if sint v > 0 then 2 * sint v - 1 else - 2 * sint v)"
    "unat (se_code v) \<le> 2 ^ 32 - 2"
proof -
  have b: "- (2 ^ 31 - 1) \<le> sint v" "sint v \<le> 2 ^ 31 - 1"
    using fits_s_sint [of v] assms by (auto simp: fits_s_def)
  have s: "se_code v = (if sint v > 0 then v * 2 - 1 else word_of_nat (nat \<bar>sint v\<bar>) * 2)"
    using b(1) by (simp add: se_code_def)
  have r: "int (unat (word_of_int k :: u32)) = k" if "0 \<le> k" "k < 2 ^ 32" for k
    using that by (simp add: unat_eq_nat_uint uint_word_of_int)
  have "int (unat (se_code v)) = (if sint v > 0 then 2 * sint v - 1 else - 2 * sint v)"
  proof (cases "sint v > 0")
    case True
    have "v * 2 - 1 = word_of_int (2 * sint v - 1)" by (simp add: mult.commute)
    then show ?thesis using True b r [of "2 * sint v - 1"] by (simp add: s mult.commute)
  next
    case False
    have "word_of_nat (nat \<bar>sint v\<bar>) * 2 = (word_of_int (\<bar>sint v\<bar> * 2) :: u32)"
      by (metis abs_ge_zero nat_0_le of_int_mult of_int_numeral of_int_of_nat_eq)
    also have "\<bar>sint v\<bar> * 2 = - 2 * sint v" using False by simp
    finally show ?thesis using False b r [of "- 2 * sint v"] by (simp add: s mult.commute)
  qed
  then show E: "int (unat (se_code v)) = (if sint v > 0 then 2 * sint v - 1 else - 2 * sint v)" .
  have "int (unat (se_code v)) \<le> int (2 ^ 32 - 2)" unfolding E using b by simp
  then show "unat (se_code v) \<le> 2 ^ 32 - 2" by (simp only: of_nat_le_iff)
qed

lemma se_code_inverse:
  assumes "sint v \<noteq> - (2 ^ 31)"
  shows "se_of_code (se_code v) = v"
proof -
  note U = unat_se_code [OF assms]
  have "sint (se_of_code (se_code v)) = sint v"
    unfolding sint_se_of_code [OF U(2)]
  proof (cases "sint v > 0")
    case True
    with U(1) have u: "int (unat (se_code v)) = 2 * sint v - 1" by (simp only: if_True)
    then have "odd (unat (se_code v))" by presburger
    moreover have "(int (unat (se_code v)) + 1) div 2 = sint v" using u by presburger
    ultimately show "(if odd (unat (se_code v)) then (int (unat (se_code v)) + 1) div 2
        else - (int (unat (se_code v)) div 2)) = sint v" by (simp only: if_True not_False_eq_True)
  next
    case False
    with U(1) have u: "int (unat (se_code v)) = - 2 * sint v" by (simp only: if_False)
    then have "even (unat (se_code v))" by presburger
    moreover have "- (int (unat (se_code v)) div 2) = sint v" using u by presburger
    ultimately show "(if odd (unat (se_code v)) then (int (unat (se_code v)) + 1) div 2
        else - (int (unat (se_code v)) div 2)) = sint v" by (simp only: if_False not_True_eq_False)
  qed
  then show ?thesis by (simp only: word_eq_sint_iff)
qed

section \<open>Writing and reading syntax elements\<close>

datatype elem = EBits nat u32 | EUe u32 | ESe i32

primrec elem_ok :: "elem \<Rightarrow> bool" where
  "elem_ok (EBits n v) \<longleftrightarrow> n \<le> 32 \<and> unat v < 2 ^ n"
| "elem_ok (EUe v) \<longleftrightarrow> unat v \<le> 2 ^ 32 - 2"
| "elem_ok (ESe v) \<longleftrightarrow> sint v \<noteq> - (2 ^ 31)"

primrec write_elem :: "elem \<Rightarrow> bit_writer \<Rightarrow> bit_writer" where
  "write_elem (EBits n v) w = bw_put n v w"
| "write_elem (EUe v) w = bw_ue v w"
| "write_elem (ESe v) w = bw_se v w"

primrec read_elem :: "elem \<Rightarrow> bit_reader \<Rightarrow> elem \<times> bit_reader" where
  "read_elem (EBits n v) r = (case br_get n r of (x, r') \<Rightarrow> (EBits n x, r'))"
| "read_elem (EUe v) r = (case br_ue r of (x, r') \<Rightarrow> (EUe x, r'))"
| "read_elem (ESe v) r = (case br_se r of (x, r') \<Rightarrow> (ESe x, r'))"

primrec read_all :: "elem list \<Rightarrow> bit_reader \<Rightarrow> elem list \<times> bit_reader" where
  "read_all [] r = ([], r)"
| "read_all (e # es) r = (case read_elem e r of (x, r1) \<Rightarrow>
     (case read_all es r1 of (xs, r2) \<Rightarrow> (x # xs, r2)))"

primrec elem_bits :: "elem \<Rightarrow> bool list" where
  "elem_bits (EBits n v) = low_bits n v"
| "elem_bits (EUe v) = code_bits (ue_code v)"
| "elem_bits (ESe v) = code_bits (ue_code (se_code v))"

lemma write_elem_ok:
  "elem_ok e \<Longrightarrow> writer_ok w \<Longrightarrow> wbits (write_elem e w) = wbits w @ elem_bits e \<and> writer_ok (write_elem e w)"
  using bw_put_ok bw_ue_ok by (cases e) (auto simp: bw_se_def)

lemma write_all_ok:
  "list_all elem_ok es \<Longrightarrow> writer_ok w \<Longrightarrow>
     wbits (fold write_elem es w) = wbits w @ concat (map elem_bits es) \<and> writer_ok (fold write_elem es w)"
  using write_elem_ok by (induction es arbitrary: w) auto

lemma read_elem_ok:
  assumes "elem_ok e" "reader_ok r" "room r 64"
    "window (stream r) (length (elem_bits e)) = elem_bits e"
  shows "\<exists>r'. read_elem e r = (e, r') \<and> advanced r (length (elem_bits e)) r'"
proof (cases e)
  case (EBits n v)
  obtain x r' where g: "br_get n r = (x, r')" by fastforce
  have n: "n \<le> 32" "unat v < 2 ^ n" using assms(1) EBits by simp_all
  have "room r n" using assms(3) by (rule room_mono) (use n in simp)
  note G = br_get_spec [OF assms(2) this n(1) g]
  have "take_bit n v = v"
    using n(2) by (simp add: word_eq_iff_unsigned [where ?'a = nat] unsigned_take_bit_eq take_bit_nat_eq_self)
  then have "unat x = unat v" using G assms(4) EBits by (simp add: unat_take_bit_low)
  then show ?thesis using g G EBits by (simp add: word_eq_iff_unsigned [where ?'a = nat])
next
  case (EUe v)
  then show ?thesis
    using code_bits_read [OF assms(2,3) ue_code_ok, of v] assms(1,4) unat_ue_code [of v]
    by (auto simp: word_eq_iff_unsigned [where ?'a = nat])
next
  case (ESe v)
  then have v: "sint v \<noteq> - (2 ^ 31)" using assms(1) by simp
  obtain k r' where k: "br_ue r = (k, r')" "unat k = unat (se_code v)"
    "advanced r (length (elem_bits e)) r'"
    using code_bits_read [OF assms(2,3) ue_code_ok, of "se_code v"] assms(4) ESe
      unat_ue_code [of "se_code v"] unat_se_code(2) [OF v] by auto
  then have "k = se_code v" by (simp add: word_eq_iff_unsigned [where ?'a = nat])
  then show ?thesis using k ESe se_code_inverse [OF v] by (simp add: br_se_def)
qed

lemma read_all_ok:
  assumes "list_all elem_ok es" "reader_ok r" "room r (length (concat (map elem_bits es)) + 64)"
    "window (stream r) (length (concat (map elem_bits es))) = concat (map elem_bits es)"
  shows "\<exists>r'. read_all es r = (es, r') \<and> advanced r (length (concat (map elem_bits es))) r'"
  using assms
proof (induction es arbitrary: r)
  case Nil
  then show ?case by (simp add: advanced_refl)
next
  case (Cons e es)
  let ?n = "length (elem_bits e)" and ?m = "length (concat (map elem_bits es))"
  have e: "elem_ok e" and es: "list_all elem_ok es" using Cons.prems(1) by simp_all
  have split: "window (stream r) ?n @ window (\<lambda>i. stream r (i + ?n)) ?m = elem_bits e @ concat (map elem_bits es)"
    using Cons.prems(4) by (simp add: window_add)
  then have w: "window (stream r) ?n = elem_bits e" "window (\<lambda>i. stream r (i + ?n)) ?m = concat (map elem_bits es)"
    by simp_all
  have "room r 64" using Cons.prems(3) by (rule room_mono) simp
  then obtain r1 where r1: "read_elem e r = (e, r1)" "advanced r ?n r1"
    using read_elem_ok [OF e Cons.prems(2) _ w(1)] by blast
  have "reader_ok r1" "room r1 (?m + 64)"
    using r1(2) advanced_room [OF r1(2), of "?m + 64"] Cons.prems(3) by (simp_all add: advanced_def add.assoc)
  moreover have "window (stream r1) ?m = concat (map elem_bits es)"
    using w(2) advanced_stream [OF r1(2)] by simp
  ultimately obtain r2 where "read_all es r1 = (es, r2)" "advanced r1 ?m r2"
    using Cons.IH [OF es] by blast
  then show ?case using r1 advanced_trans [OF r1(2)] by simp
qed

lemma bw_new_ok: "writer_ok bw_new" "wbits bw_new = []"
  by (simp_all add: writer_ok_def clean_below_def bw_new_def wbits_def bytes_bits_def cache_top_def)

lemma pad_bits_less: "pad_bits w < 8" "8 dvd length (wbits w @ replicate (pad_bits w) x)"
proof -
  show "pad_bits w < 8" by (simp add: pad_bits_def)
  have "8 dvd bw_cache_bits w + pad_bits w"
  proof (cases "bw_cache_bits w mod 8 = 0")
    case True
    then show ?thesis by (simp add: pad_bits_def mod_0_imp_dvd)
  next
    case False
    then have "pad_bits w = 8 - bw_cache_bits w mod 8" by (simp add: pad_bits_def)
    moreover obtain q c where "bw_cache_bits w = q * 8 + c" "c < 8" "bw_cache_bits w mod 8 = c"
      by (metis div_mult_mod_eq mod_less_divisor zero_less_numeral)
    ultimately have "bw_cache_bits w + pad_bits w = 8 * (q + 1)" by simp
    then show ?thesis by (simp only: dvd_triv_left)
  qed
  then show "8 dvd length (wbits w @ replicate (pad_bits w) x)"
    by (simp add: wbits_def dvd_add_right_iff add.assoc)
qed

lemma aligned_bits:
  assumes "writer_ok w" "8 dvd length (wbits w)"
  shows "wbits w = bytes_bits (bw_out w)"
proof -
  have "8 dvd bw_cache_bits w"
    using assms(2) by (simp add: wbits_def dvd_add_right_iff)
  moreover have "bw_cache_bits w \<le> 7" using assms(1) by (simp add: writer_ok_def)
  ultimately have "bw_cache_bits w = 0" by (auto elim!: dvdE)
  then show ?thesis by (simp add: wbits_def cache_top_def)
qed

lemma bw_align_zero_ok:
  assumes "writer_ok w"
  shows "wbits (bw_align_zero w) = wbits w @ replicate (pad_bits w) False"
    "bytes_bits (bw_finish w) = wbits w @ replicate (pad_bits w) False" "writer_ok (bw_align_zero w)"
proof -
  have "pad_bits w \<le> 32" using pad_bits_less(1) [of w] by simp
  note P = bw_put_ok [OF assms this, of 0, unfolded low_bits_zero]
  show 1: "wbits (bw_align_zero w) = wbits w @ replicate (pad_bits w) False" "writer_ok (bw_align_zero w)"
    using P by (simp_all add: bw_align_zero_def)
  show "bytes_bits (bw_finish w) = wbits w @ replicate (pad_bits w) False"
    using aligned_bits [OF 1(2)] pad_bits_less(2) [of w False] 1 by (simp add: bw_finish_def)
qed

text \<open>
  The writer appends bits: every write adds exactly its field to the bits written before,
  whatever the fill of the cache (the low \<open>n\<close> bits of the value, most significant first;
  zeros; an Exp-Golomb code), keeps the invariant, and \<^verbatim>\<open>finish\<close> returns those bits padded
  with fewer than eight zeros; \<^verbatim>\<open>rbsp_trailing\<close> adds a one and the same padding.
\<close>

theorem writer_appends:
  assumes "writer_ok w"
  shows "(n \<le> 32 \<longrightarrow> wbits (bw_put n v w) = wbits w @ low_bits n v \<and> writer_ok (bw_put n v w)) \<and>
    (n \<le> 64 \<longrightarrow> wbits (bw_put_long n l w) = wbits w @ low_bits n l \<and> writer_ok (bw_put_long n l w)) \<and>
    wbits (bw_put_zeros n w) = wbits w @ replicate n False \<and>
    bytes_bits (bw_finish w) = wbits w @ replicate (pad_bits w) False \<and> pad_bits w < 8 \<and>
    (\<exists>k < 8. wbits (bw_rbsp_trailing w) = wbits w @ True # replicate k False)"
proof -
  have 1: "wbits (bw_put 1 1 w) = wbits w @ [True]" "writer_ok (bw_put 1 1 w)"
    using bw_put_ok [OF assms, of 1 1] by (simp_all add: low_bits_def)
  have "wbits (bw_rbsp_trailing w) = wbits w @ True # replicate (pad_bits (bw_put 1 1 w)) False"
    using bw_align_zero_ok(1) [OF 1(2)] 1(1) by (simp add: bw_rbsp_trailing_def)
  then have "\<exists>k < 8. wbits (bw_rbsp_trailing w) = wbits w @ True # replicate k False"
    using pad_bits_less(1) by blast
  then show ?thesis
    using bw_put_ok [OF assms] bw_put_long_ok [OF assms] bw_put_zeros_ok [OF assms]
      bw_align_zero_ok(2) [OF assms] pad_bits_less(1) [of w] by blast
qed

theorem writer_appends_witness:
  "wbits (bw_put 3 5 bw_new) = [True, False, True]"
  using writer_appends [OF bw_new_ok(1), of 3 5 0]
  by (simp add: bw_new_ok(2) low_bits_def upt_rec bit_simps)

text \<open>A reader over bytes that begin with some bits, and its final check after them.\<close>

lemma reader_over_bits:
  assumes "bytes_bits bs = bits @ rest" "8 * length bs + 256 < 2 ^ 64"
  shows "reader_ok (br_new bs)" "room (br_new bs) (length bits + 64)"
    "window (stream (br_new bs)) (length bits) = bits"
proof -
  have len: "length bits \<le> 8 * length bs" using arg_cong [OF assms(1), of length] by simp
  have r: "reader_ok (br_new bs)" "stream (br_new bs) = sbit bs" "cursor (br_new bs) = 0"
    by (simp_all add: br_new_def br_start_ok stream_start)
  then show "reader_ok (br_new bs)" "room (br_new bs) (length bits + 64)"
    using len assms(2) by (simp_all add: room_def)
  show "window (stream (br_new bs)) (length bits) = bits"
  proof (rule nth_equalityI)
    fix i assume "i < length (window (stream (br_new bs)) (length bits))"
    then have i: "i < length bits" by simp
    then have "sbit bs i = bytes_bits bs ! i" using len nth_bytes_bits [of i bs] by simp
    then show "window (stream (br_new bs)) (length bits) ! i = bits ! i"
      using i r(2) assms(1) by (simp add: nth_append)
  qed simp
qed

lemma check_within_bytes:
  assumes "advanced (br_new bs) n r'" "n \<le> 8 * length bs" "8 * length bs + 256 < 2 ^ 64"
  shows "br_check r' = Inr ()"
proof -
  have c: "cursor (br_new bs) = 0" by (simp add: br_new_def br_start_ok)
  have "br_bit_pos r' = n"
    using assms c bit_pos_cursor [of r'] by (simp add: advanced_def room_def)
  moreover have "br_logical_bits (br_new bs) = 8 * length bs" "\<not> br_flagged (br_new bs)"
    using assms(3) by (simp_all add: br_new_def br_start_def sat_u_def)
  ultimately show ?thesis
    using assms(1,2) by (simp add: br_check_def br_overrun_def advanced_def same_source_def)
qed

lemma read_written:
  assumes "list_all elem_ok es" "bytes_bits bs = concat (map elem_bits es) @ rest"
    "8 * length bs + 256 < 2 ^ 64"
  shows "\<exists>r'. read_all es (br_new bs) = (es, r') \<and> br_check r' = Inr ()"
proof -
  obtain r' where r': "read_all es (br_new bs) = (es, r')"
      "advanced (br_new bs) (length (concat (map elem_bits es))) r'"
    using read_all_ok [OF assms(1)] reader_over_bits [OF assms(2,3)] by blast
  moreover have "length (concat (map elem_bits es)) \<le> 8 * length bs"
    using arg_cong [OF assms(2), of length] by simp
  ultimately show ?thesis using check_within_bytes [OF r'(2) _ assms(3)] by blast
qed

lemma written_bits:
  assumes "list_all elem_ok es"
  shows "wbits (fold write_elem es bw_new) = concat (map elem_bits es)"
    "writer_ok (fold write_elem es bw_new)"
  using write_all_ok [OF assms bw_new_ok(1)] by (simp_all add: bw_new_ok(2))

text \<open>
  C31. Writing and reading agree: any sequence of fixed-width fields, \<^verbatim>\<open>ue(v)\<close> and \<^verbatim>\<open>se(v)\<close>
  elements in their documented domains, written with \<^verbatim>\<open>BitWriter\<close> and finished, is read back
  element by element by \<^verbatim>\<open>BitReader\<close> over the produced bytes, and the final check succeeds.
\<close>

theorem syntax_elements_round_trip:
  assumes "list_all elem_ok es" "8 * length (bw_finish (fold write_elem es bw_new)) + 256 < 2 ^ 64"
  shows "\<exists>r'. read_all es (br_new (bw_finish (fold write_elem es bw_new))) = (es, r') \<and>
    br_check r' = Inr ()"
  using read_written [OF assms(1) _ assms(2)] bw_align_zero_ok(2) [OF written_bits(2) [OF assms(1)]]
    written_bits(1) [OF assms(1)] by simp

theorem syntax_elements_round_trip_witness:
  "\<exists>r'. read_all [EBits 3 5, EUe 42, ESe (- 7)]
      (br_new (bw_finish (fold write_elem [EBits 3 5, EUe 42, ESe (- 7)] bw_new))) =
     ([EBits 3 5, EUe 42, ESe (- 7)], r') \<and> br_check r' = Inr ()"
proof -
  let ?es = "[EBits 3 5, EUe 42, ESe (- 7)]"
  have ok: "list_all elem_ok ?es" by simp
  note W = write_all_ok [OF ok bw_new_ok(1)]
  have "length (bytes_bits (bw_finish (fold write_elem ?es bw_new))) =
      length (concat (map elem_bits ?es)) + pad_bits (fold write_elem ?es bw_new)"
    using bw_align_zero_ok(2) W bw_new_ok(2) by simp
  moreover have "length (code_bits (ue_code v)) \<le> 63" for v
    using code_len_spec(2) [OF ue_code_ok, of v] by (simp add: code_bits_def)
  from this [of 42] this [of "se_code (- 7)"]
  have "length (concat (map elem_bits ?es)) \<le> 129" by simp
  ultimately have "8 * length (bw_finish (fold write_elem ?es bw_new)) \<le> 137"
    using pad_bits_less(1) [of "fold write_elem ?es bw_new"] by simp
  then show ?thesis using syntax_elements_round_trip [OF ok] by simp
qed

end
