(* ===== verification/Bits_AnnexB.thy ===== *)
theory Bits_AnnexB
  imports Bits_Writer
begin

text \<open>
  Annex-B framing and emulation prevention:
  \<^verbatim>\<open>crates/core/vaco-bitstream/src/annexb.rs\<close> and the \<^verbatim>\<open>RbspWriter\<close> of
  \<^verbatim>\<open>writer.rs\<close>.

  The start-code search with its word skip is proved equal to the naive search, escaping and
  unescaping to be inverse, and a unit written with the bit writer, escaped and framed is
  found and read back.
\<close>

section \<open>The model\<close>

definition has_zero_byte :: "u64 \<Rightarrow> bool" where
  "has_zero_byte w \<longleftrightarrow> (w - 0x0101010101010101) AND (NOT w) AND 0x8080808080808080 \<noteq> 0"

text \<open>
  \<^verbatim>\<open>u64::from_ne_bytes\<close> depends on the byte order of the target: the first argument says
  whether it is little-endian.
\<close>

definition from_ne_bytes :: "bool \<Rightarrow> u8 list \<Rightarrow> u64" where
  "from_ne_bytes little c = be_word (if little then rev c else c)"

function find_start_code :: "bool \<Rightarrow> u8 list \<Rightarrow> nat \<Rightarrow> nat option" where
  "find_start_code little buf i =
     (if (case Option.bind (slice_from buf i) (first_chunk 8) of
            Some w \<Rightarrow> \<not> has_zero_byte (from_ne_bytes little w)
          | None \<Rightarrow> False)
      then find_start_code little buf (i + 7)
      else case Option.bind (slice_from buf i) (first_chunk 3) of
             None \<Rightarrow> None
           | Some abc \<Rightarrow>
               if abc ! 2 = 0 then find_start_code little buf (i + 1)
               else if abc ! 2 = 1 \<and> abc ! 0 = 0 \<and> abc ! 1 = 0 then Some i
               else find_start_code little buf (i + 3))"
  by pat_completeness auto
termination
  by (relation "measure (\<lambda>(l, buf, i). length buf - i)") (auto simp: first_chunk_from split: if_splits)

declare find_start_code.simps [simp del]

text \<open>
  \<^verbatim>\<open>NalIter\<close>: the buffer and the start of the next payload. \<open>trim_zeros\<close> is the
  removal of \<^verbatim>\<open>trailing_zero_8bits\<close>.
\<close>

record nal_iter =
  ni_buf :: "u8 list"
  ni_next :: "nat option"

definition nal_units :: "bool \<Rightarrow> u8 list \<Rightarrow> nal_iter" where
  "nal_units little buf =
     \<lparr>ni_buf = buf, ni_next = map_option (\<lambda>i. i + 3) (find_start_code little buf 0)\<rparr>"

definition trim_zeros :: "u8 list \<Rightarrow> u8 list" where
  "trim_zeros u = rev (dropWhile (\<lambda>b. b = 0) (rev u))"

definition cut_unit :: "bool \<Rightarrow> u8 list \<Rightarrow> nat \<Rightarrow> u8 list \<times> nat option" where
  "cut_unit little buf start =
     (let (fin, nx) = (case find_start_code little buf start of
                         Some sc \<Rightarrow> (sc, Some (sc + 3))
                       | None \<Rightarrow> (length buf, None));
          unit = (case slice_range buf start fin of Some u \<Rightarrow> u | None \<Rightarrow> [])
      in (trim_zeros unit, nx))"

text \<open>The escape state machines; the zero counters are \<^verbatim>\<open>u32\<close>.\<close>

fun rbsp_loop :: "u32 \<Rightarrow> u8 list \<Rightarrow> u8 list" where
  "rbsp_loop zeros [] = []"
| "rbsp_loop zeros (b # bs) =
     (if zeros \<ge> 2 \<and> b = 3 then rbsp_loop 0 bs
      else b # rbsp_loop (if b = 0 then zeros + 1 else 0) bs)"

definition to_rbsp :: "u8 list \<Rightarrow> u8 list" where
  "to_rbsp ebsp = rbsp_loop 0 ebsp"

fun ebsp_loop :: "u32 \<Rightarrow> u8 list \<Rightarrow> u8 list" where
  "ebsp_loop zeros [] = []"
| "ebsp_loop zeros (b # bs) =
     (if zeros \<ge> 2 \<and> b \<le> 3 then 3 # b # ebsp_loop (if b = 0 then 1 else 0) bs
      else b # ebsp_loop (if b = 0 then zeros + 1 else 0) bs)"

definition to_ebsp :: "u8 list \<Rightarrow> u8 list \<Rightarrow> u8 list" where
  "to_ebsp rbsp out = out @ ebsp_loop 0 rbsp"

fun violates_ebsp_constraint :: "u8 list \<Rightarrow> bool" where
  "violates_ebsp_constraint (a # b # c # xs) \<longleftrightarrow>
     (a = 0 \<and> b = 0 \<and> c \<le> 2) \<or> violates_ebsp_constraint (b # c # xs)"
| "violates_ebsp_constraint _ \<longleftrightarrow> False"

record rbsp_writer =
  rw_inner :: bit_writer
  rw_escaped :: "u8 list"

definition rw_new :: rbsp_writer where
  "rw_new = \<lparr>rw_inner = bw_new, rw_escaped = []\<rparr>"

definition rw_finish :: "rbsp_writer \<Rightarrow> u8 list" where
  "rw_finish w = to_ebsp (bw_finish (bw_rbsp_trailing (rw_inner w))) (rw_escaped w)"

definition rw_finish_annexb :: "rbsp_writer \<Rightarrow> u8 list" where
  "rw_finish_annexb w = [0, 0, 0, 1] @ rw_finish w"

section \<open>The word trick\<close>

fun lval :: "nat list \<Rightarrow> nat" where
  "lval [] = 0"
| "lval (d # ds) = d + 256 * lval ds"

lemma bit_digit_plus:
  assumes "(d :: nat) < 256"
  shows "bit (d + 256 * r) n \<longleftrightarrow> (if n < 8 then bit d n else bit r (n - 8))"
proof (cases "n < 8")
  case True
  have "(256 :: nat) = 2 ^ (n + (7 - n) + 1)" using True by simp
  then have e: "256 * r = 2 ^ n * (2 ^ (7 - n) * 2 * r)"
    by (simp only: power_add power_one_right mult.assoc)
  have "(d + 256 * r) div 2 ^ n = 2 ^ (7 - n) * 2 * r + d div 2 ^ n"
    unfolding e by (rule div_mult_self2) simp
  then show ?thesis using True by (simp add: bit_iff_odd)
next
  case False
  then obtain m where n: "n = 8 + m" by (metis le_Suc_ex not_less)
  have "(d + 256 * r) div 2 ^ n = (d + 256 * r) div 256 div 2 ^ m"
    by (simp add: n power_add div_mult2_eq)
  also have "(d + 256 * r) div 256 = r" using assms by simp
  finally show ?thesis using n by (simp add: bit_iff_odd)
qed

lemma bit_lval:
  "list_all (\<lambda>d. d < 256) ds \<Longrightarrow> bit (lval ds) n \<longleftrightarrow> n div 8 < length ds \<and> bit (ds ! (n div 8)) (n mod 8)"
proof (induction ds arbitrary: n)
  case (Cons d ds)
  show ?case
  proof (cases "n < 8")
    case True
    then show ?thesis using Cons.prems by (simp add: bit_digit_plus)
  next
    case False
    then obtain m where "n = m + 8" by (metis add.commute le_Suc_ex not_less)
    then show ?thesis using Cons by (simp add: bit_digit_plus)
  qed
qed simp

lemma lval_append: "lval (a @ b) = lval a + 256 ^ length a * lval b"
  by (induction a) (simp_all add: algebra_simps)

lemma lval_less: "list_all (\<lambda>d. d < 256) ds \<Longrightarrow> lval ds < 256 ^ length ds"
  by (induction ds) auto

lemma lval_ones_le: "0 \<notin> set ds \<Longrightarrow> lval (replicate (length ds) 1) \<le> lval ds"
  by (induction ds) (auto simp: Suc_le_eq add_mono)

lemma lval_minus_ones:
  "0 \<notin> set ds \<Longrightarrow> int (lval ds) - int (lval (replicate (length ds) 1)) = int (lval (map (\<lambda>d. d - 1) ds))"
  by (induction ds) (auto simp: of_nat_diff)

lemma bytes_small: "list_all (\<lambda>d. d < 256) (map unat (bs :: u8 list))"
proof -
  have "unat b < 2 ^ 8" for b :: u8 using unsigned_less [of b] by simp
  then show ?thesis by (simp add: list_all_iff)
qed

lemma unat_be_word: "length c \<le> 8 \<Longrightarrow> unat (be_word c) = lval (map unat (rev c))"
proof (rule bit_eqI)
  fix n assume l: "length c \<le> 8"
  show "bit (unat (be_word c)) n \<longleftrightarrow> bit (lval (map unat (rev c))) n"
  proof (cases "n div 8 < length c")
    case True
    then have "n < 8 * length c" by linarith
    then show ?thesis using True l bytes_small [of "rev c"]
      by (simp add: bit_unsigned_iff bit_be_word bit_lval rev_nth)
  next
    case False
    then have "\<not> n < 8 * length c" by linarith
    then show ?thesis using False l bytes_small [of "rev c"]
      by (simp add: bit_unsigned_iff bit_be_word bit_lval)
  qed
qed

lemma bit_seven: "(d :: nat) < 256 \<Longrightarrow> bit d 7 \<longleftrightarrow> 128 \<le> d"
proof (cases "128 \<le> d")
  case True
  moreover assume "d < 256"
  ultimately have "d = 128 + (d - 128)" "d - 128 < 128" by linarith+
  then obtain e where "d = 128 + e" "e < 128" by blast
  then show ?thesis by (simp add: bit_iff_odd)
qed (simp add: bit_iff_odd)

lemma word_trick_zero:
  assumes "0 \<in> set ds" "length ds = 8" "list_all (\<lambda>d. d < 256) ds"
  shows "\<exists>k < 8. ds ! k = 0 \<and> bit (int (lval ds) - int (lval (replicate 8 1))) (8 * k + 7)"
proof -
  obtain pre post where s: "ds = pre @ 0 # post" "0 \<notin> set pre" using assms(1) split_list_first by fast
  let ?k = "length pre" and ?o = "\<lambda>n. lval (replicate n (1 :: nat))"
  have len: "?k + Suc (length post) = 8" using s(1) assms(2) by simp
  define D where "D = int (lval post) - int (?o (length post))"
  define y where "y = 127 + 128 * (2 * D - 1)"
  define r where "r = int (lval pre) - int (?o ?k)"
  have "replicate 8 (1 :: nat) = replicate ?k 1 @ 1 # replicate (length post) 1"
    using len by (simp only: replicate_add [symmetric] replicate_Suc [symmetric])
  then have "int (?o 8) = int (?o ?k) + 256 ^ ?k * (1 + 256 * int (?o (length post)))"
    by (simp only: lval_append lval.simps length_replicate) (simp add: algebra_simps)
  moreover have "int (lval ds) = int (lval pre) + 256 ^ ?k * (256 * int (lval post))"
    by (simp add: s(1) lval_append)
  ultimately have x: "int (lval ds) - int (?o 8) = r + 256 ^ ?k * y"
    by (simp add: r_def y_def D_def algebra_simps)
  have "list_all (\<lambda>d. d < 256) pre" using assms(3) s(1) by simp
  then have "int (lval pre) < 256 ^ ?k" using lval_less [of pre] by (metis of_nat_less_iff of_nat_numeral of_nat_power)
  moreover have "int (?o ?k) \<le> int (lval pre)" using lval_ones_le [OF s(2)] by simp
  ultimately have r: "0 \<le> r" "r < 256 ^ ?k" unfolding r_def by linarith+
  have "(2 :: int) ^ (8 * ?k + 7) = 256 ^ ?k * 128" by (simp add: power_add power_mult)
  then have "(r + 256 ^ ?k * y) div 2 ^ (8 * ?k + 7) = (r + 256 ^ ?k * y) div 256 ^ ?k div 128"
    by (simp add: zdiv_zmult2_eq)
  also have "(r + 256 ^ ?k * y) div 256 ^ ?k = y" using r by simp
  also have "y div 128 = 2 * D - 1" unfolding y_def by simp
  finally have "bit (int (lval ds) - int (?o 8)) (8 * ?k + 7)"
    unfolding x bit_iff_odd by simp
  then show ?thesis using s(1) len by (intro exI [of _ ?k]) (simp add: nth_append)
qed

lemma replicate_8: "replicate 8 x = [x, x, x, x, x, x, x, x]"
  by (simp add: numeral_eq_Suc)

lemma low_mask: "(0x0101010101010101 :: u64) = word_of_int (int (lval (replicate 8 1)))"
  unfolding replicate_8 by simp

lemma high_mask: "bit (0x8080808080808080 :: u64) n \<longleftrightarrow> n < 64 \<and> n mod 8 = 7"
proof -
  have "(0x8080808080808080 :: u64) = word_of_int (int (lval (replicate 8 128)))"
    unfolding replicate_8 by simp
  then have "bit (0x8080808080808080 :: u64) n \<longleftrightarrow> n < 64 \<and> bit (lval (replicate 8 128)) n"
    by (simp only: bit_word_of_int_iff bit_of_nat_iff_bit) simp
  moreover have "bit (128 :: nat) (n mod 8) \<longleftrightarrow> n mod 8 = 7"
    using bit_exp_iff [where 'a = nat, of 7 "n mod 8"] by simp
  moreover have "list_all (\<lambda>d. d < 256) (replicate 8 (128 :: nat))" by (simp add: list_all_iff)
  ultimately show ?thesis by (auto simp: bit_lval)
qed

lemma word_nonzero: "(x :: u64) \<noteq> 0 \<longleftrightarrow> (\<exists>n. bit x n)"
  by (metis bit_0_eq bot_apply bot_bool_def bit_eqI)

lemma has_zero_byte_lval:
  assumes "length ds = 8" "list_all (\<lambda>d. d < 256) ds" "unat w = lval ds"
  shows "has_zero_byte w \<longleftrightarrow> 0 \<in> set ds"
proof -
  let ?x = "int (lval ds) - int (lval (replicate 8 1))"
  have w: "w = word_of_int (int (lval ds))" using assms(3) by (metis uint_nat word_of_int_uint)
  then have "w - 0x0101010101010101 = word_of_int ?x" unfolding low_mask by simp
  then have sub: "bit (w - 0x0101010101010101) n \<longleftrightarrow> n < 64 \<and> bit ?x n" for n
    by (simp only: bit_word_of_int_iff) simp
  have wb: "bit w n \<longleftrightarrow> n div 8 < 8 \<and> bit (ds ! (n div 8)) (n mod 8)" for n
    using bit_lval [OF assms(2), of n] assms(1,3) by (metis bit_of_nat_iff_bit bit_unsigned_iff bit_imp_le_length possible_bit_nat)
  have "has_zero_byte w \<longleftrightarrow> (\<exists>n < 64. n mod 8 = 7 \<and> bit ?x n \<and> \<not> bit w n)"
  proof -
    have "bit ((w - 0x0101010101010101) AND NOT w AND 0x8080808080808080) n \<longleftrightarrow>
        n < 64 \<and> n mod 8 = 7 \<and> bit ?x n \<and> \<not> bit w n" for n
      by (simp only: bit_and_iff bit_not_iff sub high_mask) auto
    then show ?thesis unfolding has_zero_byte_def word_nonzero by blast
  qed
  also have "\<dots> \<longleftrightarrow> 0 \<in> set ds"
  proof
    assume "0 \<in> set ds"
    then obtain k where k: "k < 8" "ds ! k = 0" "bit ?x (8 * k + 7)"
      using word_trick_zero [OF _ assms(1,2)] by blast
    then have "\<not> bit w (8 * k + 7)" by (simp add: wb)
    then show "\<exists>n < 64. n mod 8 = 7 \<and> bit ?x n \<and> \<not> bit w n" using k by (intro exI [of _ "8 * k + 7"]) simp
  next
    assume "\<exists>n < 64. n mod 8 = 7 \<and> bit ?x n \<and> \<not> bit w n"
    then obtain n where n: "n < 64" "n mod 8 = 7" "bit ?x n" "\<not> bit w n" by blast
    show "0 \<in> set ds"
    proof (rule ccontr)
      assume z: "0 \<notin> set ds"
      let ?d = "ds ! (n div 8)"
      have k: "n div 8 < 8" using n(1) by simp
      have "list_all (\<lambda>d. d < 256) (map (\<lambda>d. d - 1) ds)" using assms(2) by (auto simp: list_all_iff)
      then have "bit ?x n \<longleftrightarrow> bit (?d - 1) 7"
        using lval_minus_ones [OF z] bit_lval [of "map (\<lambda>d. d - 1) ds" n] assms(1) k n(2)
        by (simp add: bit_of_nat_iff_bit)
      moreover have "\<not> bit ?d 7" using n(2,4) k by (simp add: wb)
      moreover have "?d \<in> set ds" using assms(1) k by simp
      then have "?d < 256" "?d \<noteq> 0" using assms(2) z unfolding list_all_iff by (blast, metis)
      moreover from this have "?d - 1 < 256" by simp
      ultimately show False using n(3) bit_seven [of ?d] bit_seven [of "?d - 1"] by linarith
    qed
  qed
  finally show ?thesis .
qed

lemma has_zero_byte_chunk: "length c = 8 \<Longrightarrow> has_zero_byte (from_ne_bytes little c) \<longleftrightarrow> 0 \<in> set c"
  using has_zero_byte_lval [OF _ bytes_small unat_be_word, of "c"]
    has_zero_byte_lval [OF _ bytes_small unat_be_word, of "rev c"]
  by (simp add: from_ne_bytes_def image_iff) (metis unsigned_0 unat_eq_zero)

section \<open>The start-code search\<close>

definition is_start_code :: "u8 list \<Rightarrow> nat \<Rightarrow> bool" where
  "is_start_code buf i \<longleftrightarrow> i + 2 < length buf \<and> buf ! i = 0 \<and> buf ! (i + 1) = 0 \<and> buf ! (i + 2) = 1"

definition first_from :: "(nat \<Rightarrow> bool) \<Rightarrow> nat \<Rightarrow> nat option \<Rightarrow> bool" where
  "first_from P i res \<longleftrightarrow>
     (case res of Some k \<Rightarrow> i \<le> k \<and> P k \<and> (\<forall>j. i \<le> j \<and> j < k \<longrightarrow> \<not> P j)
                | None \<Rightarrow> (\<forall>j \<ge> i. \<not> P j))"

lemma first_from_skip:
  assumes "first_from P (i + n) res" "\<And>j. j < n \<Longrightarrow> \<not> P (i + j)"
  shows "first_from P i res"
proof -
  have no: "\<not> P j" if "i \<le> j" "j < i + n" for j
    using assms(2) [of "j - i"] that by simp
  show ?thesis
  proof (cases res)
    case None
    then have "\<not> P j" if "i \<le> j" for j
      using assms(1) no [OF that] by (cases "j < i + n") (auto simp: first_from_def)
    then show ?thesis by (simp add: None first_from_def)
  next
    case (Some k)
    then have k: "i + n \<le> k" "P k" "\<And>j. i + n \<le> j \<Longrightarrow> j < k \<Longrightarrow> \<not> P j"
      using assms(1) by (simp_all add: first_from_def)
    then have "\<not> P j" if "i \<le> j" "j < k" for j
      using no [OF that(1)] that(2) by (cases "j < i + n") auto
    then show ?thesis using k by (simp add: Some first_from_def)
  qed
qed

lemma first_from_unique: "first_from P i r \<Longrightarrow> first_from P i r' \<Longrightarrow> r = r'"
  by (cases r; cases r') (auto simp: first_from_def, metis linorder_neqE_nat)

lemma no_code_in_nonzero:
  assumes "\<And>j. j < 8 \<Longrightarrow> buf ! (i + j) \<noteq> 0" "j < 7"
  shows "\<not> is_start_code buf (i + j)"
  using assms(1) [of j] assms(2) by (auto simp: is_start_code_def)

lemma chunk8_nonzero:
  assumes "Option.bind (slice_from buf i) (first_chunk 8) = Some w"
    "\<not> has_zero_byte (from_ne_bytes little w)" "j < 8"
  shows "buf ! (i + j) \<noteq> (0 :: u8)"
proof -
  have w: "w = take 8 (drop i buf)" "i + 8 \<le> length buf"
    using assms(1) by (auto simp: first_chunk_from split: if_splits)
  then have "length w = 8" by simp
  then have "0 \<notin> set w" using assms(2) has_zero_byte_chunk by blast
  moreover have "w ! j = buf ! (i + j)" using w assms(3) by simp
  ultimately show ?thesis using \<open>length w = 8\<close> assms(3) by (metis nth_mem)
qed

lemma find_start_code_first: "first_from (is_start_code buf) i (find_start_code little buf i)"
proof (induction little buf i rule: find_start_code.induct)
  case (1 little buf i)
  let ?c8 = "Option.bind (slice_from buf i) (first_chunk 8)"
  let ?skip = "case ?c8 of Some w \<Rightarrow> \<not> has_zero_byte (from_ne_bytes little w) | None \<Rightarrow> False"
  show ?case
  proof (cases ?skip)
    case True
    then have nz: "\<And>j. j < 8 \<Longrightarrow> buf ! (i + j) \<noteq> 0"
      using chunk8_nonzero [of buf i _ little] by (auto split: option.splits)
    have "find_start_code little buf i = find_start_code little buf (i + 7)"
      using True by (subst find_start_code.simps) (simp only: if_True)
    then show ?thesis
      using first_from_skip [OF "1.IH"(1) [OF True]] no_code_in_nonzero [OF nz] by simp
  next
    case skip: False
    show ?thesis
    proof (cases "i + 3 \<le> length buf")
      case False
      then have "Option.bind (slice_from buf i) (first_chunk 3) = None" by (simp add: first_chunk_from)
      then have "find_start_code little buf i = None"
        using skip by (subst find_start_code.simps) (simp only: if_False option.case)
      then show ?thesis using False by (simp add: first_from_def is_start_code_def)
    next
      case True
      define abc where "abc = take 3 (drop i buf)"
      have c3: "Option.bind (slice_from buf i) (first_chunk 3) = Some abc"
        using True by (simp add: first_chunk_from abc_def)
      have abc: "abc ! 0 = buf ! i" "abc ! 1 = buf ! (i + 1)" "abc ! 2 = buf ! (i + 2)"
        using True by (simp_all add: abc_def)
      have u: "find_start_code little buf i =
          (if abc ! 2 = 0 then find_start_code little buf (i + 1)
           else if abc ! 2 = 1 \<and> abc ! 0 = 0 \<and> abc ! 1 = 0 then Some i
           else find_start_code little buf (i + 3))"
        using skip by (subst find_start_code.simps) (simp only: if_False option.case c3)
      consider "abc ! 2 = 0" | "abc ! 2 = 1" "abc ! 0 = 0" "abc ! 1 = 0"
        | "abc ! 2 \<noteq> 0" "\<not> (abc ! 2 = 1 \<and> abc ! 0 = 0 \<and> abc ! 1 = 0)" by blast
      then show ?thesis
      proof cases
        case a: 1
        have "\<not> is_start_code buf (i + j)" if "j < 1" for j
          using that a abc by (simp add: is_start_code_def)
        then show ?thesis using first_from_skip [OF "1.IH"(2) [OF skip c3 a]] u a by simp
      next
        case 2
        then show ?thesis using u abc True by (auto simp: first_from_def is_start_code_def)
      next
        case 3
        have "\<not> is_start_code buf (i + j)" if "j < 3" for j
        proof -
          have "j = 0 \<or> j = 1 \<or> j = 2" using that by linarith
          then show ?thesis using 3 abc by (auto simp: is_start_code_def)
        qed
        then show ?thesis using first_from_skip [OF "1.IH"(3) [OF skip c3 3(1,2)]] u 3 by auto
      qed
    qed
  qed
qed

text \<open>
  C32. The start-code search: with its eight-byte zero test, seven-byte and three-byte skips,
  on a machine of either byte order, it terminates and returns the first position at or after
  the start where \<^verbatim>\<open>00 00 01\<close> stands, and nothing exactly when there is none.
\<close>

theorem find_start_code_correct:
  "find_start_code little buf i =
     (if \<exists>k \<ge> i. is_start_code buf k then Some (LEAST k. i \<le> k \<and> is_start_code buf k) else None)"
proof (rule first_from_unique [OF find_start_code_first])
  show "first_from (is_start_code buf) i
    (if \<exists>k \<ge> i. is_start_code buf k then Some (LEAST k. i \<le> k \<and> is_start_code buf k) else None)"
  proof (cases "\<exists>k \<ge> i. is_start_code buf k")
    case True
    then have "i \<le> (LEAST k. i \<le> k \<and> is_start_code buf k) \<and>
        is_start_code buf (LEAST k. i \<le> k \<and> is_start_code buf k)" by (rule LeastI2_ex) simp
    then show ?thesis using True not_less_Least by (auto simp: first_from_def)
  next
    case False
    then show ?thesis by (auto simp: first_from_def)
  qed
qed

section \<open>Iterating units\<close>

lemma find_start_code_bounds:
  "find_start_code little buf i = Some k \<Longrightarrow> i \<le> k \<and> k + 3 \<le> length buf"
  using find_start_code_first [of buf i little] by (auto simp: first_from_def is_start_code_def)

definition iter_measure :: "nal_iter \<Rightarrow> nat" where
  "iter_measure it = (case ni_next it of None \<Rightarrow> 0 | Some s \<Rightarrow> Suc (length (ni_buf it) - s))"

lemma cut_unit_measure:
  "cut_unit little (ni_buf it) start = (u, nx) \<Longrightarrow> ni_next it = Some start \<Longrightarrow>
     iter_measure (it\<lparr>ni_next := nx\<rparr>) < iter_measure it"
  using find_start_code_bounds [of little "ni_buf it" start]
  by (auto simp: cut_unit_def iter_measure_def Let_def split: option.splits)

function nal_next :: "bool \<Rightarrow> nal_iter \<Rightarrow> u8 list option \<times> nal_iter" where
  "nal_next little it =
     (case ni_next it of
        None \<Rightarrow> (None, it)
      | Some start \<Rightarrow>
          (case cut_unit little (ni_buf it) start of (trimmed, nx) \<Rightarrow>
             let it' = it\<lparr>ni_next := nx\<rparr>
             in if trimmed \<noteq> [] then (Some trimmed, it')
                else if nx = None then (None, it')
                else nal_next little it'))"
  by pat_completeness auto
termination
  by (relation "measure (\<lambda>(l, it). iter_measure it)") (auto intro!: cut_unit_measure [OF sym])

declare nal_next.simps [simp del]

lemma nal_next_measure:
  "nal_next little it = (Some u, it') \<Longrightarrow> iter_measure it' < iter_measure it"
proof (induction little it rule: nal_next.induct)
  case (1 little it)
  show ?case
  proof (cases "ni_next it")
    case None
    then show ?thesis using "1.prems" by (simp add: nal_next.simps [of little it])
  next
    case (Some start)
    obtain t nx where c: "cut_unit little (ni_buf it) start = (t, nx)" by fastforce
    note lt = cut_unit_measure [OF c Some]
    show ?thesis
    proof (cases "t \<noteq> []")
      case True
      then have "it' = it\<lparr>ni_next := nx\<rparr>"
        using "1.prems" Some c by (subst (asm) nal_next.simps) simp
      then show ?thesis using lt by simp
    next
      case False
      have "nx \<noteq> None \<and> nal_next little (it\<lparr>ni_next := nx\<rparr>) = (Some u, it')"
        using "1.prems" False Some c by (subst (asm) nal_next.simps) (simp add: Let_def split: if_splits)
      then show ?thesis using "1.IH" [OF Some c [symmetric] refl False] lt by auto
    qed
  qed
qed

text \<open>All the units an iterator yields, as \<^verbatim>\<open>collect\<close> gathers them.\<close>

function nal_collect :: "bool \<Rightarrow> nal_iter \<Rightarrow> u8 list list" where
  "nal_collect little it =
     (case nal_next little it of (None, _) \<Rightarrow> [] | (Some u, it') \<Rightarrow> u # nal_collect little it')"
  by pat_completeness auto
termination
  by (relation "measure (\<lambda>(l, it). iter_measure it)") (auto intro!: nal_next_measure [OF sym])

declare nal_collect.simps [simp del]

section \<open>Emulation prevention\<close>

lemma u32_cases_2: "(z :: u32) \<le> 2 \<Longrightarrow> z = 0 \<or> z = 1 \<or> z = 2"
proof -
  assume "z \<le> 2"
  then have "unat z \<le> 2" by (simp add: word_le_nat_alt)
  then have "unat z = 0 \<or> unat z = 1 \<or> unat z = 2" by linarith
  then show ?thesis by (auto simp: word_eq_iff_unsigned [where ?'a = nat])
qed

lemma violates_skip [simp]:
  "a \<noteq> 0 \<Longrightarrow> violates_ebsp_constraint (a # xs) \<longleftrightarrow> violates_ebsp_constraint xs"
  by (induction xs rule: violates_ebsp_constraint.induct) auto

lemma violates_skip2 [simp]:
  "b \<noteq> 0 \<Longrightarrow> violates_ebsp_constraint (a # b # xs) \<longleftrightarrow> violates_ebsp_constraint xs"
  by (cases xs) auto

lemma escape_step:
  assumes "z \<le> 2" "\<not> (z \<ge> 2 \<and> b \<le> 3)"
  shows "(if b = (0 :: u8) then z + 1 else 0) \<le> (2 :: u32)"
proof (cases "b = 0")
  case True
  then have "z = 0 \<or> z = 1" using assms u32_cases_2 [OF assms(1)] by auto
  then show ?thesis using True by auto
qed simp

lemma rbsp_ebsp_loop: "z \<le> 2 \<Longrightarrow> rbsp_loop z (ebsp_loop z xs) = xs"
proof (induction xs arbitrary: z)
  case (Cons b bs)
  show ?case
  proof (cases "z \<ge> 2 \<and> b \<le> 3")
    case True
    then show ?thesis using Cons.IH [of 0] Cons.IH [of 1] by auto
  next
    case False
    then have "\<not> (2 \<le> z \<and> b = 3)" by auto
    then show ?thesis
      using Cons.IH [OF escape_step [OF Cons.prems False]]
      by (simp only: ebsp_loop.simps rbsp_loop.simps False if_False)
  qed
qed simp

lemma ebsp_loop_clean:
  "\<not> violates_ebsp_constraint (ebsp_loop 0 xs) \<and> \<not> violates_ebsp_constraint (0 # ebsp_loop 1 xs) \<and>
   \<not> violates_ebsp_constraint (0 # 0 # ebsp_loop 2 xs)"
proof (induction xs)
  case (Cons b bs)
  have gt: "\<not> b \<le> 2" "b \<noteq> 0" if "\<not> b \<le> 3"
    using that order_trans [of b 2 3] by auto
  have "\<not> violates_ebsp_constraint (0 # 0 # ebsp_loop 2 (b # bs))"
  proof (cases "b \<le> 3")
    case True
    then show ?thesis using Cons by (cases "b = 0") auto
  next
    case False
    then show ?thesis using Cons gt by auto
  qed
  then show ?case using Cons by (cases "b = 0") auto
qed simp

lemma ebsp_loop_last: "xs \<noteq> [] \<Longrightarrow> ebsp_loop z xs \<noteq> [] \<and> last (ebsp_loop z xs) = last xs"
proof (induction xs arbitrary: z)
  case (Cons b bs)
  then show ?case by (cases "bs = []") auto
qed simp

lemma start_code_violates: "is_start_code u i \<Longrightarrow> violates_ebsp_constraint u"
proof (induction u arbitrary: i rule: violates_ebsp_constraint.induct)
  case (1 a b c xs)
  show ?case
  proof (cases i)
    case 0
    then show ?thesis using 1 by (auto simp: is_start_code_def)
  next
    case (Suc j)
    then have "is_start_code (b # c # xs) j" using 1 by (simp add: is_start_code_def)
    then show ?thesis using 1 by simp
  qed
qed (auto simp: is_start_code_def)

text \<open>
  Emulation prevention: unescaping the escaped form of any byte string gives the string
  back; the escaped form never contains \<^verbatim>\<open>00 00 00\<close>, \<^verbatim>\<open>00 00 01\<close> or \<^verbatim>\<open>00 00 02\<close>, so no
  start code can be found in it; and escaping appends to its buffer.
\<close>

theorem emulation_prevention:
  "to_rbsp (to_ebsp rbsp []) = rbsp \<and> \<not> violates_ebsp_constraint (to_ebsp rbsp []) \<and>
   find_start_code little (to_ebsp rbsp []) i = None \<and>
   to_ebsp rbsp out = out @ to_ebsp rbsp []"
proof -
  have v: "\<not> violates_ebsp_constraint (to_ebsp rbsp [])"
    using ebsp_loop_clean by (simp add: to_ebsp_def)
  then have "first_from (is_start_code (to_ebsp rbsp [])) i None"
    using start_code_violates by (auto simp: first_from_def)
  then have "find_start_code little (to_ebsp rbsp []) i = None"
    using first_from_unique [OF find_start_code_first] by blast
  then show ?thesis using v rbsp_ebsp_loop [of 0 rbsp] by (simp add: to_rbsp_def to_ebsp_def)
qed

section \<open>Framed units are found again\<close>

definition clean_unit :: "u8 list \<Rightarrow> bool" where
  "clean_unit u \<longleftrightarrow> u \<noteq> [] \<and> last u \<noteq> 0 \<and> \<not> violates_ebsp_constraint u"

definition frame :: "u8 list list \<Rightarrow> u8 list" where
  "frame us = concat (map (\<lambda>u. [0, 0, 0, 1] @ u) us)"

lemma no_code_inside:
  assumes "clean_unit u" "i < length u"
  shows "\<not> is_start_code (pre @ u @ post) (length pre + i)"
proof
  assume c: "is_start_code (pre @ u @ post) (length pre + i)"
  have nth: "(pre @ u @ post) ! (length pre + k) = u ! k" if "k < length u" for k
    using that by (simp add: nth_append)
  have z: "(pre @ u @ post) ! (length pre + i) = 0" "(pre @ u @ post) ! (length pre + (i + 1)) = 0"
    "(pre @ u @ post) ! (length pre + (i + 2)) = 1"
    using c by (simp_all add: is_start_code_def add.assoc)
  have last: "u ! (length u - 1) \<noteq> 0"
    using assms(1) last_conv_nth [of u] by (auto simp: clean_unit_def)
  consider "i + 2 < length u" | "i + 2 = length u" | "i + 1 = length u" using assms(2) by linarith
  then show False
  proof cases
    case 1
    then have "is_start_code u i"
      using z nth [of i] nth [of "i + 1"] nth [of "i + 2"] by (auto simp only: is_start_code_def)
    then show False using start_code_violates assms(1) by (auto simp: clean_unit_def)
  next
    case 2
    then have "i + 1 = length u - 1" "i + 1 < length u" by linarith+
    then show False using z(2) nth [of "i + 1"] last by metis
  next
    case 3
    then show False using z(1) nth [of i] last by (metis add_diff_cancel_right' assms(2))
  qed
qed

lemma find_next_frame:
  assumes "clean_unit u"
  shows "find_start_code little (pre @ u @ frame us) (length pre) =
    (if us = [] then None else Some (length pre + length u + 1))"
proof (rule first_from_unique [OF find_start_code_first])
  let ?buf = "pre @ u @ frame us"
  have inside: "\<not> is_start_code ?buf j" if "length pre \<le> j" "j < length pre + length u" for j
    using no_code_inside [OF assms, of "j - length pre" pre "frame us"] that by simp
  show "first_from (is_start_code ?buf) (length pre)
    (if us = [] then None else Some (length pre + length u + 1))"
  proof (cases us)
    case Nil
    have "\<not> is_start_code ?buf j" if "length pre \<le> j" for j
      using inside [OF that] by (cases "j < length pre + length u") (auto simp: Nil frame_def is_start_code_def)
    then show ?thesis by (simp add: Nil first_from_def)
  next
    case (Cons v vs)
    have at: "?buf ! (length pre + length u + k) = frame us ! k" for k
      by (simp add: nth_append)
    have f: "frame us = 0 # 0 # 0 # 1 # v @ frame vs" by (simp add: frame_def Cons)
    have "is_start_code ?buf (length pre + length u + 1)"
      using at [of 1] at [of 2] at [of 3] by (simp add: is_start_code_def f numeral_eq_Suc)
    moreover have "\<not> is_start_code ?buf (length pre + length u)"
      using at [of 2] by (simp add: is_start_code_def f numeral_eq_Suc)
    ultimately show ?thesis using inside by (auto simp: Cons first_from_def less_Suc_eq)
  qed
qed

lemma trim_clean: "clean_unit u \<Longrightarrow> trim_zeros (u @ replicate n 0) = u"
proof -
  assume "clean_unit u"
  then obtain b rest where r: "rev u = b # rest" "b \<noteq> 0"
    by (metis clean_unit_def hd_rev list.collapse rev_is_Nil_conv)
  have "dropWhile (\<lambda>b. b = 0) (replicate n 0 @ rev u) = rev u"
    using r by (subst dropWhile_append2) auto
  then show ?thesis by (simp add: trim_zeros_def)
qed

lemma nal_collect_frame:
  "clean_unit u \<Longrightarrow> list_all clean_unit us \<Longrightarrow>
     nal_collect little \<lparr>ni_buf = pre @ u @ frame us, ni_next = Some (length pre)\<rparr> = u # us"
proof (induction us arbitrary: pre u)
  case Nil
  have "cut_unit little (pre @ u) (length pre) = (u, None)"
    using find_next_frame [OF Nil(1), of little pre "[]"] trim_clean [OF Nil(1), of 0]
    by (simp add: cut_unit_def frame_def slice_range_def)
  then show ?case
    using Nil(1) by (simp add: nal_collect.simps nal_next.simps frame_def clean_unit_def)
next
  case (Cons v vs)
  let ?buf = "pre @ u @ frame (v # vs)"
  have v: "clean_unit v" "list_all clean_unit vs" using Cons.prems(2) by simp_all
  have "slice_range ?buf (length pre) (length pre + length u + 1) = Some (u @ [0])"
    by (simp add: slice_range_def frame_def)
  then have "cut_unit little ?buf (length pre) = (u, Some (length pre + length u + 4))"
    using find_next_frame [OF Cons.prems(1), of little pre "v # vs"] trim_clean [OF Cons.prems(1), of 1]
    by (simp add: cut_unit_def)
  then have "nal_collect little \<lparr>ni_buf = ?buf, ni_next = Some (length pre)\<rparr> =
      u # nal_collect little \<lparr>ni_buf = ?buf, ni_next = Some (length pre + length u + 4)\<rparr>"
    using Cons.prems(1) by (subst nal_collect.simps) (simp add: nal_next.simps clean_unit_def)
  moreover have "?buf = (pre @ u @ [0, 0, 0, 1]) @ v @ frame vs"
    "length pre + length u + 4 = length (pre @ u @ [0, 0, 0, 1])" by (simp_all add: frame_def)
  ultimately show ?case using Cons.IH [OF v, of "pre @ u @ [0, 0, 0, 1]"] by (simp only:)
qed

lemma nal_units_frame:
  assumes "list_all clean_unit us"
  shows "nal_collect little (nal_units little (frame us)) = us"
proof (cases us)
  case Nil
  have "find_start_code little [] 0 = None"
    using first_from_unique [OF find_start_code_first [of "[]" 0 little], of None]
    by (simp add: first_from_def is_start_code_def)
  then show ?thesis by (simp add: Nil nal_units_def frame_def nal_collect.simps nal_next.simps)
next
  case (Cons u vs)
  have f: "frame us = [0, 0, 0, 1] @ u @ frame vs" by (simp add: frame_def Cons)
  have "first_from (is_start_code (frame us)) 0 (Some 1)"
    by (auto simp: first_from_def is_start_code_def f)
  then have "find_start_code little (frame us) 0 = Some 1"
    using first_from_unique [OF find_start_code_first] by blast
  then have "nal_units little (frame us) =
      \<lparr>ni_buf = [0, 0, 0, 1] @ u @ frame vs, ni_next = Some (length [0, 0, 0, 1 :: u8])\<rparr>"
    by (simp add: nal_units_def f)
  then show ?thesis using nal_collect_frame [of u vs little "[0, 0, 0, 1]"] assms Cons by simp
qed

text \<open>
  Annex-B framing: a stream of start codes and units that carry no forbidden sequence and
  do not end in a zero byte is split back into exactly those units, in order; the iterator
  terminates on every buffer.
\<close>

theorem annexb_units_round_trip:
  assumes "list_all clean_unit us"
  shows "nal_collect little (nal_units little (frame us)) = us"
  using nal_units_frame [OF assms] .

theorem annexb_units_round_trip_witness:
  "nal_collect True (nal_units True (frame [[0x67, 0xAA], [0x68, 0, 0xBB]])) = [[0x67, 0xAA], [0x68, 0, 0xBB]]"
  by (rule annexb_units_round_trip) (simp add: clean_unit_def)

section \<open>From syntax elements to a framed unit and back\<close>

lemma last_byte_nonzero:
  assumes "bytes_bits bs = xs @ True # replicate k False" "k < 8"
  shows "bs \<noteq> [] \<and> last bs \<noteq> 0"
proof -
  have ne: "bs \<noteq> []" using assms(1) by (auto simp: bytes_bits_def)
  then obtain ys b where bs: "bs = ys @ [b]" by (metis rev_exhaust)
  have "b \<noteq> 0"
  proof
    assume "b = 0"
    then have "bytes_bits ys @ replicate 8 False = xs @ True # replicate k False"
      using assms(1) by (simp add: bs byte_bits_def map_replicate_const)
    moreover have "replicate 8 False = replicate (7 - k) False @ False # replicate k False"
      using assms(2) by (simp add: replicate_add [symmetric] replicate_Suc [symmetric] del: replicate_Suc)
    ultimately have "(bytes_bits ys @ replicate (7 - k) False) @ False # replicate k False =
        xs @ True # replicate k False" by simp
    then show False by (simp add: append_eq_append_conv)
  qed
  then show ?thesis by (simp add: bs)
qed

lemma trailing_bits:
  assumes "writer_ok w"
  shows "\<exists>k < 8. bytes_bits (bw_finish (bw_rbsp_trailing w)) = wbits w @ True # replicate k False"
proof -
  have 1: "wbits (bw_put 1 1 w) = wbits w @ [True]" "writer_ok (bw_put 1 1 w)"
    using bw_put_ok [OF assms, of 1 1] by (simp_all add: low_bits_def)
  let ?t = "bw_rbsp_trailing w"
  have t: "wbits ?t = wbits w @ True # replicate (pad_bits (bw_put 1 1 w)) False" "writer_ok ?t"
    using bw_align_zero_ok [OF 1(2)] 1(1) by (simp_all add: bw_rbsp_trailing_def)
  have "8 dvd length (wbits ?t)"
    using pad_bits_less(2) [of "bw_put 1 1 w" False] t(1) 1(1) by simp
  then have "8 dvd bw_cache_bits ?t" by (simp add: wbits_def dvd_add_right_iff)
  then have "pad_bits ?t = 0" by (simp add: pad_bits_def)
  then show ?thesis
    using bw_align_zero_ok(2) [OF t(2)] t(1) pad_bits_less(1) [of "bw_put 1 1 w"] by auto
qed

lemma ebsp_loop_length: "length xs \<le> length (ebsp_loop z xs)"
  by (induction z xs rule: ebsp_loop.induct) auto

text \<open>
  C1. The whole bitstream path: syntax elements written into an \<^verbatim>\<open>RbspWriter\<close>, terminated,
  escaped and framed as an Annex-B unit come back as exactly one unit of the unit iterator,
  and reading its unescaped payload with \<^verbatim>\<open>BitReader\<close> gives the elements with no overrun.
\<close>

theorem annexb_pipeline_round_trip:
  assumes "list_all elem_ok es"
    "out = rw_finish_annexb (rw_new\<lparr>rw_inner := fold write_elem es bw_new\<rparr>)"
    "8 * length out + 256 < 2 ^ 64"
  shows "\<exists>u r'. nal_collect little (nal_units little out) = [u] \<and>
    read_all es (br_new (to_rbsp u)) = (es, r') \<and> br_check r' = Inr ()"
proof -
  note W = written_bits [OF assms(1)]
  define rbsp where "rbsp = bw_finish (bw_rbsp_trailing (fold write_elem es bw_new))"
  define u where "u = to_ebsp rbsp []"
  obtain k where k: "k < 8" "bytes_bits rbsp = concat (map elem_bits es) @ True # replicate k False"
    using trailing_bits [OF W(2)] W(1) by (auto simp: rbsp_def)
  note last = last_byte_nonzero [OF k(2,1)]
  have "clean_unit u"
    using last ebsp_loop_last [of rbsp 0] ebsp_loop_clean by (auto simp: clean_unit_def u_def to_ebsp_def)
  moreover have out: "out = frame [u]"
    by (simp add: assms(2) rw_finish_annexb_def rw_finish_def rw_new_def frame_def u_def rbsp_def)
  ultimately have "nal_collect little (nal_units little out) = [u]"
    using nal_units_frame [of "[u]"] by simp
  moreover have rb: "to_rbsp u = rbsp"
    using rbsp_ebsp_loop [of 0 rbsp] by (simp add: to_rbsp_def u_def to_ebsp_def)
  moreover have "8 * length rbsp + 256 < 2 ^ 64"
    using assms(3) ebsp_loop_length [of rbsp 0] by (simp add: out frame_def u_def to_ebsp_def)
  ultimately show ?thesis using read_written [OF assms(1) k(2)] by auto
qed

theorem annexb_pipeline_round_trip_witness:
  "\<exists>u r'. nal_collect True (nal_units True
       (rw_finish_annexb (rw_new\<lparr>rw_inner := fold write_elem [EBits 2 1] bw_new\<rparr>))) = [u] \<and>
     read_all [EBits 2 1] (br_new (to_rbsp u)) = ([EBits 2 1], r') \<and> br_check r' = Inr ()"
proof -
  let ?w = "fold write_elem [EBits 2 1] bw_new"
  have ok: "list_all elem_ok [EBits 2 1]" by simp
  obtain k where k: "k < 8" "bytes_bits (bw_finish (bw_rbsp_trailing ?w)) = wbits ?w @ True # replicate k False"
    using trailing_bits [OF written_bits(2) [OF ok]] by blast
  have "8 * length (bw_finish (bw_rbsp_trailing ?w)) \<le> 10"
    using arg_cong [OF k(2), of length] k(1) written_bits(1) [OF ok] by simp
  then have one: "length (bw_finish (bw_rbsp_trailing ?w)) \<le> 1" by linarith
  have "length (ebsp_loop z xs) \<le> 2" if "length xs \<le> 1" for z xs
    using that by (cases xs) auto
  then have "length (rw_finish_annexb (rw_new\<lparr>rw_inner := ?w\<rparr>)) \<le> 6"
    using one by (simp add: rw_finish_annexb_def rw_finish_def rw_new_def to_ebsp_def)
  then have "8 * length (rw_finish_annexb (rw_new\<lparr>rw_inner := ?w\<rparr>)) + 256 < 2 ^ 64" by simp
  from annexb_pipeline_round_trip [OF ok refl this] show ?thesis .
qed

end
