(* ===== verification/Bits_Bytes.thy ===== *)
theory Bits_Bytes
  imports Bits_AnnexB
begin

text \<open>
  The endian-explicit byte cursor \<^verbatim>\<open>ByteReader\<close>
  (\<^verbatim>\<open>crates/core/vaco-bitstream/src/bytes.rs\<close>) and length-prefixed units
  (\<^verbatim>\<open>avcc.rs\<close>), which are its first client. The byte-order conversions are the standard
  library's; the float accessors return the bit pattern of the number
  (\<^verbatim>\<open>f32::from_be_bytes\<close> is \<^verbatim>\<open>f32::from_bits\<close> of the integer), an \<open>i8\<close> is the
  integer it stands for.
\<close>

section \<open>The model\<close>

record byte_reader =
  by_data :: "u8 list"
  by_pos :: nat
  by_overrun :: bool

definition by_new :: "u8 list \<Rightarrow> byte_reader" where
  "by_new bs = \<lparr>by_data = bs, by_pos = 0, by_overrun = False\<rparr>"

definition by_take :: "nat \<Rightarrow> byte_reader \<Rightarrow> u8 list \<times> byte_reader" where
  "by_take n r =
     (case Option.bind (slice_from (by_data r) (by_pos r)) (first_chunk n) of
        Some c \<Rightarrow> (c, r\<lparr>by_pos := by_pos r + n\<rparr>)
      | None \<Rightarrow> (replicate n 0, r\<lparr>by_overrun := True, by_pos := length (by_data r)\<rparr>))"

definition from_be :: "u8 list \<Rightarrow> 'a :: len word" where
  "from_be bs = foldl (\<lambda>w b. push_bit 8 w OR ucast b) 0 bs"

definition from_le :: "u8 list \<Rightarrow> 'a :: len word" where
  "from_le bs = from_be (rev bs)"

definition by_u8 :: "byte_reader \<Rightarrow> u8 \<times> byte_reader" where
  "by_u8 r = (case by_take 1 r of (c, r') \<Rightarrow> (hd c, r'))"

definition by_i8 :: "byte_reader \<Rightarrow> int \<times> byte_reader" where
  "by_i8 r = (case by_u8 r of (b, r') \<Rightarrow> (sint b, r'))"

definition by_be16 :: "byte_reader \<Rightarrow> u16 \<times> byte_reader" where
  "by_be16 r = (case by_take 2 r of (c, r') \<Rightarrow> (from_be c, r'))"

definition by_le16 :: "byte_reader \<Rightarrow> u16 \<times> byte_reader" where
  "by_le16 r = (case by_take 2 r of (c, r') \<Rightarrow> (from_le c, r'))"

definition by_be24 :: "byte_reader \<Rightarrow> u32 \<times> byte_reader" where
  "by_be24 r = (case by_take 3 r of (c, r') \<Rightarrow> (from_be (0 # c), r'))"

definition by_le24 :: "byte_reader \<Rightarrow> u32 \<times> byte_reader" where
  "by_le24 r = (case by_take 3 r of (c, r') \<Rightarrow> (from_le (c @ [0]), r'))"

definition by_be32 :: "byte_reader \<Rightarrow> u32 \<times> byte_reader" where
  "by_be32 r = (case by_take 4 r of (c, r') \<Rightarrow> (from_be c, r'))"

definition by_le32 :: "byte_reader \<Rightarrow> u32 \<times> byte_reader" where
  "by_le32 r = (case by_take 4 r of (c, r') \<Rightarrow> (from_le c, r'))"

definition by_be64 :: "byte_reader \<Rightarrow> u64 \<times> byte_reader" where
  "by_be64 r = (case by_take 8 r of (c, r') \<Rightarrow> (from_be c, r'))"

definition by_le64 :: "byte_reader \<Rightarrow> u64 \<times> byte_reader" where
  "by_le64 r = (case by_take 8 r of (c, r') \<Rightarrow> (from_le c, r'))"

definition by_f32_be :: "byte_reader \<Rightarrow> u32 \<times> byte_reader" where
  "by_f32_be r = (case by_take 4 r of (c, r') \<Rightarrow> (from_be c, r'))"

definition by_f32_le :: "byte_reader \<Rightarrow> u32 \<times> byte_reader" where
  "by_f32_le r = (case by_take 4 r of (c, r') \<Rightarrow> (from_le c, r'))"

definition by_f64_be :: "byte_reader \<Rightarrow> u64 \<times> byte_reader" where
  "by_f64_be r = (case by_take 8 r of (c, r') \<Rightarrow> (from_be c, r'))"

definition by_f64_le :: "byte_reader \<Rightarrow> u64 \<times> byte_reader" where
  "by_f64_le r = (case by_take 8 r of (c, r') \<Rightarrow> (from_le c, r'))"

definition by_bytes :: "nat \<Rightarrow> byte_reader \<Rightarrow> u8 list \<times> byte_reader" where
  "by_bytes n r =
     (case Option.bind (slice_from (by_data r) (by_pos r)) (\<lambda>s. slice_range s 0 n) of
        Some s \<Rightarrow> (s, r\<lparr>by_pos := by_pos r + n\<rparr>)
      | None \<Rightarrow>
          ((case slice_from (by_data r) (by_pos r) of Some s \<Rightarrow> s | None \<Rightarrow> []),
           r\<lparr>by_overrun := True, by_pos := length (by_data r)\<rparr>))"

definition by_skip :: "nat \<Rightarrow> byte_reader \<Rightarrow> byte_reader" where
  "by_skip n r =
     (case checked_u 64 (by_pos r + n) of
        Some p \<Rightarrow> if p \<le> length (by_data r) then r\<lparr>by_pos := p\<rparr>
                  else r\<lparr>by_overrun := True, by_pos := length (by_data r)\<rparr>
      | None \<Rightarrow> r\<lparr>by_overrun := True, by_pos := length (by_data r)\<rparr>)"

definition by_seek :: "nat \<Rightarrow> byte_reader \<Rightarrow> byte_reader" where
  "by_seek p r =
     (if p > length (by_data r) then r\<lparr>by_overrun := True, by_pos := length (by_data r)\<rparr>
      else r\<lparr>by_pos := p\<rparr>)"

definition by_remaining :: "byte_reader \<Rightarrow> nat" where
  "by_remaining r = (if by_overrun r then 0 else length (by_data r) - by_pos r)"

definition by_rest :: "byte_reader \<Rightarrow> u8 list" where
  "by_rest r = (case slice_from (by_data r) (by_pos r) of Some s \<Rightarrow> s | None \<Rightarrow> [])"

definition by_check :: "byte_reader \<Rightarrow> bitstream_error + unit" where
  "by_check r = (if by_overrun r then Inl Overrun else Inr ())"

definition by_sub :: "nat \<Rightarrow> byte_reader \<Rightarrow> byte_reader \<times> byte_reader" where
  "by_sub n r = (case by_bytes n r of (s, r') \<Rightarrow> (by_new s, r'))"

subsection \<open>Length-prefixed units\<close>

record lp_iter =
  lp_reader :: byte_reader
  lp_length_size :: nat
  lp_done :: bool

definition lp_units :: "u8 list \<Rightarrow> nat \<Rightarrow> lp_iter" where
  "lp_units buf length_size =
     \<lparr>lp_reader = by_new buf, lp_length_size = length_size, lp_done = length_size \<notin> {1, 2, 4}\<rparr>"

definition lp_read_len :: "nat \<Rightarrow> byte_reader \<Rightarrow> nat \<times> byte_reader" where
  "lp_read_len n r =
     (if n = 1 then (case by_u8 r of (v, r') \<Rightarrow> (unat v, r'))
      else if n = 2 then (case by_be16 r of (v, r') \<Rightarrow> (unat v, r'))
      else (case by_be32 r of (v, r') \<Rightarrow> (unat v, r')))"

definition lp_next :: "lp_iter \<Rightarrow> u8 list option \<times> lp_iter" where
  "lp_next it =
     (if lp_done it \<or> by_remaining (lp_reader it) < lp_length_size it then (None, it)
      else case lp_read_len (lp_length_size it) (lp_reader it) of (len, r) \<Rightarrow>
        if len = 0 \<or> len > by_remaining r then (None, it\<lparr>lp_reader := r, lp_done := True\<rparr>)
        else case by_bytes len r of (u, r') \<Rightarrow> (Some u, it\<lparr>lp_reader := r'\<rparr>))"

section \<open>The cursor contract\<close>

definition by_ok :: "byte_reader \<Rightarrow> bool" where
  "by_ok r \<longleftrightarrow> by_pos r \<le> length (by_data r)"

lemma by_take_cases:
  assumes "by_ok r"
  shows "by_take n r =
    (if n \<le> length (by_rest r) then (take n (by_rest r), r\<lparr>by_pos := by_pos r + n\<rparr>)
     else (replicate n 0, r\<lparr>by_overrun := True, by_pos := length (by_data r)\<rparr>))"
  using assms by (auto simp: by_take_def by_ok_def by_rest_def first_chunk_def slice_from_def)

lemma by_bytes_cases:
  assumes "by_ok r"
  shows "by_bytes n r =
    (if n \<le> length (by_rest r) then (take n (by_rest r), r\<lparr>by_pos := by_pos r + n\<rparr>)
     else (by_rest r, r\<lparr>by_overrun := True, by_pos := length (by_data r)\<rparr>))"
  using assms by (auto simp: by_bytes_def by_ok_def by_rest_def slice_from_def slice_range_def)

lemma bit_push_byte:
  "bit (push_bit 8 w OR ucast (b :: u8) :: 'a :: len word) k \<longleftrightarrow>
     k < LENGTH('a) \<and> (if k < 8 then bit b k else bit w (k - 8))"
proof -
  have "8 \<le> k \<Longrightarrow> \<not> bit b k" using bit_imp_le_length [of b k] by auto
  then show ?thesis by (auto simp: bit_or_iff bit_push_bit_iff bit_ucast_iff)
qed

lemma bit_from_be:
  "8 * length bs \<le> LENGTH('a) \<Longrightarrow> bit (from_be bs :: 'a :: len word) k \<longleftrightarrow>
     k < 8 * length bs \<and> bit (bs ! (length bs - 1 - k div 8)) (k mod 8)"
proof (induction bs arbitrary: k rule: rev_induct)
  case Nil
  then show ?case by (simp add: from_be_def)
next
  case (snoc b bs)
  have e: "from_be (bs @ [b]) = (push_bit 8 (from_be bs) OR ucast b :: 'a word)" by (simp add: from_be_def)
  have len: "8 * length bs \<le> LENGTH('a)" using snoc.prems by simp
  show ?case
  proof (cases "k < 8")
    case True
    then show ?thesis using snoc.prems by (simp add: e bit_push_byte)
  next
    case False
    then obtain m where k: "k = m + 8" by (metis add.commute le_Suc_ex not_less)
    have "length (bs @ [b]) - 1 - k div 8 = length bs - 1 - m div 8" by (simp add: k)
    moreover have "m < 8 * length bs \<Longrightarrow> length bs - 1 - m div 8 < length bs" by (cases bs) auto
    ultimately show ?thesis
      using snoc.prems by (auto simp: e bit_push_byte k snoc.IH [OF len] nth_append)
  qed
qed

lemma unat_from_be:
  assumes "8 * length bs \<le> LENGTH('a)"
  shows "unat (from_be bs :: 'a :: len word) = lval (map unat (rev bs))"
proof (rule bit_eqI)
  fix n
  show "bit (unat (from_be bs :: 'a word)) n \<longleftrightarrow> bit (lval (map unat (rev bs))) n"
  proof (cases "n div 8 < length bs")
    case True
    then have "n < 8 * length bs" by linarith
    then show ?thesis using True assms bytes_small [of "rev bs"]
      by (simp add: bit_unsigned_iff bit_from_be bit_lval rev_nth)
  next
    case False
    then have "\<not> n < 8 * length bs" by linarith
    then show ?thesis using False assms bytes_small [of "rev bs"]
      by (simp add: bit_unsigned_iff bit_from_be bit_lval)
  qed
qed

text \<open>The number a big-endian byte string stands for.\<close>

definition be_val :: "u8 list \<Rightarrow> nat" where
  "be_val bs = lval (map unat (rev bs))"

lemma lval_zeros: "lval (replicate n 0) = 0"
  by (induction n) simp_all

lemma be_val_zero: "be_val (replicate n 0) = 0"
  by (simp add: be_val_def rev_replicate map_replicate lval_zeros)

lemma be_val_Cons_zero [simp]: "be_val (0 # bs) = be_val bs"
  by (simp add: be_val_def lval_append)

text \<open>
  One field read: the value of the next \<open>n\<close> bytes when they are there, otherwise zero
  with the flag set and the cursor at the end.
\<close>

definition field_read :: "byte_reader \<Rightarrow> nat \<Rightarrow> (u8 list \<Rightarrow> nat) \<Rightarrow> nat \<Rightarrow> byte_reader \<Rightarrow> bool" where
  "field_read r n val v r' \<longleftrightarrow>
     (if n \<le> length (by_rest r)
      then v = val (take n (by_rest r)) \<and> by_rest r' = drop n (by_rest r) \<and> by_overrun r' = by_overrun r
      else v = 0 \<and> by_rest r' = [] \<and> by_overrun r') \<and> by_ok r' \<and> by_data r' = by_data r"

lemma by_take_field:
  assumes "by_ok r" "by_take n r = (c, r')" "val (replicate n 0) = 0"
  shows "field_read r n val (val c) r'" "length c = n"
proof -
  have rest: "by_rest r = drop (by_pos r) (by_data r)"
    using assms(1) by (simp add: by_rest_def by_ok_def slice_from_def)
  show "field_read r n val (val c) r'" "length c = n"
    using assms unfolding by_take_cases [OF assms(1)]
    by (auto simp: field_read_def rest by_rest_def slice_from_def by_ok_def add.commute split: if_splits)
qed

lemma le_zero: "be_val (rev (replicate n 0)) = 0"
  by (simp add: be_val_zero rev_replicate)

lemma single_val: "length c = 1 \<Longrightarrow> unat (hd c) = be_val c"
  by (cases c) (auto simp: be_val_def)

lemma le24_val: "length c = 3 \<Longrightarrow> unat (from_le (c @ [0]) :: u32) = be_val (rev c)"
  by (simp add: from_le_def unat_from_be be_val_def lval_append)

text \<open>
  Every fixed-width accessor of \<^verbatim>\<open>ByteReader\<close> (8, 16, 24, 32 and 64 bits, both byte
  orders) returns the number its bytes stand for and advances past them, or, when fewer bytes
  are left, returns zero, sets the sticky flag and stops at the end; the cursor never leaves
  the buffer.
\<close>

theorem byte_fields_read:
  assumes "by_ok r"
  shows "field_read r 1 be_val (unat (fst (by_u8 r))) (snd (by_u8 r)) \<and>
    field_read r 2 be_val (unat (fst (by_be16 r))) (snd (by_be16 r)) \<and>
    field_read r 3 be_val (unat (fst (by_be24 r))) (snd (by_be24 r)) \<and>
    field_read r 4 be_val (unat (fst (by_be32 r))) (snd (by_be32 r)) \<and>
    field_read r 8 be_val (unat (fst (by_be64 r))) (snd (by_be64 r)) \<and>
    field_read r 2 (\<lambda>c. be_val (rev c)) (unat (fst (by_le16 r))) (snd (by_le16 r)) \<and>
    field_read r 3 (\<lambda>c. be_val (rev c)) (unat (fst (by_le24 r))) (snd (by_le24 r)) \<and>
    field_read r 4 (\<lambda>c. be_val (rev c)) (unat (fst (by_le32 r))) (snd (by_le32 r)) \<and>
    field_read r 8 (\<lambda>c. be_val (rev c)) (unat (fst (by_le64 r))) (snd (by_le64 r))"
proof -
  have B: "\<exists>c r'. by_take n r = (c, r') \<and> length c = n \<and> field_read r n be_val (be_val c) r'" for n
    using by_take_field [OF assms, of n _ _ be_val] be_val_zero by (metis surj_pair)
  have L: "\<exists>c r'. by_take n r = (c, r') \<and> length c = n \<and>
      field_read r n (\<lambda>c. be_val (rev c)) (be_val (rev c)) r'" for n
    using by_take_field [OF assms, of n _ _ "\<lambda>c. be_val (rev c)"] le_zero by (metis surj_pair)
  note be = unat_from_be [folded be_val_def]
  show ?thesis
  proof (intro conjI)
    show "field_read r 1 be_val (unat (fst (by_u8 r))) (snd (by_u8 r))"
      using B [of 1] single_val by (auto simp: by_u8_def)
    show "field_read r 2 be_val (unat (fst (by_be16 r))) (snd (by_be16 r))"
      using B [of 2] by (auto simp: by_be16_def be)
    show "field_read r 3 be_val (unat (fst (by_be24 r))) (snd (by_be24 r))"
      using B [of 3] by (auto simp: by_be24_def be)
    show "field_read r 4 be_val (unat (fst (by_be32 r))) (snd (by_be32 r))"
      using B [of 4] by (auto simp: by_be32_def be)
    show "field_read r 8 be_val (unat (fst (by_be64 r))) (snd (by_be64 r))"
      using B [of 8] by (auto simp: by_be64_def be)
    show "field_read r 2 (\<lambda>c. be_val (rev c)) (unat (fst (by_le16 r))) (snd (by_le16 r))"
      using L [of 2] by (auto simp: by_le16_def be from_le_def)
    show "field_read r 3 (\<lambda>c. be_val (rev c)) (unat (fst (by_le24 r))) (snd (by_le24 r))"
      using L [of 3] le24_val by (auto simp: by_le24_def)
    show "field_read r 4 (\<lambda>c. be_val (rev c)) (unat (fst (by_le32 r))) (snd (by_le32 r))"
      using L [of 4] by (auto simp: by_le32_def be from_le_def)
    show "field_read r 8 (\<lambda>c. be_val (rev c)) (unat (fst (by_le64 r))) (snd (by_le64 r))"
      using L [of 8] by (auto simp: by_le64_def be from_le_def)
  qed
qed

theorem byte_fields_read_witness:
  "unat (fst (by_be16 (by_new [1, 2, 3]))) = 258 \<and> unat (fst (by_le32 (by_new [1, 2, 3]))) = 0"
  using byte_fields_read [of "by_new [1, 2, 3]"]
  by (simp add: field_read_def by_ok_def by_new_def by_rest_def slice_from_def be_val_def)


subsection \<open>Cursor movement\<close>

lemma by_rest_ok: "by_ok r \<Longrightarrow> by_rest r = drop (by_pos r) (by_data r)"
  by (simp add: by_rest_def by_ok_def slice_from_def)

text \<open>
  The position after a move of \<open>n\<close> bytes that is legal only up to the end of the buffer: past
  it the cursor stops at the end and the flag is set.
\<close>

definition moved :: "byte_reader \<Rightarrow> nat \<Rightarrow> byte_reader \<Rightarrow> bool" where
  "moved r p r' \<longleftrightarrow> by_ok r' \<and> by_data r' = by_data r \<and>
     by_pos r' = min p (length (by_data r)) \<and>
     (by_overrun r' \<longleftrightarrow> by_overrun r \<or> p > length (by_data r))"

lemma moved_check: "moved r p r' \<Longrightarrow> by_check r' = Inr () \<longleftrightarrow> by_check r = Inr () \<and> p \<le> length (by_data r)"
  by (auto simp: moved_def by_check_def)

text \<open>
  \<^verbatim>\<open>bytes\<close>, \<^verbatim>\<open>skip\<close>, \<^verbatim>\<open>seek\<close> and \<^verbatim>\<open>sub\<close> move the byte cursor to the
  requested position or, past the end, stop there with the sticky flag set, so that one
  \<^verbatim>\<open>check\<close> at the end reports every overrun; the slice returned is what lies between the two
  positions, and a sub-reader sees those bytes only and starts clean. A saturated
  \<^verbatim>\<open>skip\<close> cannot wrap around.
\<close>

theorem byte_cursor_moves:
  assumes "by_ok r" "length (by_data r) < 2 ^ 64"
  shows "fst (by_bytes n r) = take n (by_rest r) \<and> moved r (by_pos r + n) (snd (by_bytes n r)) \<and>
    by_sub n r = (by_new (take n (by_rest r)), snd (by_bytes n r)) \<and>
    moved r (by_pos r + n) (by_skip n r) \<and> moved r p (by_seek p r) \<and>
    (by_check (by_skip n r) = Inr () \<longleftrightarrow> by_check r = Inr () \<and> n \<le> length (by_rest r))"
proof (intro conjI)
  note b = by_bytes_cases [OF assms(1)] and r = by_rest_ok [OF assms(1)]
  have le: "by_pos r \<le> length (by_data r)" using assms(1) by (simp add: by_ok_def)
  show 1: "fst (by_bytes n r) = take n (by_rest r)" by (simp add: b)
  show "moved r (by_pos r + n) (snd (by_bytes n r))"
    using le by (auto simp: b r moved_def by_ok_def)
  show "by_sub n r = (by_new (take n (by_rest r)), snd (by_bytes n r))"
    by (simp add: by_sub_def 1 [symmetric] split_beta)
  have s: "by_skip n r = (if by_pos r + n \<le> length (by_data r) then r\<lparr>by_pos := by_pos r + n\<rparr>
      else r\<lparr>by_overrun := True, by_pos := length (by_data r)\<rparr>)"
    using assms(2) by (auto simp: by_skip_def checked_u_def fits_u_def)
  show m: "moved r (by_pos r + n) (by_skip n r)" using le by (auto simp: s moved_def by_ok_def)
  show "moved r p (by_seek p r)" by (auto simp: by_seek_def moved_def by_ok_def)
  show "by_check (by_skip n r) = Inr () \<longleftrightarrow> by_check r = Inr () \<and> n \<le> length (by_rest r)"
    using moved_check [OF m] le by (auto simp: r)
qed

theorem byte_cursor_moves_witness:
  "by_check (by_skip 2 (by_new [1, 2, 3])) = Inr () \<and> by_check (by_skip 4 (by_new [1, 2, 3])) \<noteq> Inr ()"
  using byte_cursor_moves [of "by_new [1, 2, 3]" 2] byte_cursor_moves [of "by_new [1, 2, 3]" 4]
  by (simp add: by_ok_def by_new_def by_rest_def slice_from_def by_check_def)

section \<open>Length-prefixed units\<close>

lemma be_val_less: "be_val bs < 256 ^ length bs"
  using lval_less [of "map unat (rev bs)"] bytes_small [of "rev bs"] by (simp add: be_val_def)

lemma lp_read_len_cases:
  assumes "by_ok r" "n \<in> {1, 2, 4}" "n \<le> length (by_rest r)"
  shows "lp_read_len n r = (be_val (take n (by_rest r)), r\<lparr>by_pos := by_pos r + n\<rparr>)"
proof -
  note t = by_take_cases [OF assms(1)] and be = unat_from_be [folded be_val_def]
  have "unat (hd (take 1 (by_rest r))) = be_val (take 1 (by_rest r))" if "n = 1"
    using that assms(3) by (intro single_val) simp
  then show ?thesis
    using assms(2,3) by (auto simp: lp_read_len_def by_u8_def by_be16_def by_be32_def t be)
qed

text \<open>A complete unit at the front of a sample, and how a unit is framed.\<close>

definition has_unit :: "nat \<Rightarrow> u8 list \<Rightarrow> bool" where
  "has_unit n bs \<longleftrightarrow> n \<le> length bs \<and> 0 < be_val (take n bs) \<and> be_val (take n bs) \<le> length bs - n"

fun be_bytes :: "nat \<Rightarrow> nat \<Rightarrow> u8 list" where
  "be_bytes 0 v = []"
| "be_bytes (Suc n) v = be_bytes n (v div 256) @ [word_of_nat v]"

definition lp_frame :: "nat \<Rightarrow> u8 list \<Rightarrow> u8 list" where
  "lp_frame n u = be_bytes n (length u) @ u"

lemma length_be_bytes [simp]: "length (be_bytes n v) = n"
  by (induction n arbitrary: v) simp_all

lemma be_val_snoc: "be_val (bs @ [b]) = 256 * be_val bs + unat b"
  by (simp add: be_val_def)

lemma be_val_be_bytes: "be_val (be_bytes n v) = v mod 256 ^ n"
proof (induction n arbitrary: v)
  case 0
  then show ?case by (simp add: be_val_def)
next
  case (Suc n)
  have "unat (word_of_nat v :: u8) = v mod 256" by (simp add: unat_of_nat)
  then show ?case using mod_mult2_eq [of v 256 "256 ^ n"] by (simp add: Suc be_val_snoc)
qed

lemma be_bytes_be_val: "be_bytes (length bs) (be_val bs) = bs"
proof (induction bs rule: rev_induct)
  case (snoc b bs)
  have "unat b < 256" using unsigned_less [of b] by simp
  then have "(256 * be_val bs + unat b) div 256 = be_val bs" by simp
  moreover have "(word_of_nat (256 * be_val bs + unat b) :: u8) = b"
    
  proof -
    have "(256 :: u8) = 0" by simp
    then have "256 * word_of_nat (be_val bs) = (0 :: u8)" by (simp only: mult_zero_left)
    then show ?thesis by simp
  qed
  ultimately show ?case using snoc by (simp add: be_val_snoc)
qed simp

lemma lp_next_cases:
  assumes "by_ok (lp_reader it)" "\<not> by_overrun (lp_reader it)" "\<not> lp_done it"
    "lp_length_size it \<in> {1, 2, 4}"
  defines "n \<equiv> lp_length_size it" and "bs \<equiv> by_rest (lp_reader it)"
  shows "has_unit n bs \<Longrightarrow>
      \<exists>it'. lp_next it = (Some (take (be_val (take n bs)) (drop n bs)), it') \<and>
        by_rest (lp_reader it') = drop (be_val (take n bs)) (drop n bs) \<and>
        by_ok (lp_reader it') \<and> \<not> by_overrun (lp_reader it') \<and> \<not> lp_done it' \<and> lp_length_size it' = n"
    "\<not> has_unit n bs \<Longrightarrow> fst (lp_next it) = None"
proof -
  let ?r = "lp_reader it" and ?v = "be_val (take n bs)"
  have pos: "by_pos ?r \<le> length (by_data ?r)" using assms(1) by (simp add: by_ok_def)
  have rest: "bs = drop (by_pos ?r) (by_data ?r)" unfolding bs_def by (rule by_rest_ok [OF assms(1)])
  have rem: "by_remaining ?r = length bs" using assms(2) by (simp add: by_remaining_def rest)
  let ?r1 = "?r\<lparr>by_pos := by_pos ?r + n\<rparr>"
  have read: "lp_read_len n ?r = (?v, ?r1)" and r1: "by_ok ?r1" "by_rest ?r1 = drop n bs"
    and rem1: "by_remaining ?r1 = length bs - n" if "n \<le> length bs"
    using that lp_read_len_cases [OF assms(1), of n] assms(2,4) pos
    by (auto simp: n_def bs_def by_ok_def by_rest_ok by_remaining_def add.commute)
  show "\<exists>it'. lp_next it = (Some (take ?v (drop n bs)), it') \<and> by_rest (lp_reader it') = drop ?v (drop n bs) \<and>
      by_ok (lp_reader it') \<and> \<not> by_overrun (lp_reader it') \<and> \<not> lp_done it' \<and> lp_length_size it' = n"
    if h: "has_unit n bs"
  proof -
    from h have n: "n \<le> length bs" "0 < ?v" "?v \<le> length bs - n" by (auto simp: has_unit_def)
    have "by_bytes ?v ?r1 = (take ?v (drop n bs), ?r1\<lparr>by_pos := by_pos ?r1 + ?v\<rparr>)"
      using n by (simp add: by_bytes_cases [OF r1(1) [OF n(1)]] r1(2) [OF n(1)])
    moreover have "by_ok (?r1\<lparr>by_pos := by_pos ?r1 + ?v\<rparr>)" using n pos by (simp add: by_ok_def rest)
    ultimately show ?thesis using n assms(2,3) rem read [OF n(1)] rem1 [OF n(1)]
      by (auto simp: lp_next_def n_def [symmetric] by_rest_ok rest add.commute add.left_commute)
  qed
  show "fst (lp_next it) = None" if "\<not> has_unit n bs"
    using that assms(3) rem read rem1
    by (auto simp: lp_next_def n_def [symmetric] has_unit_def)
qed

text \<open>\<^verbatim>\<open>collect\<close> of the iterator.\<close>

lemma lp_next_shrinks:
  assumes "lp_next it = (Some u, it')"
  shows "length (by_rest (lp_reader it')) < length (by_rest (lp_reader it))"
proof (cases "by_ok (lp_reader it)")
  case True
  then show ?thesis using assms
    by (auto simp: lp_next_def lp_read_len_def by_u8_def by_be16_def by_be32_def by_take_cases
      by_bytes_cases by_remaining_def by_ok_def by_rest_ok split: if_splits prod.splits)
next
  case False
  then show ?thesis using assms
    by (auto simp: lp_next_def lp_read_len_def by_u8_def by_be16_def by_be32_def by_take_def by_ok_def
      slice_from_def by_remaining_def split: if_splits prod.splits)
qed

function lp_collect :: "lp_iter \<Rightarrow> u8 list list" where
  "lp_collect it = (case lp_next it of (None, _) \<Rightarrow> [] | (Some u, it') \<Rightarrow> u # lp_collect it')"
  by pat_completeness auto

termination
  by (relation "measure (\<lambda>it. length (by_rest (lp_reader it)))") (simp, metis in_measure lp_next_shrinks)

declare lp_collect.simps [simp del]

definition lp_live :: "nat \<Rightarrow> u8 list \<Rightarrow> lp_iter \<Rightarrow> bool" where
  "lp_live n bs it \<longleftrightarrow> by_ok (lp_reader it) \<and> \<not> by_overrun (lp_reader it) \<and> \<not> lp_done it \<and>
     lp_length_size it = n \<and> by_rest (lp_reader it) = bs"

lemma lp_collect_step:
  assumes "lp_live n bs it" "n \<in> {1, 2, 4}"
  shows "has_unit n bs \<Longrightarrow> \<exists>it'. lp_live n (drop (be_val (take n bs)) (drop n bs)) it' \<and>
      lp_collect it = take (be_val (take n bs)) (drop n bs) # lp_collect it'"
    "\<not> has_unit n bs \<Longrightarrow> lp_collect it = []"
  using lp_next_cases [of it] assms
  by (auto simp: lp_live_def lp_collect.simps [of it] split: prod.splits option.splits)

lemma has_unit_frame:
  assumes "has_unit n bs"
  shows "bs = lp_frame n (take (be_val (take n bs)) (drop n bs)) @ drop (be_val (take n bs)) (drop n bs)"
proof -
  have "be_bytes n (be_val (take n bs)) = take n bs" "be_val (take n bs) \<le> length (drop n bs)"
    using assms be_bytes_be_val [of "take n bs"] by (simp_all add: has_unit_def min_absorb2)
  then show ?thesis by (simp add: lp_frame_def min_absorb2 del: drop_drop)
qed

lemma frame_has_unit:
  assumes "u \<noteq> []" "length u < 256 ^ n"
  shows "has_unit n (lp_frame n u @ bs)" "be_val (take n (lp_frame n u @ bs)) = length u"
    "drop n (lp_frame n u @ bs) = u @ bs"
  using assms by (simp_all add: has_unit_def lp_frame_def be_val_be_bytes)

lemma lp_collect_sound:
  assumes "lp_live n bs it" "n \<in> {1, 2, 4}"
  shows "\<exists>tail. bs = concat (map (lp_frame n) (lp_collect it)) @ tail \<and> \<not> has_unit n tail \<and>
    [] \<notin> set (lp_collect it)"
  using assms
proof (induction "length bs" arbitrary: bs it rule: less_induct)
  case less
  show ?case
  proof (cases "has_unit n bs")
    case True
    let ?v = "be_val (take n bs)"
    obtain it' where it': "lp_live n (drop ?v (drop n bs)) it'"
      "lp_collect it = take ?v (drop n bs) # lp_collect it'"
      using lp_collect_step(1) [OF less.prems True] by blast
    have "length (drop ?v (drop n bs)) < length bs" using True by (auto simp: has_unit_def)
    then obtain tail where "drop ?v (drop n bs) = concat (map (lp_frame n) (lp_collect it')) @ tail"
      "\<not> has_unit n tail" "[] \<notin> set (lp_collect it')"
      using less.hyps it'(1) less.prems(2) by blast
    then show ?thesis using has_unit_frame [OF True] True it'(2) by (auto simp: has_unit_def)
  next
    case False
    then show ?thesis using lp_collect_step(2) [OF less.prems] by auto
  qed
qed

lemma lp_collect_frames:
  assumes "lp_live n (concat (map (lp_frame n) us) @ tail) it" "n \<in> {1, 2, 4}" "\<not> has_unit n tail"
    "\<forall>u \<in> set us. u \<noteq> [] \<and> length u < 256 ^ n"
  shows "lp_collect it = us"
  using assms
proof (induction us arbitrary: it)
  case Nil
  then show ?case using lp_collect_step(2) [OF Nil.prems(1,2)] by simp
next
  case (Cons u us)
  let ?bs = "concat (map (lp_frame n) us) @ tail"
  have live: "lp_live n (lp_frame n u @ ?bs) it" using Cons.prems(1) by simp
  note f = frame_has_unit [of u n ?bs]
  have u: "u \<noteq> []" "length u < 256 ^ n" using Cons.prems(4) by auto
  obtain it' where "lp_live n ?bs it'" "lp_collect it = u # lp_collect it'"
    using lp_collect_step(1) [OF live Cons.prems(2) f(1) [OF u]] unfolding f(2,3) [OF u]
    by (auto simp: append_eq_conv_conj)
  then show ?case using Cons by simp
qed

lemma lp_units_live: "n \<in> {1, 2, 4} \<Longrightarrow> lp_live n bs (lp_units bs n)"
  by (simp add: lp_live_def lp_units_def by_new_def by_ok_def by_rest_def slice_from_def)

text \<open>
  C35. Iterating a length-prefixed sample ends on every input and returns exactly its complete
  units: the sample is the framing of the returned units, in order, followed by a tail that
  does not start with a complete non-empty unit, and no unit is empty. Conversely the framing
  of any non-empty units that fit the prefix is read back as those units. A prefix width other
  than 1, 2 or 4 yields nothing.
\<close>

theorem length_prefixed_units:
  "(n \<in> {1, 2, 4} \<longrightarrow>
      (\<exists>tail. bs = concat (map (lp_frame n) (lp_collect (lp_units bs n))) @ tail \<and> \<not> has_unit n tail \<and>
        [] \<notin> set (lp_collect (lp_units bs n)))) \<and>
    (n \<in> {1, 2, 4} \<and> (\<forall>u \<in> set us. u \<noteq> [] \<and> length u < 256 ^ n) \<longrightarrow>
      lp_collect (lp_units (concat (map (lp_frame n) us)) n) = us) \<and>
    (n \<notin> {1, 2, 4} \<longrightarrow> lp_collect (lp_units bs n) = [])"
proof (intro conjI impI)
  assume n: "n \<in> {1, 2, 4}"
  show "\<exists>tail. bs = concat (map (lp_frame n) (lp_collect (lp_units bs n))) @ tail \<and> \<not> has_unit n tail \<and>
      [] \<notin> set (lp_collect (lp_units bs n))"
    by (rule lp_collect_sound [OF lp_units_live [OF n] n])
next
  assume a: "n \<in> {1, 2, 4} \<and> (\<forall>u \<in> set us. u \<noteq> [] \<and> length u < 256 ^ n)"
  then have n: "n \<in> {1, 2, 4}" by blast
  have "\<not> has_unit n []" using n by (auto simp: has_unit_def)
  then show "lp_collect (lp_units (concat (map (lp_frame n) us)) n) = us"
    using lp_units_live [OF n, of "concat (map (lp_frame n) us)"] a
    by (intro lp_collect_frames [where tail = "[]"]) auto
next
  assume "n \<notin> {1, 2, 4}"
  then show "lp_collect (lp_units bs n) = []"
    by (subst lp_collect.simps) (simp add: lp_next_def lp_units_def)
qed

theorem length_prefixed_units_witness:
  "lp_collect (lp_units (concat (map (lp_frame 4) [[0x67, 0xAA], [0x68]])) 4) = [[0x67, 0xAA], [0x68]]"
  using length_prefixed_units [of 4 _ "[[0x67, 0xAA], [0x68]]"] by simp

end
