(* ===== verification/Limits_Budget.thy ===== *)
theory Limits_Budget
  imports Vaco_Prelude
begin

text \<open>
  Resource limits: \<^verbatim>\<open>crates/core/vaco-limits/src\<close> (\<^verbatim>\<open>limits.rs\<close>,
  \<^verbatim>\<open>budget.rs\<close>, \<^verbatim>\<open>progress.rs\<close>, \<^verbatim>\<open>error.rs\<close>).

  A \<^verbatim>\<open>Reservation\<close> borrows its budget mutably, so it is modelled by its byte count and every
  operation on it takes and returns the budget; the end of its life is \<open>res_drop\<close>. The
  allocator behind \<^verbatim>\<open>try_reserve_exact\<close> is a function from the requested capacity to the
  capacity obtained, or \<open>None\<close> when it refuses. \<^verbatim>\<open>Instant\<close> is a number, and the clock
  reading is an argument of \<open>check_deadline\<close>.
\<close>

section \<open>Limits and errors\<close>

datatype limit_error =
    Exceeded string nat nat
  | Overflow
  | AllocFailed nat
  | FuelExhausted nat
  | DeadlineExceeded
  | NoProgress nat

text \<open>The variant of the core error type that every limit error becomes.\<close>

datatype core_limit_exceeded = LimitExceeded string nat nat

fun core_error_of_limit :: "limit_error \<Rightarrow> core_limit_exceeded" where
  "core_error_of_limit (Exceeded limit requested cap) = LimitExceeded limit requested cap"
| "core_error_of_limit Overflow = LimitExceeded ''size_computation'' U64_MAX U64_MAX"
| "core_error_of_limit (AllocFailed bytes) = LimitExceeded ''allocator'' bytes bytes"
| "core_error_of_limit (FuelExhausted spent) = LimitExceeded ''fuel'' spent spent"
| "core_error_of_limit DeadlineExceeded = LimitExceeded ''deadline'' 0 0"
| "core_error_of_limit (NoProgress ticks) = LimitExceeded ''progress'' ticks ticks"

record limits =
  max_alloc_total :: nat
  max_alloc_single :: nat
  max_dimension :: nat
  max_frame_bytes :: nat
  max_channels :: nat
  max_sample_rate :: nat
  max_streams :: nat
  max_side_data :: nat
  max_probe_bytes :: nat
  max_metadata_bytes :: nat
  fuel :: nat
  deadline :: "nat option"

definition MIB :: nat where "MIB = 2 ^ 20"

definition permissive :: limits where
  "permissive = \<lparr>max_alloc_total = 1024 * MIB, max_alloc_single = 512 * MIB, max_dimension = 65536,
     max_frame_bytes = 512 * MIB, max_channels = 128, max_sample_rate = 2822400, max_streams = 4096,
     max_side_data = 256, max_probe_bytes = 32 * MIB, max_metadata_bytes = 16 * MIB,
     fuel = 2 ^ 32, deadline = None\<rparr>"

definition strict :: limits where
  "strict = \<lparr>max_alloc_total = 64 * MIB, max_alloc_single = 16 * MIB, max_dimension = 8192,
     max_frame_bytes = 16 * MIB, max_channels = 64, max_sample_rate = 384000, max_streams = 256,
     max_side_data = 64, max_probe_bytes = MIB, max_metadata_bytes = MIB,
     fuel = 2 ^ 26, deadline = None\<rparr>"

definition tiny :: limits where
  "tiny = \<lparr>max_alloc_total = 2 ^ 16, max_alloc_single = 2 ^ 14, max_dimension = 256,
     max_frame_bytes = 2 ^ 16, max_channels = 8, max_sample_rate = 48000, max_streams = 8,
     max_side_data = 4, max_probe_bytes = 4096, max_metadata_bytes = 4096,
     fuel = 2 ^ 16, deadline = None\<rparr>"

definition default_limits :: limits where "default_limits = strict"

definition with_alloc_total :: "nat \<Rightarrow> limits \<Rightarrow> limits" where
  "with_alloc_total bytes l = l\<lparr>max_alloc_total := bytes\<rparr>"

definition with_alloc_single :: "nat \<Rightarrow> limits \<Rightarrow> limits" where
  "with_alloc_single bytes l = l\<lparr>max_alloc_single := bytes\<rparr>"

definition with_fuel :: "nat \<Rightarrow> limits \<Rightarrow> limits" where
  "with_fuel n l = l\<lparr>fuel := n\<rparr>"

definition with_deadline :: "nat \<Rightarrow> limits \<Rightarrow> limits" where
  "with_deadline t l = l\<lparr>deadline := Some t\<rparr>"

section \<open>The budget\<close>

record budget =
  bd_limits :: limits
  committed :: nat
  pending :: nat
  peak :: nat
  fuel_spent :: nat

definition bd_new :: "limits \<Rightarrow> budget" where
  "bd_new l = \<lparr>bd_limits = l, committed = 0, pending = 0, peak = 0, fuel_spent = 0\<rparr>"

definition available :: "budget \<Rightarrow> nat" where
  "available b = max_alloc_total (bd_limits b) - sat_u 64 (committed b + pending b)"

definition note_peak :: "budget \<Rightarrow> budget" where
  "note_peak b =
     (let live = sat_u 64 (committed b + pending b)
      in if live > peak b then b\<lparr>peak := live\<rparr> else b)"

definition bd_check :: "nat \<Rightarrow> budget \<Rightarrow> limit_error + unit" where
  "bd_check bytes b =
     (if bytes > max_alloc_single (bd_limits b)
      then Inl (Exceeded ''max_alloc_single'' bytes (max_alloc_single (bd_limits b)))
      else case Option.bind (checked_u 64 (committed b + pending b)) (\<lambda>t. checked_u 64 (t + bytes)) of
             None \<Rightarrow> Inl Overflow
           | Some running \<Rightarrow>
               if running > max_alloc_total (bd_limits b)
               then Inl (Exceeded ''max_alloc_total'' running (max_alloc_total (bd_limits b)))
               else Inr ())"

definition reserve :: "nat \<Rightarrow> budget \<Rightarrow> (limit_error + nat) \<times> budget" where
  "reserve bytes b =
     (case bd_check bytes b of
        Inl e \<Rightarrow> (Inl e, b)
      | Inr _ \<Rightarrow> (Inr bytes, note_peak (b\<lparr>pending := sat_u 64 (pending b + bytes)\<rparr>)))"

definition byte_size :: "nat \<Rightarrow> nat \<Rightarrow> limit_error + nat" where
  "byte_size size_of n = (case checked_u 64 (n * size_of) of None \<Rightarrow> Inl Overflow | Some v \<Rightarrow> Inr v)"

definition reserve_array :: "nat \<Rightarrow> nat \<Rightarrow> budget \<Rightarrow> (limit_error + nat) \<times> budget" where
  "reserve_array size_of n b =
     (case byte_size size_of n of Inl e \<Rightarrow> (Inl e, b) | Inr bytes \<Rightarrow> reserve bytes b)"

definition charge :: "nat \<Rightarrow> budget \<Rightarrow> (limit_error + unit) \<times> budget" where
  "charge bytes b =
     (case bd_check bytes b of
        Inl e \<Rightarrow> (Inl e, b)
      | Inr _ \<Rightarrow> (Inr (), note_peak (b\<lparr>committed := sat_u 64 (committed b + bytes)\<rparr>)))"

definition release :: "nat \<Rightarrow> budget \<Rightarrow> budget" where
  "release bytes b = b\<lparr>committed := committed b - bytes\<rparr>"

subsection \<open>Reservations\<close>

definition res_drop :: "nat \<Rightarrow> budget \<Rightarrow> budget" where
  "res_drop bytes b = b\<lparr>pending := pending b - bytes\<rparr>"

definition res_commit :: "nat \<Rightarrow> budget \<Rightarrow> budget" where
  "res_commit bytes b = res_drop bytes (b\<lparr>committed := sat_u 64 (committed b + bytes)\<rparr>)"

definition res_alloc ::
  "(nat \<Rightarrow> nat option) \<Rightarrow> nat \<Rightarrow> 'a \<Rightarrow> nat \<Rightarrow> nat \<Rightarrow> budget \<Rightarrow> (limit_error + 'a list) \<times> budget" where
  "res_alloc grow size_of dflt n bytes b =
     (case byte_size size_of n of
        Inl e \<Rightarrow> (Inl e, res_drop bytes b)
      | Inr want \<Rightarrow>
          if want > bytes then (Inl Overflow, res_drop bytes b)
          else case grow n of
                 None \<Rightarrow> (Inl (AllocFailed want), res_drop bytes b)
               | Some _ \<Rightarrow> (Inr (replicate n dflt), res_commit bytes b))"

definition bd_alloc ::
  "(nat \<Rightarrow> nat option) \<Rightarrow> nat \<Rightarrow> 'a \<Rightarrow> nat \<Rightarrow> budget \<Rightarrow> (limit_error + 'a list) \<times> budget" where
  "bd_alloc grow size_of dflt n b =
     (case reserve_array size_of n b of
        (Inl e, b') \<Rightarrow> (Inl e, b')
      | (Inr bytes, b') \<Rightarrow> res_alloc grow size_of dflt n bytes b')"

lemma bd_alloc_replicate: "bd_alloc grow size_of d n b = (Inr xs, b') \<Longrightarrow> xs = replicate n d"
  by (auto simp: bd_alloc_def res_alloc_def split: prod.splits sum.splits option.splits if_splits)

subsection \<open>Fuel and derived checks\<close>

definition consume_fuel :: "nat \<Rightarrow> budget \<Rightarrow> (limit_error + unit) \<times> budget" where
  "consume_fuel n b =
     (let spent = sat_u 64 (fuel_spent b + n); b' = b\<lparr>fuel_spent := spent\<rparr>
      in if spent > fuel (bd_limits b) then (Inl (FuelExhausted spent), b') else (Inr (), b'))"

definition fuel_remaining :: "budget \<Rightarrow> nat" where
  "fuel_remaining b = fuel (bd_limits b) - fuel_spent b"

definition refuel :: "budget \<Rightarrow> budget" where
  "refuel b = b\<lparr>fuel_spent := 0\<rparr>"

definition check_deadline :: "nat \<Rightarrow> budget \<Rightarrow> limit_error + unit" where
  "check_deadline now b =
     (case deadline (bd_limits b) of
        Some t \<Rightarrow> if now \<ge> t then Inl DeadlineExceeded else Inr ()
      | None \<Rightarrow> Inr ())"

definition check_frame :: "nat \<Rightarrow> nat \<Rightarrow> nat \<Rightarrow> budget \<Rightarrow> limit_error + nat" where
  "check_frame width height bytes_per_pixel b =
     (let lim = bd_limits b
      in if width > max_dimension lim
         then Inl (Exceeded ''max_dimension (width)'' width (max_dimension lim))
         else if height > max_dimension lim
         then Inl (Exceeded ''max_dimension (height)'' height (max_dimension lim))
         else case Option.bind (checked_u 64 (width * height)) (\<lambda>a. checked_u 64 (a * bytes_per_pixel)) of
                None \<Rightarrow> Inl Overflow
              | Some bytes \<Rightarrow>
                  if bytes > max_frame_bytes lim
                  then Inl (Exceeded ''max_frame_bytes'' bytes (max_frame_bytes lim))
                  else Inr bytes)"

definition check_count :: "string \<Rightarrow> nat \<Rightarrow> nat \<Rightarrow> limit_error + unit" where
  "check_count limit n cap = (if n > cap then Inl (Exceeded limit n cap) else Inr ())"

definition check_streams :: "nat \<Rightarrow> budget \<Rightarrow> limit_error + unit" where
  "check_streams n b = check_count ''max_streams'' n (max_streams (bd_limits b))"

definition check_channels :: "nat \<Rightarrow> budget \<Rightarrow> limit_error + unit" where
  "check_channels n b = check_count ''max_channels'' n (max_channels (bd_limits b))"

definition check_sample_rate :: "nat \<Rightarrow> budget \<Rightarrow> limit_error + unit" where
  "check_sample_rate n b = check_count ''max_sample_rate'' n (max_sample_rate (bd_limits b))"

definition check_side_data :: "nat \<Rightarrow> budget \<Rightarrow> limit_error + unit" where
  "check_side_data n b = check_count ''max_side_data'' n (max_side_data (bd_limits b))"

definition check_probe_bytes :: "nat \<Rightarrow> budget \<Rightarrow> limit_error + unit" where
  "check_probe_bytes n b = check_count ''max_probe_bytes'' n (max_probe_bytes (bd_limits b))"

definition check_metadata_bytes :: "nat \<Rightarrow> budget \<Rightarrow> limit_error + unit" where
  "check_metadata_bytes n b = check_count ''max_metadata_bytes'' n (max_metadata_bytes (bd_limits b))"

section \<open>Buffers that grow towards a declared size\<close>

text \<open>
  \<open>iv_capacity\<close> is the capacity of the vector; a fresh vector has none, except that a
  vector of zero-sized elements never needs any.
\<close>

record 'a incremental_vec =
  iv_data :: "'a list"
  iv_capacity :: nat
  iv_declared :: nat
  iv_charged :: nat

definition MIN_CAP :: nat where "MIN_CAP = 32"

definition iv_new :: "nat \<Rightarrow> nat \<Rightarrow> 'a incremental_vec" where
  "iv_new size_of declared =
     \<lparr>iv_data = [], iv_capacity = (if size_of = 0 then USIZE_MAX else 0),
      iv_declared = declared, iv_charged = 0\<rparr>"

definition iv_target :: "nat \<Rightarrow> 'a incremental_vec \<Rightarrow> nat" where
  "iv_target needed v =
     min (max (max needed (sat_u 64 (iv_capacity v * 2))) MIN_CAP) (max (iv_declared v) needed)"

definition push_slice ::
  "(nat \<Rightarrow> nat option) \<Rightarrow> nat \<Rightarrow> 'a list \<Rightarrow> 'a incremental_vec \<Rightarrow> budget \<Rightarrow>
     (limit_error + unit) \<times> 'a incremental_vec \<times> budget" where
  "push_slice grow size_of src v b =
     (case checked_u 64 (length (iv_data v) + length src) of
        None \<Rightarrow> (Inl Overflow, v, b)
      | Some needed \<Rightarrow>
          if needed > iv_declared v
          then (Inl (Exceeded ''declared_size'' needed (iv_declared v)), v, b)
          else if needed \<le> iv_capacity v then (Inr (), v\<lparr>iv_data := iv_data v @ src\<rparr>, b)
          else let target = iv_target needed v
               in case byte_size size_of (target - iv_capacity v) of
                    Inl e \<Rightarrow> (Inl e, v, b)
                  | Inr extra \<Rightarrow>
                      (case charge extra b of
                         (Inl e, b') \<Rightarrow> (Inl e, v, b')
                       | (Inr _, b') \<Rightarrow>
                           let v' = v\<lparr>iv_charged := sat_u 64 (iv_charged v + extra)\<rparr>
                           in case grow target of
                                None \<Rightarrow> (Inl (AllocFailed extra), v', b')
                              | Some cap \<Rightarrow>
                                  (Inr (), v'\<lparr>iv_data := iv_data v @ src, iv_capacity := cap\<rparr>, b')))"

section \<open>The progress guard\<close>

record progress_guard =
  stalls :: nat
  max_stalls :: nat
  last_position :: "nat option"

definition DEFAULT_MAX_STALLS :: nat where "DEFAULT_MAX_STALLS = 64"

definition with_max_stalls :: "nat \<Rightarrow> progress_guard" where
  "with_max_stalls n = \<lparr>stalls = 0, max_stalls = n, last_position = None\<rparr>"

definition pg_new :: progress_guard where
  "pg_new = with_max_stalls DEFAULT_MAX_STALLS"

definition tick :: "bool \<Rightarrow> progress_guard \<Rightarrow> (limit_error + unit) \<times> progress_guard" where
  "tick progressed g =
     (if progressed then (Inr (), g\<lparr>stalls := 0\<rparr>)
      else let g' = g\<lparr>stalls := sat_u 32 (stalls g + 1)\<rparr>
           in if stalls g' > max_stalls g then (Inl (NoProgress (stalls g')), g') else (Inr (), g'))"

definition tick_position :: "nat \<Rightarrow> progress_guard \<Rightarrow> (limit_error + unit) \<times> progress_guard" where
  "tick_position position g =
     (let advanced = (case last_position g of Some prev \<Rightarrow> position > prev | None \<Rightarrow> True)
      in tick advanced (g\<lparr>last_position := Some position\<rparr>))"

definition pg_reset :: "progress_guard \<Rightarrow> progress_guard" where
  "pg_reset g = g\<lparr>stalls := 0, last_position := None\<rparr>"

section \<open>What a meter promises\<close>

text \<open>
  The contract of a metered resource: a granted amount is added to what is in use, the use
  never passes the cap, and a refusal is exactly a request that does not fit. Fuel and bytes
  are both such meters.
\<close>

locale meter =
  fixes grant :: "nat \<Rightarrow> 's \<Rightarrow> 's option"
    and used :: "'s \<Rightarrow> nat"
    and cap :: "'s \<Rightarrow> nat"
    and single :: "'s \<Rightarrow> nat"
    and ok :: "'s \<Rightarrow> bool"
  assumes grant_Some: "ok s \<Longrightarrow> grant n s = Some s' \<Longrightarrow>
      ok s' \<and> used s' = used s + n \<and> cap s' = cap s \<and> single s' = single s"
    and grant_iff: "ok s \<Longrightarrow> (\<exists>s'. grant n s = Some s') \<longleftrightarrow> n \<le> single s \<and> used s + n \<le> cap s"
begin

fun grants :: "nat list \<Rightarrow> 's \<Rightarrow> 's option" where
  "grants [] s = Some s"
| "grants (n # ns) s = Option.bind (grant n s) (grants ns)"

lemma grants_sum:
  "ok s \<Longrightarrow> grants ns s = Some s' \<Longrightarrow>
     ok s' \<and> used s' = used s + sum_list ns \<and> cap s' = cap s \<and> single s' = single s"
proof (induction ns arbitrary: s)
  case (Cons n ns)
  then obtain t where t: "grant n s = Some t" "grants ns t = Some s'" by (auto split: bind_splits)
  then show ?case using Cons.IH [of t] grant_Some [OF Cons.prems(1) t(1)] by simp
qed simp

lemma grants_iff:
  "ok s \<Longrightarrow> used s \<le> cap s \<Longrightarrow> (\<exists>s'. grants ns s = Some s') \<longleftrightarrow>
     (\<forall>n \<in> set ns. n \<le> single s) \<and> used s + sum_list ns \<le> cap s"
proof (induction ns arbitrary: s)
  case (Cons n ns)
  show ?case
  proof (cases "grant n s")
    case None
    then have "\<not> (n \<le> single s \<and> used s + n \<le> cap s)" using grant_iff [OF Cons.prems(1), of n] by simp
    then show ?thesis using None by auto
  next
    case (Some t)
    then have "n \<le> single s" "used s + n \<le> cap s" using grant_iff [OF Cons.prems(1), of n] by auto
    then show ?thesis using Some Cons.IH [of t] grant_Some [OF Cons.prems(1) Some] by (simp add: add.assoc)
  qed
qed simp

text \<open>A loop that pays at least one unit per iteration is granted only that many iterations.\<close>

lemma grants_bounded:
  assumes "ok s" "used s \<le> cap s" "grants ns s = Some s'" "0 \<notin> set ns"
  shows "length ns \<le> cap s - used s"
proof -
  have "used s + sum_list ns \<le> cap s" using grants_iff [OF assms(1,2), of ns] assms(3) by auto
  moreover have "length ns \<le> sum_list ns" using assms(4) by (induction ns) auto
  ultimately show ?thesis by linarith
qed

end

section \<open>The accounting invariant\<close>

definition limits_ok :: "limits \<Rightarrow> bool" where
  "limits_ok l \<longleftrightarrow> max_alloc_total l < 2 ^ 64 \<and> fuel l < 2 ^ 64 - 1"

definition live :: "budget \<Rightarrow> nat" where
  "live b = committed b + pending b"

definition budget_ok :: "budget \<Rightarrow> bool" where
  "budget_ok b \<longleftrightarrow> limits_ok (bd_limits b) \<and> live b \<le> peak b \<and> peak b \<le> max_alloc_total (bd_limits b)"

lemma bd_new_ok: "limits_ok l \<Longrightarrow> budget_ok (bd_new l)"
  by (simp add: budget_ok_def bd_new_def live_def)

lemma bd_check_iff:
  assumes "budget_ok b"
  shows "bd_check n b = Inr () \<longleftrightarrow>
    n \<le> max_alloc_single (bd_limits b) \<and> live b + n \<le> max_alloc_total (bd_limits b)"
  using assms
  by (auto simp: bd_check_def budget_ok_def limits_ok_def live_def checked_u_def fits_u_def
      split: if_splits)

lemma note_peak_ok:
  assumes "limits_ok (bd_limits b)" "live b \<le> max_alloc_total (bd_limits b)"
    "peak b \<le> max_alloc_total (bd_limits b)"
  shows "budget_ok (note_peak b)" "live (note_peak b) = live b"
    "peak (note_peak b) = max (peak b) (live b)" "bd_limits (note_peak b) = bd_limits b"
    "pending (note_peak b) = pending b" "committed (note_peak b) = committed b"
    "fuel_spent (note_peak b) = fuel_spent b"
proof -
  have "sat_u 64 (committed b + pending b) = live b"
    using assms(1,2) by (simp add: sat_u_id fits_u_def limits_ok_def live_def)
  then show "budget_ok (note_peak b)" "live (note_peak b) = live b"
    "peak (note_peak b) = max (peak b) (live b)" "bd_limits (note_peak b) = bd_limits b"
    "pending (note_peak b) = pending b" "committed (note_peak b) = committed b"
    "fuel_spent (note_peak b) = fuel_spent b"
    using assms by (auto simp: note_peak_def Let_def budget_ok_def live_def max_def)
qed

lemma charge_cases:
  assumes "budget_ok b"
  shows "if n \<le> max_alloc_single (bd_limits b) \<and> live b + n \<le> max_alloc_total (bd_limits b)
    then \<exists>b'. charge n b = (Inr (), b') \<and> budget_ok b' \<and> committed b' = committed b + n \<and>
      pending b' = pending b \<and> peak b' = max (peak b) (live b') \<and> bd_limits b' = bd_limits b \<and>
      fuel_spent b' = fuel_spent b
    else \<exists>e. charge n b = (Inl e, b)"
proof (cases "bd_check n b = Inr ()")
  case True
  then have fit: "n \<le> max_alloc_single (bd_limits b)" "live b + n \<le> max_alloc_total (bd_limits b)"
    using bd_check_iff [OF assms] by auto
  let ?c = "b\<lparr>committed := committed b + n\<rparr>"
  have "sat_u 64 (committed b + n) = committed b + n"
    using fit(2) assms by (intro sat_u_id) (simp add: fits_u_def live_def budget_ok_def limits_ok_def)
  then have "charge n b = (Inr (), note_peak ?c)" using True by (simp add: charge_def)
  moreover have "live ?c = live b + n" by (simp add: live_def)
  ultimately show ?thesis
    using fit assms note_peak_ok [of ?c] by (simp add: budget_ok_def)
next
  case False
  then obtain e where "bd_check n b = Inl e" by (cases "bd_check n b") auto
  then show ?thesis using False bd_check_iff [OF assms, of n] by (auto simp: charge_def)
qed

lemma reserve_cases:
  assumes "budget_ok b"
  shows "if n \<le> max_alloc_single (bd_limits b) \<and> live b + n \<le> max_alloc_total (bd_limits b)
    then \<exists>b'. reserve n b = (Inr n, b') \<and> budget_ok b' \<and> committed b' = committed b \<and>
      pending b' = pending b + n \<and> peak b' = max (peak b) (live b') \<and> bd_limits b' = bd_limits b \<and>
      fuel_spent b' = fuel_spent b
    else \<exists>e. reserve n b = (Inl e, b)"
proof (cases "bd_check n b = Inr ()")
  case True
  then have fit: "n \<le> max_alloc_single (bd_limits b)" "live b + n \<le> max_alloc_total (bd_limits b)"
    using bd_check_iff [OF assms] by auto
  let ?c = "b\<lparr>pending := pending b + n\<rparr>"
  have "sat_u 64 (pending b + n) = pending b + n"
    using fit(2) assms by (intro sat_u_id) (simp add: fits_u_def live_def budget_ok_def limits_ok_def)
  then have "reserve n b = (Inr n, note_peak ?c)" using True by (simp add: reserve_def)
  moreover have "live ?c = live b + n" by (simp add: live_def)
  ultimately show ?thesis
    using fit assms note_peak_ok [of ?c] by (simp add: budget_ok_def)
next
  case False
  then obtain e where "bd_check n b = Inl e" by (cases "bd_check n b") auto
  then show ?thesis using False bd_check_iff [OF assms, of n] by (auto simp: reserve_def)
qed

text \<open>Bytes and fuel are meters.\<close>

definition grant_bytes :: "nat \<Rightarrow> budget \<Rightarrow> budget option" where
  "grant_bytes n b = (case charge n b of (Inr _, b') \<Rightarrow> Some b' | (Inl _, _) \<Rightarrow> None)"

definition grant_fuel :: "nat \<Rightarrow> budget \<Rightarrow> budget option" where
  "grant_fuel n b = (case consume_fuel n b of (Inr _, b') \<Rightarrow> Some b' | (Inl _, _) \<Rightarrow> None)"

lemma consume_fuel_cases:
  assumes "budget_ok b"
  shows "consume_fuel n b =
    (if fuel_spent b + n \<le> fuel (bd_limits b) then (Inr (), b\<lparr>fuel_spent := fuel_spent b + n\<rparr>)
     else (Inl (FuelExhausted (sat_u 64 (fuel_spent b + n))), b\<lparr>fuel_spent := sat_u 64 (fuel_spent b + n)\<rparr>))"
proof -
  have f: "fuel (bd_limits b) < 2 ^ 64 - 1" using assms by (simp add: budget_ok_def limits_ok_def)
  have "sat_u 64 (fuel_spent b + n) > fuel (bd_limits b) \<longleftrightarrow> fuel_spent b + n > fuel (bd_limits b)"
    using f unfolding sat_u_def min_less_iff_conj by auto
  moreover have "sat_u 64 (fuel_spent b + n) = fuel_spent b + n" if "fuel_spent b + n \<le> fuel (bd_limits b)"
    using that f by (intro sat_u_id) (simp add: fits_u_def)
  ultimately show ?thesis by (auto simp: consume_fuel_def Let_def not_less)
qed

interpretation bytes: meter grant_bytes live "\<lambda>b. max_alloc_total (bd_limits b)"
  "\<lambda>b. max_alloc_single (bd_limits b)" budget_ok
proof
  fix s n s'
  assume s: "budget_ok s"
  note c = charge_cases [OF s, of n]
  show "(\<exists>s'. grant_bytes n s = Some s') \<longleftrightarrow>
      n \<le> max_alloc_single (bd_limits s) \<and> live s + n \<le> max_alloc_total (bd_limits s)"
    using c by (auto simp: grant_bytes_def split: if_splits)
  assume "grant_bytes n s = Some s'"
  then show "budget_ok s' \<and> live s' = live s + n \<and>
      max_alloc_total (bd_limits s') = max_alloc_total (bd_limits s) \<and>
      max_alloc_single (bd_limits s') = max_alloc_single (bd_limits s)"
    using c by (auto simp: grant_bytes_def live_def split: if_splits)
qed

interpretation fuels: meter grant_fuel fuel_spent "\<lambda>b. fuel (bd_limits b)" "\<lambda>b. fuel (bd_limits b)" budget_ok
  by unfold_locales
    (auto simp: grant_fuel_def consume_fuel_cases budget_ok_def live_def limits_ok_def split: if_splits)

section \<open>The life of a budget\<close>

text \<open>
  The calls a client can make: a live reservation borrows the budget, so until it is
  committed, dropped or turned into a buffer nothing else can happen to it. (The element
  type of the buffer matters only through its size.)
\<close>

inductive budget_step :: "budget \<times> nat option \<Rightarrow> budget \<times> nat option \<Rightarrow> bool" where
  charge: "charge n b = (res, b') \<Longrightarrow> budget_step (b, None) (b', None)"
| release: "budget_step (b, None) (release n b, None)"
| fuel: "consume_fuel n b = (res, b') \<Longrightarrow> budget_step (b, None) (b', None)"
| refuel: "budget_step (b, None) (refuel b, None)"
| reserve_ok: "reserve n b = (Inr r, b') \<Longrightarrow> budget_step (b, None) (b', Some r)"
| reserve_err: "reserve n b = (Inl e, b') \<Longrightarrow> budget_step (b, None) (b', None)"
| commit: "budget_step (b, Some r) (res_commit r b, None)"
| drop: "budget_step (b, Some r) (res_drop r b, None)"
| alloc: "res_alloc grow size_of (d :: u8) n r b = (res, b') \<Longrightarrow> budget_step (b, Some r) (b', None)"

definition held :: "nat option \<Rightarrow> nat" where
  "held r = (case r of None \<Rightarrow> 0 | Some n \<Rightarrow> n)"

definition budget_inv :: "budget \<times> nat option \<Rightarrow> bool" where
  "budget_inv s \<longleftrightarrow> budget_ok (fst s) \<and> pending (fst s) = held (snd s)"

lemma res_drop_ok: "budget_ok b \<Longrightarrow> budget_ok (res_drop n b)"
  by (auto simp: res_drop_def budget_ok_def live_def)

lemma res_commit_eq:
  assumes "budget_ok b" "n \<le> pending b"
  shows "res_commit n b = b\<lparr>committed := committed b + n, pending := pending b - n\<rparr>"
    "live (res_commit n b) = live b" "budget_ok (res_commit n b)"
proof -
  have "sat_u 64 (committed b + n) = committed b + n"
    using assms by (intro sat_u_id) (simp add: fits_u_def budget_ok_def limits_ok_def live_def)
  then show "res_commit n b = b\<lparr>committed := committed b + n, pending := pending b - n\<rparr>"
    by (simp add: res_commit_def res_drop_def)
  then show "live (res_commit n b) = live b" "budget_ok (res_commit n b)"
    using assms by (auto simp: live_def budget_ok_def)
qed

lemma budget_step_inv:
  assumes "budget_step s s'" "budget_inv s"
  shows "budget_inv s' \<and> bd_limits (fst s') = bd_limits (fst s) \<and> peak (fst s) \<le> peak (fst s')"
  using assms
proof cases
  case (charge n b res b')
  then show ?thesis using assms(2) charge_cases [of b n]
    by (auto simp: budget_inv_def held_def split: if_splits)
next
  case (fuel n b res b')
  then show ?thesis using assms(2)
    by (auto simp: budget_inv_def held_def consume_fuel_cases budget_ok_def live_def split: if_splits)
next
  case (reserve_ok n b r b')
  then show ?thesis using assms(2) reserve_cases [of b n]
    by (auto simp: budget_inv_def held_def split: if_splits)
next
  case (reserve_err n b e b')
  then show ?thesis using assms(2) reserve_cases [of b n]
    by (auto simp: budget_inv_def held_def split: if_splits)
next
  case (commit b r)
  then show ?thesis using assms(2) res_commit_eq [of b r] by (auto simp: budget_inv_def held_def)
next
  case (drop b r)
  then show ?thesis using assms(2) res_drop_ok [of b r]
    by (auto simp: budget_inv_def held_def res_drop_def)
next
  case (alloc grow size_of d n r b res b')
  then have "b' = res_drop r b \<or> b' = res_commit r b"
    by (auto simp: res_alloc_def split: sum.splits if_splits option.splits)
  then show ?thesis using alloc assms(2) res_drop_ok [of b r] res_commit_eq [of b r]
    by (auto simp: budget_inv_def held_def res_drop_def)
qed (auto simp: budget_inv_def held_def release_def refuel_def budget_ok_def live_def)

lemma budget_reachable_inv:
  assumes "budget_step\<^sup>*\<^sup>* (bd_new l, None) s" "limits_ok l"
  shows "budget_inv s \<and> bd_limits (fst s) = l"
  using assms(1)
proof (induction rule: rtranclp_induct)
  case base
  then show ?case using bd_new_ok [OF assms(2)] by (simp add: budget_inv_def held_def bd_new_def)
next
  case (step s t)
  then show ?case using budget_step_inv [of s t] by simp
qed

text \<open>
  C7. Over any sequence of charges, releases, reservations, commits, drops, allocations and
  fuel operations on a fresh budget, the live bytes never pass \<^verbatim>\<open>max_alloc_total\<close>, the peak
  covers them and stays within the cap too, and the held bytes are exactly those of the live
  reservation: a reservation that ends, however it ends, leaks nothing.
\<close>

theorem budget_never_exceeds:
  assumes "limits_ok l" "budget_step\<^sup>*\<^sup>* (bd_new l, None) (b, r)"
  shows "committed b + pending b \<le> max_alloc_total l \<and> committed b + pending b \<le> peak b \<and>
    peak b \<le> max_alloc_total l \<and> pending b = held r \<and>
    available b = max_alloc_total l - committed b - held r"
proof -
  have i: "budget_ok b" "pending b = held r" "bd_limits b = l"
    using budget_reachable_inv [OF assms(2,1)] by (auto simp: budget_inv_def)
  then have "sat_u 64 (committed b + pending b) = committed b + pending b"
    by (intro sat_u_id) (simp add: fits_u_def budget_ok_def limits_ok_def live_def)
  then show ?thesis using i by (auto simp: budget_ok_def live_def available_def)
qed

theorem budget_never_exceeds_witness:
  "available (release 2 (snd (charge 10 (bd_new strict)))) = 64 * MIB - 8"
proof -
  have "budget_step (bd_new strict, None) (snd (charge 10 (bd_new strict)), None)"
    by (rule budget_step.charge [of 10 _ "fst (charge 10 (bd_new strict))"]) simp
  then have r: "budget_step\<^sup>*\<^sup>* (bd_new strict, None) (release 2 (snd (charge 10 (bd_new strict))), None)"
    using budget_step.release by (meson converse_rtranclp_into_rtranclp r_into_rtranclp)
  moreover have "limits_ok strict" by (simp add: limits_ok_def strict_def MIB_def)
  moreover have "committed (release 2 (snd (charge 10 (bd_new strict)))) = 8"
    by (simp add: release_def charge_def bd_check_def bd_new_def strict_def MIB_def checked_u_def
        fits_u_def note_peak_def sat_u_def Let_def)
  ultimately show ?thesis
    using budget_never_exceeds [of strict "release 2 (snd (charge 10 (bd_new strict)))" None]
    by (simp add: held_def strict_def)
qed

text \<open>
  Admission is exact: a charge or reservation of \<open>n\<close> bytes is granted precisely when it
  is within \<^verbatim>\<open>max_alloc_single\<close> and the live bytes stay within \<^verbatim>\<open>max_alloc_total\<close>, and a
  refused one changes nothing. \<^verbatim>\<open>alloc\<close> returns \<open>n\<close> default elements exactly when their
  size does not overflow, is admitted and the allocator agrees, and then exactly that size is
  committed; on every failure neither committed nor held bytes change.
\<close>

theorem budget_admission:
  assumes "budget_ok b"
  shows "(fst (charge n b) = Inr () \<longleftrightarrow>
        n \<le> max_alloc_single (bd_limits b) \<and> live b + n \<le> max_alloc_total (bd_limits b)) \<and>
    (fst (charge n b) \<noteq> Inr () \<longrightarrow> snd (charge n b) = b) \<and>
    (case bd_alloc grow size_of d k b of
       (Inr xs, b') \<Rightarrow> xs = replicate k d \<and> committed b' = committed b + k * size_of \<and> pending b' = pending b \<and>
         k * size_of \<le> max_alloc_single (bd_limits b) \<and> budget_ok b'
     | (Inl e, b') \<Rightarrow> committed b' = committed b \<and> pending b' = pending b \<and> budget_ok b' \<and>
         (k * size_of \<ge> 2 ^ 64 \<or> k * size_of > max_alloc_single (bd_limits b) \<or>
          live b + k * size_of > max_alloc_total (bd_limits b) \<or> grow k = None))"
proof (intro conjI)
  note c = charge_cases [OF assms, of n]
  show "fst (charge n b) = Inr () \<longleftrightarrow>
      n \<le> max_alloc_single (bd_limits b) \<and> live b + n \<le> max_alloc_total (bd_limits b)"
    "fst (charge n b) \<noteq> Inr () \<longrightarrow> snd (charge n b) = b"
    using c by (auto split: if_splits)
next
  let ?n = "k * size_of"
  have bs: "byte_size size_of k = (if ?n < 2 ^ 64 then Inr ?n else Inl Overflow)"
    by (simp add: byte_size_def checked_u_def fits_u_def)
  note r = reserve_cases [OF assms, of ?n]
  show "case bd_alloc grow size_of d k b of
      (Inr xs, b') \<Rightarrow> xs = replicate k d \<and> committed b' = committed b + ?n \<and> pending b' = pending b \<and>
        ?n \<le> max_alloc_single (bd_limits b) \<and> budget_ok b'
    | (Inl e, b') \<Rightarrow> committed b' = committed b \<and> pending b' = pending b \<and> budget_ok b' \<and>
        (?n \<ge> 2 ^ 64 \<or> ?n > max_alloc_single (bd_limits b) \<or>
         live b + ?n > max_alloc_total (bd_limits b) \<or> grow k = None)"
  proof (cases "?n < 2 ^ 64 \<and> ?n \<le> max_alloc_single (bd_limits b) \<and> live b + ?n \<le> max_alloc_total (bd_limits b)")
    case True
    then obtain b1 where b1: "reserve ?n b = (Inr ?n, b1)" "budget_ok b1" "committed b1 = committed b"
      "pending b1 = pending b + ?n" using r by auto
    have e: "bd_alloc grow size_of d k b = res_alloc grow size_of d k ?n b1"
      using True by (simp add: bd_alloc_def reserve_array_def bs b1)
    note m = res_commit_eq [OF b1(2), of ?n] and dr = res_drop_ok [OF b1(2), of ?n]
    show ?thesis
    proof (cases "grow k")
      case None
      then have "bd_alloc grow size_of d k b = (Inl (AllocFailed ?n), res_drop ?n b1)"
        using True by (simp add: e res_alloc_def bs)
      then show ?thesis using None dr b1 by (simp add: res_drop_def)
    next
      case (Some _)
      then have "bd_alloc grow size_of d k b = (Inr (replicate k d), res_commit ?n b1)"
        using True by (simp add: e res_alloc_def bs)
      then show ?thesis using m b1 True by simp
    qed
  next
    case False
    then have "\<exists>e. bd_alloc grow size_of d k b = (Inl e, b)"
      using r by (auto simp: bd_alloc_def reserve_array_def bs split: if_splits)
    then show ?thesis using False assms by (auto simp: not_less not_le)
  qed
qed

theorem budget_admission_witness:
  "fst (charge (16 * MIB) (bd_new strict)) = Inr () \<and> fst (charge (16 * MIB + 1) (bd_new strict)) \<noteq> Inr ()"
proof -
  have ok: "budget_ok (bd_new strict)" by (rule bd_new_ok) (simp add: limits_ok_def strict_def MIB_def)
  have "live (bd_new strict) = 0" "max_alloc_single (bd_limits (bd_new strict)) = 16 * MIB"
    "max_alloc_total (bd_limits (bd_new strict)) = 64 * MIB"
    by (simp_all add: bd_new_def live_def strict_def)
  then show ?thesis
    using conjunct1 [OF budget_admission [OF ok, of "16 * MIB"]]
      conjunct1 [OF budget_admission [OF ok, of "16 * MIB + 1"]] by simp
qed

text \<open>A loop that charges \<open>n\<close> units in each of its iterations and stops at the first error.\<close>

fun spend :: "nat list \<Rightarrow> budget \<Rightarrow> budget option" where
  "spend [] b = Some b"
| "spend (n # ns) b = (case consume_fuel n b of (Inl _, _) \<Rightarrow> None | (Inr _, b') \<Rightarrow> spend ns b')"

lemma spend_grants: "spend ns b = fuels.grants ns b"
  by (induction ns arbitrary: b) (auto simp: grant_fuel_def split: prod.splits sum.splits)

text \<open>
  Fuel bounds every loop that pays for its iterations: a run of charges is granted exactly
  when its sum fits the remaining fuel, so with at least one unit per iteration the number of
  iterations is at most the remaining fuel; an exhausted budget keeps refusing, and only a
  \<^verbatim>\<open>refuel\<close> restores the whole allowance.
\<close>

theorem fuel_bounds_loops:
  assumes "budget_ok b" "fuel_spent b \<le> fuel (bd_limits b)"
  shows "((\<exists>b'. spend ns b = Some b') \<longleftrightarrow> sum_list ns \<le> fuel_remaining b) \<and>
    (0 \<notin> set ns \<and> spend ns b \<noteq> None \<longrightarrow> length ns \<le> fuel_remaining b) \<and>
    (fst (consume_fuel n b) \<noteq> Inr () \<longrightarrow> fst (consume_fuel k (snd (consume_fuel n b))) \<noteq> Inr ()) \<and>
    fuel_remaining (refuel (snd (consume_fuel n b))) = fuel (bd_limits b)"
proof (intro conjI impI)
  have "k \<le> fuel (bd_limits b)" if "fuel_spent b + sum_list ns \<le> fuel (bd_limits b)" "k \<in> set ns" for k
    using member_le_sum_list [OF that(2)] that(1) by linarith
  then show "(\<exists>b'. spend ns b = Some b') \<longleftrightarrow> sum_list ns \<le> fuel_remaining b"
    using fuels.grants_iff [OF assms, of ns] assms(2) by (auto simp: fuel_remaining_def spend_grants)
  show "length ns \<le> fuel_remaining b" if "0 \<notin> set ns \<and> spend ns b \<noteq> None"
    using that fuels.grants_bounded [OF assms] by (auto simp: fuel_remaining_def spend_grants)
  assume a: "fst (consume_fuel n b) \<noteq> Inr ()"
  let ?b = "snd (consume_fuel n b)"
  have "fuel_spent ?b > fuel (bd_limits ?b)"
    using a by (auto simp: consume_fuel_def Let_def split: if_splits)
  moreover have "budget_ok ?b" using assms(1) by (simp add: consume_fuel_cases budget_ok_def live_def)
  ultimately show "fst (consume_fuel k ?b) \<noteq> Inr ()" by (simp add: consume_fuel_cases)
next
  show "fuel_remaining (refuel (snd (consume_fuel n b))) = fuel (bd_limits b)"
    by (simp add: fuel_remaining_def refuel_def consume_fuel_def Let_def)
qed

theorem fuel_bounds_loops_witness:
  "fst (consume_fuel 1 (snd (consume_fuel (2 ^ 26 + 1) (bd_new strict)))) \<noteq> Inr ()"
proof -
  have ok: "budget_ok (bd_new strict)" by (rule bd_new_ok) (simp add: limits_ok_def strict_def MIB_def)
  have "fst (consume_fuel (2 ^ 26 + 1) (bd_new strict)) \<noteq> Inr ()"
    by (simp add: consume_fuel_cases [OF ok]) (simp add: bd_new_def strict_def)
  then show ?thesis
    using fuel_bounds_loops [OF ok, of "[]" "2 ^ 26 + 1" 1] by (simp add: bd_new_def)
qed

text \<open>
  \<^verbatim>\<open>check_frame\<close> accepts exactly the frames whose axes and whose exact byte size are
  within the caps, and returns that size; a product that does not fit 64 bits is refused, never
  wrapped.
\<close>

theorem check_frame_exact:
  "check_frame w h bpp b = Inr n \<longleftrightarrow>
     n = w * h * bpp \<and> w \<le> max_dimension (bd_limits b) \<and> h \<le> max_dimension (bd_limits b) \<and>
     w * h * bpp \<le> max_frame_bytes (bd_limits b) \<and> w * h < 2 ^ 64 \<and> w * h * bpp < 2 ^ 64"
  by (auto simp: check_frame_def Let_def checked_u_def fits_u_def split: if_splits bind_splits)

section \<open>Incremental buffers\<close>

text \<open>The charge a delivery of \<open>l\<close> elements may cause.\<close>

definition iv_bound :: "nat \<Rightarrow> nat \<Rightarrow> nat \<Rightarrow> nat" where
  "iv_bound size_of declared l = size_of * min declared (max MIN_CAP (2 * l))"

lemma iv_bound_mono: "l \<le> l' \<Longrightarrow> iv_bound z d l \<le> iv_bound z d l'"
  unfolding iv_bound_def by (intro mult_le_mono2) auto

definition iv_ok :: "nat \<Rightarrow> budget \<Rightarrow> 'a incremental_vec \<Rightarrow> budget \<Rightarrow> bool" where
  "iv_ok size_of b0 v b \<longleftrightarrow> budget_ok b \<and> bd_limits b = bd_limits b0 \<and> live b = live b0 + iv_charged v \<and>
     iv_charged v \<le> size_of * iv_capacity v \<and>
     iv_charged v \<le> iv_bound size_of (iv_declared v) (length (iv_data v))"

lemma iv_target_bounds:
  assumes "iv_capacity v < needed" "needed \<le> iv_declared v"
  shows "iv_capacity v < iv_target needed v" "needed \<le> iv_target needed v"
    "iv_target needed v \<le> min (iv_declared v) (max MIN_CAP (2 * needed))"
proof -
  have "sat_u 64 (iv_capacity v * 2) \<le> 2 * needed"
    using sat_u_le(2) [of 64 "iv_capacity v * 2"] assms(1) by linarith
  then show "iv_capacity v < iv_target needed v" "needed \<le> iv_target needed v"
    "iv_target needed v \<le> min (iv_declared v) (max MIN_CAP (2 * needed))"
    using assms unfolding iv_target_def by auto
qed

lemma charge_growth:
  assumes "c \<le> z * cap" "cap < (t :: nat)"
  shows "c + (t - cap) * z \<le> z * t"
proof -
  obtain d where "t = cap + d" using assms(2) less_imp_add_positive by blast
  then show ?thesis using assms(1) by (simp add: distrib_left mult.commute)
qed

lemma push_slice_ok:
  assumes "iv_ok size_of b0 v b" "\<And>c c'. grow c = Some c' \<Longrightarrow> c \<le> c'"
    "push_slice grow size_of src v b = (Inr (), v', b')"
  shows "iv_ok size_of b0 v' b'" "iv_data v' = iv_data v @ src" "iv_declared v' = iv_declared v"
proof -
  let ?needed = "length (iv_data v) + length src"
  have n: "?needed \<le> iv_declared v" "?needed < 2 ^ 64"
    using assms(3) by (auto simp: push_slice_def checked_u_def fits_u_def split: if_splits)
  have "iv_ok size_of b0 v' b' \<and> iv_data v' = iv_data v @ src \<and> iv_declared v' = iv_declared v"
  proof (cases "?needed \<le> iv_capacity v")
    case True
    then have "v' = v\<lparr>iv_data := iv_data v @ src\<rparr>" "b' = b"
      using assms(3) n by (auto simp: push_slice_def checked_u_def fits_u_def)
    then show ?thesis using assms(1) iv_bound_mono [of "length (iv_data v)" ?needed size_of "iv_declared v"]
      by (auto simp: iv_ok_def intro: le_trans)
  next
    case False
    let ?t = "iv_target ?needed v" and ?x = "(iv_target ?needed v - iv_capacity v) * size_of"
    have t: "iv_capacity v < ?t" "?t \<le> min (iv_declared v) (max MIN_CAP (2 * ?needed))"
      using iv_target_bounds [of v ?needed] False n by auto
    obtain cap where c: "byte_size size_of (?t - iv_capacity v) = Inr ?x" "charge ?x b = (Inr (), b')"
        "grow ?t = Some cap"
        "v' = v\<lparr>iv_charged := sat_u 64 (iv_charged v + ?x), iv_data := iv_data v @ src, iv_capacity := cap\<rparr>"
      using assms(3) n False
      by (auto simp: push_slice_def checked_u_def fits_u_def Let_def byte_size_def
          split: if_splits sum.splits option.splits prod.splits)
    have b': "budget_ok b'" "live b' = live b + ?x" "bd_limits b' = bd_limits b"
      using charge_cases [of b ?x] c(2) assms(1) by (auto simp: iv_ok_def live_def split: if_splits)
    have ch: "iv_charged v + ?x \<le> size_of * ?t"
      using assms(1) t(1) unfolding iv_ok_def by (intro charge_growth) auto
    have "live b0 + (iv_charged v + ?x) < 2 ^ 64"
      using b' assms(1) by (simp add: iv_ok_def budget_ok_def limits_ok_def)
    then have s: "sat_u 64 (iv_charged v + ?x) = iv_charged v + ?x"
      by (intro sat_u_id) (simp add: fits_u_def)
    have "size_of * ?t \<le> size_of * cap" using assms(2) [OF c(3)] by simp
    moreover have "size_of * ?t \<le> iv_bound size_of (iv_declared v) ?needed"
      unfolding iv_bound_def by (rule mult_le_mono2 [OF t(2)])
    ultimately have "iv_charged v + ?x \<le> size_of * cap"
      "iv_charged v + ?x \<le> iv_bound size_of (iv_declared v) ?needed" using ch by linarith+
    then show ?thesis using b' s assms(1) by (simp add: c(4) iv_ok_def)
  qed
  then show "iv_ok size_of b0 v' b'" "iv_data v' = iv_data v @ src" "iv_declared v' = iv_declared v" by auto
qed

text \<open>A reader that appends each slice as it arrives and stops at the first error.\<close>

fun deliver ::
  "(nat \<Rightarrow> nat option) \<Rightarrow> nat \<Rightarrow> 'a list list \<Rightarrow> 'a incremental_vec \<Rightarrow> budget \<Rightarrow>
     ('a incremental_vec \<times> budget) option" where
  "deliver grow size_of [] v b = Some (v, b)"
| "deliver grow size_of (s # ss) v b =
     (case push_slice grow size_of s v b of
        (Inr _, v', b') \<Rightarrow> deliver grow size_of ss v' b'
      | (Inl _, _, _) \<Rightarrow> None)"

lemma deliver_ok:
  assumes "iv_ok size_of b0 v b" "\<And>c c'. grow c = Some c' \<Longrightarrow> c \<le> c'"
    "deliver grow size_of ss v b = Some (v', b')"
  shows "iv_ok size_of b0 v' b' \<and> iv_data v' = iv_data v @ concat ss \<and> iv_declared v' = iv_declared v"
  using assms(1,3)
proof (induction ss arbitrary: v b)
  case (Cons s ss)
  then obtain v1 b1 where p: "push_slice grow size_of s v b = (Inr (), v1, b1)"
    "deliver grow size_of ss v1 b1 = Some (v', b')" by (auto split: prod.splits sum.splits)
  then show ?case using Cons.IH [OF push_slice_ok(1) [OF Cons.prems(1) assms(2) p(1)] p(2)]
      push_slice_ok(2,3) [OF Cons.prems(1) assms(2) p(1)] by simp
qed simp

lemma push_slice_succeeds:
  assumes "iv_ok size_of b0 v b" "length (iv_data v) + length src \<le> l" "l \<le> iv_declared v"
    "iv_declared v < 2 ^ 64" "\<And>c. grow c \<noteq> None"
    "iv_bound size_of (iv_declared v) l \<le> max_alloc_single (bd_limits b0)"
    "live b0 + iv_bound size_of (iv_declared v) l \<le> max_alloc_total (bd_limits b0)"
  shows "\<exists>v' b'. push_slice grow size_of src v b = (Inr (), v', b')"
proof -
  let ?needed = "length (iv_data v) + length src" and ?B = "iv_bound size_of (iv_declared v) l"
  have n: "?needed \<le> iv_declared v" "?needed < 2 ^ 64" using assms by linarith+
  have ok: "budget_ok b" "bd_limits b = bd_limits b0" "live b = live b0 + iv_charged v"
    "iv_charged v \<le> size_of * iv_capacity v" using assms(1) by (auto simp: iv_ok_def)
  show ?thesis
  proof (cases "?needed \<le> iv_capacity v")
    case True
    then show ?thesis using n by (simp add: push_slice_def checked_u_def fits_u_def)
  next
    case False
    let ?t = "iv_target ?needed v" and ?x = "(iv_target ?needed v - iv_capacity v) * size_of"
    have t: "iv_capacity v < ?t" "?t \<le> min (iv_declared v) (max MIN_CAP (2 * ?needed))"
      using iv_target_bounds [of v ?needed] False n by auto
    have "size_of * ?t \<le> iv_bound size_of (iv_declared v) ?needed"
      unfolding iv_bound_def by (rule mult_le_mono2 [OF t(2)])
    also have "\<dots> \<le> ?B" by (rule iv_bound_mono [OF assms(2)])
    finally have le: "size_of * ?t \<le> ?B" .
    moreover have x: "iv_charged v + ?x \<le> size_of * ?t"
      by (rule charge_growth [OF ok(4) t(1)])
    ultimately have adm: "?x \<le> max_alloc_single (bd_limits b)" "live b + ?x \<le> max_alloc_total (bd_limits b)"
      using assms(6,7) ok(2,3) by simp_all
    then have "?x < 2 ^ 64" using ok(1) unfolding budget_ok_def limits_ok_def by linarith
    then have "byte_size size_of (?t - iv_capacity v) = Inr ?x"
      by (simp add: byte_size_def checked_u_def fits_u_def)
    moreover obtain b1 where "charge ?x b = (Inr (), b1)" using charge_cases [OF ok(1), of ?x] adm by auto
    moreover obtain cap where "grow ?t = Some cap" using assms(5) [of ?t] by auto
    ultimately show ?thesis using n False
      by (simp add: push_slice_def checked_u_def fits_u_def Let_def)
  qed
qed

lemma deliver_succeeds:
  assumes "iv_ok size_of b0 v b" "length (iv_data v) + length (concat ss) \<le> l" "l \<le> iv_declared v"
    "iv_declared v < 2 ^ 64" "\<And>c. grow c \<noteq> None" "\<And>c c'. grow c = Some c' \<Longrightarrow> c \<le> c'"
    "iv_bound size_of (iv_declared v) l \<le> max_alloc_single (bd_limits b0)"
    "live b0 + iv_bound size_of (iv_declared v) l \<le> max_alloc_total (bd_limits b0)"
  shows "\<exists>v' b'. deliver grow size_of ss v b = Some (v', b')"
  using assms
proof (induction ss arbitrary: v b)
  case (Cons s ss)
  have "length (iv_data v) + length s \<le> l" using Cons.prems(2) by simp
  then obtain v1 b1 where p: "push_slice grow size_of s v b = (Inr (), v1, b1)"
    using push_slice_succeeds [of size_of b0 v b s l grow] Cons.prems by blast
  then show ?case
    using Cons.IH [of v1 b1] push_slice_ok [OF Cons.prems(1,6) p] Cons.prems by simp
qed simp

lemma iv_new_ok: "budget_ok b \<Longrightarrow> iv_ok size_of b (iv_new size_of declared) b"
  by (simp add: iv_ok_def iv_new_def)

text \<open>
  C34. A declared size costs nothing until bytes arrive: for any allocator that returns at least
  what it was asked for, delivering slices into an \<^verbatim>\<open>IncrementalVec\<close> charges at most
  \<open>size * min declared (max 32 (2 * delivered))\<close> bytes, all of them accounted in the budget,
  and the contents are exactly the slices in order. Conversely, when the allocator grants
  every request, a delivery within the declared size whose bound fits the budget succeeds.
\<close>

theorem incremental_charge_bounded:
  assumes "budget_ok b" "\<forall>c c'. grow c = Some c' \<longrightarrow> c \<le> c'"
  shows "(\<forall>v b'. deliver grow size_of ss (iv_new size_of declared) b = Some (v, b') \<longrightarrow>
        iv_data v = concat ss \<and> live b' = live b + iv_charged v \<and> budget_ok b' \<and>
        iv_charged v \<le> iv_bound size_of declared (length (concat ss))) \<and>
    ((\<forall>c. grow c \<noteq> None) \<and> length (concat ss) \<le> declared \<and> declared < 2 ^ 64 \<and>
      iv_bound size_of declared (length (concat ss)) \<le> max_alloc_single (bd_limits b) \<and>
      live b + iv_bound size_of declared (length (concat ss)) \<le> max_alloc_total (bd_limits b) \<longrightarrow>
      deliver grow size_of ss (iv_new size_of declared) b \<noteq> None)"
proof (intro conjI impI allI)
  fix v b'
  assume "deliver grow size_of ss (iv_new size_of declared) b = Some (v, b')"
  from deliver_ok [OF iv_new_ok [OF assms(1)] _ this] assms(2)
  have "iv_ok size_of b v b'" "iv_data v = concat ss" "iv_declared v = declared" by (auto simp: iv_new_def)
  then show "iv_data v = concat ss" "live b' = live b + iv_charged v" "budget_ok b'"
    "iv_charged v \<le> iv_bound size_of declared (length (concat ss))"
    by (auto simp: iv_ok_def)
next
  assume "(\<forall>c. grow c \<noteq> None) \<and> length (concat ss) \<le> declared \<and> declared < 2 ^ 64 \<and>
      iv_bound size_of declared (length (concat ss)) \<le> max_alloc_single (bd_limits b) \<and>
      live b + iv_bound size_of declared (length (concat ss)) \<le> max_alloc_total (bd_limits b)"
  then show "deliver grow size_of ss (iv_new size_of declared) b \<noteq> None"
    using deliver_succeeds [OF iv_new_ok [OF assms(1), of size_of declared], of ss "length (concat ss)" grow] assms(2)
    by (auto simp: iv_new_def)
qed

theorem incremental_charge_bounded_witness:
  "deliver Some 1 [[1, 2], [3 :: u8]] (iv_new 1 (2 ^ 32)) (bd_new strict) \<noteq> None"
proof -
  have ok: "budget_ok (bd_new strict)" by (rule bd_new_ok) (simp add: limits_ok_def strict_def MIB_def)
  show ?thesis
    using conjunct2 [OF incremental_charge_bounded [OF ok, of Some 1 "[[1, 2], [3 :: u8]]" "2 ^ 32"]]
    by (simp add: iv_bound_def MIN_CAP_def bd_new_def live_def strict_def MIB_def)
qed

section \<open>Progress\<close>

fun ticks_ok :: "nat list \<Rightarrow> progress_guard \<Rightarrow> bool" where
  "ticks_ok [] g = True"
| "ticks_ok (p # ps) g = (case tick_position p g of (Inr _, g') \<Rightarrow> ticks_ok ps g' | (Inl _, _) \<Rightarrow> False)"

lemma tick_position_cases:
  assumes "last_position g = Some q" "stalls g \<le> max_stalls g" "max_stalls g < 2 ^ 32 - 1"
  shows "tick_position p g =
    (if p > q then (Inr (), g\<lparr>last_position := Some p, stalls := 0\<rparr>)
     else ((if stalls g + 1 > max_stalls g then Inl (NoProgress (stalls g + 1)) else Inr ()),
           g\<lparr>last_position := Some p, stalls := stalls g + 1\<rparr>))"
proof -
  have "sat_u 32 (stalls g + 1) = stalls g + 1"
    using assms(2,3) by (intro sat_u_id) (simp add: fits_u_def)
  then show ?thesis using assms(1) by (simp add: tick_position_def tick_def Let_def)
qed

lemma le_step: "a \<le> A + m \<Longrightarrow> C = A + B \<Longrightarrow> (m + 1) * 1 \<le> B \<Longrightarrow> a + 1 \<le> (C :: nat)"
  by simp

lemma ticks_bound:
  assumes "ticks_ok ps g" "last_position g = Some q" "stalls g \<le> max_stalls g"
    "max_stalls g < 2 ^ 32 - 1" "sorted (q # ps)"
  shows "length ps \<le> (max_stalls g + 1) * (last (q # ps) - q) + (max_stalls g - stalls g)"
  using assms
proof (induction ps arbitrary: g q)
  case (Cons p ps)
  note t = tick_position_cases [OF Cons.prems(2-4), of p]
  have qp: "q \<le> p" and lp: "p \<le> last (p # ps)" using Cons.prems(5) by (auto simp: last_in_set)
  show ?case
  proof (cases "p > q")
    case True
    let ?g = "g\<lparr>last_position := Some p, stalls := 0\<rparr>"
    have "length ps \<le> (max_stalls g + 1) * (last (p # ps) - p) + max_stalls g"
      using Cons.IH [of ?g p] Cons.prems t True by simp
    moreover have "last (p # ps) - q = (last (p # ps) - p) + (p - q)" using True lp by linarith
    then have "(max_stalls g + 1) * (last (p # ps) - q) =
        (max_stalls g + 1) * (last (p # ps) - p) + (max_stalls g + 1) * (p - q)"
      by (simp only: distrib_left)
    moreover have "(max_stalls g + 1) * 1 \<le> (max_stalls g + 1) * (p - q)"
      using True by (intro mult_le_mono2) linarith
    ultimately have "length ps + 1 \<le> (max_stalls g + 1) * (last (p # ps) - q)" by (rule le_step)
    then show ?thesis unfolding last_ConsR [OF list.distinct(2)] list.size(4) by linarith
  next
    case False
    then have "p = q" using qp by simp
    let ?g = "g\<lparr>last_position := Some p, stalls := stalls g + 1\<rparr>"
    have "stalls g + 1 \<le> max_stalls g" "ticks_ok ps ?g"
      using Cons.prems(1) t False by (auto split: if_splits)
    then show ?thesis using Cons.IH [of ?g p] Cons.prems \<open>p = q\<close> by simp
  qed
qed simp

text \<open>
  C36. The progress guard ends every stalled loop: a run of positions that never goes back and
  stays within \<open>d\<close> of its start passes at most \<open>(max_stalls + 1) * (d + 1)\<close> ticks, and
  with a position that never moves exactly \<open>max_stalls\<close> repetitions pass before
  \<^verbatim>\<open>NoProgress\<close> is reported.
\<close>

theorem progress_guard_stops:
  assumes "m < 2 ^ 32 - 1"
  shows "(sorted (p # ps) \<and> ticks_ok (p # ps) (with_max_stalls m) \<longrightarrow>
      length (p # ps) \<le> (m + 1) * (last (p # ps) - p + 1)) \<and>
    (ticks_ok (replicate (Suc n) p) (with_max_stalls m) \<longleftrightarrow> n \<le> m)"
proof (intro conjI impI)
  let ?g = "\<lparr>stalls = 0, max_stalls = m, last_position = Some p\<rparr>"
  have t: "tick_position p (with_max_stalls m) = (Inr (), ?g)"
    by (simp add: tick_position_def tick_def with_max_stalls_def)
  assume "sorted (p # ps) \<and> ticks_ok (p # ps) (with_max_stalls m)"
  then show "length (p # ps) \<le> (m + 1) * (last (p # ps) - p + 1)"
    using ticks_bound [of ps ?g p] assms t by (simp add: distrib_left)
next
  have t: "tick_position p (with_max_stalls m) = (Inr (), \<lparr>stalls = 0, max_stalls = m, last_position = Some p\<rparr>)"
    by (simp add: tick_position_def tick_def with_max_stalls_def)
  have "ticks_ok (replicate n p) \<lparr>stalls = k, max_stalls = m, last_position = Some p\<rparr> \<longleftrightarrow> k + n \<le> m"
    if "k \<le> m" for k using that
  proof (induction n arbitrary: k)
    case (Suc n)
    then show ?case
      using tick_position_cases [of "\<lparr>stalls = k, max_stalls = m, last_position = Some p\<rparr>" p p] assms
      by auto
  qed simp
  from this [of 0] show "ticks_ok (replicate (Suc n) p) (with_max_stalls m) \<longleftrightarrow> n \<le> m" by (simp add: t)
qed

theorem progress_guard_stops_witness:
  "ticks_ok (replicate 65 7) pg_new \<and> \<not> ticks_ok (replicate 66 7) pg_new"
proof -
  have "replicate 65 (7 :: nat) = replicate (Suc 64) 7" "replicate 66 (7 :: nat) = replicate (Suc 65) 7"
    by (simp_all add: eval_nat_numeral)
  then show ?thesis
    using progress_guard_stops [of 64 7 "[]" 64] progress_guard_stops [of 64 7 "[]" 65]
    unfolding pg_new_def DEFAULT_MAX_STALLS_def by auto
qed

end
