(* ===== verification/Codec_Machine.thy ===== *)
theory Codec_Machine
  imports Limits_Budget "HOL-Library.Monad_Syntax"
begin

text \<open>
  The send/receive protocol of codecs: the capability flags
  (\<^verbatim>\<open>crates/signal/vaco-codec-core/src/caps.rs\<close>), the state machine every codec embeds
  (\<^verbatim>\<open>machine.rs\<close>) and what it guarantees to a caller.

  The debug assertions of \<^verbatim>\<open>emit\<close> and \<^verbatim>\<open>finish\<close> are the predicates \<open>emit_allowed\<close> and
  \<open>finish_allowed\<close>: the step relation \<open>machine_step\<close> is the use of a machine by a
  codec that respects them, while the operations themselves are total, as in a release build.
\<close>

section \<open>Capability flags\<close>

type_synonym caps = u32

definition DELAY :: caps where "DELAY = push_bit 0 1"
definition FRAME_THREADS :: caps where "FRAME_THREADS = push_bit 1 1"
definition SLICE_THREADS :: caps where "SLICE_THREADS = push_bit 2 1"
definition PARAM_CHANGE :: caps where "PARAM_CHANGE = push_bit 3 1"
definition VARIABLE_FRAME_SIZE :: caps where "VARIABLE_FRAME_SIZE = push_bit 4 1"
definition AVOID_PROBING :: caps where "AVOID_PROBING = push_bit 5 1"
definition HARDWARE :: caps where "HARDWARE = push_bit 6 1"
definition EXPERIMENTAL :: caps where "EXPERIMENTAL = push_bit 7 1"
definition PATENT_ENCUMBERED :: caps where "PATENT_ENCUMBERED = push_bit 8 1"
definition SUBFRAMES :: caps where "SUBFRAMES = push_bit 9 1"

lemmas cap_flags = DELAY_def FRAME_THREADS_def SLICE_THREADS_def PARAM_CHANGE_def
  VARIABLE_FRAME_SIZE_def AVOID_PROBING_def HARDWARE_def EXPERIMENTAL_def PATENT_ENCUMBERED_def
  SUBFRAMES_def

definition caps_contains :: "caps \<Rightarrow> caps \<Rightarrow> bool" where
  "caps_contains c f \<longleftrightarrow> c AND f = f"

definition caps_intersects :: "caps \<Rightarrow> caps \<Rightarrow> bool" where
  "caps_intersects c f \<longleftrightarrow> c AND f \<noteq> 0"

definition needs_drain :: "caps \<Rightarrow> bool" where
  "needs_drain c = caps_contains c DELAY"

definition may_expand :: "caps \<Rightarrow> bool" where
  "may_expand c = caps_contains c SUBFRAMES"

definition is_threaded :: "caps \<Rightarrow> bool" where
  "is_threaded c = caps_intersects c (FRAME_THREADS OR SLICE_THREADS)"

definition is_patent_encumbered :: "caps \<Rightarrow> bool" where
  "is_patent_encumbered c = caps_contains c PATENT_ENCUMBERED"

definition opt_in_required :: "caps \<Rightarrow> caps" where
  "opt_in_required c = c AND (EXPERIMENTAL OR PATENT_ENCUMBERED)"

definition CAP_NAMES :: "(caps \<times> string) list" where
  "CAP_NAMES = [(DELAY, ''delay''), (FRAME_THREADS, ''frame_threads''),
     (SLICE_THREADS, ''slice_threads''), (PARAM_CHANGE, ''param_change''),
     (VARIABLE_FRAME_SIZE, ''variable_frame_size''), (AVOID_PROBING, ''avoid_probing''),
     (HARDWARE, ''hardware''), (EXPERIMENTAL, ''experimental''),
     (PATENT_ENCUMBERED, ''patent_encumbered''), (SUBFRAMES, ''subframes'')]"

definition from_cli_name :: "string \<Rightarrow> caps option" where
  "from_cli_name name =
     map_option fst (List.find (\<lambda>(_, n). eq_ignore_ascii_case n name) CAP_NAMES)"

definition cap_names :: "caps \<Rightarrow> string list" where
  "cap_names c = map snd (filter (\<lambda>(f, _). caps_contains c f) CAP_NAMES)"

fun join_names :: "string list \<Rightarrow> string" where
  "join_names [] = ''none''"
| "join_names [n] = n"
| "join_names (n # ns) = n @ ''+'' @ join_names ns"

definition show_caps :: "caps \<Rightarrow> string" where
  "show_caps c = join_names (cap_names c)"

section \<open>The state machine\<close>

text \<open>The variants of \<^verbatim>\<open>vaco_core::Error\<close> that codecs return.\<close>

datatype codec_error =
    OutputPending | NeedMoreInput | Eof
  | InvalidData string | UnexpectedEof | Unsupported string | Over_limit core_limit_exceeded
  | Bad_option string

text \<open>An answer to an input that is not part of the protocol: it was taken, well or not.\<close>

definition input_taken :: "codec_error + unit \<Rightarrow> bool" where
  "input_taken r \<longleftrightarrow> r \<notin> {Inl OutputPending, Inl NeedMoreInput, Inl Eof}"

lemma input_taken_simps [simp]:
  "input_taken (Inr u)" "input_taken (Inl (InvalidData msg))"
  by (simp_all add: input_taken_def)

lemma input_takenE:
  assumes "input_taken r"
  obtains "r = Inr ()" | msg where "r = Inl (InvalidData msg)" | "r = Inl UnexpectedEof"
    | msg where "r = Inl (Unsupported msg)" | l where "r = Inl (Over_limit l)"
    | name where "r = Inl (Bad_option name)"
  using assms unfolding input_taken_def by (cases r) (auto, metis codec_error.exhaust)

datatype stage = Feeding | Draining | Drained

definition accepts_input :: "stage \<Rightarrow> bool" where
  "accepts_input s \<longleftrightarrow> s = Feeding"

datatype accept = Input | Drain

definition TIGHT_CAPACITY :: nat where "TIGHT_CAPACITY = 1"
definition DEFAULT_CAPACITY :: nat where "DEFAULT_CAPACITY = 16"

record 'o machine =
  m_stage :: stage
  m_queue :: "'o list"
  m_capacity :: nat
  m_caps :: caps
  m_source_done :: bool
  m_accepted :: nat
  m_produced :: nat
  m_delivered :: nat
  m_produced_this_input :: nat

definition m_with_capacity :: "caps \<Rightarrow> nat \<Rightarrow> 'o machine" where
  "m_with_capacity caps capacity =
     \<lparr>m_stage = Feeding, m_queue = [], m_capacity = max capacity 1, m_caps = caps,
      m_source_done = False, m_accepted = 0, m_produced = 0, m_delivered = 0,
      m_produced_this_input = 0\<rparr>"

definition m_new :: "caps \<Rightarrow> 'o machine" where
  "m_new caps =
     m_with_capacity caps
       (if caps_intersects caps (DELAY OR SUBFRAMES) then DEFAULT_CAPACITY else TIGHT_CAPACITY)"

definition m_accept :: "bool \<Rightarrow> 'o machine \<Rightarrow> (codec_error + accept) \<times> 'o machine" where
  "m_accept eof m =
     (case m_stage m of
        Draining \<Rightarrow> (Inl Eof, m)
      | Drained \<Rightarrow> (Inl Eof, m)
      | Feeding \<Rightarrow>
          if eof then (Inr Drain, m\<lparr>m_stage := Draining, m_produced_this_input := 0\<rparr>)
          else if length (m_queue m) \<ge> m_capacity m then (Inl OutputPending, m)
          else (Inr Input, m\<lparr>m_accepted := sat_u 64 (m_accepted m + 1), m_produced_this_input := 0\<rparr>))"

definition emit_allowed :: "'o machine \<Rightarrow> bool" where
  "emit_allowed m \<longleftrightarrow> m_stage m \<noteq> Drained \<and>
     (m_stage m \<noteq> Draining \<or> caps_contains (m_caps m) DELAY) \<and>
     (m_produced_this_input m = 0 \<or> caps_contains (m_caps m) SUBFRAMES \<or> m_stage m = Draining)"

definition m_emit :: "'o \<Rightarrow> 'o machine \<Rightarrow> 'o machine" where
  "m_emit x m = m\<lparr>m_produced_this_input := sat_u 32 (m_produced_this_input m + 1),
     m_produced := sat_u 64 (m_produced m + 1), m_queue := m_queue m @ [x]\<rparr>"

definition m_emit_all :: "'o list \<Rightarrow> 'o machine \<Rightarrow> 'o machine" where
  "m_emit_all xs m = fold m_emit xs m"

definition finish_allowed :: "'o machine \<Rightarrow> bool" where
  "finish_allowed m \<longleftrightarrow> m_stage m \<noteq> Feeding"

definition m_finish :: "'o machine \<Rightarrow> 'o machine" where
  "m_finish m = m\<lparr>m_source_done := True\<rparr>"

definition m_receive :: "'o machine \<Rightarrow> (codec_error + 'o) \<times> 'o machine" where
  "m_receive m =
     (case m_queue m of
        x # q \<Rightarrow> (Inr x, m\<lparr>m_queue := q, m_delivered := sat_u 64 (m_delivered m + 1)\<rparr>)
      | [] \<Rightarrow>
          (case m_stage m of
             Feeding \<Rightarrow> (Inl NeedMoreInput, m)
           | Draining \<Rightarrow>
               if m_source_done m then (Inl Eof, m\<lparr>m_stage := Drained\<rparr>) else (Inl NeedMoreInput, m)
           | Drained \<Rightarrow> (Inl Eof, m)))"

definition m_flush :: "'o machine \<Rightarrow> 'o machine" where
  "m_flush m = m\<lparr>m_queue := [], m_stage := Feeding, m_source_done := False, m_produced_this_input := 0\<rparr>"

definition m_is_full :: "'o machine \<Rightarrow> bool" where
  "m_is_full m \<longleftrightarrow> length (m_queue m) \<ge> m_capacity m"

definition m_has_output :: "'o machine \<Rightarrow> bool" where
  "m_has_output m \<longleftrightarrow> m_queue m \<noteq> []"

section \<open>What a caller can rely on\<close>

text \<open>
  A machine with its history since the last flush: the outputs emitted and the outputs
  received.
\<close>

record 'o traced =
  tr_machine :: "'o machine"
  tr_emitted :: "'o list"
  tr_received :: "'o list"

inductive machine_step :: "'o traced \<Rightarrow> 'o traced \<Rightarrow> bool" where
  accept: "m_accept eof (tr_machine t) = (res, m') \<Longrightarrow> machine_step t (t\<lparr>tr_machine := m'\<rparr>)"
| emit: "emit_allowed (tr_machine t) \<Longrightarrow>
    machine_step t (t\<lparr>tr_machine := m_emit x (tr_machine t), tr_emitted := tr_emitted t @ [x]\<rparr>)"
| finish: "finish_allowed (tr_machine t) \<Longrightarrow> machine_step t (t\<lparr>tr_machine := m_finish (tr_machine t)\<rparr>)"
| receive: "m_receive (tr_machine t) = (Inr x, m') \<Longrightarrow>
    machine_step t (t\<lparr>tr_machine := m', tr_received := tr_received t @ [x]\<rparr>)"
| receive_err: "m_receive (tr_machine t) = (Inl e, m') \<Longrightarrow> machine_step t (t\<lparr>tr_machine := m'\<rparr>)"
| flush: "machine_step t \<lparr>tr_machine = m_flush (tr_machine t), tr_emitted = [], tr_received = []\<rparr>"

definition machine_ok :: "'o machine \<Rightarrow> bool" where
  "machine_ok m \<longleftrightarrow> 1 \<le> m_capacity m \<and> (m_stage m = Drained \<longrightarrow> m_queue m = [] \<and> m_source_done m) \<and>
     (m_stage m = Feeding \<longrightarrow> \<not> m_source_done m) \<and>
     (m_stage m = Feeding \<and> \<not> caps_contains (m_caps m) SUBFRAMES \<longrightarrow>
        length (m_queue m) + of_bool (m_produced_this_input m = 0) \<le> m_capacity m)"

definition traced_ok :: "'o traced \<Rightarrow> bool" where
  "traced_ok t \<longleftrightarrow> machine_ok (tr_machine t) \<and> tr_emitted t = tr_received t @ m_queue (tr_machine t)"

lemma sat_u_Suc_pos: "0 < w \<Longrightarrow> sat_u w (Suc n) \<noteq> 0"
  using one_less_power [of "2 :: nat" w] by (simp add: sat_u_def)

lemma machine_step_ok:
  assumes "machine_step t t'" "traced_ok t"
  shows "traced_ok t' \<and> m_caps (tr_machine t') = m_caps (tr_machine t) \<and>
    m_capacity (tr_machine t') = m_capacity (tr_machine t)"
  using assms
proof cases
  case (accept eof res m')
  then show ?thesis using assms(2)
    by (auto simp: m_accept_def traced_ok_def machine_ok_def split: stage.splits if_splits)
next
  case (emit x)
  then show ?thesis using assms(2)
    by (auto simp: m_emit_def emit_allowed_def traced_ok_def machine_ok_def sat_u_Suc_pos)
next
  case finish
  then show ?thesis using assms(2)
    by (auto simp: m_finish_def finish_allowed_def traced_ok_def machine_ok_def)
next
  case (receive x m')
  then show ?thesis using assms(2)
    by (auto simp: m_receive_def traced_ok_def machine_ok_def split: list.splits stage.splits if_splits)
next
  case (receive_err e m')
  then show ?thesis using assms(2)
    by (auto simp: m_receive_def traced_ok_def machine_ok_def split: list.splits stage.splits if_splits)
next
  case flush
  then show ?thesis using assms(2) by (auto simp: m_flush_def traced_ok_def machine_ok_def)
qed

definition traced_new :: "caps \<Rightarrow> nat \<Rightarrow> 'o traced" where
  "traced_new c n = \<lparr>tr_machine = m_with_capacity c n, tr_emitted = [], tr_received = []\<rparr>"

lemma traced_new_ok: "traced_ok (traced_new c n)"
  by (simp add: traced_new_def traced_ok_def machine_ok_def m_with_capacity_def)

lemma machine_reachable_ok:
  assumes "machine_step\<^sup>*\<^sup>* (traced_new c n) t"
  shows "traced_ok t \<and> m_caps (tr_machine t) = c \<and> m_capacity (tr_machine t) = max n 1"
  using assms
proof (induction rule: rtranclp_induct)
  case base
  then show ?case using traced_new_ok [of c n] by (simp add: traced_new_def m_with_capacity_def)
next
  case (step s t)
  then show ?case using machine_step_ok [of s t] by simp
qed

text \<open>
  C12. In every state a codec that respects the assertions can reach: since the last flush the
  outputs received, followed by the queue, are exactly the outputs emitted, in order; end of
  stream is only reached with nothing left; and without \<^verbatim>\<open>SUBFRAMES\<close> the queue never
  exceeds its capacity while feeding, so a caller that ignores backpressure cannot make it
  grow.
\<close>

theorem machine_fifo_and_bounded:
  assumes "machine_step\<^sup>*\<^sup>* (traced_new c n) t"
  shows "tr_emitted t = tr_received t @ m_queue (tr_machine t) \<and>
    (m_stage (tr_machine t) = Drained \<longrightarrow> tr_received t = tr_emitted t) \<and>
    (fst (m_receive (tr_machine t)) = Inl Eof \<longrightarrow> tr_received t = tr_emitted t) \<and>
    (m_stage (tr_machine t) = Feeding \<and> \<not> may_expand c \<longrightarrow> length (m_queue (tr_machine t)) \<le> max n 1)"
proof -
  note ok = machine_reachable_ok [OF assms]
  have "fst (m_receive (tr_machine t)) = Inl Eof \<Longrightarrow> m_queue (tr_machine t) = []"
    by (simp add: m_receive_def split: list.splits)
  then show ?thesis using ok by (auto simp: traced_ok_def machine_ok_def may_expand_def)
qed

theorem machine_fifo_and_bounded_witness:
  "let m = m_emit 7 (m_with_capacity DELAY 4 :: nat machine)
   in machine_step\<^sup>*\<^sup>* (traced_new DELAY 4) \<lparr>tr_machine = m, tr_emitted = [7], tr_received = []\<rparr> \<and> [7] = [] @ m_queue m"
proof -
  let ?t = "traced_new DELAY 4 :: nat traced"
  have "emit_allowed (tr_machine ?t)"
    by (simp add: emit_allowed_def traced_new_def m_with_capacity_def)
  then have "machine_step\<^sup>*\<^sup>* ?t (?t\<lparr>tr_machine := m_emit 7 (tr_machine ?t), tr_emitted := tr_emitted ?t @ [7]\<rparr>)"
    by (intro r_into_rtranclp machine_step.emit)
  then have "machine_step\<^sup>*\<^sup>* ?t \<lparr>tr_machine = m_emit 7 (m_with_capacity DELAY 4), tr_emitted = [7], tr_received = []\<rparr>"
    by (simp add: traced_new_def)
  with machine_fifo_and_bounded [OF this] show ?thesis by (simp add: Let_def)
qed

text \<open>The receive loop of a caller: everything up to the first error.\<close>

fun receive_loop :: "nat \<Rightarrow> 'o machine \<Rightarrow> 'o list \<times> codec_error option \<times> 'o machine" where
  "receive_loop 0 m = ([], None, m)"
| "receive_loop (Suc k) m =
     (case m_receive m of
        (Inr x, m') \<Rightarrow> (case receive_loop k m' of (xs, e, m'') \<Rightarrow> (x # xs, e, m''))
      | (Inl e, m') \<Rightarrow> ([], Some e, m'))"

lemma receive_loop_queue:
  assumes "length (m_queue m) < k"
  shows "\<exists>m'. receive_loop k m =
    (m_queue m, Some (if m_stage m = Feeding \<or> m_stage m = Draining \<and> \<not> m_source_done m then NeedMoreInput else Eof), m') \<and>
    m_queue m' = [] \<and>
    m_stage m' = (if m_stage m = Draining \<and> m_source_done m then Drained else m_stage m)"
  using assms
proof (induction k arbitrary: m)
  case (Suc k)
  show ?case
  proof (cases "m_queue m")
    case Nil
    then show ?thesis by (auto simp: m_receive_def split: stage.splits)
  next
    case (Cons x q)
    then show ?thesis
      using Suc.prems Suc.IH [of "m\<lparr>m_queue := q, m_delivered := sat_u 64 (m_delivered m + 1)\<rparr>"]
      by (auto simp: m_receive_def)
  qed
qed simp

text \<open>
  C38. The receive loop ends: one call more than there are outputs queued hands all of them over
  in order and then reports \<^verbatim>\<open>NeedMoreInput\<close> while feeding, and \<^verbatim>\<open>Eof\<close> once the drain
  is finished; from then on every receive reports \<^verbatim>\<open>Eof\<close> and every send is refused, until a
  flush returns the machine to feeding with nothing queued.
\<close>

theorem receive_loop_drains:
  assumes "length (m_queue m) < k"
  shows "\<exists>m'. receive_loop k m =
      (m_queue m, Some (if m_stage m = Feeding \<or> m_stage m = Draining \<and> \<not> m_source_done m then NeedMoreInput else Eof), m') \<and>
    (m_stage m = Draining \<and> m_source_done m \<longrightarrow>
       m_receive m' = (Inl Eof, m') \<and> m_accept eof m' = (Inl Eof, m')) \<and>
    m_receive (m_flush m') = (Inl NeedMoreInput, m_flush m') \<and>
    (1 \<le> m_capacity m' \<longrightarrow> fst (m_accept False (m_flush m')) = Inr Input)"
proof -
  obtain m' where m': "receive_loop k m =
      (m_queue m, Some (if m_stage m = Feeding \<or> m_stage m = Draining \<and> \<not> m_source_done m then NeedMoreInput else Eof), m')"
    "m_queue m' = []"
    "m_stage m' = (if m_stage m = Draining \<and> m_source_done m then Drained else m_stage m)"
    using receive_loop_queue [OF assms] by blast
  then show ?thesis by (simp add: m_receive_def m_accept_def m_flush_def)
qed

theorem receive_loop_drains_witness:
  "\<exists>m'. receive_loop 3 (m_finish (snd (m_accept True (m_emit_all [1, 2 :: nat] (m_with_capacity DELAY 4))))) =
    ([1, 2], Some Eof, m')"
proof -
  let ?m = "m_finish (snd (m_accept True (m_emit_all [1, 2 :: nat] (m_with_capacity DELAY 4))))"
  have "m_queue ?m = [1, 2]" "m_stage ?m = Draining" "m_source_done ?m"
    by (simp_all add: m_finish_def m_accept_def m_emit_all_def m_emit_def m_with_capacity_def)
  then show ?thesis using receive_loop_drains [of ?m 3] by auto
qed

end
