(* ===== verification/Codec_Protocol.thy ===== *)
theory Codec_Protocol
  imports Codec_Machine
begin

text \<open>
  The protocol validator (\<^verbatim>\<open>Validated\<close> of
  \<^verbatim>\<open>crates/signal/vaco-codec-core/src/protocol.rs\<close>) and the reference codec built on the
  state machine (\<^verbatim>\<open>mock.rs\<close>).

  The trait \<^verbatim>\<open>SendReceive\<close> is the interface between them: the validator's operations take
  the wrapped component's \<^verbatim>\<open>send\<close>, \<^verbatim>\<open>receive\<close>, \<^verbatim>\<open>flush\<close> and \<^verbatim>\<open>caps\<close> as arguments,
  and the locale \<open>send_receive\<close> states the rules of the protocol. A panic is \<open>None\<close>.
\<close>

section \<open>The validator\<close>

datatype violation =
    SendAfterEof
  | NeedMoreInputFromSend
  | OutputPendingFromReceive
  | BackpressureWithoutOutput
  | NeedMoreInputWhileDraining
  | EofBeforeDrain
  | OutputAfterEof
  | OutputWithoutInput
  | DelayedOutputWithoutCap
  | SubframesWithoutCap
  | FlushDidNotReset

datatype on_violation = Panic | Record

record 's validated =
  vd_inner :: 's
  vd_mode :: on_violation
  vd_flush_probe :: bool
  vd_violations :: "violation list"
  vd_stage :: stage
  vd_inputs :: nat
  vd_outputs :: nat
  vd_starved :: bool
  vd_expect_output :: bool

definition vd_with_mode :: "'s \<Rightarrow> on_violation \<Rightarrow> 's validated" where
  "vd_with_mode inner mode =
     \<lparr>vd_inner = inner, vd_mode = mode, vd_flush_probe = True, vd_violations = [], vd_stage = Feeding,
      vd_inputs = 0, vd_outputs = 0, vd_starved = False, vd_expect_output = False\<rparr>"

definition vd_new :: "'s \<Rightarrow> 's validated" where
  "vd_new inner = vd_with_mode inner Panic"

definition vd_recording :: "'s \<Rightarrow> 's validated" where
  "vd_recording inner = vd_with_mode inner Record"

definition with_flush_probe :: "bool \<Rightarrow> 's validated \<Rightarrow> 's validated" where
  "with_flush_probe probe v = v\<lparr>vd_flush_probe := probe\<rparr>"

definition report :: "violation \<Rightarrow> 's validated \<Rightarrow> 's validated option" where
  "report x v =
     (case vd_mode v of
        Panic \<Rightarrow> None
      | Record \<Rightarrow> Some (v\<lparr>vd_violations := vd_violations v @ [x]\<rparr>))"

definition report_if :: "bool \<Rightarrow> violation \<Rightarrow> 's validated \<Rightarrow> 's validated option" where
  "report_if b x v = (if b then report x v else Some v)"

definition vd_send ::
  "('i option \<Rightarrow> 's \<Rightarrow> (codec_error + unit) \<times> 's) \<Rightarrow> 'i option \<Rightarrow> 's validated \<Rightarrow>
     ((codec_error + unit) \<times> 's validated) option" where
  "vd_send send input v0 =
     (case send input (vd_inner v0) of (result, s) \<Rightarrow>
        let v = v0\<lparr>vd_inner := s\<rparr>
        in if \<not> accepts_input (vd_stage v)
           then do {
             v \<leftarrow> report_if (result \<noteq> Inl Eof) SendAfterEof v;
             Some (result, v)
           }
           else case result of
             Inr _ \<Rightarrow>
               if input = None then Some (result, v\<lparr>vd_stage := Draining, vd_expect_output := False\<rparr>)
               else Some (result, v\<lparr>vd_inputs := sat_u 64 (vd_inputs v + 1), vd_starved := False,
                                  vd_expect_output := False\<rparr>)
           | Inl OutputPending \<Rightarrow> Some (result, v\<lparr>vd_expect_output := True\<rparr>)
           | Inl NeedMoreInput \<Rightarrow> do {
               v \<leftarrow> report NeedMoreInputFromSend v;
               Some (result, v)
             }
           | Inl _ \<Rightarrow> Some (result, v\<lparr>vd_inputs := sat_u 64 (vd_inputs v + 1), vd_starved := False,
                                  vd_expect_output := False\<rparr>))"

definition vd_receive ::
  "('s \<Rightarrow> (codec_error + 'o) \<times> 's) \<Rightarrow> ('s \<Rightarrow> caps) \<Rightarrow> 's validated \<Rightarrow>
     ((codec_error + 'o) \<times> 's validated) option" where
  "vd_receive receive caps v0 =
     (case receive (vd_inner v0) of (result, s) \<Rightarrow>
        let v = v0\<lparr>vd_inner := s\<rparr>
        in case result of
             Inr _ \<Rightarrow> do {
               v \<leftarrow> report_if (vd_stage v = Drained) OutputAfterEof v;
               v \<leftarrow> report_if (vd_inputs v = 0) OutputWithoutInput v;
               v \<leftarrow> report_if (vd_stage v = Draining \<and> vd_starved v \<and> \<not> caps_contains (caps (vd_inner v)) DELAY)
                     DelayedOutputWithoutCap v;
               v \<leftarrow> Some (v\<lparr>vd_outputs := sat_u 64 (vd_outputs v + 1)\<rparr>);
               v \<leftarrow> report_if (vd_outputs v > vd_inputs v \<and> \<not> caps_contains (caps (vd_inner v)) SUBFRAMES)
                     SubframesWithoutCap v;
               Some (result, v\<lparr>vd_starved := False, vd_expect_output := False\<rparr>)
             }
           | Inl NeedMoreInput \<Rightarrow> do {
               v \<leftarrow> (if vd_expect_output v
                     then map_option (\<lambda>v. v\<lparr>vd_expect_output := False\<rparr>) (report BackpressureWithoutOutput v)
                     else Some v);
               v \<leftarrow> (if vd_stage v = Feeding then Some (v\<lparr>vd_starved := True\<rparr>)
                     else report NeedMoreInputWhileDraining v);
               Some (result, v)
             }
           | Inl Eof \<Rightarrow> do {
               v \<leftarrow> (if vd_stage v = Feeding then report EofBeforeDrain v
                     else Some (v\<lparr>vd_stage := Drained\<rparr>));
               Some (result, v)
             }
           | Inl OutputPending \<Rightarrow> do {
               v \<leftarrow> report OutputPendingFromReceive v;
               Some (result, v)
             }
           | Inl _ \<Rightarrow> Some (result, v))"

definition vd_flush ::
  "('s \<Rightarrow> 's) \<Rightarrow> ('s \<Rightarrow> (codec_error + 'o) \<times> 's) \<Rightarrow> 's validated \<Rightarrow> 's validated option" where
  "vd_flush flush receive v0 =
     (let v = v0\<lparr>vd_inner := flush (vd_inner v0), vd_stage := Feeding, vd_inputs := 0, vd_outputs := 0,
                vd_starved := False, vd_expect_output := False\<rparr>
      in if vd_flush_probe v
         then case receive (vd_inner v) of (result, s) \<Rightarrow>
                report_if (\<not> (case result of Inl NeedMoreInput \<Rightarrow> True | _ \<Rightarrow> False)) FlushDidNotReset
                  (v\<lparr>vd_inner := s\<rparr>)
         else Some v)"

text \<open>A caller: any sequence of calls on the validated component.\<close>

datatype 'i call = Send "'i option" | Receive | Flush

definition vd_call ::
  "('i option \<Rightarrow> 's \<Rightarrow> (codec_error + unit) \<times> 's) \<Rightarrow> ('s \<Rightarrow> (codec_error + 'o) \<times> 's) \<Rightarrow> ('s \<Rightarrow> 's) \<Rightarrow>
     ('s \<Rightarrow> caps) \<Rightarrow> 'i call \<Rightarrow> 's validated \<Rightarrow> 's validated option" where
  "vd_call send receive flush caps c v =
     (case c of
        Send i \<Rightarrow> map_option snd (vd_send send i v)
      | Receive \<Rightarrow> map_option snd (vd_receive receive caps v)
      | Flush \<Rightarrow> vd_flush flush receive v)"

fun vd_run ::
  "('i option \<Rightarrow> 's \<Rightarrow> (codec_error + unit) \<times> 's) \<Rightarrow> ('s \<Rightarrow> (codec_error + 'o) \<times> 's) \<Rightarrow> ('s \<Rightarrow> 's) \<Rightarrow>
     ('s \<Rightarrow> caps) \<Rightarrow> 'i call list \<Rightarrow> 's validated \<Rightarrow> 's validated option" where
  "vd_run send receive flush caps [] v = Some v"
| "vd_run send receive flush caps (c # cs) v =
     Option.bind (vd_call send receive flush caps c v) (vd_run send receive flush caps cs)"

section \<open>The rules of the protocol\<close>

text \<open>
  What a component promises: its stage, the number of outputs it would hand over at once
  (\<open>queued\<close>) and the number it keeps back until the drain (\<open>kept\<close>) explain every
  answer it gives.
\<close>

locale send_receive =
  fixes send :: "'i option \<Rightarrow> 's \<Rightarrow> (codec_error + unit) \<times> 's"
    and receive :: "'s \<Rightarrow> (codec_error + 'o) \<times> 's"
    and flush :: "'s \<Rightarrow> 's"
    and caps :: "'s \<Rightarrow> caps"
    and stg :: "'s \<Rightarrow> stage"
    and queued :: "'s \<Rightarrow> nat"
    and kept :: "'s \<Rightarrow> nat"
    and ok :: "'s \<Rightarrow> bool"
  assumes send_after_eof: "ok s \<Longrightarrow> stg s \<noteq> Feeding \<Longrightarrow> send i s = (Inl Eof, s)"
    and send_eof: "ok s \<Longrightarrow> stg s = Feeding \<Longrightarrow> \<exists>s'. send None s = (Inr (), s') \<and> ok s' \<and>
      stg s' = Draining \<and> queued s' = queued s + kept s \<and> kept s' = 0 \<and> caps s' = caps s"
    and send_input: "ok s \<Longrightarrow> stg s = Feeding \<Longrightarrow> send (Some x) s = (Inl OutputPending, s) \<and> 0 < queued s \<or>
      (\<exists>r s'. send (Some x) s = (r, s') \<and> input_taken r \<and> ok s' \<and>
        stg s' = Feeding \<and> caps s' = caps s \<and>
        (caps_contains (caps s) SUBFRAMES \<or> queued s' + kept s' \<le> queued s + kept s + 1))"
    and receive_output: "ok s \<Longrightarrow> 0 < queued s \<Longrightarrow> \<exists>x s'. receive s = (Inr x, s') \<and> ok s' \<and>
      stg s' = stg s \<and> queued s' = queued s - 1 \<and> kept s' = kept s \<and> caps s' = caps s"
    and receive_feeding: "ok s \<Longrightarrow> queued s = 0 \<Longrightarrow> stg s = Feeding \<Longrightarrow> receive s = (Inl NeedMoreInput, s)"
    and receive_drained: "ok s \<Longrightarrow> queued s = 0 \<Longrightarrow> stg s \<noteq> Feeding \<Longrightarrow> \<exists>s'. receive s = (Inl Eof, s') \<and>
      ok s' \<and> stg s' = Drained \<and> queued s' = 0 \<and> kept s' = kept s \<and> caps s' = caps s"
    and drained_empty: "ok s \<Longrightarrow> stg s = Drained \<Longrightarrow> queued s = 0"
    and no_delay: "ok s \<Longrightarrow> \<not> caps_contains (caps s) DELAY \<Longrightarrow> kept s = 0"
    and flush_resets: "ok s \<Longrightarrow> ok (flush s) \<and> stg (flush s) = Feeding \<and> queued (flush s) = 0 \<and>
      kept (flush s) = 0 \<and> caps (flush s) = caps s"
begin

text \<open>
  The validator agrees with the component, and its counters bound what the component still
  has to deliver; \<open>n\<close> and \<open>k\<close> are the counts before saturation.
\<close>

definition agrees :: "'s validated \<Rightarrow> bool" where
  "agrees v \<longleftrightarrow> (let s = vd_inner v in ok s \<and> vd_stage v = stg s \<and> vd_violations v = [] \<and>
     (vd_expect_output v \<longrightarrow> 0 < queued s) \<and>
     (vd_starved v \<longrightarrow> caps_contains (caps s) DELAY \<or> queued s = 0) \<and>
     (\<exists>n k. vd_inputs v = sat_u 64 n \<and> vd_outputs v = sat_u 64 k \<and>
        (n = 0 \<longrightarrow> queued s + kept s = 0) \<and>
        (caps_contains (caps s) SUBFRAMES \<or> k + queued s + kept s \<le> n)))"

lemma sat_Suc: "sat_u w (sat_u w n + 1) = sat_u w (n + 1)"
proof -
  have "(0 :: nat) < 2 ^ w" by simp
  then show ?thesis unfolding sat_u_def by linarith
qed

lemma agreesI:
  assumes "ok (vd_inner v)" "vd_stage v = stg (vd_inner v)" "vd_violations v = []"
    "vd_expect_output v \<Longrightarrow> 0 < queued (vd_inner v)"
    "vd_starved v \<Longrightarrow> caps_contains (caps (vd_inner v)) DELAY \<or> queued (vd_inner v) = 0"
    "vd_inputs v = sat_u 64 n" "vd_outputs v = sat_u 64 k"
    "n = 0 \<Longrightarrow> queued (vd_inner v) + kept (vd_inner v) = 0"
    "caps_contains (caps (vd_inner v)) SUBFRAMES \<or> k + queued (vd_inner v) + kept (vd_inner v) \<le> n"
  shows "agrees v"
  unfolding agrees_def Let_def using assms by blast

lemma agrees_send:
  assumes "agrees v"
  shows "\<exists>v'. map_option snd (vd_send send i v) = Some v' \<and> agrees v'"
proof -
  let ?s = "vd_inner v"
  have s: "ok ?s" "vd_stage v = stg ?s" "vd_violations v = []" using assms by (auto simp: agrees_def Let_def)
  obtain n k where nk: "vd_inputs v = sat_u 64 n" "vd_outputs v = sat_u 64 k"
    "n = 0 \<longrightarrow> queued ?s + kept ?s = 0"
    "caps_contains (caps ?s) SUBFRAMES \<or> k + queued ?s + kept ?s \<le> n"
    using assms by (auto simp: agrees_def Let_def)
  note count = sat_Suc [of 64 n]
  show ?thesis
  proof (cases "stg ?s = Feeding")
    case False
    have "v\<lparr>vd_inner := ?s\<rparr> = v" by simp
    then show ?thesis
      using False s assms send_after_eof [OF s(1) False, of i]
      by (simp add: vd_send_def accepts_input_def report_if_def)
  next
    case F: True
    show ?thesis
    proof (cases i)
      case None
      from send_eof [OF s(1) F] obtain s' where s': "send None ?s = (Inr (), s')" "ok s'" "stg s' = Draining"
        "queued s' = queued ?s + kept ?s" "kept s' = 0" "caps s' = caps ?s" by auto
      have "agrees (v\<lparr>vd_inner := s', vd_stage := Draining, vd_expect_output := False\<rparr>)"
        using assms nk s s' no_delay [OF s(1)] by (intro agreesI [of _ n k]) (auto simp: agrees_def Let_def)
      then show ?thesis using None s F s'(1) by (simp add: vd_send_def accepts_input_def)
    next
      case (Some x)
      from send_input [OF s(1) F, of x] consider
          (full) "send (Some x) ?s = (Inl OutputPending, ?s)" "0 < queued ?s"
        | (taken) r s' where "send (Some x) ?s = (r, s')" "input_taken r" "ok s'" "stg s' = Feeding" "caps s' = caps ?s"
          "caps_contains (caps ?s) SUBFRAMES \<or> queued s' + kept s' \<le> queued ?s + kept ?s + 1" by (elim disjE exE conjE) auto
      then show ?thesis
      proof cases
        case full
        have "agrees (v\<lparr>vd_expect_output := True\<rparr>)" using assms full(2) by (auto simp: agrees_def Let_def)
        then show ?thesis using Some s F full(1) by (simp add: vd_send_def accepts_input_def)
      next
        case taken
        let ?v = "v\<lparr>vd_inner := s', vd_inputs := sat_u 64 (vd_inputs v + 1), vd_starved := False,
          vd_expect_output := False\<rparr>"
        have c: "vd_inputs ?v = sat_u 64 (n + 1)" "vd_outputs ?v = sat_u 64 k"
          "caps_contains (caps s') SUBFRAMES \<or> k + queued s' + kept s' \<le> n + 1"
          using nk taken count by auto
        have "agrees ?v" using s taken(3,4) F c by (intro agreesI [of _ "n + 1" k]) auto
        then show ?thesis
          using Some s F taken(1) by (cases rule: input_takenE [OF taken(2)]) (auto simp: vd_send_def accepts_input_def)
      qed
    qed
  qed
qed

lemma agrees_receive:
  assumes "agrees v"
  shows "\<exists>v'. map_option snd (vd_receive receive caps v) = Some v' \<and> agrees v'"
proof -
  let ?s = "vd_inner v"
  have s: "ok ?s" "vd_stage v = stg ?s" "vd_violations v = []"
    "vd_expect_output v \<Longrightarrow> 0 < queued ?s" using assms by (auto simp: agrees_def Let_def)
  obtain n k where nk: "vd_inputs v = sat_u 64 n" "vd_outputs v = sat_u 64 k"
    "n = 0 \<longrightarrow> queued ?s + kept ?s = 0"
    "caps_contains (caps ?s) SUBFRAMES \<or> k + queued ?s + kept ?s \<le> n"
    using assms by (auto simp: agrees_def Let_def)
  show ?thesis
  proof (cases "0 < queued ?s")
    case True
    from receive_output [OF s(1) True] obtain x s' where s': "receive ?s = (Inr x, s')" "ok s'"
      "stg s' = stg ?s" "queued s' = queued ?s - 1" "kept s' = kept ?s" "caps s' = caps ?s" by auto
    have d: "stg ?s \<noteq> Drained" using drained_empty [OF s(1)] True by auto
    obtain n' where "n = Suc n'" using nk(3) True by (cases n) auto
    then have i: "vd_inputs v \<noteq> 0" using nk(1) by (simp add: sat_u_Suc_pos)
    have st: "\<not> (stg ?s = Draining \<and> vd_starved v \<and> \<not> caps_contains (caps ?s) DELAY)"
      using assms True by (auto simp: agrees_def Let_def)
    have k: "caps_contains (caps ?s) SUBFRAMES \<or> k + 1 + queued s' + kept s' \<le> n"
      using nk(4) s' True by auto
    then have "caps_contains (caps ?s) SUBFRAMES \<or> sat_u 64 (k + 1) \<le> vd_inputs v"
      using sat_u_mono [of "k + 1" n 64] nk(1) by auto
    then have sub: "\<not> (vd_inputs v < sat_u 64 (vd_outputs v + 1) \<and> \<not> caps_contains (caps ?s) SUBFRAMES)"
      using sat_Suc [of 64 k] nk(2) by auto
    let ?v = "v\<lparr>vd_inner := s', vd_outputs := sat_u 64 (vd_outputs v + 1), vd_starved := False,
      vd_expect_output := False\<rparr>"
    have "agrees ?v"
      using s s' nk(1-3) k True sat_Suc [of 64 k] by (intro agreesI [of _ n "k + 1"]) auto
    moreover have "vd_receive receive caps v = Some (Inr x, ?v)"
      unfolding vd_receive_def report_if_def Let_def s'(1) split_conv sum.case
      using s s'(3,6) d i st sub by (auto simp: Let_def)
    ultimately show ?thesis by simp
  next
    case False
    then have q: "queued ?s = 0" by simp
    have e: "\<not> vd_expect_output v" using s(4) q by auto
    show ?thesis
    proof (cases "stg ?s = Feeding")
      case F: True
      have "agrees (v\<lparr>vd_starved := True\<rparr>)" using assms q by (auto simp: agrees_def Let_def)
      then show ?thesis using receive_feeding [OF s(1) q F] e F s by (simp add: vd_receive_def)
    next
      case D: False
      from receive_drained [OF s(1) q D] obtain s' where s': "receive ?s = (Inl Eof, s')" "ok s'"
        "stg s' = Drained" "queued s' = 0" "kept s' = kept ?s" "caps s' = caps ?s" by auto
      have "agrees (v\<lparr>vd_inner := s', vd_stage := Drained\<rparr>)"
        using assms s' q e by (auto simp: agrees_def Let_def)
      then show ?thesis using s'(1) D s by (simp add: vd_receive_def)
    qed
  qed
qed

lemma agrees_flush:
  assumes "agrees v"
  shows "\<exists>v'. vd_flush flush receive v = Some v' \<and> agrees v'"
proof -
  let ?s = "vd_inner v"
  have s: "ok ?s" "vd_violations v = []" using assms by (auto simp: agrees_def Let_def)
  note f = flush_resets [OF s(1)]
  let ?v = "v\<lparr>vd_inner := flush ?s, vd_stage := Feeding, vd_inputs := 0, vd_outputs := 0,
    vd_starved := False, vd_expect_output := False\<rparr>"
  have "agrees ?v" using f s by (intro agreesI [of _ 0 0]) (auto simp: sat_u_def)
  moreover have "receive (flush ?s) = (Inl NeedMoreInput, flush ?s)" using receive_feeding f by auto
  then have "vd_flush flush receive v = Some ?v"
    by (cases v) (simp add: vd_flush_def report_if_def Let_def)
  ultimately show ?thesis by blast
qed

lemma agrees_run:
  "agrees v \<Longrightarrow> \<exists>v'. vd_run send receive flush caps cs v = Some v' \<and> agrees v'"
proof (induction cs arbitrary: v)
  case (Cons c cs)
  obtain v1 where "vd_call send receive flush caps c v = Some v1" "agrees v1"
    using agrees_send [OF Cons.prems] agrees_receive [OF Cons.prems] agrees_flush [OF Cons.prems]
    by (cases c) (simp_all add: vd_call_def, blast+)
  then show ?case using Cons.IH by simp
qed simp

lemma agrees_new: "ok s \<Longrightarrow> stg s = Feeding \<Longrightarrow> queued s = 0 \<Longrightarrow> kept s = 0 \<Longrightarrow> agrees (vd_with_mode s mode)"
  by (intro agreesI [of _ 0 0]) (auto simp: vd_with_mode_def sat_u_def)

text \<open>No caller can make a component that keeps the rules look as if it broke one.\<close>

lemma never_reports:
  assumes "ok s" "stg s = Feeding" "queued s = 0" "kept s = 0"
  shows "\<exists>v'. vd_run send receive flush caps cs (vd_with_mode s mode) = Some v' \<and> vd_violations v' = []"
  using agrees_run [OF agrees_new [OF assms], of cs] by (auto simp: agrees_def Let_def)

end

section \<open>The reference codec\<close>

datatype mock_step = Emit nat | Reorder | Skip | Corrupt

record mock_unit =
  mu_source :: nat
  mu_sub :: nat

record mock_program =
  mp_steps :: "mock_step list"
  mp_reorder_delay :: nat

definition default_program :: mock_program where
  "default_program = \<lparr>mp_steps = [Emit 1], mp_reorder_delay = 0\<rparr>"

definition program_new :: "mock_step list \<Rightarrow> mock_program" where
  "program_new steps = \<lparr>mp_steps = (if steps = [] then [Emit 1] else steps), mp_reorder_delay = 0\<rparr>"

definition with_reorder_delay :: "nat \<Rightarrow> mock_program \<Rightarrow> mock_program" where
  "with_reorder_delay d p = p\<lparr>mp_reorder_delay := d\<rparr>"

definition program_step :: "mock_program \<Rightarrow> nat \<Rightarrow> mock_step" where
  "program_step p n =
     (case get_at (mp_steps p) (n mod max (length (mp_steps p)) 1) of Some s \<Rightarrow> s | None \<Rightarrow> Emit 1)"

definition program_caps :: "mock_program \<Rightarrow> caps" where
  "program_caps p =
     (if list_ex (\<lambda>s. case s of Emit n \<Rightarrow> n > 1 | _ \<Rightarrow> False) (mp_steps p) then SUBFRAMES else 0) OR
     (if Reorder \<in> set (mp_steps p) then DELAY else 0)"

definition subs :: "nat \<Rightarrow> nat \<Rightarrow> mock_unit list" where
  "subs i count = map (\<lambda>sub. \<lparr>mu_source = i, mu_sub = sub\<rparr>) [0..<count]"

text \<open>
  \<open>pop_if p q\<close> is \<^verbatim>\<open>if q.len() > reorder_delay\<close> with the \<^verbatim>\<open>pop_front\<close> of both the codec
  and the reference model.
\<close>

definition pop_if :: "mock_program \<Rightarrow> mock_unit list \<Rightarrow> mock_unit list \<times> mock_unit list" where
  "pop_if p q = (if length q > mp_reorder_delay p then (case q of u # q' \<Rightarrow> ([u], q') | [] \<Rightarrow> ([], [])) else ([], q))"

fun expected_loop ::
  "mock_program \<Rightarrow> nat \<Rightarrow> nat list \<Rightarrow> mock_unit list \<Rightarrow> mock_unit list \<Rightarrow> mock_unit list \<times> mock_unit list" where
  "expected_loop p n [] fed q = (fed, q)"
| "expected_loop p n (i # ids) fed q =
     (case program_step p n of
        Emit count \<Rightarrow> expected_loop p (n + 1) ids (fed @ subs i count) q
      | Reorder \<Rightarrow>
          (case pop_if p (q @ [\<lparr>mu_source = i, mu_sub = 0\<rparr>]) of
             (out, q') \<Rightarrow> expected_loop p (n + 1) ids (fed @ out) q')
      | Skip \<Rightarrow> expected_loop p (n + 1) ids fed q
      | Corrupt \<Rightarrow> expected_loop p (n + 1) ids fed q)"

definition expected :: "mock_program \<Rightarrow> nat list \<Rightarrow> mock_unit list \<times> mock_unit list" where
  "expected p ids = expected_loop p 0 ids [] []"

record mock_codec =
  mc_program :: mock_program
  mc_machine :: "mock_unit machine"
  mc_reorder :: "mock_unit list"
  mc_inputs :: nat

definition mc_new :: "mock_program \<Rightarrow> mock_codec" where
  "mc_new p = \<lparr>mc_program = p, mc_machine = m_new (program_caps p), mc_reorder = [], mc_inputs = 0\<rparr>"

definition mc_with_capacity :: "mock_program \<Rightarrow> nat \<Rightarrow> mock_codec" where
  "mc_with_capacity p n =
     \<lparr>mc_program = p, mc_machine = m_with_capacity (program_caps p) n, mc_reorder = [], mc_inputs = 0\<rparr>"

definition mc_caps :: "mock_codec \<Rightarrow> caps" where
  "mc_caps c = m_caps (mc_machine c)"

definition mc_send :: "nat option \<Rightarrow> mock_codec \<Rightarrow> (codec_error + unit) \<times> mock_codec" where
  "mc_send input c =
     (case m_accept (input = None) (mc_machine c) of
        (Inl e, m) \<Rightarrow> (Inl e, c\<lparr>mc_machine := m\<rparr>)
      | (Inr Drain, m) \<Rightarrow>
          (Inr (), c\<lparr>mc_machine := m_finish (m_emit_all (mc_reorder c) m), mc_reorder := []\<rparr>)
      | (Inr Input, m) \<Rightarrow>
          (case input of
             None \<Rightarrow> (Inr (), c\<lparr>mc_machine := m\<rparr>)
           | Some i \<Rightarrow>
               let c1 = c\<lparr>mc_machine := m, mc_inputs := (mc_inputs c + 1) mod 2 ^ 64\<rparr>
               in case program_step (mc_program c) (mc_inputs c) of
                    Emit count \<Rightarrow> (Inr (), c1\<lparr>mc_machine := m_emit_all (subs i count) m\<rparr>)
                  | Reorder \<Rightarrow>
                      (case pop_if (mc_program c) (mc_reorder c @ [\<lparr>mu_source = i, mu_sub = 0\<rparr>]) of
                         (out, q) \<Rightarrow> (Inr (), c1\<lparr>mc_reorder := q, mc_machine := m_emit_all out m\<rparr>))
                  | Skip \<Rightarrow> (Inr (), c1)
                  | Corrupt \<Rightarrow> (Inl (InvalidData ''mock codec: corrupt input''), c1)))"

definition mc_receive :: "mock_codec \<Rightarrow> (codec_error + mock_unit) \<times> mock_codec" where
  "mc_receive c = (case m_receive (mc_machine c) of (r, m) \<Rightarrow> (r, c\<lparr>mc_machine := m\<rparr>))"

definition mc_flush :: "mock_codec \<Rightarrow> mock_codec" where
  "mc_flush c = c\<lparr>mc_machine := m_flush (mc_machine c), mc_reorder := [], mc_inputs := 0\<rparr>"

subsection \<open>It keeps the rules\<close>

lemma length_subs [simp]: "length (subs i n) = n"
  by (simp add: subs_def)

lemma program_caps_flags:
  "caps_contains (program_caps p) SUBFRAMES \<longleftrightarrow> list_ex (\<lambda>s. case s of Emit n \<Rightarrow> n > 1 | _ \<Rightarrow> False) (mp_steps p)"
  "caps_contains (program_caps p) DELAY \<longleftrightarrow> Reorder \<in> set (mp_steps p)"
  by (simp_all add: program_caps_def caps_contains_def SUBFRAMES_def DELAY_def del: One_nat_def)

lemma program_step_cases: "program_step p n \<in> set (mp_steps p) \<or> program_step p n = Emit 1"
  by (cases "mp_steps p = []") (simp_all add: program_step_def get_at_def max_def Suc_le_eq)

lemma single_emit:
  assumes "program_step p n = Emit k" "\<not> caps_contains (program_caps p) SUBFRAMES"
  shows "k \<le> 1"
  using program_step_cases [of p n] assms by (auto simp: program_caps_flags list_ex_iff split: mock_step.splits)

lemma reorder_needs_delay: "program_step p n = Reorder \<Longrightarrow> caps_contains (program_caps p) DELAY"
  using program_step_cases [of p n] by (auto simp: program_caps_flags)

lemma m_emit_all_simps [simp]:
  "m_queue (m_emit_all xs m) = m_queue m @ xs" "m_stage (m_emit_all xs m) = m_stage m"
  "m_capacity (m_emit_all xs m) = m_capacity m" "m_caps (m_emit_all xs m) = m_caps m"
  "m_source_done (m_emit_all xs m) = m_source_done m"
  unfolding m_emit_all_def by (induction xs arbitrary: m) (simp_all add: m_emit_def)

lemma m_emit_all_produced:
  "m_produced_this_input (m_emit_all xs m) = 0 \<longleftrightarrow> xs = [] \<and> m_produced_this_input m = 0"
proof (induction xs arbitrary: m)
  case Nil
  then show ?case by (simp add: m_emit_all_def)
next
  case (Cons x xs)
  have "m_produced_this_input (m_emit x m) \<noteq> 0" by (simp add: m_emit_def sat_u_Suc_pos)
  then show ?case using Cons.IH [of "m_emit x m"] by (simp add: m_emit_all_def)
qed

lemma pop_if_length: "pop_if p q = (out, q') \<Longrightarrow> out @ q' = q \<and> length out \<le> 1 \<and> length out + length q' = length q"
  by (auto simp: pop_if_def split: if_splits list.splits)

text \<open>The invariant of the codec.\<close>

definition mc_ok :: "mock_codec \<Rightarrow> bool" where
  "mc_ok c \<longleftrightarrow> machine_ok (mc_machine c) \<and> m_caps (mc_machine c) = program_caps (mc_program c) \<and>
     (m_stage (mc_machine c) \<noteq> Feeding \<longrightarrow> m_source_done (mc_machine c) \<and> mc_reorder c = []) \<and>
     (\<not> caps_contains (program_caps (mc_program c)) DELAY \<longrightarrow> mc_reorder c = [])"

text \<open>The effect of an accepted input.\<close>

definition outputs_of :: "mock_codec \<Rightarrow> nat \<Rightarrow> mock_unit list \<times> mock_unit list" where
  "outputs_of c i =
     (case program_step (mc_program c) (mc_inputs c) of
        Emit count \<Rightarrow> (subs i count, mc_reorder c)
      | Reorder \<Rightarrow> pop_if (mc_program c) (mc_reorder c @ [\<lparr>mu_source = i, mu_sub = 0\<rparr>])
      | _ \<Rightarrow> ([], mc_reorder c))"

lemma mc_send_input:
  assumes "m_stage (mc_machine c) = Feeding" "length (m_queue (mc_machine c)) < m_capacity (mc_machine c)"
    "outputs_of c i = (out, q)"
  shows "\<exists>r. mc_send (Some i) c = (r, c\<lparr>mc_inputs := (mc_inputs c + 1) mod 2 ^ 64, mc_reorder := q,
      mc_machine := m_emit_all out ((mc_machine c)\<lparr>m_accepted := sat_u 64 (m_accepted (mc_machine c) + 1),
        m_produced_this_input := 0\<rparr>)\<rparr>) \<and> input_taken r"
  using assms
  by (cases c) (auto simp: mc_send_def m_accept_def Let_def outputs_of_def m_emit_all_def
      split: mock_step.splits prod.splits)

lemma outputs_of_bound:
  assumes "outputs_of c i = (out, q)" "mc_ok c"
  shows "caps_contains (program_caps (mc_program c)) SUBFRAMES \<or> length out \<le> 1 \<and>
      length out + length q \<le> length (mc_reorder c) + 1"
    "\<not> caps_contains (program_caps (mc_program c)) DELAY \<longrightarrow> q = []"
  using assms single_emit [of "mc_program c" "mc_inputs c"] reorder_needs_delay [of "mc_program c" "mc_inputs c"]
    pop_if_length [of "mc_program c" "mc_reorder c @ [\<lparr>mu_source = i, mu_sub = 0\<rparr>]"]
  by (auto simp: outputs_of_def mc_ok_def split: mock_step.splits) fastforce+

lemma mc_receive_queue:
  assumes "mc_ok s" "m_queue (mc_machine s) = x # q"
  shows "\<exists>s'. mc_receive s = (Inr x, s') \<and> mc_ok s' \<and> m_stage (mc_machine s') = m_stage (mc_machine s) \<and>
    m_queue (mc_machine s') = q \<and> mc_reorder s' = mc_reorder s \<and> mc_caps s' = mc_caps s \<and>
    mc_program s' = mc_program s \<and> mc_inputs s' = mc_inputs s"
proof -
  let ?m = "mc_machine s"
  let ?s = "s\<lparr>mc_machine := ?m\<lparr>m_queue := q, m_delivered := sat_u 64 (m_delivered ?m + 1)\<rparr>\<rparr>"
  have "mc_receive s = (Inr x, ?s)" by (simp add: mc_receive_def m_receive_def assms(2))
  moreover have "mc_ok ?s" using assms by (auto simp: mc_ok_def machine_ok_def)
  ultimately show ?thesis by (simp add: mc_caps_def)
qed

lemma mc_receive_empty:
  assumes "mc_ok s" "m_queue (mc_machine s) = []" "m_stage (mc_machine s) \<noteq> Feeding"
  shows "\<exists>s'. mc_receive s = (Inl Eof, s') \<and> mc_ok s' \<and> m_stage (mc_machine s') = Drained \<and>
    m_queue (mc_machine s') = [] \<and> mc_reorder s' = mc_reorder s \<and> mc_caps s' = mc_caps s \<and>
    mc_program s' = mc_program s \<and> mc_inputs s' = mc_inputs s"
proof -
  let ?s = "s\<lparr>mc_machine := (mc_machine s)\<lparr>m_stage := Drained\<rparr>\<rparr>"
  have "mc_receive s = (Inl Eof, ?s)"
    using assms by (cases "m_stage (mc_machine s)") (auto simp: mc_receive_def m_receive_def mc_ok_def)
  moreover have "mc_ok ?s" using assms by (auto simp: mc_ok_def machine_ok_def)
  ultimately show ?thesis using assms(2) by (simp add: mc_caps_def)
qed

lemma mc_send_accepted:
  assumes "mc_ok s" "m_stage (mc_machine s) = Feeding"
    "length (m_queue (mc_machine s)) < m_capacity (mc_machine s)" "outputs_of s i = (out, q)"
  shows "\<exists>r s'. mc_send (Some i) s = (r, s') \<and> input_taken r \<and> mc_ok s' \<and>
    m_stage (mc_machine s') = Feeding \<and> mc_caps s' = mc_caps s \<and>
    m_queue (mc_machine s') = m_queue (mc_machine s) @ out \<and> mc_reorder s' = q \<and>
    mc_program s' = mc_program s \<and> mc_inputs s' = (mc_inputs s + 1) mod 2 ^ 64"
proof -
  let ?m = "mc_machine s"
  let ?m' = "m_emit_all out (?m\<lparr>m_accepted := sat_u 64 (m_accepted ?m + 1), m_produced_this_input := 0\<rparr>)"
  let ?s = "s\<lparr>mc_inputs := (mc_inputs s + 1) mod 2 ^ 64, mc_reorder := q, mc_machine := ?m'\<rparr>"
  note b = outputs_of_bound [OF assms(4,1)]
  have "length (m_queue ?m @ out) + of_bool (out = []) \<le> m_capacity ?m"
    if "\<not> caps_contains (program_caps (mc_program s)) SUBFRAMES"
    using b(1) that assms(3) by (cases out) auto
  then have "machine_ok ?m'" using assms(1,2) by (auto simp: mc_ok_def machine_ok_def m_emit_all_produced)
  then have "mc_ok ?s" using assms(1,2) b(2) by (simp add: mc_ok_def)
  then show ?thesis
    using mc_send_input [OF assms(2-4)] assms(2) by (elim exE conjE) (simp add: mc_caps_def)
qed

lemma mc_send_full:
  assumes "m_stage (mc_machine s) = Feeding" "\<not> length (m_queue (mc_machine s)) < m_capacity (mc_machine s)"
  shows "mc_send (Some i) s = (Inl OutputPending, s)"
  using assms by (simp add: mc_send_def m_accept_def)

lemma mc_send_drain:
  assumes "mc_ok s" "m_stage (mc_machine s) = Feeding"
  shows "\<exists>s'. mc_send None s = (Inr (), s') \<and> mc_ok s' \<and> m_stage (mc_machine s') = Draining \<and>
    m_queue (mc_machine s') = m_queue (mc_machine s) @ mc_reorder s \<and> mc_reorder s' = [] \<and>
    mc_caps s' = mc_caps s \<and> mc_program s' = mc_program s \<and> mc_inputs s' = mc_inputs s"
  using assms by (auto simp: mc_send_def m_accept_def mc_caps_def m_finish_def mc_ok_def machine_ok_def)

lemma mc_send_refused:
  "m_stage (mc_machine s) \<noteq> Feeding \<Longrightarrow> mc_send i s = (Inl Eof, s)"
  by (cases "m_stage (mc_machine s)") (auto simp: mc_send_def m_accept_def)

lemma mc_flush_ok:
  assumes "mc_ok s"
  shows "mc_ok (mc_flush s)" "m_stage (mc_machine (mc_flush s)) = Feeding"
    "m_queue (mc_machine (mc_flush s)) = []" "mc_reorder (mc_flush s) = []"
    "mc_caps (mc_flush s) = mc_caps s" "mc_program (mc_flush s) = mc_program s" "mc_inputs (mc_flush s) = 0"
  using assms by (simp_all add: mc_flush_def m_flush_def mc_caps_def mc_ok_def machine_ok_def)

interpretation mock: send_receive mc_send mc_receive mc_flush mc_caps "\<lambda>c. m_stage (mc_machine c)"
  "\<lambda>c. length (m_queue (mc_machine c))" "\<lambda>c. length (mc_reorder c)" mc_ok
proof
  fix s :: mock_codec and i :: "nat option" and x :: nat
  assume ok: "mc_ok s"
  let ?m = "mc_machine s"
  have m: "machine_ok ?m" "m_caps ?m = program_caps (mc_program s)" using ok by (auto simp: mc_ok_def)
  show "m_stage ?m \<noteq> Feeding \<Longrightarrow> mc_send i s = (Inl Eof, s)" by (rule mc_send_refused)
  show "m_stage ?m = Feeding \<Longrightarrow> \<exists>s'. mc_send None s = (Inr (), s') \<and> mc_ok s' \<and>
      m_stage (mc_machine s') = Draining \<and>
      length (m_queue (mc_machine s')) = length (m_queue ?m) + length (mc_reorder s) \<and>
      length (mc_reorder s') = 0 \<and> mc_caps s' = mc_caps s"
    using mc_send_drain [OF ok] by (metis length_append list.size(3))
  show "0 < length (m_queue ?m) \<Longrightarrow> \<exists>x s'. mc_receive s = (Inr x, s') \<and> mc_ok s' \<and>
      m_stage (mc_machine s') = m_stage ?m \<and> length (m_queue (mc_machine s')) = length (m_queue ?m) - 1 \<and>
      length (mc_reorder s') = length (mc_reorder s) \<and> mc_caps s' = mc_caps s"
    using mc_receive_queue [OF ok] by (cases "m_queue ?m") fastforce+
  show "length (m_queue ?m) = 0 \<Longrightarrow> m_stage ?m = Feeding \<Longrightarrow> mc_receive s = (Inl NeedMoreInput, s)"
    by (simp add: mc_receive_def m_receive_def)
  show "length (m_queue ?m) = 0 \<Longrightarrow> m_stage ?m \<noteq> Feeding \<Longrightarrow> \<exists>s'. mc_receive s = (Inl Eof, s') \<and> mc_ok s' \<and>
      m_stage (mc_machine s') = Drained \<and> length (m_queue (mc_machine s')) = 0 \<and>
      length (mc_reorder s') = length (mc_reorder s) \<and> mc_caps s' = mc_caps s"
    using mc_receive_empty [OF ok] by fastforce
  show "m_stage ?m = Drained \<Longrightarrow> length (m_queue ?m) = 0" using m by (simp add: machine_ok_def)
  show "\<not> caps_contains (mc_caps s) DELAY \<Longrightarrow> length (mc_reorder s) = 0"
    using ok by (simp add: mc_caps_def mc_ok_def)
  show "mc_ok (mc_flush s) \<and> m_stage (mc_machine (mc_flush s)) = Feeding \<and>
      length (m_queue (mc_machine (mc_flush s))) = 0 \<and> length (mc_reorder (mc_flush s)) = 0 \<and>
      mc_caps (mc_flush s) = mc_caps s"
    using mc_flush_ok [OF ok] by simp
  assume F: "m_stage ?m = Feeding"
  show "mc_send (Some x) s = (Inl OutputPending, s) \<and> 0 < length (m_queue ?m) \<or>
      (\<exists>r s'. mc_send (Some x) s = (r, s') \<and> input_taken r \<and> mc_ok s' \<and>
        m_stage (mc_machine s') = Feeding \<and> mc_caps s' = mc_caps s \<and>
        (caps_contains (mc_caps s) SUBFRAMES \<or> length (m_queue (mc_machine s')) + length (mc_reorder s') \<le>
           length (m_queue ?m) + length (mc_reorder s) + 1))"
  proof (cases "length (m_queue ?m) < m_capacity ?m")
    case False
    then have "0 < length (m_queue ?m)" using m by (auto simp: machine_ok_def)
    then show ?thesis using mc_send_full [OF F False] by blast
  next
    case True
    obtain out q where o: "outputs_of s x = (out, q)" by fastforce
    have "caps_contains (mc_caps s) SUBFRAMES \<or> length (m_queue ?m @ out) + length q \<le>
        length (m_queue ?m) + length (mc_reorder s) + 1"
      using outputs_of_bound(1) [OF o ok] m by (auto simp: mc_caps_def)
    then show ?thesis using mc_send_accepted [OF ok F True o] by metis
  qed
qed

lemma mc_with_capacity_ok: "mc_ok (mc_with_capacity p n)"
  by (simp add: mc_ok_def machine_ok_def mc_with_capacity_def m_with_capacity_def)

text \<open>
  C8. The validator is sound for the codec that is meant to be copied: whatever program it runs,
  whatever its queue depth and whatever a caller does (illegal calls included), the validated
  reference codec never panics and never has a violation recorded.
\<close>

theorem validated_mock_clean:
  "\<exists>v. vd_run mc_send mc_receive mc_flush mc_caps calls (vd_with_mode (mc_with_capacity p n) mode) = Some v \<and>
     vd_violations v = []"
  by (rule mock.never_reports)
    (simp_all add: mc_with_capacity_ok, simp_all add: mc_with_capacity_def m_with_capacity_def)

subsection \<open>It respects the assertions\<close>

fun emits_ok :: "'o list \<Rightarrow> 'o machine \<Rightarrow> bool" where
  "emits_ok [] m = True"
| "emits_ok (x # xs) m \<longleftrightarrow> emit_allowed m \<and> emits_ok xs (m_emit x m)"

lemma emits_ok_expanding:
  "m_stage m = Feeding \<Longrightarrow> caps_contains (m_caps m) SUBFRAMES \<Longrightarrow> emits_ok xs m"
  by (induction xs arbitrary: m) (simp_all add: emit_allowed_def m_emit_def)

lemma emits_ok_draining:
  "m_stage m = Draining \<Longrightarrow> caps_contains (m_caps m) DELAY \<Longrightarrow> emits_ok xs m"
  by (induction xs arbitrary: m) (simp_all add: emit_allowed_def m_emit_def)

lemma mock_emits_allowed:
  assumes "mc_ok c" "m_stage (mc_machine c) = Feeding" "outputs_of c i = (out, q)"
  shows "emits_ok out ((mc_machine c)\<lparr>m_accepted := n, m_produced_this_input := 0\<rparr>)"
    "emits_ok (mc_reorder c) ((mc_machine c)\<lparr>m_stage := Draining, m_produced_this_input := 0\<rparr>)"
proof -
  let ?m = "(mc_machine c)\<lparr>m_accepted := n, m_produced_this_input := 0\<rparr>"
  have c: "m_caps (mc_machine c) = program_caps (mc_program c)" using assms(1) by (simp add: mc_ok_def)
  show "emits_ok out ?m"
  proof (cases "caps_contains (program_caps (mc_program c)) SUBFRAMES")
    case True
    then show ?thesis using assms(2) c by (intro emits_ok_expanding) auto
  next
    case False
    then have "length out \<le> 1" using outputs_of_bound(1) [OF assms(3,1)] by auto
    then show ?thesis using assms(2) by (cases out) (auto simp: emit_allowed_def)
  qed
  show "emits_ok (mc_reorder c) ((mc_machine c)\<lparr>m_stage := Draining, m_produced_this_input := 0\<rparr>)"
  proof (cases "caps_contains (program_caps (mc_program c)) DELAY")
    case True
    then show ?thesis using c by (intro emits_ok_draining) auto
  next
    case False
    then show ?thesis using assms(1) by (simp add: mc_ok_def)
  qed
qed

subsection \<open>It delivers what the reference model says\<close>

lemma expected_loop_snoc:
  "expected_loop p n (ids @ [i]) fed q =
    (case expected_loop p n ids fed q of (fed', q') \<Rightarrow> expected_loop p (n + length ids) [i] fed' q')"
  by (induction p n ids fed q rule: expected_loop.induct)
    (auto split: mock_step.splits prod.splits simp: add.commute)

lemma expected_step:
  assumes "expected (mc_program c) ids = (fed, mc_reorder c)" "mc_inputs c = length ids"
    "outputs_of c i = (out, q)"
  shows "expected (mc_program c) (ids @ [i]) = (fed @ out, q)"
  using assms by (auto simp: expected_def expected_loop_snoc outputs_of_def split: mock_step.splits prod.splits)

text \<open>
  A caller that records, since the last flush, the inputs the codec took and the outputs it
  handed over.
\<close>

fun client ::
  "nat call list \<Rightarrow> mock_codec \<Rightarrow> nat list \<Rightarrow> mock_unit list \<Rightarrow> nat list \<times> mock_unit list \<times> mock_codec" where
  "client [] c ids outs = (ids, outs, c)"
| "client (Send (Some i) # cs) c ids outs =
     (case mc_send (Some i) c of
        (Inl OutputPending, c') \<Rightarrow> client cs c' ids outs
      | (Inl Eof, c') \<Rightarrow> client cs c' ids outs
      | (_, c') \<Rightarrow> client cs c' (ids @ [i]) outs)"
| "client (Send None # cs) c ids outs = client cs (snd (mc_send None c)) ids outs"
| "client (Receive # cs) c ids outs =
     (case mc_receive c of
        (Inr x, c') \<Rightarrow> client cs c' ids (outs @ [x])
      | (Inl _, c') \<Rightarrow> client cs c' ids outs)"
| "client (Flush # cs) c ids outs = client cs (mc_flush c) [] []"

definition follows :: "mock_program \<Rightarrow> nat list \<Rightarrow> mock_unit list \<Rightarrow> mock_codec \<Rightarrow> bool" where
  "follows p ids outs c \<longleftrightarrow> mc_ok c \<and> mc_program c = p \<and>
     (if m_stage (mc_machine c) = Feeding
      then mc_inputs c = length ids \<and> expected p ids = (outs @ m_queue (mc_machine c), mc_reorder c)
      else outs @ m_queue (mc_machine c) = fst (expected p ids) @ snd (expected p ids))"

lemma follows_send:
  assumes "follows p ids outs c" "length ids + 1 < 2 ^ 64" "mc_send (Some i) c = (r, c')"
  shows "(r = Inl OutputPending \<or> r = Inl Eof) \<and> follows p ids outs c' \<or>
    input_taken r \<and> follows p (ids @ [i]) outs c'"
proof (cases "m_stage (mc_machine c) = Feeding")
  case False
  then show ?thesis using assms mc_send_refused [OF False, of "Some i"] by auto
next
  case F: True
  show ?thesis
  proof (cases "length (m_queue (mc_machine c)) < m_capacity (mc_machine c)")
    case False
    then show ?thesis using assms mc_send_full [OF F False, of i] by auto
  next
    case True
    obtain out q where o: "outputs_of c i = (out, q)" by fastforce
    have c: "mc_ok c" "mc_program c = p" "mc_inputs c = length ids"
      "expected (mc_program c) ids = (outs @ m_queue (mc_machine c), mc_reorder c)"
      using assms(1) F by (auto simp: follows_def)
    have "(mc_inputs c + 1) mod 2 ^ 64 = length (ids @ [i])" using c(3) assms(2) by simp
    then show ?thesis
      using mc_send_accepted [OF c(1) F True o] expected_step [OF c(4,3) o] c(2) assms(3)
      by (auto simp: follows_def)
  qed
qed

lemma follows_drain: "follows p ids outs c \<Longrightarrow> follows p ids outs (snd (mc_send None c))"
  using mc_send_drain [of c] mc_send_refused [of c None]
  by (cases "m_stage (mc_machine c) = Feeding") (auto simp: follows_def)

lemma follows_receive:
  assumes "follows p ids outs c"
  shows "case mc_receive c of (Inr x, c') \<Rightarrow> follows p ids (outs @ [x]) c' | (Inl _, c') \<Rightarrow> follows p ids outs c'"
proof (cases "m_queue (mc_machine c)")
  case (Cons x q)
  have "mc_ok c" using assms by (simp add: follows_def)
  from mc_receive_queue [OF this Cons] show ?thesis using assms Cons by (auto simp: follows_def)
next
  case Nil
  show ?thesis
  proof (cases "m_stage (mc_machine c) = Feeding")
    case True
    then have "mc_receive c = (Inl NeedMoreInput, c)" using Nil by (simp add: mc_receive_def m_receive_def)
    then show ?thesis using assms by simp
  next
    case False
    have "mc_ok c" using assms by (simp add: follows_def)
    from mc_receive_empty [OF this Nil False] show ?thesis using assms Nil False by (auto simp: follows_def)
  qed
qed

lemma client_follows:
  assumes "client cs c ids outs = (ids', outs', c')" "follows p ids outs c"
    "length ids + length cs < 2 ^ 64"
  shows "follows p ids' outs' c'"
  using assms
proof (induction cs c ids outs rule: client.induct)
  case (2 i cs c ids outs)
  obtain r c1 where r: "mc_send (Some i) c = (r, c1)" by fastforce
  have "length ids + 1 < 2 ^ 64" using "2.prems"(3) by simp
  from follows_send [OF "2.prems"(2) this r] consider
      (refused) "r = Inl OutputPending \<or> r = Inl Eof" "follows p ids outs c1"
    | (taken) "input_taken r" "follows p (ids @ [i]) outs c1" by blast
  then show ?case
  proof cases
    case refused
    then show ?thesis using 2 r by auto
  next
    case taken
    then show ?thesis using 2 r by (cases rule: input_takenE [OF taken(1)]) auto
  qed
next
  case (4 cs c ids outs)
  then show ?case using follows_receive [OF "4.prems"(2)] by (auto split: prod.splits sum.splits)
next
  case (5 cs c ids outs)
  have "follows p [] [] (mc_flush c)"
    using "5.prems"(2) mc_flush_ok [of c] by (simp add: follows_def expected_def)
  then show ?case using 5 by simp
qed (auto simp: follows_drain)

text \<open>
  C6. The reference codec refines its reference model: for any interleaving of sends, receives
  and flushes, the outputs a caller has received since the last flush are a prefix of what
  \<^verbatim>\<open>expected\<close> computes for the inputs taken, the rest is queued (before the drain) or queued
  and held back, and once end of stream has been reported exactly all of it has been handed
  over: backpressure neither loses, duplicates nor reorders an output.
\<close>

theorem mock_follows_reference:
  assumes "client calls (mc_with_capacity p n) [] [] = (ids, outs, c)" "length calls < 2 ^ 64"
  shows "(m_stage (mc_machine c) = Feeding \<longrightarrow>
        expected p ids = (outs @ m_queue (mc_machine c), mc_reorder c)) \<and>
    (m_stage (mc_machine c) \<noteq> Feeding \<longrightarrow>
        outs @ m_queue (mc_machine c) = fst (expected p ids) @ snd (expected p ids)) \<and>
    (m_stage (mc_machine c) = Drained \<longrightarrow> outs = fst (expected p ids) @ snd (expected p ids))"
proof -
  have "follows p [] [] (mc_with_capacity p n)"
    using mc_with_capacity_ok [of p n]
    by (simp add: follows_def mc_with_capacity_def m_with_capacity_def expected_def)
  then have f: "follows p ids outs c" using client_follows [OF assms(1)] assms(2) by simp
  moreover have "m_queue (mc_machine c) = []" if "m_stage (mc_machine c) = Drained"
    using f that by (auto simp: follows_def mc_ok_def machine_ok_def)
  ultimately show ?thesis by (auto simp: follows_def)
qed

theorem mock_follows_reference_witness:
  "let calls = [Send (Some 7), Send (Some 8), Receive, Send (Some 8), Send None, Receive, Receive];
       p = program_new [Emit 1]; (ids, outs, c) = client calls (mc_with_capacity p 1) [] []
   in ids = [7, 8] \<and> outs = fst (expected p ids) @ snd (expected p ids)"
proof -
  let ?calls = "[Send (Some 7), Send (Some 8), Receive, Send (Some 8), Send None, Receive, Receive]"
    and ?p = "program_new [Emit 1]"
  obtain ids outs c where r: "client ?calls (mc_with_capacity ?p 1) [] [] = (ids, outs, c)"
    by (metis prod_cases3)
  have "ids = [7, 8] \<and> m_stage (mc_machine c) = Drained"
    using r by (auto simp: mc_with_capacity_def m_with_capacity_def program_new_def program_caps_def
      mc_send_def m_accept_def program_step_def get_at_def Let_def subs_def m_emit_all_def m_emit_def
      mc_receive_def m_receive_def m_finish_def)
  then show ?thesis using mock_follows_reference [OF r] r by simp
qed

end
