(* ===== verification/Io_Sink.thy ===== *)
theory Io_Sink
  imports Limits_Budget
begin

text \<open>
  In-memory sinks and sources: \<^verbatim>\<open>crates/io/vaco-io/src/dynbuf.rs\<close> and \<^verbatim>\<open>memory.rs\<close>.

  \<^verbatim>\<open>DynBuf\<close> is a growable buffer that behaves as a file and charges its growth to a budget.
  As in \<open>Limits_Budget\<close>, the allocator is a function from the requested to the obtained
  capacity. What the writers above a sink rely on is the locale \<open>media_sink\<close>.
\<close>

section \<open>The model\<close>

datatype io_error = IoLimit core_limit_exceeded | UnexpectedEof | NotSeekable | Cancelled | IoFailure string

text \<open>
  \<^verbatim>\<open>replay\<close> rebuilds an error that is kept for later calls; a cancellation falls under its last
  case and comes back as an I/O failure.
\<close>

definition replay :: "io_error \<Rightarrow> io_error" where
  "replay e =
     (case e of
        IoLimit l \<Rightarrow> IoLimit l
      | UnexpectedEof \<Rightarrow> UnexpectedEof
      | NotSeekable \<Rightarrow> NotSeekable
      | IoFailure m \<Rightarrow> IoFailure m
      | Cancelled \<Rightarrow> IoFailure ''cancelled'')"

subsection \<open>The growable sink\<close>

record dyn_buf =
  db_buf :: "u8 list"
  db_capacity :: nat
  db_pos :: nat
  db_limit :: nat
  db_budget :: budget
  db_charged :: nat

definition db_with_limits :: "limits \<Rightarrow> dyn_buf" where
  "db_with_limits l =
     \<lparr>db_buf = [], db_capacity = 0, db_pos = 0, db_limit = sat_u 64 (max_alloc_single l),
      db_budget = bd_new l, db_charged = 0\<rparr>"

definition db_new :: dyn_buf where
  "db_new = db_with_limits strict"

definition db_set_limit :: "nat \<Rightarrow> dyn_buf \<Rightarrow> dyn_buf" where
  "db_set_limit n d = d\<lparr>db_limit := n\<rparr>"

definition db_clear :: "dyn_buf \<Rightarrow> dyn_buf" where
  "db_clear d = d\<lparr>db_buf := [], db_pos := 0\<rparr>"

definition reserve_to :: "(nat \<Rightarrow> nat option) \<Rightarrow> nat \<Rightarrow> dyn_buf \<Rightarrow> (io_error + unit) \<times> dyn_buf" where
  "reserve_to grow want d =
     (if want > db_limit d then (Inl (IoLimit (LimitExceeded ''dynbuf'' want (db_limit d))), d)
      else if want \<le> db_capacity d then (Inr (), d)
      else let target = min (max want (sat_u 64 (db_capacity d * 2))) (db_limit d);
               extra = target - db_capacity d
           in case charge extra (db_budget d) of
                (Inl e, b) \<Rightarrow> (Inl (IoLimit (core_error_of_limit e)), d\<lparr>db_budget := b\<rparr>)
              | (Inr _, b) \<Rightarrow>
                  let d' = d\<lparr>db_budget := b, db_charged := sat_u 64 (db_charged d + extra)\<rparr>
                  in case grow target of
                       None \<Rightarrow> (Inl (IoLimit (LimitExceeded ''allocator'' target (db_limit d))), d')
                     | Some cap \<Rightarrow> (Inr (), d'\<lparr>db_capacity := cap\<rparr>))"

text \<open>Copying into the middle of a buffer, \<^verbatim>\<open>get_mut(pos..end)\<close> and \<^verbatim>\<open>copy_from_slice\<close>.\<close>

definition overwrite :: "u8 list \<Rightarrow> nat \<Rightarrow> u8 list \<Rightarrow> u8 list option" where
  "overwrite xs p ys =
     (if p + length ys \<le> length xs then Some (take p xs @ ys @ drop (p + length ys) xs) else None)"

definition db_store :: "u8 list \<Rightarrow> dyn_buf \<Rightarrow> (io_error + unit) \<times> dyn_buf" where
  "db_store data d =
     (case overwrite (db_buf d) (db_pos d) data of
        None \<Rightarrow> (Inl UnexpectedEof, d)
      | Some xs \<Rightarrow> (Inr (), d\<lparr>db_buf := xs, db_pos := db_pos d + length data\<rparr>))"

definition db_write :: "(nat \<Rightarrow> nat option) \<Rightarrow> u8 list \<Rightarrow> dyn_buf \<Rightarrow> (io_error + unit) \<times> dyn_buf" where
  "db_write grow data d =
     (case checked_u 64 (db_pos d + length data) of
        None \<Rightarrow> (Inl (IoLimit (LimitExceeded ''dynbuf'' U64_MAX (db_limit d))), d)
      | Some fin \<Rightarrow>
          if fin > length (db_buf d)
          then (case reserve_to grow fin d of
                  (Inl e, d') \<Rightarrow> (Inl e, d')
                | (Inr _, d') \<Rightarrow>
                    db_store data (d'\<lparr>db_buf := db_buf d' @ replicate (fin - length (db_buf d')) 0\<rparr>))
          else db_store data d)"

definition db_seek :: "nat \<Rightarrow> dyn_buf \<Rightarrow> (io_error + nat) \<times> dyn_buf" where
  "db_seek p d =
     (if p > db_limit d then (Inl (IoLimit (LimitExceeded ''dynbuf'' p (db_limit d))), d)
      else (Inr p, d\<lparr>db_pos := p\<rparr>))"

definition db_flush :: "dyn_buf \<Rightarrow> (io_error + unit) \<times> dyn_buf" where
  "db_flush d = (Inr (), d)"

text \<open>\<^verbatim>\<open>SharedDynBuf::take\<close>, on the buffer behind the lock.\<close>

definition shared_take :: "dyn_buf \<Rightarrow> u8 list \<times> dyn_buf" where
  "shared_take d = (db_buf d, db_clear d)"

subsection \<open>The in-memory source\<close>

datatype seekability = Cheap | Expensive | Unseekable

record memory_source =
  ms_data :: "u8 list"
  ms_pos :: nat
  ms_seekability :: seekability

definition ms_new :: "u8 list \<Rightarrow> memory_source" where
  "ms_new bs = \<lparr>ms_data = bs, ms_pos = 0, ms_seekability = Cheap\<rparr>"

definition ms_forward_only :: "u8 list \<Rightarrow> memory_source" where
  "ms_forward_only bs = \<lparr>ms_data = bs, ms_pos = 0, ms_seekability = Unseekable\<rparr>"

definition ms_expensive :: "u8 list \<Rightarrow> memory_source" where
  "ms_expensive bs = \<lparr>ms_data = bs, ms_pos = 0, ms_seekability = Expensive\<rparr>"

text \<open>\<^verbatim>\<open>read\<close> into a buffer of \<open>n\<close> bytes returns the bytes copied.\<close>

definition ms_read :: "nat \<Rightarrow> memory_source \<Rightarrow> u8 list \<times> memory_source" where
  "ms_read n s =
     (case slice_from (ms_data s) (ms_pos s) of
        None \<Rightarrow> ([], s)
      | Some rest \<Rightarrow>
          let k = min (length rest) n in (take k rest, s\<lparr>ms_pos := ms_pos s + k\<rparr>))"

definition ms_seek :: "nat \<Rightarrow> memory_source \<Rightarrow> (io_error + nat) \<times> memory_source" where
  "ms_seek p s =
     (if ms_seekability s = Unseekable then (Inl NotSeekable, s)
      else let q = sat_u 64 p in (Inr q, s\<lparr>ms_pos := q\<rparr>))"

definition ms_peek :: "nat \<Rightarrow> memory_source \<Rightarrow> u8 list" where
  "ms_peek n s =
     (case slice_from (ms_data s) (ms_pos s) of
        None \<Rightarrow> []
      | Some rest \<Rightarrow> take (min n (length rest)) rest)"

section \<open>Files\<close>

text \<open>Writing into a file: a gap before the position is filled with zeros.\<close>

definition write_at :: "u8 list \<Rightarrow> nat \<Rightarrow> u8 list \<Rightarrow> u8 list" where
  "write_at xs p ys = take p (xs @ replicate (p - length xs) 0) @ ys @ drop (p + length ys) xs"

lemma length_write_at [simp]: "length (write_at xs p ys) = max (length xs) (p + length ys)"
  by (auto simp: write_at_def)

lemma write_at_end: "write_at xs (length xs) ys = xs @ ys"
  by (simp add: write_at_def)

lemma nth_write_at:
  "i < max (length xs) (p + length ys) \<Longrightarrow> write_at xs p ys ! i =
    (if p \<le> i \<and> i < p + length ys then ys ! (i - p) else if i < length xs then xs ! i else 0)"
  by (auto simp: write_at_def nth_append min_def)

lemma write_at_append: "write_at (write_at xs p ys) (p + length ys) zs = write_at xs p (ys @ zs)"
  by (intro nth_equalityI) (auto simp: nth_write_at nth_append)

lemma write_at_patch:
  assumes "length zs = length ys"
  shows "write_at (write_at xs p (ys @ rest)) p zs = write_at xs p (zs @ rest)"
  using assms by (intro nth_equalityI) (auto simp: nth_write_at nth_append)

locale media_sink =
  fixes put :: "u8 list \<Rightarrow> 's \<Rightarrow> (io_error + unit) \<times> 's"
    and seek :: "nat \<Rightarrow> 's \<Rightarrow> (io_error + nat) \<times> 's"
    and flush :: "'s \<Rightarrow> (io_error + unit) \<times> 's"
    and contents :: "'s \<Rightarrow> u8 list"
    and position :: "'s \<Rightarrow> nat"
    and ok :: "'s \<Rightarrow> bool"
  assumes position_fits: "ok s \<Longrightarrow> position s < 2 ^ 64"
    and write_ok: "ok s \<Longrightarrow> put ys s = (Inr u, s') \<Longrightarrow>
      ok s' \<and> contents s' = write_at (contents s) (position s) ys \<and> position s' = position s + length ys"
    and write_err: "ok s \<Longrightarrow> put ys s = (Inl e, s') \<Longrightarrow>
      ok s' \<and> contents s' = contents s \<and> position s' = position s"
    and seek_ok: "ok s \<Longrightarrow> seek p s = (Inr q, s') \<Longrightarrow>
      ok s' \<and> q = p \<and> contents s' = contents s \<and> position s' = p"
    and seek_err: "ok s \<Longrightarrow> seek p s = (Inl e, s') \<Longrightarrow>
      ok s' \<and> contents s' = contents s \<and> position s' = position s"
    and flush_keeps: "ok s \<Longrightarrow> flush s = (r, s') \<Longrightarrow>
      ok s' \<and> contents s' = contents s \<and> position s' = position s"
begin

text \<open>
  The write-measure-patch pattern of muxers: a placeholder, a body, back to the placeholder,
  and the final header over it.
\<close>

lemma patch:
  assumes "ok s" "put hole s = (Inr u1, s1)" "put body s1 = (Inr u2, s2)"
    "seek (position s) s2 = (Inr q, s3)" "put header s3 = (Inr u3, s4)" "length header = length hole"
  shows "contents s4 = write_at (contents s) (position s) (header @ body)"
proof -
  have 1: "ok s1" "contents s1 = write_at (contents s) (position s) hole" "position s1 = position s + length hole"
    using write_ok [OF assms(1,2)] by auto
  have 2: "ok s2" "contents s2 = write_at (contents s) (position s) (hole @ body)"
    using write_ok [OF 1(1) assms(3)] 1(2,3) write_at_append by auto
  have 3: "ok s3" "contents s3 = contents s2" "position s3 = position s"
    using seek_ok [OF 2(1) assms(4)] by auto
  show ?thesis
    using write_ok [OF 3(1) assms(5)] 2 3 write_at_patch [OF assms(6)] by simp
qed

end

section \<open>The growable sink is a file\<close>

definition db_ok :: "dyn_buf \<Rightarrow> bool" where
  "db_ok d \<longleftrightarrow> budget_ok (db_budget d) \<and> live (db_budget d) = db_charged d \<and>
     db_pos d < 2 ^ 64 \<and> db_limit d < 2 ^ 64"

lemma overwrite_write_at:
  assumes "p + length ys \<le> length xs + k" "length xs \<le> p + length ys \<longrightarrow> length xs + k = p + length ys"
    "length xs > p + length ys \<longrightarrow> k = 0"
  shows "overwrite (xs @ replicate k 0) p ys = Some (write_at xs p ys)"
proof -
  have "take p (xs @ replicate k 0) = take p (xs @ replicate (p - length xs) 0)"
    using assms by (auto simp: take_append min_def)
  moreover have "drop (p + length ys) (xs @ replicate k 0) = drop (p + length ys) xs"
    using assms by auto
  ultimately show ?thesis using assms by (simp add: overwrite_def write_at_def)
qed

lemma reserve_to_keeps:
  assumes "reserve_to grow want d = (r, d')" "db_ok d"
  shows "db_ok d' \<and> db_buf d' = db_buf d \<and> db_pos d' = db_pos d \<and> db_limit d' = db_limit d \<and>
    bd_limits (db_budget d') = bd_limits (db_budget d) \<and>
    (r = Inr () \<longrightarrow> want \<le> db_limit d)"
proof (cases "want > db_limit d \<or> want \<le> db_capacity d")
  case True
  then show ?thesis using assms by (auto simp: reserve_to_def split: if_splits)
next
  case False
  define t where "t = min (max want (sat_u 64 (db_capacity d * 2))) (db_limit d)"
  define x where "x = t - db_capacity d"
  have b: "budget_ok (db_budget d)" "live (db_budget d) = db_charged d" using assms(2) by (auto simp: db_ok_def)
  obtain r' b' where c: "charge x (db_budget d) = (r', b')" by fastforce
  have s: "sat_u 64 (db_charged d + x) = db_charged d + x" if "r' = Inr ()"
  proof (rule sat_u_id)
    have "live (db_budget d) + x \<le> max_alloc_total (bd_limits (db_budget d))"
      using charge_cases [OF b(1), of x] c that by (auto split: if_splits)
    then show "fits_u 64 (db_charged d + x)" using b by (simp add: fits_u_def budget_ok_def limits_ok_def)
  qed
  have b': "(r' = Inr () \<and> budget_ok b' \<and> live b' = live (db_budget d) + x \<or> r' \<noteq> Inr () \<and> b' = db_budget d) \<and>
      bd_limits b' = bd_limits (db_budget d)"
    using charge_cases [OF b(1), of x] c by (auto simp: live_def split: if_splits)
  have e: "reserve_to grow want d =
      (case r' of Inl e \<Rightarrow> (Inl (IoLimit (core_error_of_limit e)), d\<lparr>db_budget := b'\<rparr>)
       | Inr _ \<Rightarrow> let d' = d\<lparr>db_budget := b', db_charged := sat_u 64 (db_charged d + x)\<rparr>
           in case grow t of
                None \<Rightarrow> (Inl (IoLimit (LimitExceeded ''allocator'' t (db_limit d))), d')
              | Some cap \<Rightarrow> (Inr (), d'\<lparr>db_capacity := cap\<rparr>))"
    using False c unfolding reserve_to_def Let_def t_def [symmetric] x_def [symmetric] by simp
  show ?thesis
  proof (cases r')
    case (Inl err)
    then show ?thesis using assms e b' b by (auto simp: db_ok_def)
  next
    case (Inr u)
    then have "r' = Inr ()" by simp
    then show ?thesis using assms e b' b s [OF \<open>r' = Inr ()\<close>] False
      by (cases "grow t") (auto simp: db_ok_def Let_def)
  qed
qed

lemma db_write_cases:
  fixes ys :: "u8 list" and s :: dyn_buf
  assumes "db_ok s"
  defines "fin \<equiv> db_pos s + length ys"
  shows "db_write grow ys s =
    (if fin \<ge> 2 ^ 64 then (Inl (IoLimit (LimitExceeded ''dynbuf'' U64_MAX (db_limit s))), s)
     else if fin > length (db_buf s)
     then (case reserve_to grow fin s of
             (Inl e, d) \<Rightarrow> (Inl e, d)
           | (Inr _, d) \<Rightarrow> (Inr (), d\<lparr>db_buf := write_at (db_buf s) (db_pos s) ys, db_pos := fin\<rparr>))
     else (Inr (), s\<lparr>db_buf := write_at (db_buf s) (db_pos s) ys, db_pos := fin\<rparr>))"
proof -
  have store: "db_store ys (d\<lparr>db_buf := db_buf d @ replicate (fin - length (db_buf d)) 0\<rparr>) =
      (Inr (), d\<lparr>db_buf := write_at (db_buf s) (db_pos s) ys, db_pos := fin\<rparr>)"
    if "db_buf d = db_buf s" "db_pos d = db_pos s" for d
    using that overwrite_write_at [of "db_pos s" ys "db_buf s" "fin - length (db_buf s)"]
    by (simp add: db_store_def fin_def)
  obtain r d where r: "reserve_to grow fin s = (r, d)" by fastforce
  note k = reserve_to_keeps [OF r assms(1)]
  have c: "checked_u 64 fin = (if fin \<ge> 2 ^ 64 then None else Some fin)"
    by (simp add: checked_u_def fits_u_def)
  have "db_store ys s = (Inr (), s\<lparr>db_buf := write_at (db_buf s) (db_pos s) ys, db_pos := fin\<rparr>)"
    if "\<not> fin > length (db_buf s)" using store [of s] that by simp
  then show ?thesis
    unfolding db_write_def fin_def [symmetric] c using store [of d] k r by (cases r) simp_all
qed

lemma db_write_result:
  assumes "db_ok s" "db_write grow ys s = (r, s')"
  shows "db_ok s' \<and> db_limit s' = db_limit s \<and> bd_limits (db_budget s') = bd_limits (db_budget s) \<and>
    (if r = Inr () then db_buf s' = write_at (db_buf s) (db_pos s) ys \<and> db_pos s' = db_pos s + length ys
     else db_buf s' = db_buf s \<and> db_pos s' = db_pos s)"
proof -
  obtain r1 d where r1: "reserve_to grow (db_pos s + length ys) s = (r1, d)" by fastforce
  note k = reserve_to_keeps [OF r1 assms(1)]
  show ?thesis
    using assms(2) k assms(1) unfolding db_write_cases [OF assms(1)] r1 split_conv
    by (cases r1) (auto simp: db_ok_def split: if_splits)
qed

interpretation dynbuf: media_sink "db_write grow" db_seek db_flush db_buf db_pos db_ok for grow
proof
  fix s s' :: dyn_buf and ys :: "u8 list" and u :: unit and e :: io_error and p q :: nat and r
  assume ok: "db_ok s"
  then show "db_pos s < 2 ^ 64" by (simp add: db_ok_def)
  show "db_write grow ys s = (Inr u, s') \<Longrightarrow>
      db_ok s' \<and> db_buf s' = write_at (db_buf s) (db_pos s) ys \<and> db_pos s' = db_pos s + length ys"
    using db_write_result [OF ok, of grow ys "Inr u" s'] by simp
  show "db_write grow ys s = (Inl e, s') \<Longrightarrow> db_ok s' \<and> db_buf s' = db_buf s \<and> db_pos s' = db_pos s"
    using db_write_result [OF ok, of grow ys "Inl e" s'] by simp
  show "db_seek p s = (Inr q, s') \<Longrightarrow> db_ok s' \<and> q = p \<and> db_buf s' = db_buf s \<and> db_pos s' = p"
    using ok by (auto simp: db_seek_def db_ok_def split: if_splits)
  show "db_seek p s = (Inl e, s') \<Longrightarrow> db_ok s' \<and> db_buf s' = db_buf s \<and> db_pos s' = db_pos s"
    using ok by (auto simp: db_seek_def split: if_splits)
  show "db_flush s = (r, s') \<Longrightarrow> db_ok s' \<and> db_buf s' = db_buf s \<and> db_pos s' = db_pos s"
    using ok by (simp add: db_flush_def)
qed

text \<open>
  The charge covers at most the capacity: with a limit within both caps, a growth that stays
  within the limit is always admitted.
\<close>

definition db_sized :: "dyn_buf \<Rightarrow> bool" where
  "db_sized d \<longleftrightarrow> db_ok d \<and> length (db_buf d) \<le> db_capacity d \<and> db_charged d \<le> db_capacity d"

lemma db_with_limits_sized: "limits_ok l \<Longrightarrow> db_sized (db_with_limits l)"
  using bd_new_ok [of l] fits_u_sat_u [of 64 "max_alloc_single l", unfolded fits_u_def]
  by (simp add: db_sized_def db_ok_def db_with_limits_def live_def bd_new_def)

lemma reserve_to_sized:
  assumes "db_sized d" "\<And>c c'. grow c = Some c' \<Longrightarrow> c \<le> c'" "reserve_to grow want d = (Inr (), d')"
  shows "db_sized d' \<and> want \<le> db_capacity d' \<and> db_capacity d \<le> db_capacity d'"
proof (cases "want \<le> db_capacity d")
  case True
  then show ?thesis using assms(1,3) by (auto simp: reserve_to_def split: if_splits)
next
  case False
  define t where "t = min (max want (sat_u 64 (db_capacity d * 2))) (db_limit d)"
  have w: "want \<le> db_limit d" using assms(3) by (auto simp: reserve_to_def split: if_splits)
  then have t: "want \<le> t" "db_capacity d < t" using False by (auto simp: t_def)
  have k: "db_ok d'" "db_buf d' = db_buf d"
    using reserve_to_keeps [OF assms(3)] assms(1) by (auto simp: db_sized_def)
  obtain cap where cap: "grow t = Some cap" "db_capacity d' = cap"
      "db_charged d' = sat_u 64 (db_charged d + (t - db_capacity d))"
    using assms(3) False w unfolding reserve_to_def Let_def t_def [symmetric]
    by (auto split: prod.splits sum.splits option.splits)
  have "t \<le> cap" using assms(2) [OF cap(1)] .
  moreover have "db_charged d' \<le> t"
    using sat_u_le(2) [of 64 "db_charged d + (t - db_capacity d)"] cap(3) assms(1) t(2)
    unfolding db_sized_def by linarith
  ultimately show ?thesis using k cap(2) t assms(1) by (simp add: db_sized_def)
qed

lemma reserve_to_succeeds:
  assumes "db_sized d" "\<forall>c. grow c \<noteq> None" "want \<le> db_limit d"
    "db_limit d \<le> max_alloc_single (bd_limits (db_budget d))"
    "db_limit d \<le> max_alloc_total (bd_limits (db_budget d))"
  shows "fst (reserve_to grow want d) = Inr ()"
proof (cases "want \<le> db_capacity d")
  case True
  then show ?thesis using assms(3) by (simp add: reserve_to_def)
next
  case False
  define t where "t = min (max want (sat_u 64 (db_capacity d * 2))) (db_limit d)"
  have t: "t \<le> db_limit d" "db_capacity d < t" using False assms(3) by (auto simp: t_def)
  have ok: "budget_ok (db_budget d)" "live (db_budget d) = db_charged d" "db_charged d \<le> db_capacity d"
    using assms(1) by (auto simp: db_sized_def db_ok_def)
  obtain b where "charge (t - db_capacity d) (db_budget d) = (Inr (), b)"
    using charge_cases [OF ok(1), of "t - db_capacity d"] ok(2,3) t assms(4,5) by (auto split: if_splits)
  moreover obtain cap where "grow t = Some cap" using assms(2) by blast
  ultimately show ?thesis
    using False assms(3) unfolding reserve_to_def Let_def t_def [symmetric] by simp
qed

lemma reserve_to_refused:
  assumes "db_ok d" "\<forall>c. grow c \<noteq> None" "reserve_to grow want d = (Inl e, d')"
  shows "d' = d"
proof -
  have b: "budget_ok (db_budget d)" using assms(1) by (simp add: db_ok_def)
  have "b = db_budget d" if "charge n (db_budget d) = (Inl err, b)" for n err b
    using charge_cases [OF b, of n] that by (auto split: if_splits)
  moreover obtain g where "grow = (\<lambda>c. Some (g c))"
    using that [of "\<lambda>c. the (grow c)"] assms(2) by auto
  ultimately show ?thesis
    using assms(3) by (auto simp: reserve_to_def Let_def split: if_splits prod.splits sum.splits option.splits)
qed

lemma db_write_sized:
  assumes "db_sized d" "\<And>c c'. grow c = Some c' \<Longrightarrow> c \<le> c'" "db_write grow ys d = (Inr (), d')"
  shows "db_sized d' \<and> (length (db_buf d') \<le> db_limit d \<or> length (db_buf d') = length (db_buf d))"
proof -
  have ok: "db_ok d" using assms(1) by (simp add: db_sized_def)
  let ?fin = "db_pos d + length ys"
  obtain r d1 where r: "reserve_to grow ?fin d = (r, d1)" by fastforce
  note k = reserve_to_keeps [OF r ok] and res = db_write_result [OF ok assms(3)]
  show ?thesis
  proof (cases "?fin > length (db_buf d)")
    case True
    then have "r = Inr ()" "d' = d1\<lparr>db_buf := write_at (db_buf d) (db_pos d) ys, db_pos := ?fin\<rparr>"
      using assms(3) unfolding db_write_cases [OF ok] r split_conv by (cases r; auto split: if_splits)+
    then show ?thesis using reserve_to_sized [of d grow ?fin d1] assms(1,2) r k True res
      by (auto simp: db_sized_def)
  next
    case False
    then have "d' = d\<lparr>db_buf := write_at (db_buf d) (db_pos d) ys, db_pos := ?fin\<rparr>"
      using assms(3) unfolding db_write_cases [OF ok] by (auto split: if_splits)
    then show ?thesis using assms(1) False res by (auto simp: db_sized_def)
  qed
qed

lemma db_write_succeeds:
  assumes "db_sized d" "\<forall>c. grow c \<noteq> None" "db_pos d + length ys \<le> db_limit d"
    "db_limit d \<le> max_alloc_single (bd_limits (db_budget d))"
    "db_limit d \<le> max_alloc_total (bd_limits (db_budget d))"
  shows "fst (db_write grow ys d) = Inr ()"
proof -
  have ok: "db_ok d" "db_limit d < 2 ^ 64" using assms(1) by (auto simp: db_sized_def db_ok_def)
  obtain r d1 where r: "reserve_to grow (db_pos d + length ys) d = (r, d1)" by fastforce
  have "r = Inr ()" using reserve_to_succeeds [OF assms] r by simp
  then show ?thesis using assms(3) ok(2) r unfolding db_write_cases [OF ok(1)] by simp
qed

lemma db_write_refused:
  assumes "db_ok d" "\<forall>c. grow c \<noteq> None" "db_write grow ys d = (Inl e, d')"
  shows "d' = d"
  using assms(3) reserve_to_refused [OF assms(1,2)] unfolding db_write_cases [OF assms(1)]
  by (auto split: if_splits prod.splits sum.splits)

text \<open>
  A \<^verbatim>\<open>DynBuf\<close> is a file within its limit: a successful write puts its bytes at the
  position, filling a gap with zeros and keeping everything else, and moves the position past
  them; a failed write changes neither; the write-measure-patch pattern leaves header and body.
  A write that ends within the limit succeeds whenever the allocator does and the limit is
  within the caps, the charge never exceeds the capacity, and every byte charged is accounted
  in the budget.
\<close>

theorem dynbuf_is_file:
  assumes "db_sized d" "\<forall>c c'. grow c = Some c' \<longrightarrow> c \<le> c'"
  shows "(case db_write grow ys d of
      (Inr _, d') \<Rightarrow> db_buf d' = write_at (db_buf d) (db_pos d) ys \<and> db_pos d' = db_pos d + length ys \<and>
        db_sized d' \<and> (length (db_buf d') \<le> db_limit d \<or> length (db_buf d') = length (db_buf d))
    | (Inl _, d') \<Rightarrow> db_buf d' = db_buf d \<and> db_pos d' = db_pos d \<and> db_ok d') \<and>
    ((\<forall>c. grow c \<noteq> None) \<and> db_limit d < 2 ^ 64 \<and>
      db_limit d \<le> max_alloc_single (bd_limits (db_budget d)) \<and>
      db_limit d \<le> max_alloc_total (bd_limits (db_budget d)) \<and> db_pos d + length ys \<le> db_limit d \<longrightarrow>
      fst (db_write grow ys d) = Inr ()) \<and>
    (db_write grow hole d = (Inr (), d1) \<and> db_write grow body d1 = (Inr (), d2) \<and>
      db_seek (db_pos d) d2 = (Inr q, d3) \<and> db_write grow header d3 = (Inr (), d4) \<and>
      length header = length hole \<longrightarrow> db_buf d4 = write_at (db_buf d) (db_pos d) (header @ body))"
proof (intro conjI impI)
  have ok: "db_ok d" using assms(1) by (simp add: db_sized_def)
  obtain w d' where w: "db_write grow ys d = (w, d')" by fastforce
  show "case db_write grow ys d of
      (Inr _, d') \<Rightarrow> db_buf d' = write_at (db_buf d) (db_pos d) ys \<and> db_pos d' = db_pos d + length ys \<and>
        db_sized d' \<and> (length (db_buf d') \<le> db_limit d \<or> length (db_buf d') = length (db_buf d))
    | (Inl _, d') \<Rightarrow> db_buf d' = db_buf d \<and> db_pos d' = db_pos d \<and> db_ok d'"
    using db_write_result [OF ok w] db_write_sized [OF assms(1), of grow ys d'] assms(2) w by (cases w) auto
  assume "(\<forall>c. grow c \<noteq> None) \<and> db_limit d < 2 ^ 64 \<and>
      db_limit d \<le> max_alloc_single (bd_limits (db_budget d)) \<and>
      db_limit d \<le> max_alloc_total (bd_limits (db_budget d)) \<and> db_pos d + length ys \<le> db_limit d"
  then show "fst (db_write grow ys d) = Inr ()" using db_write_succeeds [OF assms(1)] by simp
next
  have ok: "db_ok d" using assms(1) by (simp add: db_sized_def)
  assume "db_write grow hole d = (Inr (), d1) \<and> db_write grow body d1 = (Inr (), d2) \<and>
      db_seek (db_pos d) d2 = (Inr q, d3) \<and> db_write grow header d3 = (Inr (), d4) \<and>
      length header = length hole"
  then show "db_buf d4 = write_at (db_buf d) (db_pos d) (header @ body)"
    using dynbuf.patch [OF ok] by blast
qed

theorem dynbuf_is_file_witness:
  "fst (db_write Some [1, 2, 3] (db_with_limits tiny)) = Inr ()"
proof -
  have s: "db_sized (db_with_limits tiny)" by (rule db_with_limits_sized) (simp add: limits_ok_def tiny_def)
  have "fst (db_write Some [1, 2, 3] (db_with_limits tiny)) = Inr ()"
    if "db_limit (db_with_limits tiny) = 2 ^ 14" "db_pos (db_with_limits tiny) = 0"
      "bd_limits (db_budget (db_with_limits tiny)) = tiny"
    using conjunct1 [OF conjunct2 [OF dynbuf_is_file [OF s, of Some "[1, 2, 3]"]]] that
    by (simp add: tiny_def)
  then show ?thesis by (simp add: db_with_limits_def tiny_def sat_u_def bd_new_def)
qed

section \<open>The in-memory source\<close>

text \<open>
  Reading in chunks of any positive sizes returns the rest of the data; peeking does not move;
  a source that is not seekable refuses and stays; seeking past the end reads nothing.
\<close>

fun read_chunks :: "nat list \<Rightarrow> memory_source \<Rightarrow> u8 list \<times> memory_source" where
  "read_chunks [] s = ([], s)"
| "read_chunks (n # ns) s =
     (case ms_read n s of (xs, s') \<Rightarrow> (case read_chunks ns s' of (ys, s'') \<Rightarrow> (xs @ ys, s'')))"

lemma ms_read_cases:
  "ms_read n s = (take n (drop (ms_pos s) (ms_data s)),
     s\<lparr>ms_pos := ms_pos s + min n (length (ms_data s) - ms_pos s)\<rparr>)"
  by (cases s) (auto simp: ms_read_def slice_from_def Let_def min_def)

lemma read_chunks_take:
  "fst (read_chunks ns s) = take (sum_list ns) (drop (ms_pos s) (ms_data s))"
proof (induction ns arbitrary: s)
  case (Cons n ns)
  show ?case
  proof (cases "n \<le> length (ms_data s) - ms_pos s")
    case True
    then show ?thesis
      using Cons.IH [of "s\<lparr>ms_pos := ms_pos s + n\<rparr>"]
      by (simp add: ms_read_cases take_add add.commute split_beta min_absorb1)
  next
    case False
    then show ?thesis
      using Cons.IH [of "s\<lparr>ms_pos := ms_pos s + (length (ms_data s) - ms_pos s)\<rparr>"]
      by (simp add: ms_read_cases split_beta min_absorb2)
  qed
qed simp

lemma memory_source_behaviour:
  "fst (read_chunks ns (ms_new bs)) = take (sum_list ns) bs"
  "ms_peek n s = fst (ms_read n s)"
  "ms_seek p (ms_forward_only bs) = (Inl NotSeekable, ms_forward_only bs)"
  "ms_seek p s = (Inr q, s') \<Longrightarrow> length (ms_data s) \<le> q \<Longrightarrow> fst (ms_read n s') = []"
  using read_chunks_take [of ns "ms_new bs"]
  by (auto simp: ms_new_def ms_peek_def ms_read_def slice_from_def Let_def min.commute ms_seek_def
      ms_forward_only_def split: if_splits)

end
