(* ===== verification/Io_Writer.thy ===== *)
theory Io_Writer
  imports Io_Sink Bits_Bytes
begin

text \<open>
  The buffered writer of muxers, \<^verbatim>\<open>crates/io/vaco-io/src/writer.rs\<close>, over any sink. Its
  operations take the sink's \<^verbatim>\<open>write\<close>, \<^verbatim>\<open>seek\<close> and \<^verbatim>\<open>flush\<close>; buffering is proved to be
  transparent for every sink that keeps the contract \<open>media_sink\<close>, in particular for
  \<^verbatim>\<open>DynBuf\<close>, and fields written through it are read back by the byte reader.
\<close>

section \<open>The model\<close>

datatype data_marker = Header | Trailer | SyncPoint | BoundaryPoint | Unknown | FlushPoint

record 's io_writer =
  iw_sink :: 's
  iw_buf :: "u8 list"
  iw_len :: nat
  iw_base :: nat
  iw_err :: "io_error option"
  iw_bytes_written :: nat
  iw_direct :: bool
  iw_marker :: data_marker

definition iw_new ::
  "(nat \<Rightarrow> nat option) \<Rightarrow> ('s \<Rightarrow> nat) \<Rightarrow> limits \<Rightarrow> nat \<Rightarrow> bool \<Rightarrow> 's \<Rightarrow> io_error + 's io_writer" where
  "iw_new grow position l block_size direct sink =
     (let block = max 64 (min block_size (16 * 1024 * 1024))
      in case bd_alloc grow 1 0 block (bd_new l) of
           (Inl e, _) \<Rightarrow> Inl (IoLimit (core_error_of_limit e))
         | (Inr buf, _) \<Rightarrow>
             Inr \<lparr>iw_sink = sink, iw_buf = buf, iw_len = 0, iw_base = position sink, iw_err = None,
                  iw_bytes_written = 0, iw_direct = direct, iw_marker = Unknown\<rparr>)"

definition iw_pos :: "'s io_writer \<Rightarrow> nat" where
  "iw_pos w = sat_u 64 (iw_base w + iw_len w)"

definition iw_fail :: "io_error \<Rightarrow> 's io_writer \<Rightarrow> (io_error + 'a) \<times> 's io_writer" where
  "iw_fail e w = (Inl (replay e), if iw_err w = None then w\<lparr>iw_err := Some e\<rparr> else w)"

definition sync :: "('s \<Rightarrow> (io_error + unit) \<times> 's) \<Rightarrow> 's io_writer \<Rightarrow> (io_error + unit) \<times> 's io_writer" where
  "sync flush w =
     (case flush (iw_sink w) of
        (Inl e, s) \<Rightarrow> iw_fail e (w\<lparr>iw_sink := s\<rparr>)
      | (Inr _, s) \<Rightarrow> (Inr (), w\<lparr>iw_sink := s\<rparr>))"

text \<open>The accounting after \<open>n\<close> bytes reached the sink.\<close>

definition advance :: "nat \<Rightarrow> 's \<Rightarrow> 's io_writer \<Rightarrow> 's io_writer" where
  "advance n s w = w\<lparr>iw_sink := s, iw_bytes_written := sat_u 64 (iw_bytes_written w + n),
     iw_base := sat_u 64 (iw_base w + n)\<rparr>"

definition iw_flush ::
  "(u8 list \<Rightarrow> 's \<Rightarrow> (io_error + unit) \<times> 's) \<Rightarrow> ('s \<Rightarrow> (io_error + unit) \<times> 's) \<Rightarrow> 's io_writer \<Rightarrow>
     (io_error + unit) \<times> 's io_writer" where
  "iw_flush put flush w =
     (case iw_err w of
        Some e \<Rightarrow> (Inl (replay e), w)
      | None \<Rightarrow>
          if iw_len w > 0
          then (case slice_range (iw_buf w) 0 (iw_len w) of
                  None \<Rightarrow> (Inl UnexpectedEof, w)
                | Some region \<Rightarrow>
                    (case put region (iw_sink w) of
                       (Inl e, s) \<Rightarrow> iw_fail e (w\<lparr>iw_sink := s\<rparr>)
                     | (Inr _, s) \<Rightarrow> sync flush ((advance (iw_len w) s w)\<lparr>iw_len := 0\<rparr>)))
          else sync flush w)"

definition iw_write ::
  "(u8 list \<Rightarrow> 's \<Rightarrow> (io_error + unit) \<times> 's) \<Rightarrow> ('s \<Rightarrow> (io_error + unit) \<times> 's) \<Rightarrow> u8 list \<Rightarrow>
     's io_writer \<Rightarrow> (io_error + unit) \<times> 's io_writer" where
  "iw_write put flush data w =
     (case iw_err w of
        Some e \<Rightarrow> (Inl (replay e), w)
      | None \<Rightarrow>
          if iw_direct w \<or> length data \<ge> length (iw_buf w)
          then (case iw_flush put flush w of
                  (Inl e, w1) \<Rightarrow> (Inl e, w1)
                | (Inr _, w1) \<Rightarrow>
                    (case put data (iw_sink w1) of
                       (Inl e, s) \<Rightarrow> iw_fail e (w1\<lparr>iw_sink := s\<rparr>)
                     | (Inr _, s) \<Rightarrow>
                         let w2 = advance (length data) s w1
                         in if iw_direct w then sync flush w2 else (Inr (), w2)))
          else case (if iw_len w + length data > length (iw_buf w) then iw_flush put flush w else (Inr (), w)) of
                 (Inl e, w1) \<Rightarrow> (Inl e, w1)
               | (Inr _, w1) \<Rightarrow>
                   (case overwrite (iw_buf w1) (iw_len w1) data of
                      None \<Rightarrow> (Inl UnexpectedEof, w1)
                    | Some b \<Rightarrow> (Inr (), w1\<lparr>iw_buf := b, iw_len := iw_len w1 + length data\<rparr>)))"

definition iw_write_marked ::
  "(u8 list \<Rightarrow> 's \<Rightarrow> (io_error + unit) \<times> 's) \<Rightarrow> ('s \<Rightarrow> (io_error + unit) \<times> 's) \<Rightarrow> u8 list \<Rightarrow> data_marker \<Rightarrow>
     's io_writer \<Rightarrow> (io_error + unit) \<times> 's io_writer" where
  "iw_write_marked put flush data marker w = iw_write put flush data (w\<lparr>iw_marker := marker\<rparr>)"

definition iw_seek ::
  "(u8 list \<Rightarrow> 's \<Rightarrow> (io_error + unit) \<times> 's) \<Rightarrow> (nat \<Rightarrow> 's \<Rightarrow> (io_error + nat) \<times> 's) \<Rightarrow>
     ('s \<Rightarrow> (io_error + unit) \<times> 's) \<Rightarrow> nat \<Rightarrow> 's io_writer \<Rightarrow> (io_error + nat) \<times> 's io_writer" where
  "iw_seek put seek flush p w =
     (case iw_flush put flush w of
        (Inl e, w1) \<Rightarrow> (Inl e, w1)
      | (Inr _, w1) \<Rightarrow>
          (case seek p (iw_sink w1) of
             (Inr q, s) \<Rightarrow> (Inr q, w1\<lparr>iw_sink := s, iw_base := q\<rparr>)
           | (Inl e, s) \<Rightarrow> iw_fail e (w1\<lparr>iw_sink := s\<rparr>)))"

subsection \<open>Fields\<close>

text \<open>\<^verbatim>\<open>to_be_bytes\<close> and \<^verbatim>\<open>to_le_bytes\<close> of an \<open>n\<close>-byte integer.\<close>

definition to_be_bytes :: "nat \<Rightarrow> 'a :: len word \<Rightarrow> u8 list" where
  "to_be_bytes n v = be_bytes n (unat v)"

definition to_le_bytes :: "nat \<Rightarrow> 'a :: len word \<Rightarrow> u8 list" where
  "to_le_bytes n v = rev (be_bytes n (unat v))"

datatype field = W8 u8 | WB16 u16 | WL16 u16 | WB24 u32 | WL24 u32 | WB32 u32 | WL32 u32 | WB64 u64 | WL64 u64

fun field_bytes :: "field \<Rightarrow> u8 list" where
  "field_bytes (W8 v) = [v]"
| "field_bytes (WB16 v) = to_be_bytes 2 v"
| "field_bytes (WL16 v) = to_le_bytes 2 v"
| "field_bytes (WB24 v) = drop 1 (to_be_bytes 4 v)"
| "field_bytes (WL24 v) = take 3 (to_le_bytes 4 v)"
| "field_bytes (WB32 v) = to_be_bytes 4 v"
| "field_bytes (WL32 v) = to_le_bytes 4 v"
| "field_bytes (WB64 v) = to_be_bytes 8 v"
| "field_bytes (WL64 v) = to_le_bytes 8 v"

definition iw_field ::
  "(u8 list \<Rightarrow> 's \<Rightarrow> (io_error + unit) \<times> 's) \<Rightarrow> ('s \<Rightarrow> (io_error + unit) \<times> 's) \<Rightarrow> field \<Rightarrow>
     's io_writer \<Rightarrow> (io_error + unit) \<times> 's io_writer" where
  "iw_field put flush f w = iw_write put flush (field_bytes f) w"

definition iw_write_cstr ::
  "(u8 list \<Rightarrow> 's \<Rightarrow> (io_error + unit) \<times> 's) \<Rightarrow> ('s \<Rightarrow> (io_error + unit) \<times> 's) \<Rightarrow> u8 list \<Rightarrow>
     's io_writer \<Rightarrow> (io_error + unit) \<times> 's io_writer" where
  "iw_write_cstr put flush s w =
     (case iw_write put flush s w of
        (Inl e, w1) \<Rightarrow> (Inl e, w1)
      | (Inr _, w1) \<Rightarrow> iw_field put flush (W8 0) w1)"

section \<open>Buffering is transparent\<close>

text \<open>
  The file a reader would see if everything buffered were written out, and the position of the
  next byte.
\<close>

definition pending_bytes :: "'s io_writer \<Rightarrow> u8 list" where
  "pending_bytes w = take (iw_len w) (iw_buf w)"

definition file_view :: "('s \<Rightarrow> u8 list) \<Rightarrow> ('s \<Rightarrow> nat) \<Rightarrow> 's io_writer \<Rightarrow> u8 list" where
  "file_view contents position w =
     (if iw_len w = 0 then contents (iw_sink w)
      else write_at (contents (iw_sink w)) (position (iw_sink w)) (pending_bytes w))"

definition writer_fine :: "('s \<Rightarrow> nat) \<Rightarrow> ('s \<Rightarrow> bool) \<Rightarrow> 's io_writer \<Rightarrow> bool" where
  "writer_fine position ok w \<longleftrightarrow> ok (iw_sink w) \<and> iw_base w = position (iw_sink w) \<and>
     iw_len w \<le> length (iw_buf w) \<and> iw_buf w \<noteq> [] \<and> iw_err w = None"

text \<open>A muxer's calls, and their meaning on a plain file and position.\<close>

datatype writer_op = Put "u8 list" | SeekTo nat | FlushOut

definition writer_op ::
  "(u8 list \<Rightarrow> 's \<Rightarrow> (io_error + unit) \<times> 's) \<Rightarrow> (nat \<Rightarrow> 's \<Rightarrow> (io_error + nat) \<times> 's) \<Rightarrow>
     ('s \<Rightarrow> (io_error + unit) \<times> 's) \<Rightarrow> writer_op \<Rightarrow> 's io_writer \<Rightarrow> 's io_writer option" where
  "writer_op put seek flush c w =
     (case c of
        Put ys \<Rightarrow> (case iw_write put flush ys w of (Inr _, w') \<Rightarrow> Some w' | (Inl _, _) \<Rightarrow> None)
      | SeekTo p \<Rightarrow> (case iw_seek put seek flush p w of (Inr _, w') \<Rightarrow> Some w' | (Inl _, _) \<Rightarrow> None)
      | FlushOut \<Rightarrow> (case iw_flush put flush w of (Inr _, w') \<Rightarrow> Some w' | (Inl _, _) \<Rightarrow> None))"

fun writer_ops ::
  "(u8 list \<Rightarrow> 's \<Rightarrow> (io_error + unit) \<times> 's) \<Rightarrow> (nat \<Rightarrow> 's \<Rightarrow> (io_error + nat) \<times> 's) \<Rightarrow>
     ('s \<Rightarrow> (io_error + unit) \<times> 's) \<Rightarrow> writer_op list \<Rightarrow> 's io_writer \<Rightarrow> 's io_writer option" where
  "writer_ops put seek flush [] w = Some w"
| "writer_ops put seek flush (c # cs) w =
     Option.bind (writer_op put seek flush c w) (writer_ops put seek flush cs)"

fun file_op :: "writer_op \<Rightarrow> u8 list \<times> nat \<Rightarrow> u8 list \<times> nat" where
  "file_op (Put ys) (xs, p) = (write_at xs p ys, p + length ys)"
| "file_op (SeekTo q) (xs, p) = (xs, q)"
| "file_op FlushOut (xs, p) = (xs, p)"

text \<open>A successful flush leaves nothing buffered.\<close>

lemma iw_flush_empties: "iw_flush put flush w = (Inr u, w') \<Longrightarrow> iw_len w' = 0"
  by (auto simp: iw_flush_def sync_def iw_fail_def split: option.splits prod.splits sum.splits if_splits)

lemma writer_ops_flushed: "writer_ops put seek flush (cs @ [FlushOut]) w = Some w' \<Longrightarrow> iw_len w' = 0"
  by (induction cs arbitrary: w)
    (auto simp: writer_op_def iw_flush_empties split: bind_splits prod.splits sum.splits)

context media_sink
begin

lemma sync_fine:
  assumes "writer_fine position ok w" "sync flush w = (Inr u, w')"
  shows "writer_fine position ok w' \<and> contents (iw_sink w') = contents (iw_sink w) \<and>
    position (iw_sink w') = position (iw_sink w) \<and> iw_len w' = iw_len w \<and> iw_buf w' = iw_buf w \<and>
    iw_direct w' = iw_direct w"
proof -
  obtain r s where s: "flush (iw_sink w) = (r, s)" by fastforce
  have "ok (iw_sink w)" using assms(1) by (simp add: writer_fine_def)
  from flush_keeps [OF this s] show ?thesis
    using assms s by (cases r) (auto simp: sync_def iw_fail_def writer_fine_def)
qed

lemma advance_fine:
  assumes "writer_fine position ok w" "put ys (iw_sink w) = (Inr u, s)"
  shows "writer_fine position ok (advance (length ys) s w)"
    "contents s = write_at (contents (iw_sink w)) (position (iw_sink w)) ys"
    "position s = position (iw_sink w) + length ys"
proof -
  have ok: "ok (iw_sink w)" "iw_base w = position (iw_sink w)" using assms(1) by (auto simp: writer_fine_def)
  note k = write_ok [OF ok(1) assms(2)]
  have p: "iw_base w + length ys = position s" using k ok(2) by simp
  have "fits_u 64 (position s)" using position_fits [of s] k unfolding fits_u_def by blast
  then have "sat_u 64 (iw_base w + length ys) = position s" unfolding p by (rule sat_u_id)
  then show "writer_fine position ok (advance (length ys) s w)"
    using assms(1) k by (simp add: advance_def writer_fine_def)
  show "contents s = write_at (contents (iw_sink w)) (position (iw_sink w)) ys"
    "position s = position (iw_sink w) + length ys" using k by auto
qed

lemma flush_fine:
  assumes "writer_fine position ok w" "iw_flush put flush w = (Inr u, w')"
  shows "writer_fine position ok w' \<and> iw_len w' = 0 \<and> iw_buf w' = iw_buf w \<and> iw_direct w' = iw_direct w \<and>
    contents (iw_sink w') = file_view contents position w \<and>
    position (iw_sink w') = position (iw_sink w) + iw_len w"
proof (cases "iw_len w = 0")
  case True
  then have "sync flush w = (Inr u, w')" using assms by (simp add: iw_flush_def writer_fine_def)
  from sync_fine [OF assms(1) this] show ?thesis using True by (simp add: file_view_def)
next
  case False
  have w: "iw_err w = None" "iw_len w \<le> length (iw_buf w)" using assms(1) by (auto simp: writer_fine_def)
  obtain r s where s: "put (pending_bytes w) (iw_sink w) = (r, s)" by fastforce
  have f: "iw_flush put flush w = (case r of Inl e \<Rightarrow> iw_fail e (w\<lparr>iw_sink := s\<rparr>)
      | Inr _ \<Rightarrow> sync flush ((advance (iw_len w) s w)\<lparr>iw_len := 0\<rparr>))"
    using False w s by (simp add: iw_flush_def slice_range_def pending_bytes_def)
  have r: "r = Inr ()" using f assms(2) by (cases r) (auto simp: iw_fail_def)
  have l: "length (pending_bytes w) = iw_len w" using w(2) by (simp add: pending_bytes_def)
  note a = advance_fine [OF assms(1) s [unfolded r], unfolded l]
  let ?w = "(advance (iw_len w) s w)\<lparr>iw_len := 0\<rparr>"
  have "writer_fine position ok ?w" using a(1) by (simp add: writer_fine_def)
  moreover have "sync flush ?w = (Inr u, w')" using f r assms(2) by simp
  ultimately have "writer_fine position ok w' \<and> contents (iw_sink w') = contents (iw_sink ?w) \<and>
      position (iw_sink w') = position (iw_sink ?w) \<and> iw_len w' = iw_len ?w \<and> iw_buf w' = iw_buf ?w \<and>
      iw_direct w' = iw_direct ?w" by (rule sync_fine)
  then show ?thesis using a(2,3) False by (simp add: advance_def file_view_def)
qed

lemma view_after_write:
  "iw_len w \<le> length (iw_buf w) \<Longrightarrow>
    write_at (file_view contents position w) (position (iw_sink w) + iw_len w) ys =
    write_at (contents (iw_sink w)) (position (iw_sink w)) (pending_bytes w @ ys)"
  using write_at_append [of "contents (iw_sink w)" "position (iw_sink w)" "pending_bytes w" ys]
  by (simp add: file_view_def pending_bytes_def)

lemma buffer_fine:
  assumes "writer_fine position ok w" "iw_len w + length ys \<le> length (iw_buf w)" "ys \<noteq> []"
    "overwrite (iw_buf w) (iw_len w) ys = Some b"
  defines "w' \<equiv> w\<lparr>iw_buf := b, iw_len := iw_len w + length ys\<rparr>"
  shows "writer_fine position ok w'"
    "file_view contents position w' = write_at (file_view contents position w) (position (iw_sink w) + iw_len w) ys"
    "position (iw_sink w') + iw_len w' = position (iw_sink w) + iw_len w + length ys"
proof -
  have b: "b = take (iw_len w) (iw_buf w) @ ys @ drop (iw_len w + length ys) (iw_buf w)"
    using assms(2,4) by (simp add: overwrite_def)
  have l: "iw_len w \<le> length (iw_buf w)" using assms(2) by simp
  then show "writer_fine position ok w'" using assms(1,2,3) by (auto simp: writer_fine_def w'_def b)
  have "pending_bytes w' = pending_bytes w @ ys" using l by (simp add: pending_bytes_def w'_def b)
  then show "file_view contents position w' =
      write_at (file_view contents position w) (position (iw_sink w) + iw_len w) ys"
    unfolding view_after_write [OF l] using assms(3) by (simp add: file_view_def w'_def)
  show "position (iw_sink w') + iw_len w' = position (iw_sink w) + iw_len w + length ys" by (simp add: w'_def)
qed

lemma write_fine:
  assumes "writer_fine position ok w" "iw_write put flush ys w = (Inr u, w')" "ys \<noteq> []"
  shows "writer_fine position ok w' \<and>
    file_view contents position w' = write_at (file_view contents position w) (position (iw_sink w) + iw_len w) ys \<and>
    position (iw_sink w') + iw_len w' = position (iw_sink w) + iw_len w + length ys"
proof -
  have w: "iw_err w = None" using assms(1) by (simp add: writer_fine_def)
  obtain r1 w1 where f: "iw_flush put flush w = (r1, w1)" by fastforce
  show ?thesis
  proof (cases "iw_direct w \<or> length ys \<ge> length (iw_buf w)")
    case True
    have r1: "r1 = Inr ()" using assms(2) w f True by (cases r1) (auto simp: iw_write_def)
    note w1 = flush_fine [OF assms(1) f [unfolded r1]]
    obtain r2 s where s: "put ys (iw_sink w1) = (r2, s)" by fastforce
    have r2: "r2 = Inr ()" using assms(2) w f True r1 s by (cases r2) (auto simp: iw_write_def iw_fail_def)
    have "writer_fine position ok w1" using w1 by blast
    note a = advance_fine [OF this s [unfolded r2]]
    have e: "(if iw_direct w then sync flush (advance (length ys) s w1) else (Inr (), advance (length ys) s w1)) = (Inr u, w')"
      using assms(2) w f True r1 s r2 by (simp add: iw_write_def Let_def)
    have "writer_fine position ok w' \<and> contents (iw_sink w') = contents s \<and> position (iw_sink w') = position s \<and>
        iw_len w' = 0"
    proof (cases "iw_direct w")
      case True
      then have "sync flush (advance (length ys) s w1) = (Inr u, w')" using e by simp
      from sync_fine [OF a(1) this] show ?thesis using w1 by (simp add: advance_def)
    next
      case False
      then show ?thesis using e a(1) w1 by (auto simp: advance_def)
    qed
    then show ?thesis using a(2,3) w1 by (simp add: file_view_def)
  next
    case False
    show ?thesis
    proof (cases "iw_len w + length ys > length (iw_buf w)")
      case True
      have r1: "r1 = Inr ()" using assms(2) w f True False by (cases r1) (auto simp: iw_write_def)
      note w1 = flush_fine [OF assms(1) f [unfolded r1]]
      obtain b where b: "overwrite (iw_buf w1) (iw_len w1) ys = Some b"
        using w1 False by (simp add: overwrite_def)
      have "w' = w1\<lparr>iw_buf := b, iw_len := iw_len w1 + length ys\<rparr>"
        using assms(2) w f True False r1 b by (simp add: iw_write_def)
      moreover have "writer_fine position ok w1" "iw_len w1 + length ys \<le> length (iw_buf w1)" using w1 False by auto
      ultimately show ?thesis using buffer_fine [OF _ _ assms(3) b] w1 by (simp add: file_view_def)
    next
      case fits: False
      obtain b where b: "overwrite (iw_buf w) (iw_len w) ys = Some b" using fits by (simp add: overwrite_def)
      have "w' = w\<lparr>iw_buf := b, iw_len := iw_len w + length ys\<rparr>"
        using assms(2) w fits False b by (simp add: iw_write_def)
      then show ?thesis using buffer_fine [OF assms(1) _ assms(3) b] fits by simp
    qed
  qed
qed

lemma seek_fine:
  assumes "writer_fine position ok w" "iw_seek put seek flush p w = (Inr q, w')"
  shows "writer_fine position ok w' \<and> q = p \<and> file_view contents position w' = file_view contents position w \<and>
    position (iw_sink w') + iw_len w' = p"
proof -
  obtain r1 w1 where f: "iw_flush put flush w = (r1, w1)" by fastforce
  have r1: "r1 = Inr ()" using assms(2) f by (cases r1) (auto simp: iw_seek_def)
  note w1 = flush_fine [OF assms(1) f [unfolded r1]]
  obtain r2 s where s: "seek p (iw_sink w1) = (r2, s)" by fastforce
  have e: "r2 = Inr q" "w' = w1\<lparr>iw_sink := s, iw_base := q\<rparr>"
    using assms(2) f r1 s by (cases r2; auto simp: iw_seek_def iw_fail_def)+
  have "ok (iw_sink w1)" using w1 by (simp add: writer_fine_def)
  from seek_ok [OF this s [unfolded e(1)]] show ?thesis
    using w1 e(2) by (auto simp: writer_fine_def file_view_def)
qed

lemma sync_fails:
  assumes "writer_fine position ok w" "sync flush w = (Inl e, w')"
  shows "map_option replay (iw_err w') = Some e \<and> contents (iw_sink w') = contents (iw_sink w)"
proof -
  obtain r s where s: "flush (iw_sink w) = (r, s)" by fastforce
  have "ok (iw_sink w)" "iw_err w = None" using assms(1) by (auto simp: writer_fine_def)
  with flush_keeps [OF this(1) s] show ?thesis
    using assms(2) s by (cases r) (auto simp: sync_def iw_fail_def)
qed

lemma put_fails:
  assumes "writer_fine position ok w" "put ys (iw_sink w) = (Inl e, s)"
    "iw_fail e (w\<lparr>iw_sink := s\<rparr>) = (Inl e', w')"
  shows "map_option replay (iw_err w') = Some e' \<and> contents (iw_sink w') = contents (iw_sink w)"
  using write_err [of "iw_sink w", OF _ assms(2)] assms(1,3) by (auto simp: iw_fail_def writer_fine_def)

lemma flush_fails:
  assumes "writer_fine position ok w" "iw_flush put flush w = (Inl e, w')"
  shows "map_option replay (iw_err w') = Some e \<and> contents (iw_sink w') \<in> {contents (iw_sink w), file_view contents position w}"
proof (cases "iw_len w = 0")
  case True
  then have "sync flush w = (Inl e, w')" using assms by (simp add: iw_flush_def writer_fine_def)
  from sync_fails [OF assms(1) this] show ?thesis by simp
next
  case False
  have w: "iw_err w = None" "iw_len w \<le> length (iw_buf w)" using assms(1) by (auto simp: writer_fine_def)
  then have l: "length (pending_bytes w) = iw_len w" by (simp add: pending_bytes_def)
  obtain r s where s: "put (pending_bytes w) (iw_sink w) = (r, s)" by fastforce
  let ?w = "(advance (iw_len w) s w)\<lparr>iw_len := 0\<rparr>"
  have f: "(case r of Inl e \<Rightarrow> iw_fail e (w\<lparr>iw_sink := s\<rparr>) | Inr _ \<Rightarrow> sync flush ?w) = (Inl e, w')"
    using False w s assms(2) by (simp add: iw_flush_def slice_range_def pending_bytes_def)
  show ?thesis
  proof (cases r)
    case (Inl e')
    then have "iw_fail e' (w\<lparr>iw_sink := s\<rparr>) = (Inl e :: io_error + unit, w')" using f by simp
    from put_fails [OF assms(1) s [unfolded Inl] this] show ?thesis by simp
  next
    case (Inr u)
    note a = advance_fine [OF assms(1) s [unfolded Inr], unfolded l]
    have "writer_fine position ok ?w" using a(1) by (simp add: writer_fine_def)
    from sync_fails [OF this] show ?thesis using f Inr a(2) False by (simp add: file_view_def advance_def)
  qed
qed

lemma write_fails:
  assumes "writer_fine position ok w" "iw_write put flush ys w = (Inl e, w')"
  shows "map_option replay (iw_err w') = Some e \<and> contents (iw_sink w') \<in> {contents (iw_sink w), file_view contents position w,
    write_at (file_view contents position w) (position (iw_sink w) + iw_len w) ys}"
proof -
  have w: "iw_err w = None" "iw_len w \<le> length (iw_buf w)" using assms(1) by (auto simp: writer_fine_def)
  obtain r1 w1 where f: "iw_flush put flush w = (r1, w1)" by fastforce
  show ?thesis
  proof (cases r1)
    case (Inl e1)
    then have "e1 = e \<and> w1 = w'"
      using assms(2) f w by (auto simp: iw_write_def overwrite_def split: if_splits)
    then show ?thesis using flush_fails [OF assms(1) f [unfolded Inl]] by auto
  next
    case (Inr u)
    note w1 = flush_fine [OF assms(1) f [unfolded Inr]]
    obtain r2 s where s: "put ys (iw_sink w1) = (r2, s)" by fastforce
    have big: "iw_direct w \<or> length ys \<ge> length (iw_buf w)"
      using assms(2) w f Inr w1 by (auto simp: iw_write_def overwrite_def split: if_splits)
    have fine: "writer_fine position ok w1" using w1 by blast
    have e: "(case r2 of Inl e \<Rightarrow> iw_fail e (w1\<lparr>iw_sink := s\<rparr>)
        | Inr _ \<Rightarrow> if iw_direct w then sync flush (advance (length ys) s w1) else (Inr (), advance (length ys) s w1)) =
        (Inl e, w')"
      using assms(2) w big f Inr s by (cases r2) (simp_all add: iw_write_def Let_def)
    show ?thesis
    proof (cases r2)
      case (Inl e2)
      then have "iw_fail e2 (w1\<lparr>iw_sink := s\<rparr>) = (Inl e :: io_error + unit, w')" using e by simp
      from put_fails [OF fine s [unfolded Inl] this] show ?thesis using w1 by simp
    next
      case r2: (Inr u2)
      note a = advance_fine [OF fine s [unfolded r2]]
      have "sync flush (advance (length ys) s w1) = (Inl e, w')" using e r2 by (simp split: if_splits)
      from sync_fails [OF a(1) this] show ?thesis using a(2) w1 by (simp add: advance_def)
    qed
  qed
qed

lemma seek_fails:
  assumes "writer_fine position ok w" "iw_seek put seek flush p w = (Inl e, w')"
  shows "map_option replay (iw_err w') = Some e \<and> contents (iw_sink w') \<in> {contents (iw_sink w), file_view contents position w}"
proof -
  obtain r1 w1 where f: "iw_flush put flush w = (r1, w1)" by fastforce
  show ?thesis
  proof (cases r1)
    case (Inl e1)
    then show ?thesis using flush_fails [OF assms(1) f [unfolded Inl]] f assms(2) by (auto simp: iw_seek_def)
  next
    case (Inr u)
    note w1 = flush_fine [OF assms(1) f [unfolded Inr]]
    obtain r2 s where s: "seek p (iw_sink w1) = (r2, s)" by fastforce
    have fine: "ok (iw_sink w1)" "iw_err w1 = None" using w1 by (auto simp: writer_fine_def)
    obtain e2 where r2: "r2 = Inl e2" "e = replay e2" "w' = w1\<lparr>iw_sink := s, iw_err := Some e2\<rparr>"
      using assms(2) f Inr s fine(2) by (cases r2) (auto simp: iw_seek_def iw_fail_def)
    show ?thesis using seek_err [OF fine(1) s [unfolded r2(1)]] r2(2,3) w1 by simp
  qed
qed

lemma writer_op_fine:
  assumes "writer_fine position ok w" "writer_op put seek flush c w = Some w'" "c \<noteq> Put []"
  shows "writer_fine position ok w' \<and>
    (file_view contents position w', position (iw_sink w') + iw_len w') =
    file_op c (file_view contents position w, position (iw_sink w) + iw_len w)"
proof (cases c)
  case (Put ys)
  then show ?thesis using assms write_fine [OF assms(1), of ys]
    by (auto simp: writer_op_def split: prod.splits sum.splits)
next
  case (SeekTo p)
  then show ?thesis using assms seek_fine [OF assms(1), of p]
    by (auto simp: writer_op_def split: prod.splits sum.splits)
next
  case FlushOut
  then show ?thesis using assms flush_fine [OF assms(1)]
    by (auto simp: writer_op_def file_view_def split: prod.splits sum.splits)
qed

lemma writer_ops_fine:
  assumes "writer_fine position ok w" "writer_ops put seek flush cs w = Some w'" "Put [] \<notin> set cs"
  shows "writer_fine position ok w' \<and>
    (file_view contents position w', position (iw_sink w') + iw_len w') =
    fold file_op cs (file_view contents position w, position (iw_sink w) + iw_len w)"
  using assms
proof (induction cs arbitrary: w)
  case (Cons c cs)
  then obtain w1 where w1: "writer_op put seek flush c w = Some w1" "writer_ops put seek flush cs w1 = Some w'"
    by (auto split: bind_splits)
  have "c \<noteq> Put []" using Cons.prems(3) by auto
  from writer_op_fine [OF Cons.prems(1) w1(1) this] show ?case
    using Cons.IH [OF _ w1(2)] Cons.prems(3) by simp
qed simp

end

section \<open>A sink with room\<close>

text \<open>
  A sink that accepts every write that ends within its capacity, and every seek to a position
  within it.
\<close>

locale roomy_sink = media_sink +
  fixes room :: "'a \<Rightarrow> nat"
  assumes write_fits: "ok s \<Longrightarrow> position s + length ys \<le> room s \<Longrightarrow> fst (put ys s) = Inr ()"
    and seek_fits: "ok s \<Longrightarrow> p \<le> room s \<Longrightarrow> fst (seek p s) = Inr p"
    and flush_fits: "ok s \<Longrightarrow> fst (flush s) = Inr ()"
    and room_write: "ok s \<Longrightarrow> room (snd (put ys s)) = room s"
    and room_seek: "ok s \<Longrightarrow> room (snd (seek p s)) = room s"
    and room_flush: "ok s \<Longrightarrow> room (snd (flush s)) = room s"
begin

lemma sync_succeeds:
  assumes "writer_fine position ok w"
  shows "\<exists>w'. sync flush w = (Inr (), w') \<and> room (iw_sink w') = room (iw_sink w)"
proof -
  have "ok (iw_sink w)" using assms by (simp add: writer_fine_def)
  from flush_fits [OF this] room_flush [OF this] show ?thesis
    by (cases "flush (iw_sink w)") (simp add: sync_def)
qed

lemma flush_succeeds:
  assumes "writer_fine position ok w" "position (iw_sink w) + iw_len w \<le> room (iw_sink w)"
  shows "\<exists>w'. iw_flush put flush w = (Inr (), w') \<and> room (iw_sink w') = room (iw_sink w)"
proof (cases "iw_len w = 0")
  case True
  then show ?thesis using sync_succeeds [OF assms(1)] assms(1) by (simp add: iw_flush_def writer_fine_def)
next
  case False
  have w: "iw_err w = None" "iw_len w \<le> length (iw_buf w)" "ok (iw_sink w)"
    using assms(1) by (auto simp: writer_fine_def)
  have l: "length (pending_bytes w) = iw_len w" using w(2) by (simp add: pending_bytes_def)
  obtain s where s: "put (pending_bytes w) (iw_sink w) = (Inr (), s)" "room s = room (iw_sink w)"
    using write_fits [OF w(3), of "pending_bytes w"] room_write [OF w(3), of "pending_bytes w"] assms(2) l
    by (cases "put (pending_bytes w) (iw_sink w)") simp
  let ?w = "(advance (iw_len w) s w)\<lparr>iw_len := 0\<rparr>"
  have "writer_fine position ok ?w"
    using advance_fine(1) [OF assms(1) s(1), unfolded l] by (simp add: writer_fine_def)
  moreover have "iw_flush put flush w = sync flush ?w"
    using False w s by (simp add: iw_flush_def slice_range_def pending_bytes_def)
  ultimately show ?thesis using sync_succeeds [of ?w] s(2) by (simp add: advance_def)
qed

lemma write_succeeds:
  assumes "writer_fine position ok w" "position (iw_sink w) + iw_len w + length ys \<le> room (iw_sink w)"
  shows "\<exists>w'. iw_write put flush ys w = (Inr (), w') \<and> room (iw_sink w') = room (iw_sink w)"
proof -
  have w: "iw_err w = None" using assms(1) by (simp add: writer_fine_def)
  obtain w1 where f: "iw_flush put flush w = (Inr (), w1)" "room (iw_sink w1) = room (iw_sink w)"
    using flush_succeeds [OF assms(1)] assms(2) by auto
  note w1 = flush_fine [OF assms(1) f(1)]
  show ?thesis
  proof (cases "iw_direct w \<or> length ys \<ge> length (iw_buf w)")
    case True
    have ok1: "ok (iw_sink w1)" "writer_fine position ok w1" using w1 by (auto simp: writer_fine_def)
    obtain s where s: "put ys (iw_sink w1) = (Inr (), s)" "room s = room (iw_sink w1)"
      using write_fits [OF ok1(1), of ys] room_write [OF ok1(1), of ys] assms(2) w1 f(2)
      by (cases "put ys (iw_sink w1)") simp
    let ?w = "advance (length ys) s w1"
    have "iw_write put flush ys w = (if iw_direct w then sync flush ?w else (Inr (), ?w))"
      using w f(1) True s(1) by (simp add: iw_write_def Let_def)
    moreover have "room (iw_sink ?w) = room (iw_sink w)" using s(2) f(2) by (simp add: advance_def)
    ultimately show ?thesis using sync_succeeds [OF advance_fine(1) [OF ok1(2) s(1)]] by auto
  next
    case False
    show ?thesis
    proof (cases "iw_len w + length ys > length (iw_buf w)")
      case True
      then show ?thesis using False w f w1 by (simp add: iw_write_def overwrite_def)
    next
      case fits: False
      then show ?thesis using False w by (simp add: iw_write_def overwrite_def)
    qed
  qed
qed

lemma seek_succeeds:
  assumes "writer_fine position ok w" "position (iw_sink w) + iw_len w \<le> room (iw_sink w)" "p \<le> room (iw_sink w)"
  shows "\<exists>w'. iw_seek put seek flush p w = (Inr p, w') \<and> room (iw_sink w') = room (iw_sink w)"
proof -
  obtain w1 where f: "iw_flush put flush w = (Inr (), w1)" "room (iw_sink w1) = room (iw_sink w)"
    using flush_succeeds [OF assms(1,2)] by auto
  have "ok (iw_sink w1)" using flush_fine [OF assms(1) f(1)] by (simp add: writer_fine_def)
  from seek_fits [OF this, of p] room_seek [OF this, of p] show ?thesis
    using f assms(3) by (cases "seek p (iw_sink w1)") (simp add: iw_seek_def)
qed

end

text \<open>The calls stay within a capacity, from a position on.\<close>

fun stays_within :: "nat \<Rightarrow> writer_op list \<Rightarrow> nat \<Rightarrow> bool" where
  "stays_within n [] p = True"
| "stays_within n (Put ys # cs) p = (p + length ys \<le> n \<and> stays_within n cs (p + length ys))"
| "stays_within n (SeekTo q # cs) p = (q \<le> n \<and> stays_within n cs q)"
| "stays_within n (FlushOut # cs) p = stays_within n cs p"

context roomy_sink
begin

lemma writer_op_succeeds:
  assumes "writer_fine position ok w" "position (iw_sink w) + iw_len w \<le> room (iw_sink w)"
    "stays_within (room (iw_sink w)) [c] (position (iw_sink w) + iw_len w)"
  shows "\<exists>w'. writer_op put seek flush c w = Some w' \<and> room (iw_sink w') = room (iw_sink w)"
proof (cases c)
  case (Put ys)
  then show ?thesis using write_succeeds [OF assms(1), of ys] assms(3) by (auto simp: writer_op_def)
next
  case (SeekTo p)
  then show ?thesis using seek_succeeds [OF assms(1,2), of p] assms(3) by (auto simp: writer_op_def)
next
  case FlushOut
  then show ?thesis using flush_succeeds [OF assms(1,2)] by (auto simp: writer_op_def)
qed

lemma writer_ops_succeed:
  assumes "writer_fine position ok w" "position (iw_sink w) + iw_len w \<le> room (iw_sink w)"
    "stays_within (room (iw_sink w)) cs (position (iw_sink w) + iw_len w)" "Put [] \<notin> set cs"
  shows "\<exists>w'. writer_ops put seek flush cs w = Some w'"
  using assms
proof (induction cs arbitrary: w)
  case (Cons c cs)
  have c: "stays_within (room (iw_sink w)) [c] (position (iw_sink w) + iw_len w)" "c \<noteq> Put []"
    using Cons.prems(3,4) by (cases c; auto)+
  obtain w1 where w1: "writer_op put seek flush c w = Some w1" "room (iw_sink w1) = room (iw_sink w)"
    using writer_op_succeeds [OF Cons.prems(1,2) c(1)] by blast
  note f = writer_op_fine [OF Cons.prems(1) w1(1) c(2)]
  have p: "position (iw_sink w1) + iw_len w1 = snd (file_op c (file_view contents position w, position (iw_sink w) + iw_len w))"
    using f by (metis snd_conv)
  have "position (iw_sink w1) + iw_len w1 \<le> room (iw_sink w)"
    "stays_within (room (iw_sink w)) cs (position (iw_sink w1) + iw_len w1)"
    using Cons.prems(2,3) unfolding p by (cases c; simp)+
  then have "\<exists>w'. writer_ops put seek flush cs w1 = Some w'"
    using Cons.IH [of w1] f w1(2) Cons.prems(4) by simp
  then show ?case using w1(1) by simp
qed simp

end

text \<open>
  A growable sink whose limit is within the caps, over an allocator that never refuses and
  returns what was asked for or more.
\<close>

definition db_roomy :: "dyn_buf \<Rightarrow> bool" where
  "db_roomy d \<longleftrightarrow> db_sized d \<and> db_limit d \<le> max_alloc_single (bd_limits (db_budget d)) \<and>
     db_limit d \<le> max_alloc_total (bd_limits (db_budget d))"

definition generous :: "(nat \<Rightarrow> nat) \<Rightarrow> nat \<Rightarrow> nat option" where
  "generous slack c = Some (c + slack c)"

lemma generous_grows: "\<forall>c. generous slack c \<noteq> None" "generous slack c = Some c' \<Longrightarrow> c \<le> c'"
  by (auto simp: generous_def)

lemma db_write_roomy:
  assumes "db_roomy d" "db_write (generous slack) ys d = (r, d')"
  shows "db_roomy d' \<and> db_limit d' = db_limit d \<and> (db_pos d + length ys \<le> db_limit d \<longrightarrow> r = Inr ())"
proof -
  have s: "db_sized d" "db_ok d" using assms(1) by (auto simp: db_roomy_def db_sized_def)
  note res = db_write_result [OF s(2) assms(2)]
  have "db_sized d'"
  proof (cases r)
    case (Inr u)
    then show ?thesis using db_write_sized [OF s(1) generous_grows(2)] assms(2) by simp
  next
    case (Inl e)
    then show ?thesis using db_write_refused [OF s(2) generous_grows(1)] assms(2) s(1) by blast
  qed
  moreover have "r = Inr ()" if "db_pos d + length ys \<le> db_limit d"
    using db_write_succeeds [OF s(1) generous_grows(1) [of slack] that] assms by (simp add: db_roomy_def)
  ultimately show ?thesis using res assms(1) by (simp add: db_roomy_def)
qed


interpretation roomy: roomy_sink "db_write (generous slack)" db_seek db_flush db_buf db_pos db_roomy db_limit
  for slack
proof
  fix s s' :: dyn_buf and ys :: "u8 list" and u :: unit and e :: io_error and p q :: nat and r
  assume room: "db_roomy s"
  then have ok: "db_ok s" by (simp add: db_roomy_def db_sized_def)
  note put = db_write_roomy [OF room] and res = db_write_result [OF ok]
  show "db_pos s < 2 ^ 64" using ok by (simp add: db_ok_def)
  show "db_write (generous slack) ys s = (Inr u, s') \<Longrightarrow>
      db_roomy s' \<and> db_buf s' = write_at (db_buf s) (db_pos s) ys \<and> db_pos s' = db_pos s + length ys"
    using put [of slack ys "Inr u" s'] res [of "generous slack" ys "Inr u" s'] by simp
  show "db_write (generous slack) ys s = (Inl e, s') \<Longrightarrow> db_roomy s' \<and> db_buf s' = db_buf s \<and> db_pos s' = db_pos s"
    using put [of slack ys "Inl e" s'] res [of "generous slack" ys "Inl e" s'] by simp
  show "db_seek p s = (Inr q, s') \<Longrightarrow> db_roomy s' \<and> q = p \<and> db_buf s' = db_buf s \<and> db_pos s' = p"
    "db_seek p s = (Inl e, s') \<Longrightarrow> db_roomy s' \<and> db_buf s' = db_buf s \<and> db_pos s' = db_pos s"
    using room by (auto simp: db_seek_def db_roomy_def db_sized_def db_ok_def split: if_splits)
  show "db_flush s = (r, s') \<Longrightarrow> db_roomy s' \<and> db_buf s' = db_buf s \<and> db_pos s' = db_pos s"
    "fst (db_flush s) = Inr ()" "db_limit (snd (db_flush s)) = db_limit s"
    using room by (auto simp: db_flush_def)
  show "db_pos s + length ys \<le> db_limit s \<Longrightarrow> fst (db_write (generous slack) ys s) = Inr ()"
    "db_limit (snd (db_write (generous slack) ys s)) = db_limit s"
    using put [of slack ys "fst (db_write (generous slack) ys s)" "snd (db_write (generous slack) ys s)"] by simp_all
  show "p \<le> db_limit s \<Longrightarrow> fst (db_seek p s) = Inr p" "db_limit (snd (db_seek p s)) = db_limit s"
    by (auto simp: db_seek_def)
qed

lemma iw_new_fine:
  assumes "iw_new grow position l block direct s = Inr w" "ok s"
  shows "writer_fine position ok w \<and> iw_sink w = s \<and> iw_len w = 0"
proof -
  define n where "n = max 64 (min block (16 * 1024 * 1024))"
  obtain buf b where b: "bd_alloc grow 1 (0 :: u8) n (bd_new l) = (Inr buf, b)"
      "w = \<lparr>iw_sink = s, iw_buf = buf, iw_len = 0, iw_base = position s, iw_err = None,
         iw_bytes_written = 0, iw_direct = direct, iw_marker = Unknown\<rparr>"
    using assms(1) unfolding iw_new_def Let_def n_def [symmetric] by (auto split: prod.splits sum.splits)
  have "buf = replicate n 0"
    using b(1) by (auto simp: bd_alloc_def res_alloc_def split: prod.splits sum.splits option.splits if_splits)
  then have "buf \<noteq> []" by (simp add: n_def)
  then show ?thesis using b(2) assms(2) by (simp add: writer_fine_def)
qed

lemma buffering_transparent:
  assumes "db_roomy d" "db_pos d \<le> db_limit d" "iw_new grow db_pos l block direct d = Inr w"
    "stays_within (db_limit d) cs (db_pos d)" "Put [] \<notin> set cs"
  shows "\<exists>w'. writer_ops (db_write (generous slack)) db_seek db_flush (cs @ [FlushOut]) w = Some w' \<and>
    (db_buf (iw_sink w'), db_pos (iw_sink w')) = fold file_op cs (db_buf d, db_pos d) \<and>
    iw_pos w' = db_pos (iw_sink w') \<and> iw_len w' = 0 \<and> iw_err w' = None"
proof -
  note w = iw_new_fine [where ok = db_roomy, OF assms(3,1)]
  have "stays_within n (cs @ [FlushOut]) p = stays_within n cs p" for n p
    by (induction n cs p rule: stays_within.induct) simp_all
  then have "\<exists>w'. writer_ops (db_write (generous slack)) db_seek db_flush (cs @ [FlushOut]) w = Some w'"
    using roomy.writer_ops_succeed [of w "cs @ [FlushOut]" slack] w assms(2,4,5) by simp
  then obtain w' where w': "writer_ops (db_write (generous slack)) db_seek db_flush (cs @ [FlushOut]) w = Some w'"
    by blast
  have n: "Put [] \<notin> set (cs @ [FlushOut])" using assms(5) by simp
  have fine: "writer_fine db_pos db_roomy w" using w by blast
  note f = roomy.writer_ops_fine [OF fine w' n]
  have id: "file_op FlushOut v = v" for v by (cases v) simp
  have "iw_len w' = 0" using writer_ops_flushed [OF w'] .
  moreover have "fits_u 64 (db_pos (iw_sink w'))" using f roomy.position_fits [of "iw_sink w'"]
    by (simp add: writer_fine_def fits_u_def)
  ultimately show ?thesis
    using w' f w sat_u_id [of 64 "db_pos (iw_sink w')"] by (simp add: file_view_def iw_pos_def writer_fine_def id)
qed


text \<open>
  C18. Buffering does not show. A writer made over a growable sink, with any block size,
  buffered or direct, carries out every sequence of non-empty writes, seeks and flushes that
  stays within the sink's limit; after a final flush the sink holds exactly what the same calls
  make of a plain file, its position is the writer's, and nothing is left in the buffer.
\<close>

theorem io_writer_transparent:
  assumes "db_roomy d" "db_pos d \<le> db_limit d" "iw_new grow db_pos l block direct d = Inr w"
    "stays_within (db_limit d) cs (db_pos d)" "Put [] \<notin> set cs"
  shows "\<exists>w'. writer_ops (db_write (generous slack)) db_seek db_flush (cs @ [FlushOut]) w = Some w' \<and>
    (db_buf (iw_sink w'), db_pos (iw_sink w')) = fold file_op cs (db_buf d, db_pos d) \<and>
    iw_pos w' = db_pos (iw_sink w') \<and> iw_len w' = 0 \<and> iw_err w' = None"
  using assms by (rule buffering_transparent)

lemma tiny_roomy: "db_roomy (db_with_limits tiny)"
  using db_with_limits_sized [of tiny]
  by (simp add: db_roomy_def limits_ok_def tiny_def db_with_limits_def sat_u_def bd_new_def)

lemma tiny_writer: "\<exists>w. iw_new Some db_pos tiny 64 direct (db_with_limits tiny) = Inr w"
  by (simp add: iw_new_def bd_alloc_def reserve_array_def byte_size_def reserve_def charge_def bd_check_def
      res_alloc_def bd_new_def tiny_def sat_u_def checked_u_def fits_u_def live_def)

theorem io_writer_transparent_witness:
  "\<exists>w w'. iw_new Some db_pos tiny 64 False (db_with_limits tiny) = Inr w \<and>
    writer_ops (db_write (generous (\<lambda>_. 0))) db_seek db_flush ([Put [0, 0], Put [7], SeekTo 0, Put [1, 2]] @ [FlushOut]) w =
      Some w' \<and> db_buf (iw_sink w') = [1, 2, 7]"
proof -
  obtain w where w: "iw_new Some db_pos tiny 64 False (db_with_limits tiny) = Inr w" using tiny_writer by blast
  show ?thesis
    using io_writer_transparent [OF tiny_roomy _ w, of "[Put [0, 0], Put [7], SeekTo 0, Put [1, 2]]" "\<lambda>_. 0"] w
    by (auto simp: db_with_limits_def tiny_def sat_u_def write_at_def)
qed

text \<open>The writer has failed: every call returns the error and changes nothing.\<close>

definition stuck ::
  "(u8 list \<Rightarrow> 's \<Rightarrow> (io_error + unit) \<times> 's) \<Rightarrow> (nat \<Rightarrow> 's \<Rightarrow> (io_error + nat) \<times> 's) \<Rightarrow>
     ('s \<Rightarrow> (io_error + unit) \<times> 's) \<Rightarrow> io_error \<Rightarrow> 's io_writer \<Rightarrow> bool" where
  "stuck put seek flush e w \<longleftrightarrow> (\<forall>ys. iw_write put flush ys w = (Inl e, w)) \<and>
     iw_flush put flush w = (Inl e, w) \<and> (\<forall>p. iw_seek put seek flush p w = (Inl e, w))"

lemma err_stuck: "map_option replay (iw_err w) = Some e \<Longrightarrow> stuck put seek flush e w"
  by (auto simp: stuck_def iw_write_def iw_flush_def iw_seek_def)

text \<open>
  C37. Errors are sticky and lose nothing silently. When a write, flush or seek over a
  growable sink fails, the error is kept and every later call returns the same error and changes nothing;
  the sink holds what it held before, or the file the writer stood for before the call, or that
  file with the whole write applied: never part of a write.
\<close>

theorem io_writer_errors_stick:
  assumes "writer_fine db_pos db_ok w"
    "fst (iw_write (db_write grow) db_flush ys w) = Inl e \<and> w' = snd (iw_write (db_write grow) db_flush ys w) \<or>
     fst (iw_flush (db_write grow) db_flush w) = Inl e \<and> w' = snd (iw_flush (db_write grow) db_flush w) \<or>
     fst (iw_seek (db_write grow) db_seek db_flush p w) = Inl e \<and>
       w' = snd (iw_seek (db_write grow) db_seek db_flush p w)"
  shows "stuck (db_write grow) db_seek db_flush e w' \<and> 
    db_buf (iw_sink w') \<in> {db_buf (iw_sink w), file_view db_buf db_pos w,
      write_at (file_view db_buf db_pos w) (db_pos (iw_sink w) + iw_len w) ys}"
proof -
  have "map_option replay (iw_err w') = Some e \<and> db_buf (iw_sink w') \<in> {db_buf (iw_sink w), file_view db_buf db_pos w,
      write_at (file_view db_buf db_pos w) (db_pos (iw_sink w) + iw_len w) ys}"
    using assms(2) dynbuf.write_fails [OF assms(1), of grow ys e w'] dynbuf.flush_fails [OF assms(1), of grow e w']
      dynbuf.seek_fails [OF assms(1), of grow p e w'] by (auto simp: prod_eq_iff)
  then show ?thesis using err_stuck by blast
qed


definition full_writer :: "dyn_buf io_writer" where
  "full_writer = \<lparr>iw_sink = db_set_limit 2 (db_with_limits tiny), iw_buf = [0], iw_len = 0, iw_base = 0,
     iw_err = None, iw_bytes_written = 0, iw_direct = False, iw_marker = Unknown\<rparr>"

theorem io_writer_errors_stick_witness:
  "stuck (db_write Some) db_seek db_flush (IoLimit (LimitExceeded ''dynbuf'' 3 2))
     (snd (iw_write (db_write Some) db_flush [1, 2, 3] full_writer))"
proof -
  have "db_sized (db_with_limits tiny)" by (rule db_with_limits_sized) (simp add: limits_ok_def tiny_def)
  then have f: "writer_fine db_pos db_ok full_writer"
    by (simp add: full_writer_def writer_fine_def db_sized_def db_ok_def db_set_limit_def db_with_limits_def)
  have "fst (iw_write (db_write Some) db_flush [1, 2, 3] full_writer) = Inl (IoLimit (LimitExceeded ''dynbuf'' 3 2))"
    by (simp add: full_writer_def iw_write_def iw_flush_def sync_def db_flush_def db_write_def db_set_limit_def
        db_with_limits_def checked_u_def fits_u_def reserve_to_def iw_fail_def replay_def)
  then show ?thesis
    using conjunct1 [OF io_writer_errors_stick [OF f, of Some "[1, 2, 3]"]] by simp
qed

section \<open>Fields are read back\<close>

fun put_fields ::
  "(u8 list \<Rightarrow> 's \<Rightarrow> (io_error + unit) \<times> 's) \<Rightarrow> ('s \<Rightarrow> (io_error + unit) \<times> 's) \<Rightarrow> field list \<Rightarrow>
     's io_writer \<Rightarrow> (io_error + unit) \<times> 's io_writer" where
  "put_fields put flush [] w = (Inr (), w)"
| "put_fields put flush (f # fs) w =
     (case iw_field put flush f w of
        (Inl e, w1) \<Rightarrow> (Inl e, w1)
      | (Inr _, w1) \<Rightarrow> put_fields put flush fs w1)"

text \<open>The value a field stands for, and the byte reader's accessor for it.\<close>

fun field_value :: "field \<Rightarrow> nat" where
  "field_value (W8 v) = unat v"
| "field_value (WB16 v) = unat v"
| "field_value (WL16 v) = unat v"
| "field_value (WB24 v) = unat v mod 2 ^ 24"
| "field_value (WL24 v) = unat v mod 2 ^ 24"
| "field_value (WB32 v) = unat v"
| "field_value (WL32 v) = unat v"
| "field_value (WB64 v) = unat v"
| "field_value (WL64 v) = unat v"

fun get_field :: "field \<Rightarrow> byte_reader \<Rightarrow> nat \<times> byte_reader" where
  "get_field (W8 _) r = map_prod unat id (by_u8 r)"
| "get_field (WB16 _) r = map_prod unat id (by_be16 r)"
| "get_field (WL16 _) r = map_prod unat id (by_le16 r)"
| "get_field (WB24 _) r = map_prod unat id (by_be24 r)"
| "get_field (WL24 _) r = map_prod unat id (by_le24 r)"
| "get_field (WB32 _) r = map_prod unat id (by_be32 r)"
| "get_field (WL32 _) r = map_prod unat id (by_le32 r)"
| "get_field (WB64 _) r = map_prod unat id (by_be64 r)"
| "get_field (WL64 _) r = map_prod unat id (by_le64 r)"

fun get_fields :: "field list \<Rightarrow> byte_reader \<Rightarrow> nat list \<times> byte_reader" where
  "get_fields [] r = ([], r)"
| "get_fields (f # fs) r =
     (case get_field f r of (v, r') \<Rightarrow> (case get_fields fs r' of (vs, r'') \<Rightarrow> (v # vs, r'')))"

lemma be_bytes_Suc: "be_bytes (Suc n) v = word_of_nat (v div 256 ^ n) # be_bytes n v"
  by (induction n arbitrary: v) (simp_all add: div_mult2_eq)

lemma bytes_24:
  "drop 1 (be_bytes 4 v) = be_bytes 3 v" "take 3 (rev (be_bytes 4 v)) = rev (be_bytes 3 v)"
proof -
  have "be_bytes 4 v = word_of_nat (v div 256 ^ 3) # be_bytes 3 v"
    using be_bytes_Suc [of 3 v] by (simp only: Suc_numeral semiring_norm)
  then show "drop 1 (be_bytes 4 v) = be_bytes 3 v" "take 3 (rev (be_bytes 4 v)) = rev (be_bytes 3 v)"
    by simp_all
qed

lemma by_take_front:
  assumes "by_ok r" "by_rest r = bs @ tail"
  shows "by_take (length bs) r = (bs, r\<lparr>by_pos := by_pos r + length bs\<rparr>)"
  using by_take_cases [OF assms(1), of "length bs"] assms(2) by simp

lemma field_widths:
  "length (field_bytes (W8 a)) = 1" "length (field_bytes (WB16 b)) = 2" "length (field_bytes (WL16 b)) = 2"
  "length (field_bytes (WB24 c)) = 3" "length (field_bytes (WL24 c)) = 3" "length (field_bytes (WB32 c)) = 4"
  "length (field_bytes (WL32 c)) = 4" "length (field_bytes (WB64 d)) = 8" "length (field_bytes (WL64 d)) = 8"
  by (simp_all add: to_be_bytes_def to_le_bytes_def)

lemma from_be_bytes:
  "unat (from_be (be_bytes 2 (unat b)) :: u16) = unat (b :: u16)"
  "unat (from_be (be_bytes 4 (unat c)) :: u32) = unat (c :: u32)"
  "unat (from_be (be_bytes 8 (unat d)) :: u64) = unat (d :: u64)"
  "unat (from_be (0 # be_bytes 3 n) :: u32) = n mod 2 ^ 24"
proof -
  have "unat b < 2 ^ 16" "unat c < 2 ^ 32" "unat d < 2 ^ 64"
    using unsigned_less [of b] unsigned_less [of c] unsigned_less [of d] by simp_all
  then show "unat (from_be (be_bytes 2 (unat b)) :: u16) = unat b" "unat (from_be (be_bytes 4 (unat c)) :: u32) = unat c"
    "unat (from_be (be_bytes 8 (unat d)) :: u64) = unat d" "unat (from_be (0 # be_bytes 3 n) :: u32) = n mod 2 ^ 24"
    by (simp_all add: unat_from_be [folded be_val_def] be_val_be_bytes)
qed

lemma get_field_front:
  assumes "by_ok r" "by_rest r = field_bytes f @ tail"
  shows "get_field f r = (field_value f, r\<lparr>by_pos := by_pos r + length (field_bytes f)\<rparr>)"
  using by_take_front [OF assms]
  by (cases f; simp only: field_widths)
    (simp_all add: to_be_bytes_def to_le_bytes_def by_u8_def by_be16_def by_le16_def by_be24_def by_le24_def
      by_be32_def by_le32_def by_be64_def by_le64_def from_le_def bytes_24 [simplified] from_be_bytes [simplified])

lemma get_fields_front:
  assumes "by_ok r" "by_rest r = concat (map field_bytes fs) @ tail"
  shows "\<exists>r'. get_fields fs r = (map field_value fs, r') \<and> by_ok r' \<and> by_rest r' = tail \<and>
    by_overrun r' = by_overrun r"
  using assms
proof (induction fs arbitrary: r)
  case (Cons f fs)
  let ?r = "r\<lparr>by_pos := by_pos r + length (field_bytes f)\<rparr>"
  have rest: "by_rest r = field_bytes f @ concat (map field_bytes fs) @ tail" using Cons.prems(2) by simp
  have "length (by_rest r) = length (by_data r) - by_pos r" using by_rest_ok [OF Cons.prems(1)] by simp
  then have ok: "by_ok ?r" using rest Cons.prems(1) by (simp add: by_ok_def)
  have "by_rest ?r = drop (length (field_bytes f)) (by_rest r)"
    using by_rest_ok [OF ok] by_rest_ok [OF Cons.prems(1)] by (simp add: add.commute)
  then have "by_rest ?r = concat (map field_bytes fs) @ tail" using rest by simp
  from Cons.IH [OF ok this] show ?case using get_field_front [OF Cons.prems(1) rest] by auto
qed simp

lemma put_fields_ops:
  "writer_ops put seek flush (map (\<lambda>f. Put (field_bytes f)) fs @ [FlushOut]) w = Some w2 \<Longrightarrow>
    \<exists>w1. put_fields put flush fs w = (Inr (), w1) \<and> iw_flush put flush w1 = (Inr (), w2)"
  by (induction fs arbitrary: w)
    (auto simp: writer_op_def iw_field_def split: bind_splits prod.splits sum.splits)

lemma file_of_puts:
  "fold file_op (map (\<lambda>f. Put (g f)) fs) (xs, length xs) = (xs @ concat (map g fs), length (xs @ concat (map g fs)))"
proof (induction fs arbitrary: xs)
  case (Cons f fs)
  from Cons [of "xs @ g f"] show ?case by (simp add: write_at_end)
qed simp


lemma put_fields_bytes:
  assumes "db_roomy d" "db_buf d = []" "db_pos d = 0" "iw_new grow db_pos l block direct d = Inr w"
    "length (concat (map field_bytes fs)) \<le> db_limit d"
  shows "\<exists>w1 w2. put_fields (db_write (generous slack)) db_flush fs w = (Inr (), w1) \<and>
    iw_flush (db_write (generous slack)) db_flush w1 = (Inr (), w2) \<and>
    fst (shared_take (iw_sink w2)) = concat (map field_bytes fs)"
proof -
  let ?cs = "map (\<lambda>f. Put (field_bytes f)) fs"
  have s: "length (concat (map field_bytes gs)) + p \<le> n \<Longrightarrow>
      stays_within n (map (\<lambda>f. Put (field_bytes f)) gs) p" for gs n p
    by (induction gs arbitrary: p) (simp_all add: algebra_simps)
  have ne: "[] \<noteq> field_bytes f" for f using field_widths by (cases f) (metis list.size(3) zero_neq_numeral zero_neq_one)+
  then have n: "Put [] \<notin> set ?cs" by auto
  obtain w2 where w2: "writer_ops (db_write (generous slack)) db_seek db_flush (?cs @ [FlushOut]) w = Some w2"
      "(db_buf (iw_sink w2), db_pos (iw_sink w2)) = fold file_op ?cs ([], 0)"
    using buffering_transparent [OF assms(1) _ assms(4), of ?cs slack] s [of fs 0] assms(2,3,5) n by auto
  have "fst (shared_take (iw_sink w2)) = concat (map field_bytes fs)"
    using w2(2) file_of_puts [of field_bytes fs "[]"] by (simp add: shared_take_def)
  then show ?thesis using put_fields_ops [OF w2(1)] by auto
qed

text \<open>
  What a muxer writes a demuxer reads: integer fields of 8, 16, 24, 32 and 64 bits in either
  byte order, written one by one through an \<^verbatim>\<open>IoWriter\<close> of any block size into an empty growable
  sink with room for them and flushed, are taken from the sink and read back by the byte
  reader's accessors with their values (24-bit fields keep the low 24 bits), with no overrun
  and nothing left over.
\<close>

theorem fields_round_trip:
  assumes "db_roomy d" "db_buf d = []" "db_pos d = 0" "iw_new grow db_pos l block direct d = Inr w"
    "length (concat (map field_bytes fs)) \<le> db_limit d"
  shows "\<exists>w1 w2 r. put_fields (db_write (generous slack)) db_flush fs w = (Inr (), w1) \<and>
    iw_flush (db_write (generous slack)) db_flush w1 = (Inr (), w2) \<and>
    get_fields fs (by_new (fst (shared_take (iw_sink w2)))) = (map field_value fs, r) \<and>
    by_check r = Inr () \<and> by_rest r = []"
proof -
  have "by_ok (by_new bs)" "by_rest (by_new bs) = bs" "\<not> by_overrun (by_new bs)" for bs
    by (simp_all add: by_new_def by_ok_def by_rest_def slice_from_def)
  then obtain r where r: "get_fields fs (by_new (concat (map field_bytes fs))) = (map field_value fs, r)"
    "by_rest r = []" "\<not> by_overrun r"
    using get_fields_front [of "by_new (concat (map field_bytes fs))" fs "[]"] by auto
  obtain w1 w2 where "put_fields (db_write (generous slack)) db_flush fs w = (Inr (), w1)"
    "iw_flush (db_write (generous slack)) db_flush w1 = (Inr (), w2)"
    "fst (shared_take (iw_sink w2)) = concat (map field_bytes fs)"
    using put_fields_bytes [OF assms] by blast
  then show ?thesis using r by (auto simp: by_check_def)
qed

theorem fields_round_trip_witness:
  "\<exists>w w1 w2 r. iw_new Some db_pos tiny 64 True (db_with_limits tiny) = Inr w \<and>
    put_fields (db_write (generous (\<lambda>_. 0))) db_flush [WB16 258, WL24 0x12345678] w = (Inr (), w1) \<and>
    iw_flush (db_write (generous (\<lambda>_. 0))) db_flush w1 = (Inr (), w2) \<and>
    get_fields [WB16 258, WL24 0x12345678] (by_new (fst (shared_take (iw_sink w2)))) = ([258, 0x345678], r)"
proof -
  obtain w where w: "iw_new Some db_pos tiny 64 True (db_with_limits tiny) = Inr w" using tiny_writer by blast
  have d: "db_buf (db_with_limits tiny) = []" "db_pos (db_with_limits tiny) = 0" "db_limit (db_with_limits tiny) = 2 ^ 14"
    by (simp_all add: db_with_limits_def tiny_def sat_u_def)
  have l: "length (concat (map field_bytes [WB16 258, WL24 0x12345678])) \<le> db_limit (db_with_limits tiny)"
    using d(3) by (simp add: field_widths del: field_bytes.simps)
  from fields_round_trip [OF tiny_roomy d(1,2) w l, of "\<lambda>_. 0"] show ?thesis using w by auto
qed

end
