(* ===== verification/Io_Checksum.thy ===== *)
theory Io_Checksum
  imports Bits_Bytes
begin

text \<open>
  Running checksums, \<^verbatim>\<open>crates/io/vaco-io/src/checksum.rs\<close>: the two 32-bit CRCs, bit by bit as
  in the code, and Adler-32. The locale \<open>crc_register\<close> is what a shift register has to satisfy
  for its CRC to detect error bursts; it is interpreted on both registers.
\<close>

section \<open>The model\<close>

datatype checksum_kind = Crc32Ieee | Crc32Mpeg2 | Adler32

record checksum =
  ck_kind :: checksum_kind
  ck_state :: u32
  ck_start :: nat

definition ck_new :: "checksum_kind \<Rightarrow> nat \<Rightarrow> checksum" where
  "ck_new kind start =
     \<lparr>ck_kind = kind, ck_state = (case kind of Adler32 \<Rightarrow> 1 | _ \<Rightarrow> 0xFFFFFFFF), ck_start = start\<rparr>"

text \<open>The inner loops' bodies; \<^verbatim>\<open>wrapping_neg\<close> of a bit is the mask.\<close>

definition reflected_step :: "u32 \<Rightarrow> u32" where
  "reflected_step crc = drop_bit 1 crc XOR (0xEDB88320 AND - (crc AND 1))"

definition forward_step :: "u32 \<Rightarrow> u32" where
  "forward_step crc = push_bit 1 crc XOR (0x04C11DB7 AND - drop_bit 31 crc)"

definition crc32_reflected :: "u32 \<Rightarrow> u8 list \<Rightarrow> u32" where
  "crc32_reflected crc data = foldl (\<lambda>crc b. (reflected_step ^^ 8) (crc XOR ucast b)) crc data"

definition crc32_forward :: "u32 \<Rightarrow> u8 list \<Rightarrow> u32" where
  "crc32_forward crc data = foldl (\<lambda>crc b. (forward_step ^^ 8) (crc XOR push_bit 24 (ucast b))) crc data"

definition adler_step :: "u32 \<times> u32 \<Rightarrow> u8 \<Rightarrow> u32 \<times> u32" where
  "adler_step ab byte = (let a = (fst ab + ucast byte) mod 65521 in (a, (snd ab + a) mod 65521))"

definition adler32 :: "u32 \<Rightarrow> u8 list \<Rightarrow> u32" where
  "adler32 state data =
     (case foldl adler_step (state AND 0xFFFF, drop_bit 16 state AND 0xFFFF) data of
        (a, b) \<Rightarrow> push_bit 16 b OR a)"

definition ck_update :: "u8 list \<Rightarrow> checksum \<Rightarrow> checksum" where
  "ck_update data c = c\<lparr>ck_state := (case ck_kind c of
     Crc32Ieee \<Rightarrow> crc32_reflected (ck_state c) data
   | Crc32Mpeg2 \<Rightarrow> crc32_forward (ck_state c) data
   | Adler32 \<Rightarrow> adler32 (ck_state c) data)\<rparr>"

definition ck_value :: "checksum \<Rightarrow> u64" where
  "ck_value c = ucast (case ck_kind c of Crc32Ieee \<Rightarrow> NOT (ck_state c) | _ \<Rightarrow> ck_state c)"

section \<open>Shift registers\<close>

lemma reflected_step_cases: "reflected_step x = (if bit x 0 then drop_bit 1 x XOR 0xEDB88320 else drop_bit 1 x)"
  by (simp add: reflected_step_def and_one_eq bit_0 mod2_eq_if)

lemma no_bit_32: "bit (x :: u32) (31 + n) \<Longrightarrow> n = 0"
  using bit_imp_le_length [of x "31 + n"] by simp

lemma top_bit: "drop_bit 31 (x :: u32) = of_bool (bit x 31)"
proof (rule bit_word_eqI)
  fix n assume "n < LENGTH(32)"
  show "bit (drop_bit 31 x) n = bit (of_bool (bit x 31) :: u32) n"
    using no_bit_32 [of x n] by (cases "n = 0") (auto simp: bit_drop_bit_eq bit_simps)
qed

lemma forward_step_cases: "forward_step x = (if bit x 31 then push_bit 1 x XOR 0x04C11DB7 else push_bit 1 x)"
  by (simp add: forward_step_def top_bit)

lemma take_bit_zero: "take_bit n x = 0 \<longleftrightarrow> (\<forall>k<n. \<not> bit x k)" for x :: u32
proof
  assume z: "take_bit n x = 0"
  show "\<forall>k<n. \<not> bit x k"
  proof (intro allI impI)
    fix k assume "k < n"
    then have "bit x k = bit (take_bit n x) k" by (simp add: bit_take_bit_iff)
    then show "\<not> bit x k" by (simp add: z)
  qed
qed (rule bit_word_eqI, simp add: bit_take_bit_iff)

lemma drop_bit_zero: "drop_bit n x = 0 \<longleftrightarrow> (\<forall>k\<ge>n. \<not> bit x k)" for x :: u32
proof
  assume z: "drop_bit n x = 0"
  show "\<forall>k\<ge>n. \<not> bit x k"
  proof (intro allI impI)
    fix k assume "n \<le> k"
    then have "bit x k = bit (drop_bit n x) (k - n)" by (simp add: bit_drop_bit_eq)
    then show "\<not> bit x k" by (simp add: z)
  qed
qed (rule bit_word_eqI, simp add: bit_drop_bit_eq)

lemma reflected_shift: "take_bit n x = 0 \<Longrightarrow> (reflected_step ^^ n) x = drop_bit n x"
  by (induction n) (auto simp: take_bit_zero reflected_step_cases bit_drop_bit_eq)

lemma forward_shift: "drop_bit (32 - n) x = 0 \<Longrightarrow> n \<le> 32 \<Longrightarrow> (forward_step ^^ n) x = push_bit n x"
proof (induction n)
  case (Suc n)
  then have "\<not> bit x (31 - n)" "drop_bit (32 - n) x = 0" by (auto simp: drop_bit_zero)
  then show ?case using Suc by (simp add: forward_step_cases bit_push_bit_iff)
qed simp

lemma xor_cancel: "x XOR z = y XOR z \<Longrightarrow> x = y" for x y z :: u32
proof -
  assume "x XOR z = y XOR z"
  then have "(x XOR z) XOR z = (y XOR z) XOR z" by simp
  then show "x = y" by (simp add: xor.assoc)
qed

lemma list_4: "length xs = 4 \<Longrightarrow> \<exists>a b c d. xs = [a, b, c, d]"
  by (auto simp: numeral_eq_Suc length_Suc_conv)

text \<open>
  What makes a register a CRC register: a step is linear and loses nothing, and the four bytes
  of a word enter one after the other, a byte placed further along arriving at the front after
  eight steps.
\<close>

definition crc_feed :: "(u32 \<Rightarrow> u32) \<Rightarrow> (nat \<Rightarrow> u8 \<Rightarrow> u32) \<Rightarrow> u32 \<Rightarrow> u8 list \<Rightarrow> u32" where
  "crc_feed step place crc data = foldl (\<lambda>crc b. (step ^^ 8) (crc XOR place 0 b)) crc data"

locale crc_register =
  fixes step :: "u32 \<Rightarrow> u32" and place :: "nat \<Rightarrow> u8 \<Rightarrow> u32"
  assumes step_xor: "step (x XOR y) = step x XOR step y"
    and step_kernel: "step x = 0 \<Longrightarrow> x = 0"
    and place_step: "i < 3 \<Longrightarrow> (step ^^ 8) (place (Suc i) b) = place i b"
    and place_inj: "place 0 a0 XOR place 1 a1 XOR place 2 a2 XOR place 3 a3 =
      place 0 b0 XOR place 1 b1 XOR place 2 b2 XOR place 3 b3 \<Longrightarrow> [a0, a1, a2, a3] = [b0, b1, b2, b3]"
begin

lemma steps_xor: "(step ^^ n) (x XOR y) = (step ^^ n) x XOR (step ^^ n) y"
  by (induction n) (simp_all add: step_xor)

lemma steps_inj: "(step ^^ n) x = (step ^^ n) y \<Longrightarrow> x = y"
proof (induction n)
  case (Suc n)
  have "step ((step ^^ n) x XOR (step ^^ n) y) = 0" using Suc.prems by (simp add: step_xor)
  then have "(step ^^ n) x XOR (step ^^ n) y = (step ^^ n) y XOR (step ^^ n) y" by (simp add: step_kernel)
  then have "(step ^^ n) x = (step ^^ n) y" by (rule xor_cancel)
  then show ?case by (rule Suc.IH)
qed simp

lemma feed_append: "crc_feed step place c (xs @ ys) = crc_feed step place (crc_feed step place c xs) ys"
  by (simp add: crc_feed_def)

lemma feed_inj: "crc_feed step place c xs = crc_feed step place c' xs \<Longrightarrow> c = c'"
proof (induction xs arbitrary: c c')
  case (Cons b xs)
  have "(step ^^ 8) (c XOR place 0 b) = (step ^^ 8) (c' XOR place 0 b)"
    using Cons.IH Cons.prems by (simp add: crc_feed_def)
  then show ?case using steps_inj xor_cancel by blast
qed (simp add: crc_feed_def)

lemma feed_word:
  "crc_feed step place c [b0, b1, b2, b3] =
    (step ^^ 32) (c XOR (place 0 b0 XOR place 1 b1 XOR place 2 b2 XOR place 3 b3))"
proof -
  have n: "(step ^^ 32) x = (step ^^ 8) ((step ^^ 8) ((step ^^ 8) ((step ^^ 8) x)))" for x
    using funpow_add [of 8 24 step] funpow_add [of 8 16 step] funpow_add [of 8 8 step] by simp
  have "Suc 1 = 2" "Suc 2 = 3" by simp_all
  then have p: "(step ^^ 8) (place 1 b) = place 0 b" "(step ^^ 8) (place 2 b) = place 1 b"
    "(step ^^ 8) (place 3 b) = place 2 b" for b
    using place_step [of 0 b] place_step [of 1 b] place_step [of 2 b]
    by (simp_all add: numeral_2_eq_2 numeral_3_eq_3)
  show ?thesis unfolding n crc_feed_def foldl_Nil foldl_Cons steps_xor p xor.assoc ..
qed

text \<open>Two messages of the same length that differ only within four bytes have different CRCs.\<close>

lemma burst_detected:
  assumes "length u = length v" "length u \<le> 4" "u \<noteq> v"
  shows "crc_feed step place c (pre @ u @ post) \<noteq> crc_feed step place c (pre @ v @ post)"
proof
  assume e: "crc_feed step place c (pre @ u @ post) = crc_feed step place c (pre @ v @ post)"
  define d where "d = crc_feed step place c pre"
  define z :: "u8 list" where "z = replicate (4 - length u) 0"
  have "crc_feed step place d u = crc_feed step place d v"
    using e feed_inj unfolding feed_append d_def by blast
  then have f: "crc_feed step place d (u @ z) = crc_feed step place d (v @ z)" by (simp add: feed_append)
  have "length (u @ z) = 4" "length (v @ z) = 4" using assms(1,2) by (simp_all add: z_def)
  then obtain a0 a1 a2 a3 b0 b1 b2 b3 where w: "u @ z = [a0, a1, a2, a3]" "v @ z = [b0, b1, b2, b3]"
    using list_4 by metis
  have "d XOR (place 0 a0 XOR place 1 a1 XOR place 2 a2 XOR place 3 a3) =
      d XOR (place 0 b0 XOR place 1 b1 XOR place 2 b2 XOR place 3 b3)"
    using f steps_inj unfolding w feed_word by blast
  then have "u @ z = v @ z" unfolding w by (intro place_inj) (simp add: xor.commute [of d] xor_cancel)
  then show False using assms(3) by simp
qed

end


section \<open>The two registers\<close>

lemma high_bits [simp]: "bit (b :: u8) (n + 8) = False" "8 \<le> n \<Longrightarrow> bit b n = False"
  using bit_imp_le_length [of b] by force+

lemma word_bytes:
  fixes a b c d :: u8
  defines "w \<equiv> push_bit 24 (ucast a) XOR push_bit 16 (ucast b) XOR push_bit 8 (ucast c) XOR ucast d :: u32"
  shows "ucast (drop_bit 24 w) = a" "ucast (drop_bit 16 w) = b" "ucast (drop_bit 8 w) = c" "ucast w = d"
  by (rule bit_word_eqI, auto simp: w_def bit_simps)+

lemma word_of_bytes:
  "push_bit 24 (ucast (ucast (drop_bit 24 w) :: u8)) XOR push_bit 16 (ucast (ucast (drop_bit 16 w) :: u8)) XOR
    push_bit 8 (ucast (ucast (drop_bit 8 w) :: u8)) XOR ucast (ucast w :: u8) = (w :: u32)" (is "?v = w")
proof (rule bit_word_eqI)
  fix n assume n: "n < LENGTH(32)"
  consider "n < 8" | "8 \<le> n" "n < 16" | "16 \<le> n" "n < 24" | "24 \<le> n" by linarith
  then show "bit ?v n = bit w n" using n by cases (auto simp: bit_simps)
qed

interpretation forward: crc_register forward_step "\<lambda>i b. push_bit (24 - 8 * i) (ucast b)"
proof
  fix x y :: u32 and i :: nat and b :: u8
  show "forward_step (x XOR y) = forward_step x XOR forward_step y"
    by (simp add: forward_step_cases bit_xor_iff push_bit_xor xor.assoc xor.commute xor.left_commute)
  show "forward_step x = 0 \<Longrightarrow> x = 0"
  proof -
    assume z: "forward_step x = 0"
    have t: "\<not> bit x 31"
    proof
      assume "bit x 31"
      then have "push_bit 1 x XOR 0x04C11DB7 = 0" using z by (simp add: forward_step_cases)
      then have "bit (push_bit 1 x XOR 0x04C11DB7) 0 = bit (0 :: u32) 0" by simp
      then show False by (simp add: even_xor_iff bit_0)
    qed
    then have "push_bit 1 x = 0" using z by (simp add: forward_step_cases)
    show "x = 0"
    proof (rule bit_word_eqI)
      fix n assume n: "n < LENGTH(32)"
      have "bit x n = bit (push_bit 1 x) (Suc n)" if "n < 31"
        unfolding bit_push_bit_iff using that by simp
      then show "bit x n = bit 0 n" using t n \<open>push_bit 1 x = 0\<close> by (cases "n = 31") simp_all
    qed
  qed
  show "(forward_step ^^ 8) (push_bit (24 - 8 * Suc i) (ucast b)) = push_bit (24 - 8 * i) (ucast b)" if "i < 3"
  proof -
    have "drop_bit (32 - 8) (push_bit (24 - 8 * Suc i) (ucast b)) = (0 :: u32)"
      using that by (auto simp: drop_bit_zero bit_simps)
    then show ?thesis using that forward_shift [of 8 "push_bit (24 - 8 * Suc i) (ucast b)"] by (simp add: push_bit_push_bit)
  qed
next
  fix a0 a1 a2 a3 b0 b1 b2 b3 :: u8
  assume "push_bit (24 - 8 * 0) (ucast a0) XOR push_bit (24 - 8 * 1) (ucast a1) XOR push_bit (24 - 8 * 2) (ucast a2) XOR
      push_bit (24 - 8 * 3) (ucast a3) = (push_bit (24 - 8 * 0) (ucast b0) XOR push_bit (24 - 8 * 1) (ucast b1) XOR
      push_bit (24 - 8 * 2) (ucast b2) XOR push_bit (24 - 8 * 3) (ucast b3) :: u32)"
  then show "[a0, a1, a2, a3] = [b0, b1, b2, b3]"
    using word_bytes [of a0 a1 a2 a3] word_bytes [of b0 b1 b2 b3] by simp
qed

interpretation reflected: crc_register reflected_step "\<lambda>i b. push_bit (8 * i) (ucast b)"
proof
  fix x y :: u32 and i :: nat and b :: u8
  show "reflected_step (x XOR y) = reflected_step x XOR reflected_step y"
    by (simp add: reflected_step_cases bit_xor_iff drop_bit_xor xor.assoc xor.commute xor.left_commute del: bit_0)
  show "reflected_step x = 0 \<Longrightarrow> x = 0"
  proof -
    assume z: "reflected_step x = 0"
    have t: "\<not> bit x 0"
    proof
      assume "bit x 0"
      then have "drop_bit 1 x XOR 0xEDB88320 = 0" using z by (simp add: reflected_step_cases)
      then have "bit (drop_bit 1 x XOR 0xEDB88320) 31 = bit (0 :: u32) 31" by simp
      then show False using no_bit_32 [of x 1] by (simp add: bit_xor_iff bit_drop_bit_eq)
    qed
    then have d: "drop_bit 1 x = 0" using z by (simp add: reflected_step_cases)
    show "x = 0"
    proof (rule bit_word_eqI)
      fix n assume "n < LENGTH(32)"
      show "bit x n = bit 0 n"
        using t d by (cases n) (auto simp: drop_bit_zero)
    qed
  qed
  show "(reflected_step ^^ 8) (push_bit (8 * Suc i) (ucast b)) = push_bit (8 * i) (ucast b)" if "i < 3"
  proof -
    have "take_bit 8 (push_bit (8 * Suc i) (ucast b)) = (0 :: u32)" by (auto simp: take_bit_zero bit_simps)
    moreover have "drop_bit 8 (push_bit (8 * Suc i) (ucast b)) = (push_bit (8 * i) (ucast b) :: u32)"
      using that by (intro bit_word_eqI) (auto simp: bit_simps dest: bit_imp_le_length [of b])
    ultimately show ?thesis using reflected_shift [of 8 "push_bit (8 * Suc i) (ucast b)"] by simp
  qed
next
  fix a0 a1 a2 a3 b0 b1 b2 b3 :: u8
  assume "push_bit (8 * 0) (ucast a0) XOR push_bit (8 * 1) (ucast a1) XOR push_bit (8 * 2) (ucast a2) XOR
      push_bit (8 * 3) (ucast a3) = (push_bit (8 * 0) (ucast b0) XOR push_bit (8 * 1) (ucast b1) XOR
      push_bit (8 * 2) (ucast b2) XOR push_bit (8 * 3) (ucast b3) :: u32)"
  then show "[a0, a1, a2, a3] = [b0, b1, b2, b3]"
    using word_bytes [of a3 a2 a1 a0] word_bytes [of b3 b2 b1 b0] by (simp add: xor.commute xor.left_commute)
qed


lemma crc32_forward_feed: "crc32_forward = crc_feed forward_step (\<lambda>i b. push_bit (24 - 8 * i) (ucast b))"
  by (intro ext) (simp add: crc32_forward_def crc_feed_def)

lemma crc32_reflected_feed: "crc32_reflected = crc_feed reflected_step (\<lambda>i b. push_bit (8 * i) (ucast b))"
  by (intro ext) (simp add: crc32_reflected_def crc_feed_def)

section \<open>Checksums of messages\<close>

definition checksum_of :: "checksum_kind \<Rightarrow> u8 list \<Rightarrow> u64" where
  "checksum_of kind data = ck_value (ck_update data (ck_new kind 0))"

lemma checksum_of_simps:
  "checksum_of Crc32Ieee d = ucast (NOT (crc32_reflected 0xFFFFFFFF d))"
  "checksum_of Crc32Mpeg2 d = ucast (crc32_forward 0xFFFFFFFF d)"
  "checksum_of Adler32 d = ucast (adler32 1 d)"
  by (simp_all add: checksum_of_def ck_value_def ck_update_def ck_new_def)

lemma ucast_inj: "ucast x = (ucast y :: u64) \<Longrightarrow> x = y" for x y :: u32
proof (rule bit_word_eqI)
  fix n assume "ucast x = (ucast y :: u64)" "n < LENGTH(32)"
  then have "bit (ucast x :: u64) n = bit (ucast y :: u64) n" by simp
  then show "bit x n = bit y n" using \<open>n < LENGTH(32)\<close> by (simp add: bit_ucast_iff)
qed

text \<open>
  Both CRCs detect every burst of up to 32 bits: two messages of the same length that differ
  only within four consecutive bytes have different checksums.
\<close>

theorem crc_detects_bursts:
  assumes "kind \<in> {Crc32Ieee, Crc32Mpeg2}" "length u = length v" "length u \<le> 4" "u \<noteq> v"
  shows "checksum_of kind (pre @ u @ post) \<noteq> checksum_of kind (pre @ v @ post)"
proof -
  have "crc32_reflected c (pre @ u @ post) \<noteq> crc32_reflected c (pre @ v @ post)"
    "crc32_forward c (pre @ u @ post) \<noteq> crc32_forward c (pre @ v @ post)" for c
    using forward.burst_detected [OF assms(2-4), of c pre post] reflected.burst_detected [OF assms(2-4), of c pre post]
    unfolding crc32_forward_feed crc32_reflected_feed by blast+
  moreover have "NOT x = NOT y \<Longrightarrow> x = y" for x y :: u32 by (metis bit.double_compl)
  ultimately show ?thesis using assms(1)
    by (elim insertE) (auto simp only: checksum_of_simps dest!: ucast_inj)
qed

theorem crc_detects_bursts_witness:
  "checksum_of Crc32Ieee ([1] @ [2, 3] @ [4]) \<noteq> checksum_of Crc32Ieee ([1] @ [2, 7] @ [4])"
  by (rule crc_detects_bursts) simp_all


subsection \<open>The residue\<close>

lemma be_bytes_4: "be_bytes 4 (unat w) = [ucast (drop_bit 24 w), ucast (drop_bit 16 w), ucast (drop_bit 8 w), ucast w]"
  for w :: u32
proof -
  have d: "word_of_nat (unat w div 2 ^ k) = (ucast (drop_bit k w) :: u8)" for k
    using unat_drop_bit_eq [of k w] by (metis drop_bit_eq_div of_nat_unat)
  have "be_bytes (Suc (Suc (Suc (Suc 0)))) v =
      [word_of_nat (v div 2 ^ 24), word_of_nat (v div 2 ^ 16), word_of_nat (v div 2 ^ 8), word_of_nat v]" for v
    by (simp add: div_mult2_eq [symmetric])
  moreover have "Suc (Suc (Suc (Suc 0))) = 4" by simp
  ultimately show ?thesis using d [of 24] d [of 16] d [of 8] d [of 0] by simp
qed

lemma forward_residue: "crc32_forward c (be_bytes 4 (unat c)) = 0"
proof -
  have "(forward_step ^^ n) 0 = 0" for n using forward.steps_xor [of n 0 0] by simp
  then show ?thesis
    using word_of_bytes [of c] by (simp add: be_bytes_4 crc32_forward_feed forward.feed_word)
qed

subsection \<open>Adler-32\<close>

lemma unat_sum_mod:
  assumes "unat p < 65521" "unat q < 65536"
  shows "unat ((p + q) mod 65521 :: u32) = (unat p + unat q) mod 65521"
proof -
  have "unat (p + q) = unat p + unat q" using assms by (simp add: unat_add_lem [symmetric])
  then show ?thesis by (simp add: unat_mod)
qed

lemma adler_step_nat:
  assumes "unat a < 65521" "unat b < 65521"
  shows "map_prod unat unat (adler_step (a, b) d) =
    ((unat a + unat d) mod 65521, (unat b + (unat a + unat d)) mod 65521)"
proof -
  have b: "unat d < 256" using unsigned_less [of d] by simp
  then have d: "unat (ucast d :: u32) = unat d" by (simp add: unsigned_ucast_eq take_bit_nat_eq_self)
  have x: "unat ((a + ucast d) mod 65521) = (unat a + unat d) mod 65521"
    using unat_sum_mod [OF assms(1), of "ucast d"] d b by simp
  moreover have "(unat a + unat d) mod 65521 < 65536" by (rule less_trans [OF mod_less_divisor]) simp_all
  ultimately have "unat ((b + (a + ucast d) mod 65521) mod 65521) = (unat b + (unat a + unat d) mod 65521) mod 65521"
    using unat_sum_mod [OF assms(2), of "(a + ucast d) mod 65521"] by simp
  then show ?thesis using x by (simp add: adler_step_def Let_def mod_add_right_eq)
qed

text \<open>The sums of RFC 1950: of the bytes, and of the running sums.\<close>

definition adler_sum :: "u8 list \<Rightarrow> nat" where
  "adler_sum data = 1 + sum_list (map unat data)"

lemma adler_fold:
  "map_prod unat unat (foldl adler_step (1, 0) data) =
    (adler_sum data mod 65521, (\<Sum>k = 1..length data. adler_sum (take k data)) mod 65521)"
proof (induction data rule: rev_induct)
  case (snoc d ds)
  obtain a b where ab: "foldl adler_step (1, 0) ds = (a, b)" by fastforce
  let ?A = "adler_sum ds" and ?B = "\<Sum>k = 1..length ds. adler_sum (take k ds)"
  have u: "unat a = ?A mod 65521" "unat b = ?B mod 65521" using snoc.IH by (simp_all add: ab)
  have m: "(x mod 65521 + (y mod 65521 + z)) mod 65521 = (x + (y + z)) mod 65521" for x y z :: nat
    by (metis mod_add_left_eq mod_add_right_eq)
  have s: "(\<Sum>k = 1..length (ds @ [d]). adler_sum (take k (ds @ [d]))) = ?B + adler_sum (ds @ [d])" by simp
  have "map_prod unat unat (adler_step (a, b) d) =
      ((?A mod 65521 + unat d) mod 65521, (?B mod 65521 + (?A mod 65521 + unat d)) mod 65521)"
    using adler_step_nat [of a b d] u by simp
  also have "\<dots> = ((?A + unat d) mod 65521, (?B + (?A + unat d)) mod 65521)"
    unfolding m by (simp only: mod_add_left_eq)
  finally show ?case unfolding s by (simp add: ab adler_sum_def)
qed (simp add: adler_sum_def)


lemma and_16: "w AND 0xFFFF = take_bit 16 w" for w :: u32
  by (simp add: take_bit_eq_mask mask_eq_exp_minus_1)

lemma small_bits: "unat a < 65536 \<Longrightarrow> bit a n \<Longrightarrow> n < 16" for a :: u32
proof -
  assume "unat a < 65536" "bit a n"
  then have "take_bit 16 (unat a) = unat a" by (intro take_bit_nat_eq_self) simp
  then have "take_bit 16 a = a" by (metis of_nat_unat unsigned_take_bit_eq ucast_id)
  then show "n < 16" using \<open>bit a n\<close> by (metis bit_take_bit_iff)
qed

lemma adler_state_split: "push_bit 16 (drop_bit 16 w AND 0xFFFF) OR (w AND 0xFFFF) = w" for w :: u32
proof (unfold and_16, rule bit_word_eqI)
  fix n assume "n < LENGTH(32)"
  then show "bit (push_bit 16 (take_bit 16 (drop_bit 16 w)) OR take_bit 16 w) n = bit w n"
    by (cases "n < 16") (auto simp: bit_simps)
qed

lemma adler_state_join:
  assumes "unat a < 65536" "unat b < 65536"
  shows "(push_bit 16 b OR a) AND 0xFFFF = a" "drop_bit 16 (push_bit 16 b OR a) AND 0xFFFF = b"
    "unat (push_bit 16 b OR a :: u32) = 65536 * unat b + unat a"
proof -
  note s = small_bits [OF assms(1)] small_bits [OF assms(2)]
  show "(push_bit 16 b OR a) AND 0xFFFF = a" "drop_bit 16 (push_bit 16 b OR a) AND 0xFFFF = b"
    unfolding and_16 by (rule bit_word_eqI, auto simp: bit_simps dest: s)+
  have p: "unat (push_bit 16 b) = 65536 * unat b"
    using assms(2) unat_mult_lem [of "65536 :: u32" b] by (simp add: push_bit_eq_mult mult.commute)
  have "push_bit 16 b OR a = push_bit 16 b + a"
    by (rule disjunctive_add [symmetric]) (auto simp: bit_push_bit_iff dest: s)
  then show "unat (push_bit 16 b OR a :: u32) = 65536 * unat b + unat a"
    using assms p unat_add_lem [of "push_bit 16 b" a] by simp
qed


lemma adler_fold_small:
  assumes "foldl adler_step ab data = (a, b)" "data \<noteq> []"
  shows "unat a < 65536" "unat b < 65536"
proof -
  obtain d ds where "data = ds @ [d]" using assms(2) by (metis rev_exhaust)
  moreover have "unat (x mod 65521 :: u32) < 65536" for x
    by (simp add: unat_mod less_trans [OF mod_less_divisor])
  ultimately show "unat a < 65536" "unat b < 65536" using assms(1) by (auto simp: adler_step_def Let_def)
qed

lemma adler32_append: "adler32 (adler32 state xs) ys = adler32 state (xs @ ys)"
proof (cases "xs = []")
  case True
  have "adler32 state [] = state" unfolding adler32_def foldl_Nil prod.case by (rule adler_state_split)
  then show ?thesis using True by simp
next
  case False
  obtain a b where ab: "foldl adler_step (state AND 0xFFFF, drop_bit 16 state AND 0xFFFF) xs = (a, b)" by fastforce
  note j = adler_state_join(1,2) [OF adler_fold_small [OF ab False]]
  show ?thesis unfolding adler32_def foldl_append ab prod.case j ..
qed

lemma ck_update_append: "ck_update ys (ck_update xs c) = ck_update (xs @ ys) c"
  by (cases "ck_kind c") (simp_all add: ck_update_def crc32_forward_def crc32_reflected_def adler32_append)

lemma ck_update_Nil [simp]: "ck_update [] c = c"
proof -
  have "adler32 state [] = state" for state unfolding adler32_def foldl_Nil prod.case by (rule adler_state_split)
  then show ?thesis by (cases "ck_kind c") (simp_all add: ck_update_def crc32_forward_def crc32_reflected_def)
qed

lemma unat_ucast_64: "unat (ucast x :: u64) = unat x" for x :: u32
proof -
  have "unat x < 2 ^ 32" using unsigned_less [of x] by simp
  then show ?thesis by (simp add: unsigned_ucast_eq take_bit_nat_eq_self)
qed

lemma adler_value: "unat (checksum_of Adler32 data) =
    65536 * ((\<Sum>k = 1..length data. adler_sum (take k data)) mod 65521) + adler_sum data mod 65521"
proof -
  obtain a b where ab: "foldl adler_step (1, 0) data = (a, b)" by fastforce
  have u: "unat a = adler_sum data mod 65521" "unat b = (\<Sum>k = 1..length data. adler_sum (take k data)) mod 65521"
    using adler_fold [of data] by (simp_all add: ab)
  have "x mod 65521 < 65536" for x :: nat by (rule less_trans [OF mod_less_divisor]) simp_all
  then have s: "unat a < 65536" "unat b < 65536" using u by simp_all
  have "adler32 1 data = push_bit 16 b OR a" using ab by (simp add: adler32_def)
  then show ?thesis unfolding checksum_of_simps unat_ucast_64 u [symmetric] by (simp only: adler_state_join(3) [OF s])
qed

text \<open>
  The checksums are what the formats specify. Feeding a message in pieces gives the
  checksum of the whole, from any state; a message followed by its MPEG-2 CRC in big-endian
  order has CRC zero; Adler-32 is the pair of sums of RFC 1950, modulo 65521, of the bytes and
  of the running sums.
\<close>

theorem checksum_values:
  "ck_update ys (ck_update xs c) = ck_update (xs @ ys) c \<and>
    checksum_of Crc32Mpeg2 (data @ be_bytes 4 (unat (checksum_of Crc32Mpeg2 data))) = 0 \<and>
    unat (checksum_of Adler32 data) =
      65536 * ((\<Sum>k = 1..length data. adler_sum (take k data)) mod 65521) + adler_sum data mod 65521"
proof (intro conjI)
  show "ck_update ys (ck_update xs c) = ck_update (xs @ ys) c" by (rule ck_update_append)
  show "checksum_of Crc32Mpeg2 (data @ be_bytes 4 (unat (checksum_of Crc32Mpeg2 data))) = 0"
    unfolding checksum_of_simps unat_ucast_64
    using forward_residue by (simp add: crc32_forward_feed forward.feed_append)
  show "unat (checksum_of Adler32 data) =
      65536 * ((\<Sum>k = 1..length data. adler_sum (take k data)) mod 65521) + adler_sum data mod 65521"
    by (rule adler_value)
qed

end
