(* ===== verification/Io_Context.thy ===== *)
theory Io_Context
  imports Io_Writer Io_Checksum "HOL-Library.Sublist"
begin

text \<open>
  The buffered reader of demuxers, \<^verbatim>\<open>crates/io/vaco-io/src/ctx.rs\<close>, over any source. Its
  operations take the source's \<^verbatim>\<open>read\<close> and \<^verbatim>\<open>seek\<close>; a read of up to \<open>n\<close> bytes returns the
  bytes it delivered. Buffering, block size and direct mode are proved invisible over every
  source that keeps the contract \<open>media_source\<close>, in particular over \<^verbatim>\<open>MemorySource\<close>, for
  seeks that stay inside the file or go to a source with cheap seeks.
  The cancellation token is the value its flag has during a call.
\<close>

section \<open>The model\<close>

definition DEFAULT_BLOCK_SIZE :: nat where "DEFAULT_BLOCK_SIZE = 32 * 1024"
definition MIN_BLOCK_SIZE :: nat where "MIN_BLOCK_SIZE = 64"
definition MAX_BLOCK_SIZE :: nat where "MAX_BLOCK_SIZE = 16 * 1024 * 1024"
definition DEFAULT_SHORT_SEEK_MAX :: nat where "DEFAULT_SHORT_SEEK_MAX = 64 * 1024"

record io_options =
  io_block_size :: nat
  io_direct :: bool
  io_short_seek_max :: nat
  io_limits :: limits

definition io_default :: io_options where
  "io_default = \<lparr>io_block_size = DEFAULT_BLOCK_SIZE, io_direct = False,
     io_short_seek_max = DEFAULT_SHORT_SEEK_MAX, io_limits = strict\<rparr>"

definition with_block_size :: "nat \<Rightarrow> io_options \<Rightarrow> io_options" where
  "with_block_size n opts = opts\<lparr>io_block_size := n\<rparr>"

definition with_limits :: "limits \<Rightarrow> io_options \<Rightarrow> io_options" where
  "with_limits l opts = opts\<lparr>io_limits := l\<rparr>"

definition with_direct :: "bool \<Rightarrow> io_options \<Rightarrow> io_options" where
  "with_direct direct opts = opts\<lparr>io_direct := direct\<rparr>"

record 's io_context =
  ic_src :: 's
  ic_buf :: "u8 list"
  ic_head :: nat
  ic_tail :: nat
  ic_base :: nat
  ic_eof :: bool
  ic_err :: "io_error option"
  ic_bytes_read :: nat
  ic_checksum :: "checksum option"
  ic_budget :: budget
  ic_cancelled :: bool
  ic_seekability :: seekability
  ic_short_seek :: nat
  ic_direct :: bool
  ic_max_peek :: nat

definition ic_new ::
  "(nat \<Rightarrow> nat option) \<Rightarrow> ('s \<Rightarrow> seekability) \<Rightarrow> ('s \<Rightarrow> nat) \<Rightarrow> io_options \<Rightarrow> 's \<Rightarrow>
     io_error + 's io_context" where
  "ic_new grow seekability position opts src =
     (let block = max MIN_BLOCK_SIZE (min (io_block_size opts) MAX_BLOCK_SIZE)
      in case bd_alloc grow 1 0 block (bd_new (io_limits opts)) of
           (Inl e, _) \<Rightarrow> Inl (IoLimit (core_error_of_limit e))
         | (Inr buf, budget) \<Rightarrow>
             Inr \<lparr>ic_src = src, ic_buf = buf, ic_head = 0, ic_tail = 0, ic_base = position src,
                  ic_eof = False, ic_err = None, ic_bytes_read = 0, ic_checksum = None,
                  ic_budget = budget, ic_cancelled = False, ic_seekability = seekability src,
                  ic_short_seek = (case seekability src of
                      Cheap \<Rightarrow> 0 | Expensive \<Rightarrow> io_short_seek_max opts | Unseekable \<Rightarrow> U64_MAX),
                  ic_direct = io_direct opts,
                  ic_max_peek = sat_u 64 (max_probe_bytes (io_limits opts))\<rparr>)"

definition ic_set_cancel :: "bool \<Rightarrow> 's io_context \<Rightarrow> 's io_context" where
  "ic_set_cancel cancelled c = c\<lparr>ic_cancelled := cancelled\<rparr>"

definition ic_pos :: "'s io_context \<Rightarrow> nat" where
  "ic_pos c = sat_u 64 (ic_base c + ic_head c)"

definition ic_buffered :: "'s io_context \<Rightarrow> nat" where
  "ic_buffered c = ic_tail c - ic_head c"

definition ic_at_eof :: "'s io_context \<Rightarrow> bool" where
  "ic_at_eof c \<longleftrightarrow> ic_eof c \<and> ic_buffered c = 0"

definition ic_clear_error :: "'s io_context \<Rightarrow> 's io_context" where
  "ic_clear_error c = c\<lparr>ic_err := None\<rparr>"

definition ic_fail :: "io_error \<Rightarrow> 's io_context \<Rightarrow> (io_error + 'a) \<times> 's io_context" where
  "ic_fail e c = (Inl (replay e), if ic_err c = None then c\<lparr>ic_err := Some e\<rparr> else c)"

subsection \<open>Filling the buffer\<close>

definition ic_compact :: "'s io_context \<Rightarrow> 's io_context" where
  "ic_compact c =
     (if ic_head c = 0 then c
      else let n = ic_tail c - ic_head c
           in c\<lparr>ic_buf := take n (drop (ic_head c) (ic_buf c)) @ drop n (ic_buf c),
                ic_base := sat_u 64 (ic_base c + ic_head c), ic_tail := n, ic_head := 0\<rparr>)"

definition ic_make_room :: "'s io_context \<Rightarrow> 's io_context" where
  "ic_make_room c =
     (if ic_head c = ic_tail c
      then c\<lparr>ic_base := sat_u 64 (ic_base c + ic_head c), ic_head := 0, ic_tail := 0\<rparr>
      else if ic_tail c = length (ic_buf c) then ic_compact c else c)"

definition ic_fill ::
  "(nat \<Rightarrow> 's \<Rightarrow> (io_error + u8 list) \<times> 's) \<Rightarrow> 's io_context \<Rightarrow> (io_error + unit) \<times> 's io_context" where
  "ic_fill rd c =
     (case ic_err c of
        Some e \<Rightarrow> (Inl (replay e), c)
      | None \<Rightarrow>
          if ic_eof c then (Inr (), c)
          else if ic_cancelled c then ic_fail Cancelled c
          else let c1 = ic_make_room c
               in case slice_from (ic_buf c1) (ic_tail c1) of
                    None \<Rightarrow> (Inr (), c1)
                  | Some dst \<Rightarrow>
                      if dst = [] then (Inr (), c1)
                      else (case rd (length dst) (ic_src c1) of
                              (Inl e, s) \<Rightarrow> ic_fail e (c1\<lparr>ic_src := s\<rparr>)
                            | (Inr bs, s) \<Rightarrow>
                                if bs = [] then (Inr (), c1\<lparr>ic_src := s, ic_eof := True\<rparr>)
                                else (Inr (), c1\<lparr>ic_src := s,
                                        ic_buf := take (ic_tail c1) (ic_buf c1) @ bs @
                                          drop (ic_tail c1 + length bs) (ic_buf c1),
                                        ic_tail := ic_tail c1 + length bs,
                                        ic_bytes_read := sat_u 64 (ic_bytes_read c1 + length bs)\<rparr>)))"

definition ic_advance :: "nat \<Rightarrow> 's io_context \<Rightarrow> 's io_context" where
  "ic_advance n c =
     (let c1 = (case (ic_checksum c, slice_range (ic_buf c) (ic_head c) (ic_head c + n)) of
                  (Some k, Some region) \<Rightarrow> c\<lparr>ic_checksum := Some (ck_update region k)\<rparr>
                | _ \<Rightarrow> c)
      in c1\<lparr>ic_head := ic_head c1 + n\<rparr>)"

subsection \<open>Reads\<close>

definition ic_read_partial ::
  "(nat \<Rightarrow> 's \<Rightarrow> (io_error + u8 list) \<times> 's) \<Rightarrow> nat \<Rightarrow> 's io_context \<Rightarrow>
     (io_error + u8 list) \<times> 's io_context" where
  "ic_read_partial rd n c =
     (if n = 0 then (Inr [], c)
      else if ic_buffered c = 0 \<and> ic_direct c \<and> n \<ge> length (ic_buf c) \<and> \<not> ic_eof c
      then (if ic_cancelled c then ic_fail Cancelled c
            else case rd n (ic_src c) of
                   (Inl e, s) \<Rightarrow> ic_fail e (c\<lparr>ic_src := s\<rparr>)
                 | (Inr bs, s) \<Rightarrow>
                     if bs = [] then (Inr [], c\<lparr>ic_src := s, ic_eof := True\<rparr>)
                     else (Inr bs, c\<lparr>ic_src := s,
                             ic_bytes_read := sat_u 64 (ic_bytes_read c + length bs),
                             ic_checksum := map_option (ck_update bs) (ic_checksum c),
                             ic_base := sat_u 64 (ic_base c + (ic_head c + length bs)),
                             ic_head := 0, ic_tail := 0\<rparr>))
      else case (if ic_buffered c = 0 then ic_fill rd c else (Inr (), c)) of
             (Inl e, c1) \<Rightarrow> (Inl e, c1)
           | (Inr _, c1) \<Rightarrow>
               if ic_buffered c1 = 0 then (Inr [], c1)
               else let k = min (ic_buffered c1) n
                    in case slice_range (ic_buf c1) (ic_head c1) (ic_head c1 + k) of
                         None \<Rightarrow> (Inl UnexpectedEof, c1)
                       | Some bs \<Rightarrow> (Inr bs, ic_advance k c1))"

function ic_read_exact ::
  "(nat \<Rightarrow> 's \<Rightarrow> (io_error + u8 list) \<times> 's) \<Rightarrow> nat \<Rightarrow> 's io_context \<Rightarrow>
     (io_error + u8 list) \<times> 's io_context" where
  "ic_read_exact rd n c =
     (if n = 0 then (Inr [], c)
      else case ic_read_partial rd n c of
             (Inl e, c1) \<Rightarrow> (Inl e, c1)
           | (Inr [], c1) \<Rightarrow> (Inl UnexpectedEof, c1)
           | (Inr (b # bs), c1) \<Rightarrow>
               (case ic_read_exact rd (n - length (b # bs)) c1 of
                  (Inl e, c2) \<Rightarrow> (Inl e, c2)
                | (Inr cs, c2) \<Rightarrow> (Inr (b # bs @ cs), c2)))"
  by pat_completeness auto

termination
  by (relation "measure (\<lambda>(rd, n, c). n)") auto

declare ic_read_exact.simps [simp del]

lemma ic_fill_window:
  assumes "ic_fill rd c = (Inr u, c')"
  shows "c' = c \<or> (\<exists>k. ic_head c' = ic_head (ic_make_room c) \<and> ic_tail c' = ic_tail (ic_make_room c) + k)"
proof -
  define r where "r = ic_make_room c"
  show ?thesis
    using assms unfolding ic_fill_def Let_def r_def [symmetric]
    by (auto simp: ic_fail_def split: option.splits if_splits prod.splits sum.splits)
qed

lemma ic_make_room_window:
  "(ic_head (ic_make_room c), ic_tail (ic_make_room c)) =
    (if ic_head c = ic_tail c then (0, 0)
     else if ic_tail c = length (ic_buf c) then (0, ic_tail c - ic_head c) else (ic_head c, ic_tail c))"
  by (simp add: ic_make_room_def ic_compact_def Let_def)

lemma ic_fill_progress:
  assumes "ic_fill rd c = (Inr u, c')" "ic_tail c' \<noteq> ic_tail c" "ic_buffered c < len"
  shows "len + ic_head c' - ic_tail c' < len + ic_head c - ic_tail c \<or>
    len + ic_head c' - ic_tail c' = len + ic_head c - ic_tail c \<and> ic_head c' < ic_head c"
proof -
  obtain k where "ic_head c' = ic_head (ic_make_room c)" "ic_tail c' = ic_tail (ic_make_room c) + k"
    using ic_fill_window [OF assms(1)] assms(2) by auto
  then show ?thesis
    using ic_make_room_window [of c] assms(2,3) by (auto simp: ic_buffered_def split: if_splits)
qed

function ic_peek_fill ::
  "(nat \<Rightarrow> 's \<Rightarrow> (io_error + u8 list) \<times> 's) \<Rightarrow> nat \<Rightarrow> 's io_context \<Rightarrow>
     (io_error + unit) \<times> 's io_context" where
  "ic_peek_fill rd len c =
     (if ic_buffered c < len \<and> \<not> ic_eof c
      then (case ic_fill rd c of
              (Inl e, c1) \<Rightarrow> (Inl e, c1)
            | (Inr _, c1) \<Rightarrow> if ic_tail c1 = ic_tail c then (Inr (), c1) else ic_peek_fill rd len c1)
      else (Inr (), c))"
  by pat_completeness auto


termination
proof (relation "measures [\<lambda>(rd, len, c). len + ic_head c - ic_tail c, \<lambda>(rd, len, c). ic_head c]")
  fix rd :: "nat \<Rightarrow> 's \<Rightarrow> (io_error + u8 list) \<times> 's" and len c r c1 u
  assume "ic_buffered c < len \<and> \<not> ic_eof c" "(r, c1) = ic_fill rd c" "r = Inr u" "ic_tail c1 \<noteq> ic_tail c"
  then show "((rd, len, c1), rd, len, c) \<in>
      measures [\<lambda>(rd, len, c). len + ic_head c - ic_tail c, \<lambda>(rd, len, c). ic_head c]"
    using ic_fill_progress [of rd c u c1 len] by auto
qed simp

declare ic_peek_fill.simps [simp del]

definition ic_peek ::
  "(nat \<Rightarrow> 's \<Rightarrow> (io_error + u8 list) \<times> 's) \<Rightarrow> nat \<Rightarrow> 's io_context \<Rightarrow>
     (io_error + u8 list) \<times> 's io_context" where
  "ic_peek rd len c =
     (if len > ic_max_peek c then (Inl (IoLimit (LimitExceeded ''max_probe_bytes'' len (ic_max_peek c))), c)
      else case (if ic_buffered c < len
                 then let c1 = ic_compact c
                      in if len > length (ic_buf c1)
                         then (case charge (len - length (ic_buf c1)) (ic_budget c1) of
                                 (Inl e, b) \<Rightarrow> (Inl (IoLimit (core_error_of_limit e)), c1\<lparr>ic_budget := b\<rparr>)
                               | (Inr _, b) \<Rightarrow>
                                   ic_peek_fill rd len (c1\<lparr>ic_budget := b,
                                     ic_buf := ic_buf c1 @ replicate (len - length (ic_buf c1)) 0\<rparr>))
                         else ic_peek_fill rd len c1
                 else (Inr (), c)) of
             (Inl e, c2) \<Rightarrow> (Inl e, c2)
           | (Inr _, c2) \<Rightarrow>
               (case slice_range (ic_buf c2) (ic_head c2) (min (ic_head c2 + len) (ic_tail c2)) of
                  None \<Rightarrow> (Inl UnexpectedEof, c2)
                | Some bs \<Rightarrow> (Inr bs, c2)))"

function ic_discard ::
  "(nat \<Rightarrow> 's \<Rightarrow> (io_error + u8 list) \<times> 's) \<Rightarrow> nat \<Rightarrow> 's io_context \<Rightarrow>
     (io_error + unit) \<times> 's io_context" where
  "ic_discard rd n c =
     (if n = 0 then (Inr (), c)
      else case (if ic_buffered c = 0 then ic_fill rd c else (Inr (), c)) of
             (Inl e, c1) \<Rightarrow> (Inl e, c1)
           | (Inr _, c1) \<Rightarrow>
               if ic_buffered c1 = 0 then (Inl UnexpectedEof, c1)
               else ic_discard rd (n - min (ic_buffered c1) n) (ic_advance (min (ic_buffered c1) n) c1))"
  by pat_completeness auto

termination
  by (relation "measure (\<lambda>(rd, n, c). n)") auto

declare ic_discard.simps [simp del]

definition ic_r8 ::
  "(nat \<Rightarrow> 's \<Rightarrow> (io_error + u8 list) \<times> 's) \<Rightarrow> 's io_context \<Rightarrow> (io_error + u8) \<times> 's io_context" where
  "ic_r8 rd c =
     (case (if ic_buffered c = 0 then ic_fill rd c else (Inr (), c)) of
        (Inl e, c1) \<Rightarrow> (Inl e, c1)
      | (Inr _, c1) \<Rightarrow>
          if ic_buffered c1 = 0 then (Inl UnexpectedEof, c1)
          else if ic_head c1 < length (ic_buf c1)
          then (Inr (ic_buf c1 ! ic_head c1), ic_advance 1 c1)
          else (Inl UnexpectedEof, c1))"

text \<open>The fixed-width readers: \<^verbatim>\<open>fixed\<close> and a conversion.\<close>

definition ic_fixed ::
  "(nat \<Rightarrow> 's \<Rightarrow> (io_error + u8 list) \<times> 's) \<Rightarrow> nat \<Rightarrow> (u8 list \<Rightarrow> 'a) \<Rightarrow> 's io_context \<Rightarrow>
     (io_error + 'a) \<times> 's io_context" where
  "ic_fixed rd n conv c =
     (case ic_read_exact rd n c of
        (Inl e, c1) \<Rightarrow> (Inl e, c1)
      | (Inr bs, c1) \<Rightarrow> (Inr (conv bs), c1))"

definition ic_rb16 where "ic_rb16 rd c = ic_fixed rd 2 (from_be :: _ \<Rightarrow> u16) c"
definition ic_rl16 where "ic_rl16 rd c = ic_fixed rd 2 (from_le :: _ \<Rightarrow> u16) c"
definition ic_rb24 where "ic_rb24 rd c = ic_fixed rd 3 (\<lambda>b. from_be (0 # b) :: u32) c"
definition ic_rl24 where "ic_rl24 rd c = ic_fixed rd 3 (\<lambda>b. from_le (b @ [0]) :: u32) c"
definition ic_rb32 where "ic_rb32 rd c = ic_fixed rd 4 (from_be :: _ \<Rightarrow> u32) c"
definition ic_rl32 where "ic_rl32 rd c = ic_fixed rd 4 (from_le :: _ \<Rightarrow> u32) c"
definition ic_rb64 where "ic_rb64 rd c = ic_fixed rd 8 (from_be :: _ \<Rightarrow> u64) c"
definition ic_rl64 where "ic_rl64 rd c = ic_fixed rd 8 (from_le :: _ \<Rightarrow> u64) c"
definition ic_tag where "ic_tag rd c = ic_fixed rd 4 (\<lambda>b. b) c"

text \<open>The strings, before their lossy decoding to Unicode.\<close>

fun ic_str_loop ::
  "(nat \<Rightarrow> 's \<Rightarrow> (io_error + u8 list) \<times> 's) \<Rightarrow> nat \<Rightarrow> 's io_context \<Rightarrow>
     (io_error + u8 list) \<times> 's io_context" where
  "ic_str_loop rd 0 c = (Inr [], c)"
| "ic_str_loop rd (Suc n) c =
     (case ic_r8 rd c of
        (Inl UnexpectedEof, c1) \<Rightarrow> (Inr [], c1)
      | (Inl e, c1) \<Rightarrow> (Inl e, c1)
      | (Inr b, c1) \<Rightarrow>
          if b = 0 then (Inr [], c1)
          else (case ic_str_loop rd n c1 of
                  (Inl e, c2) \<Rightarrow> (Inl e, c2)
                | (Inr bs, c2) \<Rightarrow> (Inr (b # bs), c2)))"

definition ic_get_str ::
  "(nat \<Rightarrow> 's \<Rightarrow> (io_error + u8 list) \<times> 's) \<Rightarrow> nat \<Rightarrow> 's io_context \<Rightarrow>
     (io_error + u8 list) \<times> 's io_context" where
  "ic_get_str rd n c =
     (case bd_check n (ic_budget c) of
        Inl e \<Rightarrow> (Inl (IoLimit (core_error_of_limit e)), c)
      | Inr _ \<Rightarrow> ic_str_loop rd n c)"

fun ic_units ::
  "(nat \<Rightarrow> 's \<Rightarrow> (io_error + u8 list) \<times> 's) \<Rightarrow> bool \<Rightarrow> nat \<Rightarrow> 's io_context \<Rightarrow>
     (io_error + u16 list) \<times> 's io_context" where
  "ic_units rd big_endian 0 c = (Inr [], c)"
| "ic_units rd big_endian (Suc n) c =
     (case ic_read_exact rd 2 c of
        (Inl e, c1) \<Rightarrow> (Inl e, c1)
      | (Inr b, c1) \<Rightarrow>
          (case ic_units rd big_endian n c1 of
             (Inl e, c2) \<Rightarrow> (Inl e, c2)
           | (Inr us, c2) \<Rightarrow> (Inr ((if big_endian then from_be b else from_le b) # us), c2)))"

definition ic_get_str16 ::
  "(nat \<Rightarrow> nat option) \<Rightarrow> (nat \<Rightarrow> 's \<Rightarrow> (io_error + u8 list) \<times> 's) \<Rightarrow> nat \<Rightarrow> bool \<Rightarrow> 's io_context \<Rightarrow>
     (io_error + u16 list) \<times> 's io_context" where
  "ic_get_str16 grow rd len big_endian c =
     (case bd_alloc grow 2 (0 :: u16) (len div 2) (ic_budget c) of
        (Inl e, b) \<Rightarrow> (Inl (IoLimit (core_error_of_limit e)), c\<lparr>ic_budget := b\<rparr>)
      | (Inr slots, b) \<Rightarrow>
          (case ic_units rd big_endian (length slots) (c\<lparr>ic_budget := b\<rparr>) of
             (Inl e, c1) \<Rightarrow> (Inl e, c1)
           | (Inr us, c1) \<Rightarrow>
               (Inr (rev (dropWhile (\<lambda>u. u = 0) (rev us))),
                if odd len then snd (ic_r8 rd c1) else c1)))"

subsection \<open>Seeks\<close>

definition ic_seek ::
  "(nat \<Rightarrow> 's \<Rightarrow> (io_error + u8 list) \<times> 's) \<Rightarrow> (nat \<Rightarrow> 's \<Rightarrow> (io_error + nat) \<times> 's) \<Rightarrow> nat \<Rightarrow>
     's io_context \<Rightarrow> (io_error + nat) \<times> 's io_context" where
  "ic_seek rd sk p c =
     (if ic_base c \<le> p \<and> p \<le> sat_u 64 (ic_base c + ic_tail c)
      then (Inr p, c\<lparr>ic_head := p - ic_base c\<rparr>)
      else if ic_pos c < p \<and> p - ic_pos c \<le> ic_short_seek c
      then (case ic_discard rd (p - ic_pos c) c of
              (Inl e, c1) \<Rightarrow> (Inl e, c1)
            | (Inr _, c1) \<Rightarrow> (Inr p, c1))
      else if ic_seekability c = Unseekable then (Inl NotSeekable, c)
      else (case sk p (ic_src c) of
              (Inl e, s) \<Rightarrow> ic_fail e (c\<lparr>ic_src := s\<rparr>)
            | (Inr actual, s) \<Rightarrow>
                (Inr actual, c\<lparr>ic_src := s, ic_base := actual, ic_head := 0, ic_tail := 0, ic_eof := False\<rparr>)))"

definition ic_seek_from_end ::
  "('s \<Rightarrow> nat option) \<Rightarrow> (nat \<Rightarrow> 's \<Rightarrow> (io_error + u8 list) \<times> 's) \<Rightarrow> (nat \<Rightarrow> 's \<Rightarrow> (io_error + nat) \<times> 's) \<Rightarrow>
     nat \<Rightarrow> 's io_context \<Rightarrow> (io_error + nat) \<times> 's io_context" where
  "ic_seek_from_end src_size rd sk back c =
     (case src_size (ic_src c) of
        None \<Rightarrow> (Inl NotSeekable, c)
      | Some n \<Rightarrow> ic_seek rd sk (n - back) c)"

definition ic_skip ::
  "(nat \<Rightarrow> 's \<Rightarrow> (io_error + u8 list) \<times> 's) \<Rightarrow> (nat \<Rightarrow> 's \<Rightarrow> (io_error + nat) \<times> 's) \<Rightarrow> nat \<Rightarrow>
     's io_context \<Rightarrow> (io_error + unit) \<times> 's io_context" where
  "ic_skip rd sk n c =
     (let target = sat_u 64 (ic_pos c + n)
      in case ic_seek rd sk target c of
           (Inl e, c1) \<Rightarrow> (Inl e, c1)
         | (Inr actual, c1) \<Rightarrow> (if actual = target then Inr () else Inl UnexpectedEof, c1))"

subsection \<open>Checksums\<close>

definition ic_start_checksum :: "checksum_kind \<Rightarrow> 's io_context \<Rightarrow> 's io_context" where
  "ic_start_checksum kind c = c\<lparr>ic_checksum := Some (ck_new kind (ic_pos c))\<rparr>"

definition ic_checksum_value :: "'s io_context \<Rightarrow> u64 option" where
  "ic_checksum_value c = map_option ck_value (ic_checksum c)"

definition ic_take_checksum :: "'s io_context \<Rightarrow> u64 \<times> 's io_context" where
  "ic_take_checksum c =
     ((case ic_checksum c of None \<Rightarrow> 0 | Some k \<Rightarrow> ck_value k), c\<lparr>ic_checksum := None\<rparr>)"


text \<open>Only a peek charges the budget.\<close>

lemma fill_budget: "ic_budget (snd (ic_fill rd c)) = ic_budget c"
proof -
  have "ic_budget (ic_make_room c) = ic_budget c" by (simp add: ic_make_room_def ic_compact_def Let_def)
  then show ?thesis by (auto simp: ic_fill_def ic_fail_def Let_def split: option.split sum.split prod.split)
qed

lemma advance_budget: "ic_budget (ic_advance n c) = ic_budget c"
  by (simp add: ic_advance_def Let_def split: option.split)

lemma read_partial_budget: "ic_budget (snd (ic_read_partial rd n c)) = ic_budget c"
  using fill_budget [of rd c]
  by (auto simp: ic_read_partial_def ic_fail_def advance_budget Let_def split: option.split sum.split prod.split)

lemma read_exact_budget: "ic_budget (snd (ic_read_exact rd n c)) = ic_budget c"
proof (induction rd n c rule: ic_read_exact.induct)
  case (1 rd n c)
  then show ?case using read_partial_budget [of rd n c]
    by (subst ic_read_exact.simps) (auto split: sum.split prod.split list.split)
qed

lemma r8_budget: "ic_budget (snd (ic_r8 rd c)) = ic_budget c"
  using fill_budget [of rd c] by (auto simp: ic_r8_def advance_budget split: sum.split prod.split)

lemma discard_budget: "ic_budget (snd (ic_discard rd n c)) = ic_budget c"
proof (induction rd n c rule: ic_discard.induct)
  case (1 rd n c)
  then show ?case using fill_budget [of rd c] advance_budget
    by (subst ic_discard.simps) (auto split: sum.split prod.split)
qed

lemma seek_budget: "ic_budget (snd (ic_seek rd sk p c)) = ic_budget c"
  using discard_budget [of rd "p - ic_pos c" c]
  by (auto simp: ic_seek_def ic_fail_def split: sum.split prod.split)

lemma skip_budget: "ic_budget (snd (ic_skip rd sk n c)) = ic_budget c"
  using seek_budget [of rd sk "sat_u 64 (ic_pos c + n)" c]
  by (auto simp: ic_skip_def Let_def split: sum.split prod.split)

lemma peek_fill_budget: "ic_budget (snd (ic_peek_fill rd len c)) = ic_budget c"
proof (induction rd len c rule: ic_peek_fill.induct)
  case (1 rd len c)
  then show ?case using fill_budget [of rd c]
    by (subst ic_peek_fill.simps) (auto split: sum.split prod.split)
qed

section \<open>Sources\<close>

text \<open>
  A source that does not fail: a read delivers a prefix of what is left, of any length up to
  what was asked for, and nothing only at the end; a seekable one can be moved anywhere.
\<close>

locale media_source =
  fixes rd :: "nat \<Rightarrow> 's \<Rightarrow> (io_error + u8 list) \<times> 's"
    and sk :: "nat \<Rightarrow> 's \<Rightarrow> (io_error + nat) \<times> 's"
    and contents :: "'s \<Rightarrow> u8 list"
    and position :: "'s \<Rightarrow> nat"
    and seekable :: "'s \<Rightarrow> bool"
    and ok :: "'s \<Rightarrow> bool"
  assumes position_fits: "ok s \<Longrightarrow> position s < 2 ^ 64"
    and read_delivers: "ok s \<Longrightarrow> \<exists>bs s'. rd n s = (Inr bs, s') \<and>
      prefix bs (drop (position s) (contents s)) \<and> length bs \<le> n \<and>
      (bs = [] \<longrightarrow> n = 0 \<or> length (contents s) \<le> position s) \<and>
      ok s' \<and> contents s' = contents s \<and> position s' = position s + length bs \<and> seekable s' = seekable s"
    and seek_moves: "ok s \<Longrightarrow> seekable s \<Longrightarrow> p < 2 ^ 64 \<Longrightarrow> \<exists>s'. sk p s = (Inr p, s') \<and>
      ok s' \<and> contents s' = contents s \<and> position s' = p \<and> seekable s' = seekable s"

definition ms_rd :: "nat \<Rightarrow> memory_source \<Rightarrow> (io_error + u8 list) \<times> memory_source" where
  "ms_rd n s = (case ms_read n s of (bs, s') \<Rightarrow> (Inr bs, s'))"

definition ms_ok :: "memory_source \<Rightarrow> bool" where
  "ms_ok s \<longleftrightarrow> length (ms_data s) < 2 ^ 64 \<and> ms_pos s < 2 ^ 64"

interpretation memory: media_source ms_rd ms_seek ms_data ms_pos "\<lambda>s. ms_seekability s \<noteq> Unseekable" ms_ok
proof
  fix s :: memory_source and n p :: nat
  assume ok: "ms_ok s"
  then show "ms_pos s < 2 ^ 64" by (simp add: ms_ok_def)
  show "\<exists>bs s'. ms_rd n s = (Inr bs, s') \<and> prefix bs (drop (ms_pos s) (ms_data s)) \<and> length bs \<le> n \<and>
      (bs = [] \<longrightarrow> n = 0 \<or> length (ms_data s) \<le> ms_pos s) \<and> ms_ok s' \<and> ms_data s' = ms_data s \<and>
      ms_pos s' = ms_pos s + length bs \<and> (ms_seekability s' \<noteq> Unseekable) = (ms_seekability s \<noteq> Unseekable)"
    using ok by (auto simp: ms_rd_def ms_read_cases ms_ok_def min.commute take_is_prefix)
  show "\<exists>s'. ms_seek p s = (Inr p, s') \<and> ms_ok s' \<and> ms_data s' = ms_data s \<and> ms_pos s' = p \<and>
      (ms_seekability s' \<noteq> Unseekable) = (ms_seekability s \<noteq> Unseekable)"
    if "ms_seekability s \<noteq> Unseekable" "p < 2 ^ 64"
    using ok that by (auto simp: ms_seek_def ms_ok_def sat_u_def)
qed

section \<open>The buffer is a window of the source\<close>

text \<open>
  The invariant of the context: the buffer holds the bytes of the source between the base and
  the source's position, and the end has been reached when the flag says so.
\<close>

definition ctx_fine :: "('s \<Rightarrow> u8 list) \<Rightarrow> ('s \<Rightarrow> nat) \<Rightarrow> ('s \<Rightarrow> bool) \<Rightarrow> 's io_context \<Rightarrow> bool" where
  "ctx_fine contents position ok c \<longleftrightarrow> ok (ic_src c) \<and>
     ic_head c \<le> ic_tail c \<and> ic_tail c \<le> length (ic_buf c) \<and> ic_buf c \<noteq> [] \<and>
     position (ic_src c) = ic_base c + ic_tail c \<and>
     take (ic_tail c) (ic_buf c) = take (ic_tail c) (drop (ic_base c) (contents (ic_src c))) \<and>
     (ic_eof c \<longrightarrow> length (contents (ic_src c)) \<le> ic_base c + ic_tail c) \<and>
     ic_err c = None \<and> \<not> ic_cancelled c"

definition ctx_at :: "'s io_context \<Rightarrow> nat" where
  "ctx_at c = ic_base c + ic_head c"

definition ctx_setup :: "'s io_context \<Rightarrow> bool \<times> nat \<times> seekability \<times> nat" where
  "ctx_setup c = (ic_direct c, ic_max_peek c, ic_seekability c, ic_short_seek c)"

text \<open>A read has consumed the bytes \<open>bs\<close>: it has moved past them and fed an open checksum.\<close>

definition consumed ::
  "('s \<Rightarrow> u8 list) \<Rightarrow> ('s \<Rightarrow> nat) \<Rightarrow> ('s \<Rightarrow> bool) \<Rightarrow> ('s \<Rightarrow> bool) \<Rightarrow> 's io_context \<Rightarrow> u8 list \<Rightarrow>
     's io_context \<Rightarrow> bool" where
  "consumed contents position ok seekable c bs c' \<longleftrightarrow> ctx_fine contents position ok c' \<and>
     contents (ic_src c') = contents (ic_src c) \<and> seekable (ic_src c') = seekable (ic_src c) \<and>
     prefix bs (drop (ctx_at c) (contents (ic_src c))) \<and>
     ctx_at c' = ctx_at c + length bs \<and> ctx_setup c' = ctx_setup c \<and>
     length (ic_buf c) \<le> length (ic_buf c') \<and>
     ic_checksum c' = map_option (ck_update bs) (ic_checksum c)"

lemma consumed_trans:
  assumes "consumed contents position ok seekable c xs c1" "consumed contents position ok seekable c1 ys c2"
  shows "consumed contents position ok seekable c (xs @ ys) c2"
proof -
  have "prefix xs (drop (ctx_at c) (contents (ic_src c)))"
    "prefix ys (drop (length xs) (drop (ctx_at c) (contents (ic_src c))))"
    using assms by (auto simp: consumed_def add.commute)
  then have "prefix (xs @ ys) (drop (ctx_at c) (contents (ic_src c)))" by (auto simp: prefix_def simp del: drop_drop)
  then show ?thesis using assms
    by (simp add: consumed_def option.map_comp o_def ck_update_append)
qed

lemma window_slice:
  assumes "ctx_fine contents position ok c" "ic_head c + k \<le> ic_tail c"
  shows "take k (drop (ic_head c) (ic_buf c)) = take k (drop (ctx_at c) (contents (ic_src c)))"
proof -
  let ?h = "ic_head c" and ?t = "ic_tail c"
  have "take k (drop ?h (ic_buf c)) = take k (drop ?h (take ?t (ic_buf c)))"
    using assms(2) by (simp add: drop_take min_absorb1)
  also have "\<dots> = take k (drop ?h (take ?t (drop (ic_base c) (contents (ic_src c)))))"
    using assms(1) by (simp add: ctx_fine_def)
  also have "\<dots> = take k (drop (ctx_at c) (contents (ic_src c)))"
    using assms(2) by (simp add: drop_take min_absorb1 ctx_at_def add.commute)
  finally show ?thesis .
qed


lemma window_in_source:
  assumes "ctx_fine contents position ok c"
  shows "ic_tail c \<le> length (contents (ic_src c)) - ic_base c"
proof -
  have "take (ic_tail c) (ic_buf c) = take (ic_tail c) (drop (ic_base c) (contents (ic_src c)))"
    "ic_tail c \<le> length (ic_buf c)" using assms by (auto simp: ctx_fine_def)
  from arg_cong [OF this(1), of length] this(2) show ?thesis by simp
qed

lemma advance_consumed:
  assumes "ctx_fine contents position ok c" "k \<le> ic_buffered c"
  shows "slice_range (ic_buf c) (ic_head c) (ic_head c + k) = Some (take k (drop (ic_head c) (ic_buf c)))"
    "consumed contents position ok seekable c (take k (drop (ic_head c) (ic_buf c))) (ic_advance k c)"
proof -
  have w: "ic_head c + k \<le> ic_tail c" "ic_tail c \<le> length (ic_buf c)"
    using assms by (auto simp: ctx_fine_def ic_buffered_def)
  then show s: "slice_range (ic_buf c) (ic_head c) (ic_head c + k) = Some (take k (drop (ic_head c) (ic_buf c)))"
    by (simp add: slice_range_def)
  have l: "length (take k (drop (ic_head c) (ic_buf c))) = k" using w by simp
  have p: "prefix (take k (drop (ic_head c) (ic_buf c))) (drop (ctx_at c) (contents (ic_src c)))"
    unfolding window_slice [OF assms(1) w(1)] by (rule take_is_prefix)
  have a: "ic_advance k c = c\<lparr>ic_checksum := map_option (ck_update (take k (drop (ic_head c) (ic_buf c)))) (ic_checksum c),
      ic_head := ic_head c + k\<rparr>"
    by (cases "ic_checksum c") (simp_all add: ic_advance_def s)
  show "consumed contents position ok seekable c (take k (drop (ic_head c) (ic_buf c))) (ic_advance k c)"
    using assms(1) w p l unfolding a consumed_def ctx_fine_def ctx_at_def ctx_setup_def by simp
qed

lemma consumed_Nil: "ctx_fine contents position ok c \<Longrightarrow> consumed contents position ok seekable c [] c"
  by (simp add: consumed_def option.map_ident [unfolded id_def] ck_update_Nil [abs_def])

lemma buffered_zero: "ctx_fine contents position ok c \<Longrightarrow> ic_buffered c = 0 \<longleftrightarrow> ic_head c = ic_tail c"
  by (auto simp: ctx_fine_def ic_buffered_def)

text \<open>Everything but the window is as before.\<close>

definition same_rest :: "'s io_context \<Rightarrow> 's io_context \<Rightarrow> bool" where
  "same_rest c c' \<longleftrightarrow> ctx_setup c' = ctx_setup c \<and> length (ic_buf c') = length (ic_buf c) \<and>
     ic_checksum c' = ic_checksum c \<and> ic_budget c' = ic_budget c"

text \<open>A move without reading: the position changes, an open checksum does not.\<close>

definition moved_to ::
  "('s \<Rightarrow> u8 list) \<Rightarrow> ('s \<Rightarrow> nat) \<Rightarrow> ('s \<Rightarrow> bool) \<Rightarrow> ('s \<Rightarrow> bool) \<Rightarrow> 's io_context \<Rightarrow> nat \<Rightarrow>
     's io_context \<Rightarrow> bool" where
  "moved_to contents position ok seekable c p c' \<longleftrightarrow> ctx_fine contents position ok c' \<and>
     contents (ic_src c') = contents (ic_src c) \<and> seekable (ic_src c') = seekable (ic_src c) \<and>
     ctx_at c' = p \<and> same_rest c c'"

context media_source
begin

lemma base_sat:
  assumes "ctx_fine contents position ok c"
  shows "sat_u 64 (ic_base c + ic_head c) = ctx_at c" "sat_u 64 (ic_base c + ic_tail c) = ic_base c + ic_tail c"
    "ctx_at c < 2 ^ 64"
proof -
  have "ic_base c + ic_tail c < 2 ^ 64" "ic_head c \<le> ic_tail c"
    using position_fits [of "ic_src c"] assms by (auto simp: ctx_fine_def)
  then show "sat_u 64 (ic_base c + ic_head c) = ctx_at c" "sat_u 64 (ic_base c + ic_tail c) = ic_base c + ic_tail c"
    "ctx_at c < 2 ^ 64"
    by (simp_all add: sat_u_def ctx_at_def)
qed

lemma compact_fine:
  assumes "ctx_fine contents position ok c"
  defines "r \<equiv> ic_compact c"
  shows "ctx_fine contents position ok r" "ctx_at r = ctx_at c" "ic_src r = ic_src c" "ic_eof r = ic_eof c"
    "ic_buffered r = ic_buffered c" "same_rest c r" "ic_head r = 0"
proof -
  have w: "ic_head c \<le> ic_tail c" "ic_tail c \<le> length (ic_buf c)" using assms(1) by (auto simp: ctx_fine_def)
  have "take (ic_tail c - ic_head c) (drop (ic_head c) (ic_buf c)) =
      take (ic_tail c - ic_head c) (drop (ctx_at c) (contents (ic_src c)))"
    using window_slice [OF assms(1), of "ic_tail c - ic_head c"] w(1) by simp
  then show "ctx_fine contents position ok r" "ctx_at r = ctx_at c" "ic_src r = ic_src c" "ic_eof r = ic_eof c"
    "ic_buffered r = ic_buffered c" "same_rest c r" "ic_head r = 0"
    using assms(1) w base_sat(1) [OF assms(1)] window_in_source [OF assms(1)] unfolding r_def
    by (auto simp: ic_compact_def Let_def ctx_fine_def ctx_at_def ic_buffered_def same_rest_def ctx_setup_def
        min_absorb2)
qed

lemma make_room_fine:
  assumes "ctx_fine contents position ok c"
  defines "r \<equiv> ic_make_room c"
  shows "ctx_fine contents position ok r" "ctx_at r = ctx_at c" "ic_src r = ic_src c" "ic_eof r = ic_eof c"
    "ic_buffered r = ic_buffered c" "same_rest c r"
    "ic_tail r < length (ic_buf r) \<or> ic_head c = 0 \<and> ic_tail c = length (ic_buf c) \<and> r = c"
proof -
  have w: "ic_head c \<le> ic_tail c" "ic_tail c \<le> length (ic_buf c)" "ic_buf c \<noteq> []"
    using assms(1) by (auto simp: ctx_fine_def)
  note c = compact_fine [OF assms(1)] and b = base_sat [OF assms(1)]
  consider (reset) "ic_head c = ic_tail c" "r = c\<lparr>ic_base := ctx_at c, ic_head := 0, ic_tail := 0\<rparr>"
    | (full) "ic_head c < ic_tail c" "ic_tail c = length (ic_buf c)" "r = ic_compact c"
    | (free) "ic_tail c < length (ic_buf c)" "r = c"
    using w b(1) unfolding r_def ic_make_room_def by (metis le_neq_implies_less)
  then have "ctx_fine contents position ok r \<and> ctx_at r = ctx_at c \<and> ic_src r = ic_src c \<and> ic_eof r = ic_eof c \<and>
    ic_buffered r = ic_buffered c \<and> same_rest c r \<and>
    (ic_tail r < length (ic_buf r) \<or> ic_head c = 0 \<and> ic_tail c = length (ic_buf c) \<and> r = c)"
  proof cases
    case reset
    then show ?thesis using assms(1)
      by (auto simp: ctx_fine_def ctx_at_def ic_buffered_def same_rest_def ctx_setup_def)
  next
    case full
    then show ?thesis using c by (auto simp: ic_compact_def Let_def)
  next
    case free
    then show ?thesis using assms(1) by (simp add: same_rest_def)
  qed
  then show "ctx_fine contents position ok r" "ctx_at r = ctx_at c" "ic_src r = ic_src c" "ic_eof r = ic_eof c"
    "ic_buffered r = ic_buffered c" "same_rest c r"
    "ic_tail r < length (ic_buf r) \<or> ic_head c = 0 \<and> ic_tail c = length (ic_buf c) \<and> r = c" by blast+
qed

lemma append_window:
  fixes n :: nat
  assumes "ctx_fine contents position ok r" "prefix bs (drop (position (ic_src r)) (contents (ic_src r)))"
    "ok s" "contents s = contents (ic_src r)" "position s = position (ic_src r) + length bs"
    "ic_tail r + length bs \<le> length (ic_buf r)" "\<not> ic_eof r"
  defines "c' \<equiv> r\<lparr>ic_src := s, ic_buf := take (ic_tail r) (ic_buf r) @ bs @ drop (ic_tail r + length bs) (ic_buf r),
      ic_tail := ic_tail r + length bs, ic_bytes_read := n\<rparr>"
  shows "ctx_fine contents position ok c'" "ctx_at c' = ctx_at r" "same_rest r c'"
    "ic_buffered c' = ic_buffered r + length bs"
proof -
  let ?t = "ic_tail r" and ?cs = "contents (ic_src r)"
  have w: "ic_head r \<le> ?t" "?t \<le> length (ic_buf r)" "position (ic_src r) = ic_base r + ?t"
    "take ?t (ic_buf r) = take ?t (drop (ic_base r) ?cs)" using assms(1) by (auto simp: ctx_fine_def)
  have "take (length bs) (drop ?t (drop (ic_base r) ?cs)) = bs"
    using assms(2) w(3) by (auto simp: prefix_def add.commute)
  moreover have l: "?t \<le> length ?cs - ic_base r" by (rule window_in_source [OF assms(1)])
  ultimately have "take (?t + length bs) (drop (ic_base r) ?cs) = take ?t (ic_buf r) @ bs"
    unfolding take_add w(4) by simp
  then show "ctx_fine contents position ok c'"
    using assms(1,3-7) w l by (simp add: ctx_fine_def c'_def min_absorb2) (cases "ic_buf r"; auto)
  show "ctx_at c' = ctx_at r" "same_rest r c'" "ic_buffered c' = ic_buffered r + length bs"
    using assms(6) w l by (auto simp: ctx_at_def same_rest_def ctx_setup_def ic_buffered_def c'_def min_absorb2)
qed

lemma fill_fine:
  assumes "ctx_fine contents position ok c"
  shows "\<exists>c'. ic_fill rd c = (Inr (), c') \<and> consumed contents position ok seekable c [] c' \<and> same_rest c c' \<and>
    ic_buffered c \<le> ic_buffered c' \<and>
    (ic_eof c' \<or> ic_buffered c < ic_buffered c' \<or> c' = c \<and> ic_head c = 0 \<and> ic_tail c = length (ic_buf c))"
proof (cases "ic_eof c")
  case True
  then show ?thesis using assms consumed_Nil [OF assms]
    by (auto simp: ic_fill_def same_rest_def ctx_fine_def)
next
  case False
  define r where "r = ic_make_room c"
  note m = make_room_fine [OF assms, folded r_def]
  have c: "ic_err c = None" "\<not> ic_cancelled c" using assms by (auto simp: ctx_fine_def)
  have t: "ic_tail r \<le> length (ic_buf r)" "ok (ic_src r)" "position (ic_src r) = ic_base r + ic_tail r"
    using m(1) by (auto simp: ctx_fine_def)
  define dst where "dst = drop (ic_tail r) (ic_buf r)"
  have e: "ic_fill rd c = (if dst = [] then (Inr (), r) else case rd (length dst) (ic_src r) of
        (Inl e, s) \<Rightarrow> ic_fail e (r\<lparr>ic_src := s\<rparr>)
      | (Inr bs, s) \<Rightarrow> if bs = [] then (Inr (), r\<lparr>ic_src := s, ic_eof := True\<rparr>)
          else (Inr (), r\<lparr>ic_src := s,
            ic_buf := take (ic_tail r) (ic_buf r) @ bs @ drop (ic_tail r + length bs) (ic_buf r),
            ic_tail := ic_tail r + length bs, ic_bytes_read := sat_u 64 (ic_bytes_read r + length bs)\<rparr>))"
    using c False t(1) unfolding ic_fill_def Let_def r_def [symmetric] by (simp add: slice_from_def dst_def)
  have con: "consumed contents position ok seekable c [] c'" 
    if "ctx_fine contents position ok c'" "contents (ic_src c') = contents (ic_src c)"
      "seekable (ic_src c') = seekable (ic_src c)" "ctx_at c' = ctx_at r" "same_rest r c'" for c'
    using that m(2,6) consumed_Nil [OF assms, of seekable] by (simp add: consumed_def same_rest_def)
  have trans: "same_rest c c'" if "same_rest r c'" for c' using that m(6) by (simp add: same_rest_def)
  show ?thesis
  proof (cases "dst = []")
    case True
    then have "r = c \<and> ic_head c = 0 \<and> ic_tail c = length (ic_buf c)" using m(7) by (auto simp: dst_def)
    then show ?thesis using e True consumed_Nil [OF assms] m(6) by simp
  next
    case ne: False
    obtain bs s where rd: "rd (length dst) (ic_src r) = (Inr bs, s)" "prefix bs (drop (position (ic_src r)) (contents (ic_src r)))"
      "length bs \<le> length dst" "bs = [] \<longrightarrow> length (contents (ic_src r)) \<le> position (ic_src r)"
      "ok s" "contents s = contents (ic_src r)" "position s = position (ic_src r) + length bs"
      "seekable s = seekable (ic_src r)"
      using read_delivers [OF t(2), of "length dst"] ne by auto
    show ?thesis
    proof (cases "bs = []")
      case True
      let ?c = "r\<lparr>ic_src := s, ic_eof := True\<rparr>"
      have "ctx_fine contents position ok ?c" using m(1) rd True t(3) by (simp add: ctx_fine_def)
      then have "consumed contents position ok seekable c [] ?c" "same_rest c ?c"
        using rd m(3) by (intro con trans; simp add: ctx_at_def same_rest_def ctx_setup_def)+
      then show ?thesis using e ne rd(1) True m(5) by (simp add: ic_buffered_def)
    next
      case False
      have ro: "\<not> ic_eof r" "ic_tail r + length bs \<le> length (ic_buf r)"
        using \<open>\<not> ic_eof c\<close> m(4) rd(3) t(1) by (auto simp: dst_def)
      note a = append_window [OF m(1) rd(2,5-7) ro(2,1), of "sat_u 64 (ic_bytes_read r + length bs)"]
      show ?thesis using e ne rd(1) False con [OF a(1)] trans [OF a(3)] a(2-4) rd(6,8) m(3,5) by simp
    qed
  qed
qed

text \<open>What a read finds at the caller's position: nothing only at the end of the source.\<close>

lemma buffered_end:
  assumes "ctx_fine contents position ok c" "ic_eof c" "ic_buffered c = 0"
  shows "length (contents (ic_src c)) \<le> ctx_at c"
  using assms by (auto simp: ctx_fine_def ctx_at_def ic_buffered_def)

lemma refill_fine:
  assumes "ctx_fine contents position ok c"
  shows "\<exists>c'. (if ic_buffered c = 0 then ic_fill rd c else (Inr (), c)) = (Inr (), c') \<and>
    consumed contents position ok seekable c [] c' \<and> same_rest c c' \<and>
    (ic_buffered c' = 0 \<longrightarrow> length (contents (ic_src c)) \<le> ctx_at c)"
proof (cases "ic_buffered c = 0")
  case True
  obtain c' where c': "ic_fill rd c = (Inr (), c')" "consumed contents position ok seekable c [] c'" "same_rest c c'"
    "ic_eof c' \<or> ic_buffered c < ic_buffered c' \<or> c' = c \<and> ic_head c = 0 \<and> ic_tail c = length (ic_buf c)"
    using fill_fine [OF assms] by blast
  have "ic_tail c \<noteq> length (ic_buf c) \<or> ic_head c \<noteq> 0" using True assms by (auto simp: ctx_fine_def ic_buffered_def)
  then have "length (contents (ic_src c)) \<le> ctx_at c" if "ic_buffered c' = 0"
    using c'(2,4) that True buffered_end [of c'] by (auto simp: consumed_def)
  then show ?thesis using c' True by auto
next
  case False
  then show ?thesis using consumed_Nil [OF assms] by (auto simp: same_rest_def)
qed

lemma take_buffered:
  assumes "ctx_fine contents position ok c" "0 < ic_buffered c" "0 < n"
  shows "\<exists>bs. slice_range (ic_buf c) (ic_head c) (ic_head c + min (ic_buffered c) n) = Some bs \<and>
    consumed contents position ok seekable c bs (ic_advance (min (ic_buffered c) n) c) \<and>
    length bs = min (ic_buffered c) n \<and> bs \<noteq> []"
proof -
  let ?bs = "take (min (ic_buffered c) n) (drop (ic_head c) (ic_buf c))"
  have "min (ic_buffered c) n \<le> length (drop (ic_head c) (ic_buf c))"
    using assms(1) by (auto simp: ctx_fine_def ic_buffered_def)
  then have l: "length ?bs = min (ic_buffered c) n" by (simp add: min_absorb2)
  then have "?bs \<noteq> []" using assms(2,3) by (metis length_0_conv min_def neq0_conv)
  then show ?thesis using advance_consumed [OF assms(1), of "min (ic_buffered c) n"] l by auto
qed

lemma direct_read_fine:
  assumes "ctx_fine contents position ok c" "ic_buffered c = 0" "\<not> ic_eof c" "rd n (ic_src c) = (Inr bs, s)"
    "prefix bs (drop (position (ic_src c)) (contents (ic_src c)))" "ok s" "contents s = contents (ic_src c)"
    "position s = position (ic_src c) + length bs" "seekable s = seekable (ic_src c)"
    "bs = [] \<longrightarrow> n = 0 \<or> length (contents (ic_src c)) \<le> position (ic_src c)" "0 < n"
  shows "consumed contents position ok seekable c bs
    (if bs = [] then c\<lparr>ic_src := s, ic_eof := True\<rparr>
     else c\<lparr>ic_src := s, ic_bytes_read := m, ic_checksum := map_option (ck_update bs) (ic_checksum c),
       ic_base := sat_u 64 (ic_base c + (ic_head c + length bs)), ic_head := 0, ic_tail := 0\<rparr>)"
proof -
  have p: "position (ic_src c) = ctx_at c" "ic_head c = ic_tail c"
    using assms(1,2) buffered_zero [OF assms(1)] by (auto simp: ctx_fine_def ctx_at_def)
  have "position s < 2 ^ 64" using position_fits [OF assms(6)] .
  moreover have "ic_base c + (ic_head c + length bs) = position s" using assms(8) p(1) by (simp add: ctx_at_def)
  ultimately have b: "sat_u 64 (ic_base c + (ic_head c + length bs)) = position s" by (simp add: sat_u_id fits_u_def)
  show ?thesis
  proof (cases "bs = []")
    case True
    then show ?thesis using assms p consumed_Nil [OF assms(1), of seekable]
      by (auto simp: consumed_def ctx_fine_def ctx_at_def ctx_setup_def)
  next
    case False
    then show ?thesis using assms p b by (auto simp: consumed_def ctx_fine_def ctx_at_def ctx_setup_def)
  qed
qed

lemma read_partial_fine:
  assumes "ctx_fine contents position ok c" "0 < n"
  shows "\<exists>bs c'. ic_read_partial rd n c = (Inr bs, c') \<and> consumed contents position ok seekable c bs c' \<and>
    length bs \<le> n \<and> (bs = [] \<longrightarrow> length (contents (ic_src c)) \<le> ctx_at c)"
proof (cases "ic_buffered c = 0 \<and> ic_direct c \<and> n \<ge> length (ic_buf c) \<and> \<not> ic_eof c")
  case True
  have c: "\<not> ic_cancelled c" "ok (ic_src c)" "position (ic_src c) = ctx_at c"
    using assms(1) True buffered_zero [OF assms(1)] by (auto simp: ctx_fine_def ctx_at_def)
  obtain bs s where r: "rd n (ic_src c) = (Inr bs, s)" "prefix bs (drop (position (ic_src c)) (contents (ic_src c)))"
      "length bs \<le> n" "bs = [] \<longrightarrow> n = 0 \<or> length (contents (ic_src c)) \<le> position (ic_src c)"
      "ok s" "contents s = contents (ic_src c)" "position s = position (ic_src c) + length bs"
      "seekable s = seekable (ic_src c)"
    using read_delivers [OF c(2), of n] by blast
  let ?c = "if bs = [] then c\<lparr>ic_src := s, ic_eof := True\<rparr>
     else c\<lparr>ic_src := s, ic_bytes_read := sat_u 64 (ic_bytes_read c + length bs),
       ic_checksum := map_option (ck_update bs) (ic_checksum c),
       ic_base := sat_u 64 (ic_base c + (ic_head c + length bs)), ic_head := 0, ic_tail := 0\<rparr>"
  have "ic_read_partial rd n c = (Inr bs, ?c)" using True assms(2) c(1) r(1) by (simp add: ic_read_partial_def)
  moreover have "consumed contents position ok seekable c bs ?c"
    using True by (intro direct_read_fine [OF assms(1) _ _ r(1,2,5-8,4) assms(2)]) simp_all
  moreover have "bs = [] \<longrightarrow> length (contents (ic_src c)) \<le> ctx_at c" using r(4) assms(2) c(3) by simp
  ultimately show ?thesis using r(3) by blast
next
  case False
  obtain c1 where c1: "(if ic_buffered c = 0 then ic_fill rd c else (Inr (), c)) = (Inr (), c1)"
    "consumed contents position ok seekable c [] c1" "ic_buffered c1 = 0 \<longrightarrow> length (contents (ic_src c)) \<le> ctx_at c"
    using refill_fine [OF assms(1)] by (elim exE conjE) (rule that)
  have f: "ctx_fine contents position ok c1" using c1(2) by (simp add: consumed_def)
  have e: "ic_read_partial rd n c = (if ic_buffered c1 = 0 then (Inr [], c1)
      else let k = min (ic_buffered c1) n in case slice_range (ic_buf c1) (ic_head c1) (ic_head c1 + k) of
        None \<Rightarrow> (Inl UnexpectedEof, c1) | Some bs \<Rightarrow> (Inr bs, ic_advance k c1))"
    unfolding ic_read_partial_def if_not_P [OF False] c1(1) using assms(2) by simp
  show ?thesis
  proof (cases "ic_buffered c1 = 0")
    case True
    then have "ic_read_partial rd n c = (Inr [], c1)" using e by simp
    then show ?thesis using c1(2,3) True by simp
  next
    case False
    then have "0 < ic_buffered c1" by simp
    then obtain bs where b: "slice_range (ic_buf c1) (ic_head c1) (ic_head c1 + min (ic_buffered c1) n) = Some bs"
      "consumed contents position ok seekable c1 bs (ic_advance (min (ic_buffered c1) n) c1)"
      "length bs = min (ic_buffered c1) n" "bs \<noteq> []"
      using take_buffered [OF f _ assms(2)] by blast
    have "ic_read_partial rd n c = (Inr bs, ic_advance (min (ic_buffered c1) n) c1)"
      using e False b(1) by (simp add: Let_def)
    moreover have "consumed contents position ok seekable c bs (ic_advance (min (ic_buffered c1) n) c1)"
      using consumed_trans [OF c1(2) b(2)] by simp
    ultimately show ?thesis using b(3,4) by simp
  qed
qed

lemma read_exact_fine:
  assumes "ctx_fine contents position ok c"
  defines "rest \<equiv> drop (ctx_at c) (contents (ic_src c))"
  shows "\<exists>c'. ic_read_exact rd n c = (if n \<le> length rest then Inr (take n rest) else Inl UnexpectedEof, c') \<and>
    consumed contents position ok seekable c (take n rest) c'"
  using assms(1) unfolding rest_def
proof (induction n arbitrary: c rule: less_induct)
  case (less n)
  let ?rest = "drop (ctx_at c) (contents (ic_src c))"
  show ?case
  proof (cases "n = 0")
    case True
    then show ?thesis using consumed_Nil [OF less.prems] by (simp add: ic_read_exact.simps)
  next
    case n: False
    then obtain bs c1 where c1: "ic_read_partial rd n c = (Inr bs, c1)" "consumed contents position ok seekable c bs c1"
      "length bs \<le> n" "bs = [] \<longrightarrow> length (contents (ic_src c)) \<le> ctx_at c"
      using read_partial_fine [OF less.prems, of n] by auto
    show ?thesis
    proof (cases bs)
      case Nil
      then show ?thesis using n c1 by (simp add: ic_read_exact.simps [of rd n])
    next
      case (Cons b bs')
      have f: "ctx_fine contents position ok c1" using c1(2) by (simp add: consumed_def)
      have lt: "n - length bs < n" using Cons n by simp
      obtain zs where zs: "?rest = bs @ zs" using c1(2) by (auto simp: consumed_def prefix_def)
      have d: "drop (ctx_at c1) (contents (ic_src c1)) = zs"
        using c1(2) zs by (simp add: consumed_def add.commute [of "ctx_at c"] drop_drop [symmetric] del: drop_drop)
      obtain c2 where c2: "ic_read_exact rd (n - length bs) c1 =
          (if n - length bs \<le> length zs then Inr (take (n - length bs) zs) else Inl UnexpectedEof, c2)"
        "consumed contents position ok seekable c1 (take (n - length bs) zs) c2"
        using less.IH [OF lt f] unfolding d by blast
      have "take n ?rest = bs @ take (n - length bs) zs" "n \<le> length ?rest \<longleftrightarrow> n - length bs \<le> length zs"
        unfolding zs using c1(3) by auto
      moreover have "ic_read_exact rd n c = (case ic_read_exact rd (n - length bs) c1 of
          (Inl e, c2) \<Rightarrow> (Inl e, c2) | (Inr cs, c2) \<Rightarrow> (Inr (bs @ cs), c2))"
        using n c1(1) unfolding Cons
        by (simp add: ic_read_exact.simps [of rd n] split: prod.split sum.split)
      ultimately show ?thesis using c2(1) consumed_trans [OF c1(2) c2(2)]
        by (cases "n - length bs \<le> length zs") simp_all
    qed
  qed
qed

lemma r8_fine:
  assumes "ctx_fine contents position ok c"
  defines "rest \<equiv> drop (ctx_at c) (contents (ic_src c))"
  shows "\<exists>c'. ic_r8 rd c = (case rest of [] \<Rightarrow> Inl UnexpectedEof | b # _ \<Rightarrow> Inr b, c') \<and>
    consumed contents position ok seekable c (take 1 rest) c'"
proof -
  obtain c1 where c1: "(if ic_buffered c = 0 then ic_fill rd c else (Inr (), c)) = (Inr (), c1)"
    "consumed contents position ok seekable c [] c1" "ic_buffered c1 = 0 \<longrightarrow> length (contents (ic_src c)) \<le> ctx_at c"
    using refill_fine [OF assms(1)] by (elim exE conjE) (rule that)
  have f: "ctx_fine contents position ok c1" using c1(2) by (simp add: consumed_def)
  have e: "ic_r8 rd c = (if ic_buffered c1 = 0 then (Inl UnexpectedEof, c1)
      else if ic_head c1 < length (ic_buf c1) then (Inr (ic_buf c1 ! ic_head c1), ic_advance 1 c1)
      else (Inl UnexpectedEof, c1))"
    unfolding ic_r8_def c1(1) by simp
  show ?thesis
  proof (cases "ic_buffered c1 = 0")
    case True
    then have "rest = []" using c1(3) by (simp add: rest_def)
    then show ?thesis using e True c1(2) by simp
  next
    case False
    then have h: "ic_head c1 + 1 \<le> ic_tail c1" "ic_head c1 < length (ic_buf c1)"
      using f by (auto simp: ctx_fine_def ic_buffered_def)
    have "rest = drop (ctx_at c1) (contents (ic_src c1))" using c1(2) by (simp add: consumed_def rest_def)
    then have t: "take 1 (drop (ic_head c1) (ic_buf c1)) = take 1 rest" using window_slice [OF f h(1)] by simp
    then have "take 1 rest = [ic_buf c1 ! ic_head c1]" using h(2) by (simp add: take_Suc hd_drop_conv_nth)
    then obtain zs where "rest = ic_buf c1 ! ic_head c1 # zs" by (cases rest) auto
    moreover have "consumed contents position ok seekable c (take 1 rest) (ic_advance 1 c1)"
      using consumed_trans [OF c1(2) advance_consumed(2) [OF f, of 1]] False t by simp
    ultimately show ?thesis using e False h(2) by simp
  qed
qed

lemma discard_fine:
  assumes "ctx_fine contents position ok c"
  defines "rest \<equiv> drop (ctx_at c) (contents (ic_src c))"
  shows "\<exists>c'. ic_discard rd n c = (if n \<le> length rest then Inr () else Inl UnexpectedEof, c') \<and>
    consumed contents position ok seekable c (take n rest) c'"
  using assms(1) unfolding rest_def
proof (induction n arbitrary: c rule: less_induct)
  case (less n)
  let ?rest = "drop (ctx_at c) (contents (ic_src c))"
  obtain c1 where c1: "(if ic_buffered c = 0 then ic_fill rd c else (Inr (), c)) = (Inr (), c1)"
    "consumed contents position ok seekable c [] c1" "ic_buffered c1 = 0 \<longrightarrow> length (contents (ic_src c)) \<le> ctx_at c"
    using refill_fine [OF less.prems] by (elim exE conjE) (rule that)
  have f: "ctx_fine contents position ok c1" using c1(2) by (simp add: consumed_def)
  show ?case
  proof (cases "n = 0 \<or> ic_buffered c1 = 0")
    case True
    show ?thesis
    proof (cases "n = 0")
      case True
      then show ?thesis using consumed_Nil [OF less.prems] by (simp add: ic_discard.simps [of rd 0])
    next
      case False
      then have "ic_discard rd n c = (Inl UnexpectedEof, c1)" "?rest = []"
        using True c1(3) by (simp_all add: ic_discard.simps [of rd n] c1(1) del: if_split)
      then show ?thesis using c1(2) False by simp
    qed
  next
    case False
    let ?k = "min (ic_buffered c1) n"
    obtain bs where b: "consumed contents position ok seekable c1 bs (ic_advance ?k c1)" "length bs = ?k"
      using take_buffered [OF f, of n] False by auto
    have c2: "consumed contents position ok seekable c bs (ic_advance ?k c1)"
      using consumed_trans [OF c1(2) b(1)] by simp
    have f2: "ctx_fine contents position ok (ic_advance ?k c1)" using c2 by (simp add: consumed_def)
    have lt: "n - ?k < n" using False by simp
    obtain zs where zs: "?rest = bs @ zs" using c2 by (auto simp: consumed_def prefix_def)
    have d: "drop (ctx_at (ic_advance ?k c1)) (contents (ic_src (ic_advance ?k c1))) = zs"
      using c2 zs by (simp add: consumed_def add.commute [of "ctx_at c"] drop_drop [symmetric] del: drop_drop)
    obtain c3 where c3: "ic_discard rd (n - ?k) (ic_advance ?k c1) =
        (if n - ?k \<le> length zs then Inr () else Inl UnexpectedEof, c3)"
      "consumed contents position ok seekable (ic_advance ?k c1) (take (n - ?k) zs) c3"
      using less.IH [OF lt f2] unfolding d by blast
    have "take n ?rest = bs @ take (n - ?k) zs" "n \<le> length ?rest \<longleftrightarrow> n - ?k \<le> length zs"
      unfolding zs using b(2) by auto
    moreover have "ic_discard rd n c = ic_discard rd (n - ?k) (ic_advance ?k c1)"
      using False by (simp add: ic_discard.simps [of rd n] c1(1) del: if_split)
    ultimately show ?thesis using c3(1) consumed_trans [OF c2 c3(2)] by simp
  qed
qed

lemma peek_fill_fine:
  assumes "ctx_fine contents position ok c" "ic_head c = 0" "len \<le> length (ic_buf c)"
  shows "\<exists>c'. ic_peek_fill rd len c = (Inr (), c') \<and> consumed contents position ok seekable c [] c' \<and>
    (len \<le> ic_buffered c' \<or> length (contents (ic_src c)) \<le> ic_base c' + ic_tail c')"
  using assms
proof (induction "len - ic_buffered c" arbitrary: c rule: less_induct)
  case less
  show ?case
  proof (cases "ic_buffered c < len \<and> \<not> ic_eof c")
    case False
    then show ?thesis using consumed_Nil [OF less.prems(1)] less.prems(1)
      by (auto simp: ic_peek_fill.simps [of rd len c] ctx_fine_def)
  next
    case True
    obtain c1 where c1: "ic_fill rd c = (Inr (), c1)" "consumed contents position ok seekable c [] c1" "same_rest c c1"
      "ic_buffered c \<le> ic_buffered c1"
      "ic_eof c1 \<or> ic_buffered c < ic_buffered c1 \<or> c1 = c \<and> ic_head c = 0 \<and> ic_tail c = length (ic_buf c)"
      using fill_fine [OF less.prems(1)] by blast
    have f: "ctx_fine contents position ok c1" "contents (ic_src c1) = contents (ic_src c)"
      using c1(2) by (simp_all add: consumed_def)
    have h: "ic_head c1 = 0"
      using ic_fill_window [OF c1(1)] ic_make_room_window [of c] less.prems(2) by (auto split: if_splits)
    show ?thesis
    proof (cases "ic_tail c1 = ic_tail c")
      case tail: True
      then have "ic_eof c1" using c1(5) h less.prems(2,3) True by (auto simp: ic_buffered_def)
      then show ?thesis using c1(1,2) f True tail
        by (auto simp: ic_peek_fill.simps [of rd len c] ctx_fine_def)
    next
      case False
      then have "ic_buffered c < ic_buffered c1" using c1(4) h less.prems(2) by (simp add: ic_buffered_def)
      then have "len - ic_buffered c1 < len - ic_buffered c" using True by (simp add: diff_less_mono2)
      moreover have "len \<le> length (ic_buf c1)" using c1(3) less.prems(3) by (simp add: same_rest_def)
      ultimately obtain c2 where "ic_peek_fill rd len c1 = (Inr (), c2)"
        "consumed contents position ok seekable c1 [] c2"
        "len \<le> ic_buffered c2 \<or> length (contents (ic_src c)) \<le> ic_base c2 + ic_tail c2"
        using less.hyps [of c1] f h by auto
      then show ?thesis using True False c1(1) consumed_trans [OF c1(2)]
        by (force simp: ic_peek_fill.simps [of rd len c])
    qed
  qed
qed

lemma peek_fine:
  assumes "ctx_fine contents position ok c" "len \<le> ic_max_peek c"
    "len \<le> length (ic_buf c) \<or> fst (charge (len - length (ic_buf c)) (ic_budget c)) = Inr ()"
  shows "\<exists>c'. ic_peek rd len c = (Inr (take len (drop (ctx_at c) (contents (ic_src c)))), c') \<and>
    consumed contents position ok seekable c [] c' \<and>
    (ic_budget c' = ic_budget c \<or>
      length (ic_buf c) < len \<and> len \<le> length (ic_buf c') \<and>
      ic_budget c' = snd (charge (len - length (ic_buf c)) (ic_budget c)))"
proof -
  let ?b = "\<lambda>c'. ic_budget c' = ic_budget c \<or> length (ic_buf c) < len \<and> len \<le> length (ic_buf c') \<and>
    ic_budget c' = snd (charge (len - length (ic_buf c)) (ic_budget c))"
  let ?cs = "contents (ic_src c)"
  have "\<exists>c2. (if ic_buffered c < len
      then let c1 = ic_compact c
           in if len > length (ic_buf c1)
              then (case charge (len - length (ic_buf c1)) (ic_budget c1) of
                      (Inl e, b) \<Rightarrow> (Inl (IoLimit (core_error_of_limit e)), c1\<lparr>ic_budget := b\<rparr>)
                    | (Inr _, b) \<Rightarrow> ic_peek_fill rd len (c1\<lparr>ic_budget := b,
                        ic_buf := ic_buf c1 @ replicate (len - length (ic_buf c1)) 0\<rparr>))
              else ic_peek_fill rd len c1
      else (Inr (), c)) = (Inr (), c2) \<and> consumed contents position ok seekable c [] c2 \<and>
    (len \<le> ic_buffered c2 \<or> length ?cs \<le> ic_base c2 + ic_tail c2) \<and> ?b c2"
  proof (cases "ic_buffered c < len")
    case False
    then show ?thesis using consumed_Nil [OF assms(1)] by auto
  next
    case True
    define c1 where "c1 = ic_compact c"
    note k = compact_fine [OF assms(1), folded c1_def]
    have con: "consumed contents position ok seekable c [] c2"
      if "consumed contents position ok seekable c' [] c2" "c' = c1 \<or> (\<exists>b n. c' = c1\<lparr>ic_budget := b, ic_buf := ic_buf c1 @ replicate n 0\<rparr>)"
      for c' c2
      using that k by (auto simp: consumed_def same_rest_def ctx_setup_def ctx_at_def)
    show ?thesis
    proof (cases "len > length (ic_buf c1)")
      case grow: True
      then have "fst (charge (len - length (ic_buf c1)) (ic_budget c1)) = Inr ()"
        using assms(3) k(6) by (auto simp: same_rest_def)
      then obtain b where b: "charge (len - length (ic_buf c1)) (ic_budget c1) = (Inr (), b)"
        by (metis prod.collapse)
      let ?c = "c1\<lparr>ic_budget := b, ic_buf := ic_buf c1 @ replicate (len - length (ic_buf c1)) 0\<rparr>"
      have "ctx_fine contents position ok ?c" using k(1) by (simp add: ctx_fine_def)
      then obtain c2 where "ic_peek_fill rd len ?c = (Inr (), c2)" "consumed contents position ok seekable ?c [] c2"
        "len \<le> ic_buffered c2 \<or> length ?cs \<le> ic_base c2 + ic_tail c2"
        using peek_fill_fine [of ?c len] k(3,7) grow by auto
      moreover from this have "?b c2"
        using peek_fill_budget [of rd len ?c] b grow k(6) by (auto simp: same_rest_def consumed_def)
      ultimately show ?thesis using True grow b con [of ?c c2] unfolding c1_def [symmetric] Let_def by auto
    next
      case False
      then obtain c2 where "ic_peek_fill rd len c1 = (Inr (), c2)" "consumed contents position ok seekable c1 [] c2"
        "len \<le> ic_buffered c2 \<or> length ?cs \<le> ic_base c2 + ic_tail c2"
        using peek_fill_fine [OF k(1,7), of len] k(3) by auto
      moreover from this have "?b c2" using peek_fill_budget [of rd len c1] k(6) by (simp add: same_rest_def)
      ultimately show ?thesis using True False con [of c1 c2] unfolding c1_def [symmetric] Let_def by auto
    qed
  qed
  then obtain c2 where c2: "ic_peek rd len c = (case slice_range (ic_buf c2) (ic_head c2)
        (min (ic_head c2 + len) (ic_tail c2)) of None \<Rightarrow> (Inl UnexpectedEof, c2) | Some bs \<Rightarrow> (Inr bs, c2))"
      "consumed contents position ok seekable c [] c2"
      "len \<le> ic_buffered c2 \<or> length ?cs \<le> ic_base c2 + ic_tail c2" "?b c2"
    using assms(2) unfolding ic_peek_def by (elim exE conjE) (simp del: if_split)
  have f: "ctx_fine contents position ok c2" "ctx_at c2 = ctx_at c" "contents (ic_src c2) = ?cs"
    using c2(2) by (auto simp: consumed_def)
  define k where "k = min len (ic_buffered c2)"
  have w: "ic_head c2 \<le> ic_tail c2" "ic_tail c2 \<le> length (ic_buf c2)" using f(1) by (auto simp: ctx_fine_def)
  then have m: "min (ic_head c2 + len) (ic_tail c2) = ic_head c2 + k" by (auto simp: k_def ic_buffered_def)
  have "k \<le> ic_buffered c2" by (simp add: k_def)
  from advance_consumed(1) [OF f(1) this] have "ic_peek rd len c = (Inr (take k (drop (ctx_at c) ?cs)), c2)"
    using c2(1) window_slice [OF f(1), of k] w unfolding m f by (simp add: k_def ic_buffered_def)
  moreover have "take k (drop (ctx_at c) ?cs) = take len (drop (ctx_at c) ?cs)"
  proof (cases "len \<le> ic_buffered c2")
    case False
    then have "length (drop (ctx_at c) ?cs) \<le> k"
      using c2(3) f(2) w by (auto simp: k_def ic_buffered_def ctx_at_def)
    then show ?thesis by (simp add: k_def)
  qed (simp add: k_def)
  ultimately show ?thesis using c2(2,4) by (intro exI [of _ c2]) simp
qed

lemma seek_window:
  assumes "ctx_fine contents position ok c" "ic_base c \<le> p" "p \<le> ic_base c + ic_tail c"
  shows "ic_seek rd sk p c = (Inr p, c\<lparr>ic_head := p - ic_base c\<rparr>)"
    "moved_to contents position ok seekable c p (c\<lparr>ic_head := p - ic_base c\<rparr>)"
  using assms base_sat(2) [OF assms(1)]
  by (auto simp: ic_seek_def moved_to_def ctx_fine_def ctx_at_def same_rest_def ctx_setup_def)

lemma seek_transport:
  assumes "ctx_fine contents position ok c" "seekable (ic_src c)" "ic_seekability c \<noteq> Unseekable" "p < 2 ^ 64"
    "\<not> (ctx_at c < p \<and> p - ctx_at c \<le> ic_short_seek c)"
  shows "\<exists>c'. ic_seek rd sk p c = (Inr p, c') \<and> moved_to contents position ok seekable c p c'"
proof (cases "ic_base c \<le> p \<and> p \<le> ic_base c + ic_tail c")
  case True
  then show ?thesis using seek_window [OF assms(1)] by blast
next
  case False
  have o: "ok (ic_src c)" using assms(1) by (simp add: ctx_fine_def)
  obtain s where "sk p (ic_src c) = (Inr p, s)" "ok s" "contents s = contents (ic_src c)" "position s = p"
    "seekable s = seekable (ic_src c)"
    using seek_moves [OF o assms(2,4)] by blast
  then show ?thesis using assms(1,3,5) False base_sat [OF assms(1)]
    by (auto simp: ic_seek_def ic_pos_def moved_to_def ctx_fine_def ctx_at_def same_rest_def ctx_setup_def)
qed

lemma seek_forward:
  assumes "ctx_fine contents position ok c" "ctx_at c < p" "p - ctx_at c \<le> ic_short_seek c"
    "\<not> (ic_base c \<le> p \<and> p \<le> ic_base c + ic_tail c)"
  shows "\<exists>c'. ic_seek rd sk p c = (if p \<le> length (contents (ic_src c)) then Inr p else Inl UnexpectedEof, c') \<and>
    consumed contents position ok seekable c (take (p - ctx_at c) (drop (ctx_at c) (contents (ic_src c)))) c'"
proof -
  let ?rest = "drop (ctx_at c) (contents (ic_src c))"
  obtain c' where c': "ic_discard rd (p - ctx_at c) c =
      (if p - ctx_at c \<le> length ?rest then Inr () else Inl UnexpectedEof, c')"
    "consumed contents position ok seekable c (take (p - ctx_at c) ?rest) c'"
    using discard_fine [OF assms(1)] by blast
  have "p - ctx_at c \<le> length ?rest \<longleftrightarrow> p \<le> length (contents (ic_src c))" using assms(2) by auto
  then show ?thesis using c' assms(2-4) base_sat [OF assms(1)]
    by (auto simp: ic_seek_def ic_pos_def ctx_at_def)
qed

lemma seek_refused:
  assumes "ctx_fine contents position ok c" "ic_seekability c = Unseekable"
    "p < ic_base c" 
  shows "ic_seek rd sk p c = (Inl NotSeekable, c)"
  using assms base_sat [OF assms(1)] by (auto simp: ic_seek_def ic_pos_def ctx_at_def)

end

section \<open>Demuxing is reading a file\<close>

text \<open>
  A demuxer's calls, and what they do on a plain file and position. A seek or skip past the end
  succeeds there, and the next read fails. That is what a source with cheap seeks does (its
  short-seek limit is zero, so every seek out of the buffer goes to the transport). On
  one with expensive seeks a short hop past the end reads and discards instead and
  fails with \<^verbatim>\<open>UnexpectedEof\<close>, so there \<open>file_read\<close> is compared only on seeks and skips that
  stay inside the file (\<open>file_legal\<close>).
\<close>

datatype demux_op = ReadExact nat | ReadByte | PeekAt nat | JumpTo nat | SkipOver nat

datatype outcome = Bytes "u8 list" | Moved | Failed io_error

definition outcome_of :: "('a \<Rightarrow> outcome) \<Rightarrow> io_error + 'a \<Rightarrow> outcome" where
  "outcome_of f r = (case r of Inl e \<Rightarrow> Failed e | Inr x \<Rightarrow> f x)"

fun demux_call ::
  "(nat \<Rightarrow> 's \<Rightarrow> (io_error + u8 list) \<times> 's) \<Rightarrow> (nat \<Rightarrow> 's \<Rightarrow> (io_error + nat) \<times> 's) \<Rightarrow> demux_op \<Rightarrow>
     's io_context \<Rightarrow> outcome \<times> 's io_context" where
  "demux_call rd sk (ReadExact n) c = map_prod (outcome_of Bytes) id (ic_read_exact rd n c)"
| "demux_call rd sk ReadByte c = map_prod (outcome_of (\<lambda>b. Bytes [b])) id (ic_r8 rd c)"
| "demux_call rd sk (PeekAt n) c = map_prod (outcome_of Bytes) id (ic_peek rd n c)"
| "demux_call rd sk (JumpTo p) c = map_prod (outcome_of (\<lambda>_. Moved)) id (ic_seek rd sk p c)"
| "demux_call rd sk (SkipOver n) c = map_prod (outcome_of (\<lambda>_. Moved)) id (ic_skip rd sk n c)"

fun file_read :: "u8 list \<Rightarrow> demux_op \<Rightarrow> nat \<Rightarrow> outcome \<times> nat" where
  "file_read cs (ReadExact n) p =
     (if n \<le> length cs - p then (Bytes (take n (drop p cs)), p + n) else (Failed UnexpectedEof, max p (length cs)))"
| "file_read cs ReadByte p =
     (if p < length cs then (Bytes [cs ! p], p + 1) else (Failed UnexpectedEof, p))"
| "file_read cs (PeekAt n) p = (Bytes (take n (drop p cs)), p)"
| "file_read cs (JumpTo q) p = (Moved, q)"
| "file_read cs (SkipOver n) p = (Moved, sat_u 64 (p + n))"

fun run :: "('o \<Rightarrow> 's \<Rightarrow> outcome \<times> 's) \<Rightarrow> 'o list \<Rightarrow> 's \<Rightarrow> outcome list \<times> 's" where
  "run step [] s = ([], s)"
| "run step (x # xs) s = (case step x s of (r, s') \<Rightarrow> (case run step xs s' of (rs, s'') \<Rightarrow> (r # rs, s'')))"

text \<open>
  The calls compared: peeks of at most \<open>limit\<close> bytes, jumps to 64-bit positions and, unless
  \<open>past\<close>, no seek or skip beyond the end.
\<close>

definition demux_legal :: "nat \<Rightarrow> demux_op \<Rightarrow> bool" where
  "demux_legal limit x = (case x of PeekAt n \<Rightarrow> n \<le> limit | JumpTo p \<Rightarrow> p < 2 ^ 64 | _ \<Rightarrow> True)"

definition stays_inside :: "u8 list \<Rightarrow> demux_op \<Rightarrow> nat \<Rightarrow> bool" where
  "stays_inside cs x p =
     (case x of JumpTo q \<Rightarrow> q \<le> length cs | SkipOver n \<Rightarrow> p + n \<le> length cs | _ \<Rightarrow> True)"

fun file_legal :: "bool \<Rightarrow> nat \<Rightarrow> u8 list \<Rightarrow> demux_op list \<Rightarrow> nat \<Rightarrow> bool" where
  "file_legal past limit cs [] p \<longleftrightarrow> True"
| "file_legal past limit cs (x # xs) p \<longleftrightarrow> demux_legal limit x \<and> (past \<or> stays_inside cs x p) \<and>
     file_legal past limit cs xs (snd (file_read cs x p))"

text \<open>
  A peek longer than the buffer grows it against the budget: \<open>peek_room\<close> says the budget has
  room to grow the buffer to \<open>limit\<close>. \<open>peek_bound\<close> is the longest peek the limits admit.
\<close>

definition peek_bound :: "limits \<Rightarrow> nat" where
  "peek_bound l = min (max_probe_bytes l) (min (max_alloc_single l) (max_alloc_total l))"

definition peek_room :: "nat \<Rightarrow> 's io_context \<Rightarrow> bool" where
  "peek_room limit c \<longleftrightarrow> limit \<le> ic_max_peek c \<and> budget_ok (ic_budget c) \<and>
     limit \<le> max_alloc_single (bd_limits (ic_budget c)) \<and>
     live (ic_budget c) + (limit - length (ic_buf c)) \<le> max_alloc_total (bd_limits (ic_budget c))"

lemma peek_room_same:
  "peek_room limit c \<Longrightarrow> ic_budget c' = ic_budget c \<Longrightarrow> ic_max_peek c' = ic_max_peek c \<Longrightarrow>
     length (ic_buf c) \<le> length (ic_buf c') \<Longrightarrow> peek_room limit c'"
  by (simp add: peek_room_def) linarith

lemma peek_room_charge:
  assumes "peek_room limit c" "n \<le> limit" "length (ic_buf c) < n"
  shows "fst (charge (n - length (ic_buf c)) (ic_budget c)) = Inr ()"
    "ic_budget c' = snd (charge (n - length (ic_buf c)) (ic_budget c)) \<Longrightarrow> ic_max_peek c' = ic_max_peek c \<Longrightarrow>
      n \<le> length (ic_buf c') \<Longrightarrow> peek_room limit c'"
  using assms charge_cases [of "ic_budget c" "n - length (ic_buf c)"]
  by (auto simp: peek_room_def live_def split: if_splits)

lemma bd_alloc_admitted:
  assumes "bd_alloc grow (Suc 0) d n b = (Inr xs, b')" "budget_ok b"
  shows "budget_ok b' \<and> live b' = live b + n \<and> bd_limits b' = bd_limits b \<and>
    n \<le> max_alloc_single (bd_limits b) \<and> live b + n \<le> max_alloc_total (bd_limits b)"
proof -
  obtain r b1 where r: "reserve n b = (Inr r, b1)" "b' = res_commit r b1"
    using assms(1) by (auto simp: bd_alloc_def reserve_array_def byte_size_def res_alloc_def
        split: prod.splits sum.splits option.splits if_splits)
  have fit: "n \<le> max_alloc_single (bd_limits b) \<and> live b + n \<le> max_alloc_total (bd_limits b)"
    using reserve_cases [OF assms(2), of n] r(1) by (auto split: if_splits)
  then have b1: "r = n" "budget_ok b1" "live b1 = live b + n" "n \<le> pending b1" "bd_limits b1 = bd_limits b"
    using reserve_cases [OF assms(2), of n] r(1) by (auto simp: live_def)
  show ?thesis using res_commit_eq [OF b1(2,4)] b1 fit r(2) by simp
qed

context media_source
begin

lemma seek_fine:
  assumes "ctx_fine contents position ok c" "seekable (ic_src c)" "ic_seekability c \<noteq> Unseekable" "q < 2 ^ 64"
    "ic_short_seek c = 0 \<or> q \<le> length (contents (ic_src c))"
  shows "\<exists>c'. ic_seek rd sk q c = (Inr q, c') \<and> ctx_fine contents position ok c' \<and>
    contents (ic_src c') = contents (ic_src c) \<and> seekable (ic_src c') = seekable (ic_src c) \<and>
    ctx_at c' = q \<and> ctx_setup c' = ctx_setup c \<and> length (ic_buf c) \<le> length (ic_buf c')"
proof -
  consider (stay) "ic_base c \<le> q \<and> q \<le> ic_base c + ic_tail c"
    | (hop) "\<not> (ic_base c \<le> q \<and> q \<le> ic_base c + ic_tail c)" "ctx_at c < q" "q - ctx_at c \<le> ic_short_seek c"
    | (move) "\<not> (ctx_at c < q \<and> q - ctx_at c \<le> ic_short_seek c)" by blast
  then show ?thesis
  proof cases
    case stay
    then show ?thesis using seek_window [OF assms(1)] by (fastforce simp: moved_to_def same_rest_def)
  next
    case hop
    then have "q \<le> length (contents (ic_src c))" using assms(5) by linarith
    then show ?thesis
      using seek_forward [OF assms(1) hop(2,3,1)] hop(2) by (auto simp: consumed_def min_def)
  next
    case move
    then show ?thesis using seek_transport [OF assms(1-4)] by (fastforce simp: moved_to_def same_rest_def)
  qed
qed

lemma demux_call_fine:
  assumes "ctx_fine contents position ok c" "seekable (ic_src c)" "ic_seekability c \<noteq> Unseekable"
    "ic_short_seek c = 0 \<or> stays_inside (contents (ic_src c)) x (ctx_at c)" "peek_room limit c" "demux_legal limit x"
    "demux_call rd sk x c = (r, c')"
  shows "file_read (contents (ic_src c)) x (ctx_at c) = (r, ctx_at c') \<and>
    ctx_fine contents position ok c' \<and> contents (ic_src c') = contents (ic_src c) \<and> seekable (ic_src c') \<and>
    ctx_setup c' = ctx_setup c \<and> peek_room limit c'"
proof -
  let ?cs = "contents (ic_src c)" and ?p = "ctx_at c"
  have same: "peek_room limit d" if "ctx_setup d = ctx_setup c" "ic_budget d = ic_budget c"
      "length (ic_buf c) \<le> length (ic_buf d)" for d :: "'s io_context"
    using peek_room_same [OF assms(5), of d] that by (simp add: ctx_setup_def)
  show ?thesis
  proof (cases x)
    case (ReadExact n)
    obtain c1 where c1: "ic_read_exact rd n c =
        (if n \<le> length (drop ?p ?cs) then Inr (take n (drop ?p ?cs)) else Inl UnexpectedEof, c1)"
      "consumed contents position ok seekable c (take n (drop ?p ?cs)) c1"
      using read_exact_fine [OF assms(1)] by blast
    have "peek_room limit c1" using same [of c1] read_exact_budget [of rd n c] c1 by (simp add: consumed_def)
    then show ?thesis using assms(2,7) ReadExact c1
      by (auto simp: consumed_def outcome_of_def split: if_splits)
  next
    case ReadByte
    obtain c1 where c1: "ic_r8 rd c = (case drop ?p ?cs of [] \<Rightarrow> Inl UnexpectedEof | b # _ \<Rightarrow> Inr b, c1)"
      "consumed contents position ok seekable c (take 1 (drop ?p ?cs)) c1"
      using r8_fine [OF assms(1)] by blast
    have "peek_room limit c1" using same [of c1] r8_budget [of rd c] c1 by (simp add: consumed_def)
    moreover have "drop ?p ?cs = (if ?p < length ?cs then ?cs ! ?p # drop (Suc ?p) ?cs else [])"
      by (simp add: Cons_nth_drop_Suc)
    ultimately show ?thesis using assms(2,7) ReadByte c1
      by (auto simp: consumed_def outcome_of_def split: if_splits)
  next
    case (PeekAt n)
    then have n: "n \<le> limit" "n \<le> ic_max_peek c" using assms(5,6) by (auto simp: demux_legal_def peek_room_def)
    have "n \<le> length (ic_buf c) \<or> fst (charge (n - length (ic_buf c)) (ic_budget c)) = Inr ()"
      using peek_room_charge(1) [OF assms(5) n(1)] by linarith
    then obtain c1 where c1: "ic_peek rd n c = (Inr (take n (drop ?p ?cs)), c1)"
      "consumed contents position ok seekable c [] c1"
      "ic_budget c1 = ic_budget c \<or> length (ic_buf c) < n \<and> n \<le> length (ic_buf c1) \<and>
        ic_budget c1 = snd (charge (n - length (ic_buf c)) (ic_budget c))"
      using peek_fine [OF assms(1) n(2)] by blast
    have "peek_room limit c1"
      using c1(2,3) same [of c1] peek_room_charge(2) [OF assms(5) n(1), of c1] by (auto simp: consumed_def ctx_setup_def)
    then show ?thesis using c1 assms(2,7) PeekAt by (auto simp: consumed_def outcome_of_def)
  next
    case (JumpTo q)
    then obtain c1 where c1: "ic_seek rd sk q c = (Inr q, c1)" "ctx_fine contents position ok c1"
      "contents (ic_src c1) = ?cs" "seekable (ic_src c1)" "ctx_at c1 = q" "ctx_setup c1 = ctx_setup c"
      "length (ic_buf c) \<le> length (ic_buf c1)"
      using seek_fine [OF assms(1-3), of q] assms(2,4,6) by (auto simp: demux_legal_def stays_inside_def)
    have "peek_room limit c1" using same [of c1] seek_budget [of rd sk q c] c1 by simp
    then show ?thesis using c1 assms(7) JumpTo by (auto simp: outcome_of_def)
  next
    case (SkipOver n)
    let ?t = "sat_u 64 (?p + n)"
    have "?t < 2 ^ 64" "?t \<le> ?p + n" by (simp_all add: sat_u_def)
    moreover from this have "ic_short_seek c = 0 \<or> ?t \<le> length ?cs"
      using assms(4) SkipOver by (auto simp: stays_inside_def)
    ultimately obtain c1 where c1: "ic_seek rd sk ?t c = (Inr ?t, c1)" "ctx_fine contents position ok c1"
      "contents (ic_src c1) = ?cs" "seekable (ic_src c1)" "ctx_at c1 = ?t" "ctx_setup c1 = ctx_setup c"
      "length (ic_buf c) \<le> length (ic_buf c1)"
      using seek_fine [OF assms(1-3), of ?t] assms(2) by auto
    have "peek_room limit c1" using same [of c1] seek_budget [of rd sk ?t c] c1 by simp
    moreover have "ic_pos c = ?p" using base_sat(1) [OF assms(1)] by (simp add: ic_pos_def)
    ultimately show ?thesis using c1 assms(7) SkipOver by (auto simp: outcome_of_def ic_skip_def Let_def)
  qed
qed

lemma demux_run_fine:
  assumes "ctx_fine contents position ok c" "seekable (ic_src c)" "ic_seekability c \<noteq> Unseekable"
    "past \<longrightarrow> ic_short_seek c = 0" "peek_room limit c" "file_legal past limit (contents (ic_src c)) xs (ctx_at c)"
    "run (demux_call rd sk) xs c = (rs, c')"
  shows "run (file_read (contents (ic_src c))) xs (ctx_at c) = (rs, ctx_at c') \<and> ic_pos c' = ctx_at c'"
  using assms
proof (induction xs arbitrary: c rs)
  case Nil
  then show ?case using base_sat(1) [of c] by (simp add: ic_pos_def)
next
  case (Cons x xs)
  obtain r c1 rs' where r: "demux_call rd sk x c = (r, c1)" "run (demux_call rd sk) xs c1 = (rs', c')" "rs = r # rs'"
    using Cons.prems(7) by (auto split: prod.splits)
  have x: "demux_legal limit x" "ic_short_seek c = 0 \<or> stays_inside (contents (ic_src c)) x (ctx_at c)"
    "file_legal past limit (contents (ic_src c)) xs (snd (file_read (contents (ic_src c)) x (ctx_at c)))"
    using Cons.prems(4,6) by auto
  note f = demux_call_fine [OF Cons.prems(1-3) x(2) Cons.prems(5) x(1) r(1)]
  have "run (file_read (contents (ic_src c1))) xs (ctx_at c1) = (rs', ctx_at c') \<and> ic_pos c' = ctx_at c'"
    using Cons.IH [OF _ _ _ _ _ _ r(2)] f x(3) Cons.prems(3,4) by (auto simp: ctx_setup_def)
  then show ?case using f r(3) by simp
qed

end


lemma ic_new_fine:
  assumes "ic_new grow skab position opts src = Inr c" "ok src"
  shows "ctx_fine contents position ok c \<and> ic_src c = src \<and> ctx_at c = position src \<and>
    ic_seekability c = skab src \<and> ic_checksum c = None \<and>
    ic_short_seek c = (case skab src of Cheap \<Rightarrow> 0 | Expensive \<Rightarrow> io_short_seek_max opts | Unseekable \<Rightarrow> U64_MAX) \<and>
    ic_max_peek c = sat_u 64 (max_probe_bytes (io_limits opts)) \<and>
    length (ic_buf c) = max MIN_BLOCK_SIZE (min (io_block_size opts) MAX_BLOCK_SIZE)"
proof -
  define n where "n = max MIN_BLOCK_SIZE (min (io_block_size opts) MAX_BLOCK_SIZE)"
  have n: "0 < n" by (simp add: n_def MIN_BLOCK_SIZE_def)
  obtain buf b where b: "bd_alloc grow 1 0 n (bd_new (io_limits opts)) = (Inr buf, b)"
    "c = \<lparr>ic_src = src, ic_buf = buf, ic_head = 0, ic_tail = 0, ic_base = position src,
       ic_eof = False, ic_err = None, ic_bytes_read = 0, ic_checksum = None,
       ic_budget = b, ic_cancelled = False, ic_seekability = skab src,
       ic_short_seek = (case skab src of Cheap \<Rightarrow> 0 | Expensive \<Rightarrow> io_short_seek_max opts | Unseekable \<Rightarrow> U64_MAX),
       ic_direct = io_direct opts, ic_max_peek = sat_u 64 (max_probe_bytes (io_limits opts))\<rparr>"
    using assms(1) unfolding ic_new_def Let_def n_def [symmetric] by (auto split: prod.splits sum.splits)
  have "buf = replicate n 0" using bd_alloc_replicate [OF b(1)] .
  then show ?thesis using b(2) n assms(2) by (simp add: ctx_fine_def ctx_at_def n_def MIN_BLOCK_SIZE_def)
qed

lemma ic_new_peek_room:
  assumes "ic_new grow skab position opts src = Inr c" "limits_ok (io_limits opts)"
  shows "peek_room (peek_bound (io_limits opts)) c"
proof -
  define n where "n = max MIN_BLOCK_SIZE (min (io_block_size opts) MAX_BLOCK_SIZE)"
  obtain buf b where b: "bd_alloc grow (Suc 0) 0 n (bd_new (io_limits opts)) = (Inr buf, b)"
    "ic_buf c = buf" "ic_budget c = b" "ic_max_peek c = sat_u 64 (max_probe_bytes (io_limits opts))"
    using assms(1) unfolding ic_new_def Let_def n_def [symmetric] by (auto split: prod.splits sum.splits)
  have "length buf = n" using bd_alloc_replicate [OF b(1)] by simp
  moreover have "peek_bound (io_limits opts) \<le> sat_u 64 (max_probe_bytes (io_limits opts))"
    using assms(2) by (auto simp: peek_bound_def limits_ok_def sat_u_def)
  ultimately show ?thesis
    using b bd_alloc_admitted [OF b(1) bd_new_ok [OF assms(2)]]
    by (auto simp: peek_room_def peek_bound_def bd_new_def live_def)
qed


lemma default_context: "\<exists>c. ic_new Some skab position (io_default\<lparr>io_block_size := n\<rparr>) src = Inr c"
proof -
  define b where "b = max MIN_BLOCK_SIZE (min n MAX_BLOCK_SIZE)"
  have "b \<le> 16777216" by (simp add: b_def MIN_BLOCK_SIZE_def MAX_BLOCK_SIZE_def)
  then show ?thesis
    unfolding ic_new_def Let_def
    by (simp add: b_def [symmetric] io_default_def strict_def bd_alloc_def reserve_array_def byte_size_def reserve_def
        bd_check_def res_alloc_def bd_new_def sat_u_def checked_u_def fits_u_def live_def MIB_def)
qed


section \<open>Forward-only sources\<close>

text \<open>
  C30. On a forward-only source a seek still works wherever it can. Inside the buffer, backwards
  too, it is exact; ahead it reads and discards, exact up to the end of the data and otherwise
  \<^verbatim>\<open>UnexpectedEof\<close> with the context left at the end; behind the buffer it is
  \<^verbatim>\<open>NotSeekable\<close> and changes nothing. In every case the context stays consistent.
\<close>

theorem forward_only_seek:
  assumes "ctx_fine ms_data ms_pos ms_ok c" "ic_seekability c = Unseekable" "ic_short_seek c = U64_MAX" "p < 2 ^ 64"
  shows "case ic_seek ms_rd ms_seek p c of
      (Inr q, c') \<Rightarrow> q = p \<and> ic_pos c' = p \<and> ctx_fine ms_data ms_pos ms_ok c' \<and> ic_base c \<le> p \<and>
        (p \<le> length (ms_data (ic_src c)) \<or> p = ic_pos c \<or> p = ic_base c)
    | (Inl UnexpectedEof, c') \<Rightarrow> length (ms_data (ic_src c)) < p \<and> ic_pos c < p \<and>
        ic_pos c' = max (ic_pos c) (length (ms_data (ic_src c))) \<and> ctx_fine ms_data ms_pos ms_ok c'
    | (Inl e, c') \<Rightarrow> e = NotSeekable \<and> p < ic_base c \<and> c' = c"
proof -
  let ?n = "length (ms_data (ic_src c))"
  have pos: "ic_pos c' = ctx_at c'" if "ctx_fine ms_data ms_pos ms_ok c'" for c' :: "memory_source io_context"
    using memory.base_sat(1) [OF that] by (simp add: ic_pos_def)
  consider (inside) "ic_base c \<le> p" "p \<le> ic_base c + ic_tail c" | (ahead) "ic_base c + ic_tail c < p" | (behind) "p < ic_base c"
    by linarith
  then show ?thesis
  proof cases
    case inside
    have t: "ic_tail c \<le> ?n - ic_base c" by (rule window_in_source [OF assms(1)])
    show ?thesis using memory.seek_window [OF assms(1) inside] pos inside t by (auto simp: moved_to_def)
  next
    case ahead
    have a: "ctx_at c < p" "p - ctx_at c \<le> ic_short_seek c" "\<not> (ic_base c \<le> p \<and> p \<le> ic_base c + ic_tail c)"
      using ahead assms(1,3,4) by (auto simp: ctx_fine_def ctx_at_def)
    obtain c' where c': "ic_seek ms_rd ms_seek p c = (if p \<le> ?n then Inr p else Inl UnexpectedEof, c')"
      "consumed ms_data ms_pos ms_ok (\<lambda>s. ms_seekability s \<noteq> Unseekable) c
        (take (p - ctx_at c) (drop (ctx_at c) (ms_data (ic_src c)))) c'"
      using memory.seek_forward [OF assms(1) a] by blast
    then show ?thesis using a(1) ahead pos [of c'] pos [OF assms(1)] by (auto simp: consumed_def)
  next
    case behind
    show ?thesis using memory.seek_refused [OF assms(1,2) behind] behind by simp
  qed
qed

theorem forward_only_seek_witness:
  "\<exists>c. ic_new Some ms_seekability ms_pos (io_default\<lparr>io_block_size := 64\<rparr>) (ms_forward_only [1, 2, 3]) = Inr c \<and>
    fst (ic_seek ms_rd ms_seek 2 c) = Inr 2 \<and> fst (ic_seek ms_rd ms_seek 9 c) = Inl UnexpectedEof"
proof -
  let ?src = "ms_forward_only [1, 2, 3]"
  have s: "ms_ok ?src" "ms_seekability ?src = Unseekable" "ms_data ?src = [1, 2, 3]" "ms_pos ?src = 0"
    by (simp_all add: ms_ok_def ms_forward_only_def)
  obtain c where c: "ic_new Some ms_seekability ms_pos (io_default\<lparr>io_block_size := 64\<rparr>) ?src = Inr c"
    using default_context [of ms_seekability ms_pos 64 ?src] by blast
  note f = ic_new_fine [where contents = ms_data and ok = ms_ok, OF c s(1)]
  have b: "ic_base c = 0" "ic_pos c = 0" using f s(4) by (simp_all add: ctx_at_def ic_pos_def sat_u_def)
  have "fst (ic_seek ms_rd ms_seek 2 c) = Inr 2" "fst (ic_seek ms_rd ms_seek 9 c) = Inl UnexpectedEof"
    using forward_only_seek [of c 2] forward_only_seek [of c 9] f s b
    by (auto split: prod.splits sum.splits io_error.splits)
  then show ?thesis using c by blast
qed

section \<open>Running checksums\<close>

fun reads_only :: "nat \<Rightarrow> demux_op \<Rightarrow> bool" where
  "reads_only limit (ReadExact n) = True"
| "reads_only limit ReadByte = True"
| "reads_only limit (PeekAt n) = (n \<le> limit)"
| "reads_only limit _ = False"

context media_source
begin

lemma read_call_consumed:
  assumes "ctx_fine contents position ok c" "limit \<le> ic_max_peek c" "limit \<le> length (ic_buf c)" "reads_only limit x"
    "demux_call rd sk x c = (r, c')"
  shows "\<exists>bs. consumed contents position ok seekable c bs c'"
proof (cases x)
  case (ReadExact n)
  then show ?thesis using read_exact_fine [OF assms(1), of n] assms(5) by auto
next
  case ReadByte
  then show ?thesis using r8_fine [OF assms(1)] assms(5) by auto
next
  case (PeekAt n)
  then have "n \<le> ic_max_peek c" "n \<le> length (ic_buf c)" using assms(2-4) by auto
  then show ?thesis using peek_fine [OF assms(1)] assms(5) PeekAt by fastforce
qed (use assms(4) in auto)

lemma read_run_consumed:
  assumes "ctx_fine contents position ok c" "limit \<le> ic_max_peek c" "limit \<le> length (ic_buf c)"
    "list_all (reads_only limit) xs" "run (demux_call rd sk) xs c = (rs, c')"
  shows "\<exists>bs. consumed contents position ok seekable c bs c'"
  using assms
proof (induction xs arbitrary: c rs)
  case Nil
  then show ?case using consumed_Nil [OF Nil.prems(1), of seekable] by auto
next
  case (Cons x xs)
  obtain r c1 rs' where r: "demux_call rd sk x c = (r, c1)" "run (demux_call rd sk) xs c1 = (rs', c')"
    using Cons.prems(5) by (auto split: prod.splits)
  have x: "reads_only limit x" "list_all (reads_only limit) xs" using Cons.prems(4) by simp_all
  obtain bs where bs: "consumed contents position ok seekable c bs c1"
    using read_call_consumed [OF Cons.prems(1-3) x(1) r(1)] by blast
  then have "ctx_fine contents position ok c1" "limit \<le> ic_max_peek c1" "limit \<le> length (ic_buf c1)"
    using Cons.prems(2,3) by (auto simp: consumed_def ctx_setup_def)
  then obtain bs' where "consumed contents position ok seekable c1 bs' c'"
    using Cons.IH [OF _ _ _ x(2) r(2)] by blast
  then show ?case using consumed_trans [OF bs] by blast
qed

end

lemma ck_value_start: "ck_value (ck_update bs (ck_new kind p)) = checksum_of kind bs"
  by (cases kind) (simp_all add: checksum_of_def ck_value_def ck_update_def ck_new_def)

text \<open>
  A checksum region covers exactly the bytes consumed in it: after any sequence of exact
  reads, byte reads (failed ones included) and peeks, buffered or direct, the value is the
  checksum of the bytes between the position where the region was opened and the position
  reached. A seek inside the buffer feeds nothing, but a short forward seek past the buffer
  feeds the bytes it skips.
\<close>

theorem context_checksum:
  assumes "ctx_fine ms_data ms_pos ms_ok c" "run (demux_call ms_rd ms_seek) xs (ic_start_checksum kind c) = (rs, c')"
    "list_all (reads_only (min (ic_max_peek c) (length (ic_buf c)))) xs"
    "ic_pos c < p" "p - ic_pos c \<le> ic_short_seek c" "p \<le> length (ms_data (ic_src c))"
  shows "ic_checksum_value c' = Some (checksum_of kind (take (ic_pos c' - ic_pos c) (drop (ic_pos c) (ms_data (ic_src c))))) \<and>
    ic_pos c \<le> ic_pos c' \<and>
    ic_checksum (snd (ic_seek ms_rd ms_seek p c)) =
      (if p \<le> ic_base c + ic_tail c then ic_checksum c
       else map_option (ck_update (take (p - ic_pos c) (drop (ic_pos c) (ms_data (ic_src c))))) (ic_checksum c))"
proof -
  let ?seekable = "\<lambda>s. ms_seekability s \<noteq> Unseekable"
  have pos: "ic_pos d = ctx_at d" if "ctx_fine ms_data ms_pos ms_ok d" for d :: "memory_source io_context"
    using memory.base_sat(1) [OF that] by (simp add: ic_pos_def)
  define d where "d = ic_start_checksum kind c"
  have d: "ctx_fine ms_data ms_pos ms_ok d" "ctx_at d = ctx_at c" "ic_max_peek d = ic_max_peek c"
    "ic_buf d = ic_buf c" "ic_src d = ic_src c" "ic_checksum d = Some (ck_new kind (ic_pos c))"
    using assms(1) by (auto simp: d_def ic_start_checksum_def ctx_fine_def ctx_at_def)
  obtain bs where bs: "consumed ms_data ms_pos ms_ok ?seekable d bs c'"
    using memory.read_run_consumed [OF d(1) _ _ assms(3) assms(2) [folded d_def]] d(3,4) by auto
  have "bs = take (ctx_at c' - ctx_at c) (drop (ctx_at c) (ms_data (ic_src c)))" "ctx_at c \<le> ctx_at c'"
    using bs d(2,5) by (auto simp: consumed_def prefix_def)
  moreover have "ic_checksum_value c' = Some (checksum_of kind bs)"
    using bs d(6) by (simp add: consumed_def ic_checksum_value_def ck_value_start)
  moreover have "ctx_fine ms_data ms_pos ms_ok c'" using bs by (simp add: consumed_def)
  moreover have "ic_checksum (snd (ic_seek ms_rd ms_seek p c)) =
      (if p \<le> ic_base c + ic_tail c then ic_checksum c
       else map_option (ck_update (take (p - ic_pos c) (drop (ic_pos c) (ms_data (ic_src c))))) (ic_checksum c))"
  proof (cases "p \<le> ic_base c + ic_tail c")
    case True
    moreover have "ic_base c \<le> p" using assms(4) pos [OF assms(1)] by (simp add: ctx_at_def)
    ultimately show ?thesis using memory.seek_window(1) [OF assms(1)] by simp
  next
    case False
    then show ?thesis using memory.seek_forward [OF assms(1), of p] assms(4-6) pos [OF assms(1)]
      by (auto simp: consumed_def)
  qed
  ultimately show ?thesis using pos [OF assms(1)] pos [of c'] by simp
qed


theorem context_checksum_witness:
  "\<exists>c rs c'. run (demux_call ms_rd ms_seek) [ReadExact 2] (ic_start_checksum Adler32 c) = (rs, c') \<and>
    ms_data (ic_src c) = [1, 2, 3] \<and> ic_pos c = 0 \<and>
    ic_checksum_value c' = Some (checksum_of Adler32 (take (ic_pos c') [1, 2, 3]))"
proof -
  let ?src = "ms_expensive [1, 2, 3]"
  have s: "ms_ok ?src" "ms_seekability ?src = Expensive" "ms_data ?src = [1, 2, 3]" "ms_pos ?src = 0"
    by (simp_all add: ms_ok_def ms_expensive_def)
  obtain c where c: "ic_new Some ms_seekability ms_pos (io_default\<lparr>io_block_size := 64\<rparr>) ?src = Inr c"
    using default_context [of ms_seekability ms_pos 64 ?src] by blast
  note f = ic_new_fine [where contents = ms_data and ok = ms_ok, OF c s(1)]
  have p: "ic_pos c = 0" using f s(4) by (simp add: ctx_at_def ic_pos_def sat_u_def)
  have sh: "2 - ic_pos c \<le> ic_short_seek c" using f s(2) by (simp add: io_default_def DEFAULT_SHORT_SEEK_MAX_def)
  obtain rs c' where r: "run (demux_call ms_rd ms_seek) [ReadExact 2] (ic_start_checksum Adler32 c) = (rs, c')"
    by fastforce
  have "ic_checksum_value c' = Some (checksum_of Adler32 (take (ic_pos c') [1, 2, 3]))"
    using conjunct1 [OF context_checksum [OF conjunct1 [OF f] r _ _ sh]] p f s(3) by simp
  moreover have "ms_data (ic_src c) = [1, 2, 3]" using f s(3) by simp
  ultimately show ?thesis using r p by blast
qed

section \<open>Errors of the context\<close>

text \<open>
  A failed context keeps failing once its buffer is drained: byte reads and exact reads
  return the kept error and change nothing, until it is cleared. Two paths differ. A direct read
  at least as large as the buffer does not look at the kept error. And a cancellation is
  reported, at once and later, as an I/O failure instead of \<^verbatim>\<open>Error::Cancelled\<close>.
\<close>

theorem context_errors:
  assumes "ic_buffered c = 0" "0 < n" "e = replay err"
  shows "(ic_err c = Some err \<longrightarrow> ic_r8 rd c = (Inl e, c) \<and>
      (\<not> (ic_direct c \<and> length (ic_buf c) \<le> n \<and> \<not> ic_eof c) \<longrightarrow> ic_read_exact rd n c = (Inl e, c)) \<and>
      (ic_direct c \<and> length (ic_buf c) \<le> n \<and> \<not> ic_eof c \<and> \<not> ic_cancelled c \<and> rd n (ic_src c) = (Inr bs, s) \<longrightarrow>
        fst (ic_read_partial rd n c) = Inr bs)) \<and>
    (ic_err c = None \<and> ic_cancelled c \<and> \<not> ic_eof c \<longrightarrow>
      ic_r8 rd c = (Inl (IoFailure ''cancelled''), c\<lparr>ic_err := Some Cancelled\<rparr>) \<and>
      ic_read_exact rd n c = (Inl (IoFailure ''cancelled''), c\<lparr>ic_err := Some Cancelled\<rparr>))"
  using assms
  by (auto simp: ic_r8_def ic_read_exact.simps [of rd n c] ic_read_partial_def ic_fill_def ic_fail_def replay_def)

theorem context_errors_witness:
  "\<exists>c. fst (ic_r8 ms_rd c) = Inl (IoFailure ''cancelled'') \<and> ms_data (ic_src c) = [1, 2, 3]"
proof -
  obtain d where d: "ic_new Some ms_seekability ms_pos (io_default\<lparr>io_block_size := 64\<rparr>) (ms_new [1, 2, 3]) = Inr d"
    using default_context [of ms_seekability ms_pos 64 "ms_new [1, 2, 3]"] by blast
  have s: "ms_ok (ms_new [1, 2, 3])" "ms_data (ms_new [1, 2, 3]) = [1, 2, 3]" by (simp_all add: ms_ok_def ms_new_def)
  note f = ic_new_fine [where contents = ms_data and ok = ms_ok, OF d s(1)]
  have z: "ic_buffered d = 0" "\<not> ic_eof d"
    using d by (auto simp: ic_new_def ic_buffered_def Let_def split: sum.splits prod.splits)
  let ?c = "ic_set_cancel True d"
  have c: "ic_buffered ?c = 0" "ic_err ?c = None" "ic_cancelled ?c" "\<not> ic_eof ?c"
    using f z by (simp_all add: ic_set_cancel_def ctx_fine_def ic_buffered_def)
  have "fst (ic_r8 ms_rd ?c) = Inl (IoFailure ''cancelled'')"
    using context_errors [OF c(1), of 1 "replay Cancelled" Cancelled] c by simp
  then show ?thesis using f s(2) by (intro exI [of _ ?c]) (simp add: ic_set_cancel_def)
qed

section \<open>From muxer to demuxer\<close>

fun ctx_field ::
  "(nat \<Rightarrow> 's \<Rightarrow> (io_error + u8 list) \<times> 's) \<Rightarrow> field \<Rightarrow> 's io_context \<Rightarrow> (io_error + nat) \<times> 's io_context" where
  "ctx_field rd (W8 _) c = map_prod (map_sum id unat) id (ic_r8 rd c)"
| "ctx_field rd (WB16 _) c = map_prod (map_sum id unat) id (ic_rb16 rd c)"
| "ctx_field rd (WL16 _) c = map_prod (map_sum id unat) id (ic_rl16 rd c)"
| "ctx_field rd (WB24 _) c = map_prod (map_sum id unat) id (ic_rb24 rd c)"
| "ctx_field rd (WL24 _) c = map_prod (map_sum id unat) id (ic_rl24 rd c)"
| "ctx_field rd (WB32 _) c = map_prod (map_sum id unat) id (ic_rb32 rd c)"
| "ctx_field rd (WL32 _) c = map_prod (map_sum id unat) id (ic_rl32 rd c)"
| "ctx_field rd (WB64 _) c = map_prod (map_sum id unat) id (ic_rb64 rd c)"
| "ctx_field rd (WL64 _) c = map_prod (map_sum id unat) id (ic_rl64 rd c)"

fun ctx_fields ::
  "(nat \<Rightarrow> 's \<Rightarrow> (io_error + u8 list) \<times> 's) \<Rightarrow> field list \<Rightarrow> 's io_context \<Rightarrow>
     (io_error + nat list) \<times> 's io_context" where
  "ctx_fields rd [] c = (Inr [], c)"
| "ctx_fields rd (f # fs) c =
     (case ctx_field rd f c of
        (Inl e, c1) \<Rightarrow> (Inl e, c1)
      | (Inr v, c1) \<Rightarrow>
          (case ctx_fields rd fs c1 of
             (Inl e, c2) \<Rightarrow> (Inl e, c2)
           | (Inr vs, c2) \<Rightarrow> (Inr (v # vs), c2)))"

context media_source
begin

lemma fixed_fine:
  assumes "ctx_fine contents position ok c" "drop (ctx_at c) (contents (ic_src c)) = bs @ tail"
  shows "\<exists>c'. ic_fixed rd (length bs) conv c = (Inr (conv bs), c') \<and> consumed contents position ok seekable c bs c'"
  using read_exact_fine [OF assms(1), of "length bs"] assms(2) by (auto simp: ic_fixed_def)

lemma ctx_field_fine:
  assumes "ctx_fine contents position ok c" "drop (ctx_at c) (contents (ic_src c)) = field_bytes f @ tail"
  shows "\<exists>c'. ctx_field rd f c = (Inr (field_value f), c') \<and> consumed contents position ok seekable c (field_bytes f) c'"
proof (cases "\<exists>v. f = W8 v")
  case True
  then show ?thesis using r8_fine [OF assms(1)] assms(2) by auto
next
  case False
  note fixed = fixed_fine [OF assms]
  note b = to_be_bytes_def to_le_bytes_def from_le_def bytes_24 [simplified] from_be_bytes [simplified]
  show ?thesis
  proof (cases f)
    case (W8 v)
    then show ?thesis using False by blast
  next
    case (WB16 v)
    then show ?thesis using fixed [of "from_be :: _ \<Rightarrow> u16"] by (auto simp: ic_rb16_def b)
  next
    case (WL16 v)
    then show ?thesis using fixed [of "from_le :: _ \<Rightarrow> u16"] by (auto simp: ic_rl16_def b)
  next
    case (WB24 v)
    then show ?thesis using fixed [of "\<lambda>b. from_be (0 # b) :: u32"] by (auto simp: ic_rb24_def b)
  next
    case (WL24 v)
    then show ?thesis using fixed [of "\<lambda>b. from_le (b @ [0]) :: u32"] by (auto simp: ic_rl24_def b)
  next
    case (WB32 v)
    then show ?thesis using fixed [of "from_be :: _ \<Rightarrow> u32"] by (auto simp: ic_rb32_def b)
  next
    case (WL32 v)
    then show ?thesis using fixed [of "from_le :: _ \<Rightarrow> u32"] by (auto simp: ic_rl32_def b)
  next
    case (WB64 v)
    then show ?thesis using fixed [of "from_be :: _ \<Rightarrow> u64"] by (auto simp: ic_rb64_def b)
  next
    case (WL64 v)
    then show ?thesis using fixed [of "from_le :: _ \<Rightarrow> u64"] by (auto simp: ic_rl64_def b)
  qed
qed

lemma ctx_fields_fine:
  assumes "ctx_fine contents position ok c" "drop (ctx_at c) (contents (ic_src c)) = concat (map field_bytes fs) @ tail"
  shows "\<exists>c'. ctx_fields rd fs c = (Inr (map field_value fs), c') \<and>
    consumed contents position ok seekable c (concat (map field_bytes fs)) c'"
  using assms
proof (induction fs arbitrary: c)
  case Nil
  then show ?case using consumed_Nil by auto
next
  case (Cons f fs)
  obtain c1 where c1: "ctx_field rd f c = (Inr (field_value f), c1)"
    "consumed contents position ok seekable c (field_bytes f) c1"
    using ctx_field_fine [OF Cons.prems(1), of f "concat (map field_bytes fs) @ tail"] Cons.prems(2) by auto
  have "drop (ctx_at c1) (contents (ic_src c1)) = concat (map field_bytes fs) @ tail"
    using c1(2) Cons.prems(2)
    by (simp add: consumed_def add.commute [of "ctx_at c"] drop_drop [symmetric] del: drop_drop)
  then obtain c2 where "ctx_fields rd fs c1 = (Inr (map field_value fs), c2)"
    "consumed contents position ok seekable c1 (concat (map field_bytes fs)) c2"
    using Cons.IH [of c1] c1(2) by (auto simp: consumed_def)
  then show ?case using c1(1) consumed_trans [OF c1(2)] by auto
qed

end

text \<open>
  C20. What a muxer writes a demuxer reads. Integer fields of 8 to 64 bits in either byte order,
  written through an \<^verbatim>\<open>IoWriter\<close> of any block size into an empty growable sink with room for them
  and flushed, are taken from the sink; an \<^verbatim>\<open>IoContext\<close> with any options over those bytes,
  seekable or not, reads every field back with its value (24-bit fields keep the low 24 bits)
  and ends at the end.
\<close>

theorem mux_demux_round_trip:
  assumes "db_roomy d" "db_buf d = []" "db_pos d = 0" "iw_new grow db_pos l block direct d = Inr w"
    "length (concat (map field_bytes fs)) \<le> db_limit d"
  shows "\<exists>w1 w2 bytes. put_fields (db_write (generous slack)) db_flush fs w = (Inr (), w1) \<and>
    iw_flush (db_write (generous slack)) db_flush w1 = (Inr (), w2) \<and> bytes = fst (shared_take (iw_sink w2)) \<and>
    (\<forall>src \<in> {ms_new bytes, ms_forward_only bytes, ms_expensive bytes}.
      \<forall>c. ic_new grow' ms_seekability ms_pos opts src = Inr c \<longrightarrow>
        (\<exists>c'. ctx_fields ms_rd fs c = (Inr (map field_value fs), c') \<and> ic_pos c' = length bytes))"
proof -
  let ?bs = "concat (map field_bytes fs)"
  obtain w1 w2 where w: "put_fields (db_write (generous slack)) db_flush fs w = (Inr (), w1)"
    "iw_flush (db_write (generous slack)) db_flush w1 = (Inr (), w2)" "fst (shared_take (iw_sink w2)) = ?bs"
    using put_fields_bytes [OF assms] by blast
  have "db_limit d < 2 ^ 64" using assms(1) by (simp add: db_roomy_def db_sized_def db_ok_def)
  then have small: "length ?bs < 2 ^ 64" using assms(5) by linarith
  have "\<exists>c'. ctx_fields ms_rd fs c = (Inr (map field_value fs), c') \<and> ic_pos c' = length ?bs"
    if "src \<in> {ms_new ?bs, ms_forward_only ?bs, ms_expensive ?bs}" "ic_new grow' ms_seekability ms_pos opts src = Inr c"
    for src c
  proof -
    have s: "ms_ok src" "ms_data src = ?bs" "ms_pos src = 0"
      using that(1) small by (auto simp: ms_ok_def ms_new_def ms_forward_only_def ms_expensive_def)
    note f = ic_new_fine [where contents = ms_data and ok = ms_ok, OF that(2) s(1)]
    obtain c' where c': "ctx_fields ms_rd fs c = (Inr (map field_value fs), c')"
      "consumed ms_data ms_pos ms_ok (\<lambda>s. ms_seekability s \<noteq> Unseekable) c ?bs c'"
      using memory.ctx_fields_fine [OF conjunct1 [OF f], of fs "[]"] f s(2,3) by auto
    have "ctx_at c' = length ?bs" "ctx_fine ms_data ms_pos ms_ok c'"
      using c'(2) f s(3) by (simp_all add: consumed_def)
    then have "ic_pos c' = length ?bs" using memory.base_sat(1) [of c'] by (simp add: ic_pos_def)
    then show ?thesis using c'(1) by blast
  qed
  then have all: "\<forall>src \<in> {ms_new ?bs, ms_forward_only ?bs, ms_expensive ?bs}.
      \<forall>c. ic_new grow' ms_seekability ms_pos opts src = Inr c \<longrightarrow>
        (\<exists>c'. ctx_fields ms_rd fs c = (Inr (map field_value fs), c') \<and> ic_pos c' = length ?bs)" by blast
  show ?thesis by (rule exI [of _ w1], rule exI [of _ w2], rule exI [of _ ?bs]) (use w all in \<open>simp only: simp_thms\<close>)
qed

theorem mux_demux_round_trip_witness:
  "\<exists>w c w1 w2 bytes c'. iw_new Some db_pos tiny 64 True (db_with_limits tiny) = Inr w \<and>
    put_fields (db_write (generous (\<lambda>_. 0))) db_flush [WB16 258, WL24 0x12345678] w = (Inr (), w1) \<and>
    iw_flush (db_write (generous (\<lambda>_. 0))) db_flush w1 = (Inr (), w2) \<and> bytes = fst (shared_take (iw_sink w2)) \<and>
    ic_new Some ms_seekability ms_pos (io_default\<lparr>io_block_size := 64\<rparr>) (ms_forward_only bytes) = Inr c \<and>
    ctx_fields ms_rd [WB16 258, WL24 0x12345678] c = (Inr [258, 0x345678], c')"
proof -
  obtain w where w: "iw_new Some db_pos tiny 64 True (db_with_limits tiny) = Inr w" using tiny_writer by blast
  have d: "db_buf (db_with_limits tiny) = []" "db_pos (db_with_limits tiny) = 0" "db_limit (db_with_limits tiny) = 2 ^ 14"
    by (simp_all add: db_with_limits_def tiny_def sat_u_def)
  have l: "length (concat (map field_bytes [WB16 258, WL24 0x12345678])) \<le> db_limit (db_with_limits tiny)"
    using d(3) by (simp add: field_widths del: field_bytes.simps)
  obtain w1 w2 bytes where r: "put_fields (db_write (generous (\<lambda>_. 0))) db_flush [WB16 258, WL24 0x12345678] w = (Inr (), w1)"
    "iw_flush (db_write (generous (\<lambda>_. 0))) db_flush w1 = (Inr (), w2)" "bytes = fst (shared_take (iw_sink w2))"
    "\<forall>src \<in> {ms_new bytes, ms_forward_only bytes, ms_expensive bytes}.
      \<forall>c. ic_new Some ms_seekability ms_pos (io_default\<lparr>io_block_size := 64\<rparr>) src = Inr c \<longrightarrow>
        (\<exists>c'. ctx_fields ms_rd [WB16 258, WL24 0x12345678] c = (Inr (map field_value [WB16 258, WL24 0x12345678]), c') \<and>
          ic_pos c' = length bytes)"
    using mux_demux_round_trip [OF tiny_roomy d(1,2) w l, of "\<lambda>_. 0" Some "io_default\<lparr>io_block_size := 64\<rparr>"]
    by (elim exE conjE) (rule that)
  obtain c where c: "ic_new Some ms_seekability ms_pos (io_default\<lparr>io_block_size := 64\<rparr>) (ms_forward_only bytes) = Inr c"
    using default_context [of ms_seekability ms_pos 64 "ms_forward_only bytes"] by blast
  have v: "map field_value [WB16 258, WL24 0x12345678] = [258, 0x345678]" by simp
  have m: "ms_forward_only bytes \<in> {ms_new bytes, ms_forward_only bytes, ms_expensive bytes}" by simp
  obtain c' where "ctx_fields ms_rd [WB16 258, WL24 0x12345678] c = (Inr (map field_value [WB16 258, WL24 0x12345678]), c')"
    using bspec [OF r(4) m] c by blast
  then show ?thesis unfolding v using w r(1-3) c by (intro exI conjI)
qed

end
