(* ===== verification/Model_Pool.thy ===== *)
theory Model_Pool
  imports Bits_Reader Codec_Machine
begin

text \<open>
  Aligned, refcounted, copy-on-write buffers and their pool: \<^verbatim>\<open>crates/model/vaco-pool/src\<close>
  (\<^verbatim>\<open>aligned.rs\<close>, \<^verbatim>\<open>buffer.rs\<close>, \<^verbatim>\<open>pool.rs\<close>).

  The addresses the allocator gives out are arguments. \<^verbatim>\<open>Arc\<close> is modelled by an explicit
  store: a handle (a variable of type \<^verbatim>\<open>Buffer\<close>) points to a cell, a cell holds a buffer and
  its strong count. \<^verbatim>\<open>Mutex\<close> serialises the pool, so its operations are atomic steps.
\<close>

section \<open>Aligned buffers\<close>

definition ALIGN :: nat where "ALIGN = 64"
definition BITSTREAM_PADDING :: nat where "BITSTREAM_PADDING = 64"

text \<open>\<open>ab_addr\<close> is the address of the first byte of \<open>ab_raw\<close>.\<close>

record aligned_buf =
  ab_addr :: nat
  ab_raw :: "u8 list"
  ab_offset :: nat
  ab_len :: nat

definition raw_len :: "nat \<Rightarrow> nat option" where
  "raw_len len = checked_u 64 (len + (ALIGN - 1))"

definition ab_from_raw :: "nat \<Rightarrow> u8 list \<Rightarrow> nat \<Rightarrow> aligned_buf" where
  "ab_from_raw addr raw len =
     (let off = unat (- (word_of_nat addr :: u64) AND word_of_nat (ALIGN - 1))
      in \<lparr>ab_addr = addr, ab_raw = raw, ab_offset = off, ab_len = min len (length raw - off)\<rparr>)"

definition ab_new :: "nat \<Rightarrow> nat \<Rightarrow> aligned_buf" where
  "ab_new addr len =
     (let whole = (case raw_len len of Some t \<Rightarrow> t | None \<Rightarrow> USIZE_MAX)
      in ab_from_raw addr (replicate whole 0) len)"

definition ab_alloc ::
  "(nat \<Rightarrow> nat option) \<Rightarrow> nat \<Rightarrow> nat \<Rightarrow> budget \<Rightarrow> (codec_error + aligned_buf) \<times> budget" where
  "ab_alloc grow addr len b =
     (case raw_len len of
        None \<Rightarrow> (Inl (Over_limit (LimitExceeded ''buffer_len'' len (USIZE_MAX - ALIGN + 1))), b)
      | Some whole \<Rightarrow>
          (case bd_alloc grow 1 0 whole b of
             (Inl e, b') \<Rightarrow> (Inl (Over_limit (core_error_of_limit e)), b')
           | (Inr raw, b') \<Rightarrow> (Inr (ab_from_raw addr raw len), b')))"

definition ab_as_slice :: "aligned_buf \<Rightarrow> u8 list" where
  "ab_as_slice ab =
     (case slice_range (ab_raw ab) (ab_offset ab) (sat_u 64 (ab_offset ab + ab_len ab)) of
        Some s \<Rightarrow> s | None \<Rightarrow> [])"

text \<open>Writing through \<^verbatim>\<open>as_mut_slice\<close>: \<open>f\<close> keeps the length of the slice.\<close>

definition ab_write :: "(u8 list \<Rightarrow> u8 list) \<Rightarrow> aligned_buf \<Rightarrow> aligned_buf" where
  "ab_write f ab =
     (let stop = sat_u 64 (ab_offset ab + ab_len ab)
      in case slice_range (ab_raw ab) (ab_offset ab) stop of
           None \<Rightarrow> ab
         | Some s \<Rightarrow> ab\<lparr>ab_raw := take (ab_offset ab) (ab_raw ab) @ f s @ drop stop (ab_raw ab)\<rparr>)"

definition ab_copy_of :: "nat \<Rightarrow> u8 list \<Rightarrow> aligned_buf" where
  "ab_copy_of addr src = ab_write (\<lambda>_. src) (ab_new addr (length src))"

definition ab_footprint :: "aligned_buf \<Rightarrow> nat" where
  "ab_footprint ab = length (ab_raw ab)"

definition ab_is_aligned :: "aligned_buf \<Rightarrow> bool" where
  "ab_is_aligned ab \<longleftrightarrow> (word_of_nat (ab_addr ab + ab_offset ab) :: u64) AND word_of_nat (ALIGN - 1) = 0"

text \<open>
  What every buffer keeps: the logical bytes lie inside the allocation, whose size is the
  logical length plus the slack, and start at an aligned address.
\<close>

definition ab_ok :: "aligned_buf \<Rightarrow> bool" where
  "ab_ok ab \<longleftrightarrow> ab_offset ab < ALIGN \<and> length (ab_raw ab) = ab_len ab + (ALIGN - 1) \<and>
     length (ab_raw ab) < 2 ^ 64 \<and> ab_is_aligned ab"

lemma and_63: "unat (w AND 63 :: u64) = unat w mod 64"
proof -
  have "w AND mask 6 = take_bit 6 w" by (simp add: take_bit_eq_mask)
  moreover have "(mask 6 :: u64) = 63" by (simp add: mask_eq_exp_minus_1)
  ultimately show ?thesis by (simp add: take_bit_eq_mod unat_mod_distrib)
qed

lemma align_offset:
  fixes a :: u64
  shows "unat (- a AND 63) < 64" "(a + word_of_nat (unat (- a AND 63))) AND 63 = 0"
proof -
  show "unat (- a AND 63) < 64" by (simp add: and_63)
  have sum: "unat (b + c) mod 64 = (unat b + unat c) mod 64" for b c :: u64
    by (simp add: unat_word_ariths mod_mod_cancel)
  have "unat ((a + (- a AND 63)) AND 63) = (unat a + unat (- a)) mod 64"
    unfolding and_63 sum by (simp add: mod_add_right_eq)
  also have "\<dots> = 0" unfolding sum [symmetric] by simp
  finally have "(a + (- a AND 63)) AND 63 = 0" by (simp add: unat_eq_zero)
  then show "(a + word_of_nat (unat (- a AND 63))) AND 63 = 0" by simp
qed

lemma ab_from_raw_ok:
  assumes "length raw = len + (ALIGN - 1)" "length raw < 2 ^ 64"
  shows "ab_ok (ab_from_raw addr raw len)" "ab_len (ab_from_raw addr raw len) = len"
proof -
  let ?off = "unat (- (word_of_nat addr :: u64) AND 63)"
  note A = align_offset [of "word_of_nat addr"]
  have m: "min len (length raw - ?off) = len" using assms A(1) by (simp add: ALIGN_def)
  show "ab_len (ab_from_raw addr raw len) = len" by (simp add: ab_from_raw_def ALIGN_def Let_def m)
  show "ab_ok (ab_from_raw addr raw len)"
    using assms A by (simp add: ab_ok_def ab_from_raw_def ALIGN_def Let_def m ab_is_aligned_def)
qed

lemma ab_slice:
  assumes "ab_ok ab"
  shows "slice_range (ab_raw ab) (ab_offset ab) (sat_u 64 (ab_offset ab + ab_len ab)) =
      Some (take (ab_len ab) (drop (ab_offset ab) (ab_raw ab)))"
    "sat_u 64 (ab_offset ab + ab_len ab) = ab_offset ab + ab_len ab"
    "ab_offset ab + ab_len ab \<le> length (ab_raw ab)"
proof -
  have "ab_offset ab + ab_len ab \<le> length (ab_raw ab)" "ab_offset ab + ab_len ab < 2 ^ 64"
    using assms by (simp_all add: ab_ok_def ALIGN_def)
  moreover from this(2) have "sat_u 64 (ab_offset ab + ab_len ab) = ab_offset ab + ab_len ab"
    by (simp add: sat_u_id fits_u_def)
  ultimately show "slice_range (ab_raw ab) (ab_offset ab) (sat_u 64 (ab_offset ab + ab_len ab)) =
      Some (take (ab_len ab) (drop (ab_offset ab) (ab_raw ab)))"
    "sat_u 64 (ab_offset ab + ab_len ab) = ab_offset ab + ab_len ab"
    "ab_offset ab + ab_len ab \<le> length (ab_raw ab)"
    by (simp_all add: slice_range_def)
qed

lemma length_ab_as_slice: "ab_ok ab \<Longrightarrow> length (ab_as_slice ab) = ab_len ab"
  using ab_slice [of ab] by (simp add: ab_as_slice_def)

lemma ab_write_ok:
  assumes "ab_ok ab" "\<And>s. length (f s) = length s"
  shows "ab_ok (ab_write f ab)" "ab_as_slice (ab_write f ab) = f (ab_as_slice ab)"
    "ab_len (ab_write f ab) = ab_len ab" "ab_footprint (ab_write f ab) = ab_footprint ab"
proof -
  note S = ab_slice [OF assms(1)]
  let ?s = "take (ab_len ab) (drop (ab_offset ab) (ab_raw ab))"
  have w: "ab_write f ab =
      ab\<lparr>ab_raw := take (ab_offset ab) (ab_raw ab) @ f ?s @ drop (ab_offset ab + ab_len ab) (ab_raw ab)\<rparr>"
    by (simp add: ab_write_def Let_def S(2) S(1) [unfolded S(2)])
  have l: "length (f ?s) = ab_len ab" using S(3) assms(2) by simp
  then show ok: "ab_ok (ab_write f ab)" using assms(1) S(3) unfolding w by (simp add: ab_ok_def ab_is_aligned_def ALIGN_def)
  show "ab_len (ab_write f ab) = ab_len ab" unfolding w by simp
  show "ab_footprint (ab_write f ab) = ab_footprint ab" using S(3) l unfolding w by (simp add: ab_footprint_def)
  show "ab_as_slice (ab_write f ab) = f (ab_as_slice ab)"
    using ab_slice(1) [OF ok] S(1,3) l unfolding w by (simp add: ab_as_slice_def)
qed

lemma ab_new_ok:
  assumes "len + (ALIGN - 1) < 2 ^ 64"
  shows "ab_ok (ab_new addr len)" "ab_as_slice (ab_new addr len) = replicate len 0"
    "ab_len (ab_new addr len) = len" "ab_footprint (ab_new addr len) = len + (ALIGN - 1)"
proof -
  have n: "ab_new addr len = ab_from_raw addr (replicate (len + (ALIGN - 1)) 0) len"
    using assms by (simp add: ab_new_def raw_len_def checked_u_def fits_u_def)
  show ok: "ab_ok (ab_new addr len)" and len: "ab_len (ab_new addr len) = len"
    unfolding n using ab_from_raw_ok assms by simp_all
  show "ab_footprint (ab_new addr len) = len + (ALIGN - 1)" by (simp add: n ab_footprint_def ab_from_raw_def Let_def)
  have "ab_raw (ab_new addr len) = replicate (len + (ALIGN - 1)) 0" by (simp add: n ab_from_raw_def Let_def)
  then show "ab_as_slice (ab_new addr len) = replicate len 0"
    using ab_slice(1,3) [OF ok] len by (simp add: ab_as_slice_def)
qed

lemma ab_fill:
  assumes "ab_ok ab" "length src = ab_len ab"
  shows "ab_ok (ab_write (\<lambda>_. src) ab)" "ab_as_slice (ab_write (\<lambda>_. src) ab) = src"
    "ab_len (ab_write (\<lambda>_. src) ab) = ab_len ab"
proof -
  let ?f = "\<lambda>s. if length s = length src then src else s"
  have l: "length (ab_as_slice ab) = length src" using length_ab_as_slice [OF assms(1)] assms(2) by simp
  then have "ab_write (\<lambda>_. src) ab = ab_write ?f ab"
    using ab_slice [OF assms(1)] by (simp add: ab_write_def ab_as_slice_def)
  moreover have "length (?f s) = length s" for s by simp
  ultimately show "ab_ok (ab_write (\<lambda>_. src) ab)" "ab_as_slice (ab_write (\<lambda>_. src) ab) = src"
    "ab_len (ab_write (\<lambda>_. src) ab) = ab_len ab"
    using ab_write_ok [OF assms(1), of ?f] l by simp_all
qed

lemma ab_copy_of_ok:
  assumes "length src + (ALIGN - 1) < 2 ^ 64"
  shows "ab_ok (ab_copy_of addr src)" "ab_as_slice (ab_copy_of addr src) = src"
    "ab_len (ab_copy_of addr src) = length src"
  using ab_fill [of "ab_new addr (length src)" src] ab_new_ok [OF assms, of addr]
  by (simp_all add: ab_copy_of_def)

section \<open>The pool\<close>

record pool_config =
  max_live_bytes :: nat
  max_live_buffers :: nat
  max_retained_buffers :: nat

definition default_pool_config :: pool_config where
  "default_pool_config =
     \<lparr>max_live_bytes = 2 ^ 30, max_live_buffers = 4096, max_retained_buffers = 32\<rparr>"

record pool_state =
  ps_free :: "aligned_buf list"
  ps_live_bytes :: nat
  ps_live_buffers :: nat
  ps_allocations :: nat
  ps_hits :: nat
  ps_recycled :: nat

record buffer_pool =
  bp_buffer_size :: nat
  bp_config :: pool_config
  bp_state :: pool_state

definition bp_with_config :: "nat \<Rightarrow> pool_config \<Rightarrow> buffer_pool" where
  "bp_with_config buffer_size config =
     \<lparr>bp_buffer_size = buffer_size, bp_config = config,
      bp_state = \<lparr>ps_free = [], ps_live_bytes = 0, ps_live_buffers = 0, ps_allocations = 0,
                  ps_hits = 0, ps_recycled = 0\<rparr>\<rparr>"

definition bp_new :: "nat \<Rightarrow> buffer_pool" where
  "bp_new buffer_size = bp_with_config buffer_size default_pool_config"

definition bp_new_padded :: "nat \<Rightarrow> buffer_pool" where
  "bp_new_padded logical_len = bp_new (sat_u 64 (logical_len + BITSTREAM_PADDING))"

definition acquire :: "nat \<Rightarrow> nat \<Rightarrow> buffer_pool \<Rightarrow> aligned_buf option \<times> buffer_pool" where
  "acquire addr len p =
     (let st = bp_state p
      in if len \<noteq> bp_buffer_size p then (None, p)
         else if ps_free st \<noteq> [] then
           (Some (last (ps_free st)),
            p\<lparr>bp_state := st\<lparr>ps_free := butlast (ps_free st), ps_hits := sat_u 64 (ps_hits st + 1)\<rparr>\<rparr>)
         else case checked_u 64 (len + (ALIGN - 1)) of
           None \<Rightarrow> (None, p)
         | Some footprint \<Rightarrow>
             if ps_live_buffers st \<ge> max_live_buffers (bp_config p) then (None, p)
             else (case checked_u 64 (ps_live_bytes st + footprint) of
                None \<Rightarrow> (None, p)
              | Some bytes \<Rightarrow>
                  if bytes > max_live_bytes (bp_config p) then (None, p)
                  else (Some (ab_new addr len),
                        p\<lparr>bp_state := st\<lparr>ps_live_buffers := sat_u 64 (ps_live_buffers st + 1),
                          ps_live_bytes := sat_u 64 (ps_live_bytes st + footprint),
                          ps_allocations := sat_u 64 (ps_allocations st + 1)\<rparr>\<rparr>)))"

definition recycle :: "aligned_buf \<Rightarrow> buffer_pool \<Rightarrow> buffer_pool" where
  "recycle buf p =
     (let st = bp_state p
      in if ab_len buf = bp_buffer_size p \<and> length (ps_free st) < max_retained_buffers (bp_config p)
         then p\<lparr>bp_state := st\<lparr>ps_free := ps_free st @ [buf], ps_recycled := sat_u 64 (ps_recycled st + 1)\<rparr>\<rparr>
         else p\<lparr>bp_state := st\<lparr>ps_live_buffers := ps_live_buffers st - 1,
                 ps_live_bytes := ps_live_bytes st - ab_footprint buf\<rparr>\<rparr>)"

definition free_one :: "aligned_buf \<Rightarrow> pool_state \<Rightarrow> pool_state" where
  "free_one buf st = st\<lparr>ps_live_buffers := ps_live_buffers st - 1,
     ps_live_bytes := ps_live_bytes st - ab_footprint buf\<rparr>"

definition bp_clear :: "buffer_pool \<Rightarrow> buffer_pool" where
  "bp_clear p = p\<lparr>bp_state := fold free_one (ps_free (bp_state p)) ((bp_state p)\<lparr>ps_free := []\<rparr>)\<rparr>"

record pool_stats =
  stat_allocations :: nat
  stat_hits :: nat
  stat_recycled :: nat
  stat_live_bytes :: nat
  stat_live_buffers :: nat
  stat_retained_buffers :: nat

definition bp_stats :: "buffer_pool \<Rightarrow> pool_stats" where
  "bp_stats p =
     (let st = bp_state p
      in \<lparr>stat_allocations = ps_allocations st, stat_hits = ps_hits st, stat_recycled = ps_recycled st,
          stat_live_bytes = ps_live_bytes st, stat_live_buffers = ps_live_buffers st,
          stat_retained_buffers = length (ps_free st)\<rparr>)"

text \<open>The state of a pool with \<open>out\<close> of its buffers in use.\<close>

definition pool_ok :: "buffer_pool \<Rightarrow> nat \<Rightarrow> bool" where
  "pool_ok p out \<longleftrightarrow> (let st = bp_state p; cfg = bp_config p in
     ps_live_buffers st = out + length (ps_free st) \<and>
     ps_live_bytes st = ps_live_buffers st * (bp_buffer_size p + (ALIGN - 1)) \<and>
     list_all (\<lambda>buf. ab_ok buf \<and> ab_len buf = bp_buffer_size p) (ps_free st) \<and>
     ps_live_buffers st \<le> max_live_buffers cfg \<and> ps_live_bytes st \<le> max_live_bytes cfg \<and>
     length (ps_free st) \<le> max_retained_buffers cfg \<and>
     max_live_buffers cfg < 2 ^ 64 \<and> max_live_bytes cfg < 2 ^ 64)"

text \<open>The configuration is in the range of its type.\<close>

definition config_ok :: "pool_config \<Rightarrow> bool" where
  "config_ok c \<longleftrightarrow> max_live_bytes c < 2 ^ 64 \<and> max_live_buffers c < 2 ^ 64"

lemma bp_with_config_ok: "config_ok c \<Longrightarrow> pool_ok (bp_with_config n c) 0"
  by (simp add: pool_ok_def bp_with_config_def config_ok_def)

lemma footprint_ok: "ab_ok buf \<Longrightarrow> ab_footprint buf = ab_len buf + (ALIGN - 1)"
  by (simp add: ab_ok_def ab_footprint_def)

lemma acquire_frame: "acquire addr len p = (r, p') \<Longrightarrow> bp_buffer_size p' = bp_buffer_size p \<and> bp_config p' = bp_config p"
  by (auto simp: acquire_def Let_def split: if_splits option.splits)

lemma acquire_ok:
  assumes "pool_ok p out" "acquire addr len p = (r, p')"
  shows "case r of None \<Rightarrow> p' = p
    | Some buf \<Rightarrow> pool_ok p' (out + 1) \<and> ab_ok buf \<and> ab_len buf = bp_buffer_size p \<and> len = bp_buffer_size p"
proof (cases "len = bp_buffer_size p \<and> ps_free (bp_state p) \<noteq> []")
  case True
  then have "ps_free (bp_state p) = butlast (ps_free (bp_state p)) @ [last (ps_free (bp_state p))]" by simp
  then obtain xs x where f: "ps_free (bp_state p) = xs @ [x]" by blast
  then show ?thesis using assms True by (auto simp: acquire_def pool_ok_def Let_def)
next
  case False
  let ?st = "bp_state p" and ?fp = "len + (ALIGN - 1)"
  show ?thesis
  proof (cases r)
    case None
    then show ?thesis using assms(2) False by (auto simp: acquire_def Let_def split: if_splits option.splits)
  next
    case (Some buf)
    then have a: "len = bp_buffer_size p" "ps_free ?st = []" "?fp < 2 ^ 64" "buf = ab_new addr len"
      "ps_live_buffers ?st < max_live_buffers (bp_config p)"
      "ps_live_bytes ?st + ?fp < 2 ^ 64" "ps_live_bytes ?st + ?fp \<le> max_live_bytes (bp_config p)"
      "p' = p\<lparr>bp_state := ?st\<lparr>ps_live_buffers := sat_u 64 (ps_live_buffers ?st + 1),
         ps_live_bytes := sat_u 64 (ps_live_bytes ?st + ?fp), ps_allocations := sat_u 64 (ps_allocations ?st + 1)\<rparr>\<rparr>"
      using assms(2) False by (auto simp: acquire_def Let_def fits_u_def split: if_splits option.splits)
    have "ps_live_buffers ?st + 1 < 2 ^ 64" using a(5) assms(1) by (simp add: pool_ok_def Let_def)
    then have s: "sat_u 64 (ps_live_buffers ?st + 1) = ps_live_buffers ?st + 1"
      "sat_u 64 (ps_live_bytes ?st + ?fp) = ps_live_bytes ?st + ?fp"
      using a(6) by (simp_all only: sat_u_id fits_u_def)
    have "pool_ok p' (out + 1)"
      using assms(1) a(2,5,7) unfolding a(8) s by (simp add: pool_ok_def Let_def a(1))
    then show ?thesis using Some a(1,4) ab_new_ok [OF a(3), of addr] by simp
  qed
qed

lemma recycle_ok:
  assumes "pool_ok p (Suc out)" "ab_ok buf" "ab_len buf = bp_buffer_size p"
  shows "pool_ok (recycle buf p) out" "bp_buffer_size (recycle buf p) = bp_buffer_size p"
    "bp_config (recycle buf p) = bp_config p"
proof -
  let ?st = "bp_state p"
  have f: "ab_footprint buf = bp_buffer_size p + (ALIGN - 1)" using footprint_ok [OF assms(2)] assms(3) by simp
  have "(out + length (ps_free ?st)) * (bp_buffer_size p + (ALIGN - 1)) =
      Suc (out + length (ps_free ?st)) * (bp_buffer_size p + (ALIGN - 1)) - (bp_buffer_size p + (ALIGN - 1))"
    by simp
  then show "pool_ok (recycle buf p) out"
    using assms by (auto simp: recycle_def pool_ok_def Let_def f)
  show "bp_buffer_size (recycle buf p) = bp_buffer_size p" "bp_config (recycle buf p) = bp_config p"
    by (simp_all add: recycle_def Let_def)
qed

lemma free_all:
  "list_all (\<lambda>buf. ab_footprint buf = k) bufs \<Longrightarrow>
     ps_live_buffers (fold free_one bufs st) = ps_live_buffers st - length bufs \<and>
     ps_live_bytes (fold free_one bufs st) = ps_live_bytes st - length bufs * k \<and>
     ps_free (fold free_one bufs st) = ps_free st"
  by (induction bufs arbitrary: st) (simp_all add: free_one_def)

lemma clear_ok:
  assumes "pool_ok p out"
  shows "pool_ok (bp_clear p) out" "bp_buffer_size (bp_clear p) = bp_buffer_size p"
    "bp_config (bp_clear p) = bp_config p" "ps_free (bp_state (bp_clear p)) = []"
proof -
  let ?st = "bp_state p" and ?st' = "bp_state (bp_clear p)"
  define k where "k = bp_buffer_size p + (ALIGN - 1)"
  have B: "ps_live_buffers ?st = out + length (ps_free ?st)" "ps_live_bytes ?st = out * k + length (ps_free ?st) * k"
    "out + length (ps_free ?st) \<le> max_live_buffers (bp_config p)"
    using assms by (simp_all add: pool_ok_def Let_def k_def distrib_right)
  have "ps_live_bytes ?st \<le> max_live_bytes (bp_config p)" using assms unfolding pool_ok_def Let_def by blast
  note bytes = le_trans [OF le_add1 this [unfolded B(2)]]
  have "list_all (\<lambda>buf. ab_footprint buf = k) (ps_free ?st)"
    using assms footprint_ok by (auto simp: pool_ok_def Let_def list_all_iff k_def)
  note F = free_all [OF this, of "?st\<lparr>ps_free := []\<rparr>"]
  have C: "ps_free ?st' = []" "ps_live_buffers ?st' = out" "ps_live_bytes ?st' = out * k"
    using F B(1,2) by (simp_all add: bp_clear_def)
  show frame: "bp_buffer_size (bp_clear p) = bp_buffer_size p" "bp_config (bp_clear p) = bp_config p"
    by (simp_all add: bp_clear_def)
  show "ps_free ?st' = []" by (rule C(1))
  have "out \<le> max_live_buffers (bp_config p)" using B(3) by simp
  then show "pool_ok (bp_clear p) out"
    using assms bytes unfolding pool_ok_def Let_def C frame k_def by simp
qed

section \<open>Shared buffers\<close>

text \<open>
  \<open>st_handles\<close> maps the variables of type \<^verbatim>\<open>Buffer\<close> to cells, \<open>st_cells\<close> the cells
  (\<^verbatim>\<open>Arc<BufferInner>\<close>) to their contents and strong count. \<open>bi_pooled\<close> says that the
  buffer holds the \<^verbatim>\<open>Weak\<close> reference to the pool, \<open>st_alive\<close> that upgrading it succeeds.
\<close>

record buffer_inner =
  bi_data :: aligned_buf
  bi_pooled :: bool

record store =
  st_cells :: "nat \<rightharpoonup> buffer_inner \<times> nat"
  st_handles :: "nat \<rightharpoonup> nat"
  st_pool :: buffer_pool
  st_alive :: bool

definition store_new :: "buffer_pool \<Rightarrow> store" where
  "store_new p = \<lparr>st_cells = Map.empty, st_handles = Map.empty, st_pool = p, st_alive = True\<rparr>"

text \<open>\<^verbatim>\<open>Buffer::from_inner\<close>: a new cell \<open>c\<close> for the new handle \<open>h\<close>.\<close>

definition bf_from_inner :: "nat \<Rightarrow> nat \<Rightarrow> buffer_inner \<Rightarrow> store \<Rightarrow> store" where
  "bf_from_inner c h inner s =
     s\<lparr>st_cells := (st_cells s)(c \<mapsto> (inner, 1)), st_handles := (st_handles s)(h \<mapsto> c)\<rparr>"

definition bp_get :: "nat \<Rightarrow> nat \<Rightarrow> nat \<Rightarrow> store \<Rightarrow> (codec_error + unit) \<times> store" where
  "bp_get addr c h s =
     (case acquire addr (bp_buffer_size (st_pool s)) (st_pool s) of
        (None, p) \<Rightarrow>
          (Inl (Over_limit (LimitExceeded ''pool_live_bytes'' (bp_buffer_size (st_pool s))
                 (max_live_bytes (bp_config (st_pool s))))), s\<lparr>st_pool := p\<rparr>)
      | (Some data, p) \<Rightarrow>
          (Inr (), bf_from_inner c h \<lparr>bi_data = data, bi_pooled = True\<rparr> (s\<lparr>st_pool := p\<rparr>)))"

definition bf_clone :: "nat \<Rightarrow> nat \<Rightarrow> store \<Rightarrow> store" where
  "bf_clone h h' s =
     (case st_handles s h of None \<Rightarrow> s
      | Some c \<Rightarrow> (case st_cells s c of None \<Rightarrow> s
        | Some (inner, n) \<Rightarrow>
            s\<lparr>st_cells := (st_cells s)(c \<mapsto> (inner, n + 1)), st_handles := (st_handles s)(h' \<mapsto> c)\<rparr>))"

text \<open>\<^verbatim>\<open>Drop for BufferInner\<close> runs when the last handle goes.\<close>

definition inner_drop :: "buffer_inner \<Rightarrow> store \<Rightarrow> store" where
  "inner_drop inner s =
     (if bi_pooled inner \<and> st_alive s then s\<lparr>st_pool := recycle (bi_data inner) (st_pool s)\<rparr> else s)"

definition bf_drop :: "nat \<Rightarrow> store \<Rightarrow> store" where
  "bf_drop h s =
     (case st_handles s h of None \<Rightarrow> s
      | Some c \<Rightarrow> (case st_cells s c of None \<Rightarrow> s
        | Some (inner, n) \<Rightarrow>
            if n = 1
            then inner_drop inner
                   (s\<lparr>st_cells := (st_cells s)(c := None), st_handles := (st_handles s)(h := None)\<rparr>)
            else s\<lparr>st_cells := (st_cells s)(c \<mapsto> (inner, n - 1)),
                   st_handles := (st_handles s)(h := None)\<rparr>))"

text \<open>\<^verbatim>\<open>Clone for BufferInner\<close>, the copy of copy-on-write.\<close>

definition inner_clone :: "nat \<Rightarrow> buffer_inner \<Rightarrow> store \<Rightarrow> buffer_inner \<times> store" where
  "inner_clone addr inner s =
     (case (if bi_pooled inner \<and> st_alive s
            then acquire addr (ab_len (bi_data inner)) (st_pool s) else (None, st_pool s)) of
        (Some data, p) \<Rightarrow>
          (\<lparr>bi_data = ab_write (\<lambda>_. ab_as_slice (bi_data inner)) data, bi_pooled = True\<rparr>, s\<lparr>st_pool := p\<rparr>)
      | (None, p) \<Rightarrow>
          (\<lparr>bi_data = ab_copy_of addr (ab_as_slice (bi_data inner)), bi_pooled = False\<rparr>, s\<lparr>st_pool := p\<rparr>))"

definition inner_write :: "(u8 list \<Rightarrow> u8 list) \<Rightarrow> buffer_inner \<Rightarrow> buffer_inner" where
  "inner_write f inner = inner\<lparr>bi_data := ab_write f (bi_data inner)\<rparr>"

text \<open>\<^verbatim>\<open>make_mut\<close> and the write through it; \<open>c'\<close> is the cell of a copy.\<close>

definition bf_make_mut :: "(u8 list \<Rightarrow> u8 list) \<Rightarrow> nat \<Rightarrow> nat \<Rightarrow> nat \<Rightarrow> store \<Rightarrow> store" where
  "bf_make_mut f addr c' h s =
     (case st_handles s h of None \<Rightarrow> s
      | Some c \<Rightarrow> (case st_cells s c of None \<Rightarrow> s
        | Some (inner, n) \<Rightarrow>
            if n = 1 then s\<lparr>st_cells := (st_cells s)(c \<mapsto> (inner_write f inner, 1))\<rparr>
            else (case inner_clone addr inner s of (copy, s1) \<Rightarrow>
              s1\<lparr>st_cells := (st_cells s1)(c \<mapsto> (inner, n - 1), c' \<mapsto> (inner_write f copy, 1)),
                 st_handles := (st_handles s1)(h \<mapsto> c')\<rparr>)))"

definition bf_is_unique :: "nat \<Rightarrow> store \<Rightarrow> bool" where
  "bf_is_unique h s \<longleftrightarrow> (case Option.bind (st_handles s h) (st_cells s) of
     Some (inner, n) \<Rightarrow> n = 1 | None \<Rightarrow> False)"

definition bf_ptr_eq :: "nat \<Rightarrow> nat \<Rightarrow> store \<Rightarrow> bool" where
  "bf_ptr_eq h h' s \<longleftrightarrow> st_handles s h = st_handles s h'"

text \<open>What a program sees: the bytes each handle stands for.\<close>

definition st_value :: "store \<Rightarrow> nat \<rightharpoonup> u8 list" where
  "st_value s h =
     Option.bind (st_handles s h) (\<lambda>c. map_option (\<lambda>(inner, n). ab_as_slice (bi_data inner)) (st_cells s c))"

subsection \<open>The invariant\<close>

definition holders :: "store \<Rightarrow> nat \<Rightarrow> nat set" where
  "holders s c = {h. st_handles s h = Some c}"

definition pooled_cells :: "store \<Rightarrow> nat set" where
  "pooled_cells s = {c. \<exists>inner n. st_cells s c = Some (inner, n) \<and> bi_pooled inner}"

definition inner_ok :: "nat \<Rightarrow> buffer_inner \<Rightarrow> bool" where
  "inner_ok sz inner \<longleftrightarrow> ab_ok (bi_data inner) \<and> (bi_pooled inner \<longrightarrow> ab_len (bi_data inner) = sz)"

definition cells_ok :: "store \<Rightarrow> bool" where
  "cells_ok s \<longleftrightarrow> finite (dom (st_handles s)) \<and> finite (dom (st_cells s)) \<and>
     (\<forall>h c. st_handles s h = Some c \<longrightarrow> c \<in> dom (st_cells s)) \<and>
     (\<forall>c inner n. st_cells s c = Some (inner, n) \<longrightarrow>
        inner_ok (bp_buffer_size (st_pool s)) inner \<and> n = card (holders s c) \<and> 0 < n)"

definition store_ok :: "store \<Rightarrow> bool" where
  "store_ok s \<longleftrightarrow> cells_ok s \<and> (st_alive s \<longrightarrow> pool_ok (st_pool s) (card (pooled_cells s)))"

text \<open>The events of a program; fresh cells and the allocator's addresses are part of them.\<close>

datatype event =
    New nat nat aligned_buf
  | Get nat nat nat
  | Clone nat nat
  | Drop nat
  | Write "u8 list \<Rightarrow> u8 list" nat nat nat
  | Clear
  | Drop_pool

primrec exec :: "event \<Rightarrow> store \<Rightarrow> store" where
  "exec (New c h data) s = bf_from_inner c h \<lparr>bi_data = data, bi_pooled = False\<rparr> s"
| "exec (Get addr c h) s = snd (bp_get addr c h s)"
| "exec (Clone h h') s = bf_clone h h' s"
| "exec (Drop h) s = bf_drop h s"
| "exec (Write f addr c h) s = bf_make_mut f addr c h s"
| "exec Clear s = s\<lparr>st_pool := bp_clear (st_pool s)\<rparr>"
| "exec Drop_pool s = s\<lparr>st_alive := False\<rparr>"

primrec enabled :: "event \<Rightarrow> store \<Rightarrow> bool" where
  "enabled (New c h data) s \<longleftrightarrow> c \<notin> dom (st_cells s) \<and> h \<notin> dom (st_handles s) \<and> ab_ok data"
| "enabled (Get addr c h) s \<longleftrightarrow> st_alive s \<and> c \<notin> dom (st_cells s) \<and> h \<notin> dom (st_handles s)"
| "enabled (Clone h h') s \<longleftrightarrow> h \<in> dom (st_handles s) \<and> h' \<notin> dom (st_handles s)"
| "enabled (Drop h) s \<longleftrightarrow> h \<in> dom (st_handles s)"
| "enabled (Write f addr c h) s \<longleftrightarrow> h \<in> dom (st_handles s) \<and> c \<notin> dom (st_cells s) \<and> (\<forall>xs. length (f xs) = length xs)"
| "enabled Clear s \<longleftrightarrow> st_alive s"
| "enabled Drop_pool s \<longleftrightarrow> st_alive s"

text \<open>The specification: every handle is a variable of its own that holds bytes.\<close>

inductive spec_step :: "nat \<Rightarrow> event \<Rightarrow> (nat \<rightharpoonup> u8 list) \<Rightarrow> (nat \<rightharpoonup> u8 list) \<Rightarrow> bool" for sz where
  spec_new: "spec_step sz (New c h data) v (v(h \<mapsto> ab_as_slice data))"
| spec_get: "length bs = sz \<Longrightarrow> spec_step sz (Get addr c h) v (v(h \<mapsto> bs))"
| spec_refused: "spec_step sz (Get addr c h) v v"
| spec_clone: "spec_step sz (Clone h h') v (v(h' := v h))"
| spec_drop: "spec_step sz (Drop h) v (v(h := None))"
| spec_write: "spec_step sz (Write f addr c h) v (v(h := map_option f (v h)))"
| spec_clear: "spec_step sz Clear v v"
| spec_drop_pool: "spec_step sz Drop_pool v v"

lemma holders_finite: "cells_ok s \<Longrightarrow> finite (holders s c)"
proof -
  assume "cells_ok s"
  then have "finite (dom (st_handles s))" by (simp add: cells_ok_def)
  moreover have "holders s c \<subseteq> dom (st_handles s)" by (auto simp: holders_def)
  ultimately show ?thesis by (rule rev_finite_subset)
qed

lemma pooled_finite: "cells_ok s \<Longrightarrow> finite (pooled_cells s)"
proof -
  assume "cells_ok s"
  then have "finite (dom (st_cells s))" by (simp add: cells_ok_def)
  moreover have "pooled_cells s \<subseteq> dom (st_cells s)" by (auto simp: pooled_cells_def)
  ultimately show ?thesis by (rule rev_finite_subset)
qed

text \<open>A cell and its count; a live handle and its cell.\<close>

lemma other_cells:
  assumes "cells_ok s" "st_cells s c = Some (inner, n)"
  shows "inner_ok (bp_buffer_size (st_pool s)) inner" "n = card {h. st_handles s h = Some c}" "0 < n"
  using assms by (auto simp: cells_ok_def holders_def)

lemma handle_cell:
  assumes "cells_ok s" "h \<in> dom (st_handles s)"
  obtains c inner where "st_handles s h = Some c" "st_cells s c = Some (inner, card (holders s c))"
    "inner_ok (bp_buffer_size (st_pool s)) inner" "h \<in> holders s c" "0 < card (holders s c)"
proof -
  obtain c where c: "st_handles s h = Some c" using assms(2) by blast
  then have "c \<in> dom (st_cells s)" using assms(1) unfolding cells_ok_def by blast
  then obtain z where "st_cells s c = Some z" by blast
  then obtain inner n where i: "st_cells s c = Some (inner, n)" by (cases z) simp
  note O = other_cells [OF assms(1) i]
  have "n = card (holders s c)" using O(2) by (simp only: holders_def)
  then have "st_cells s c = Some (inner, card (holders s c))" "0 < card (holders s c)" using i O(3) by simp_all
  moreover have "h \<in> holders s c" using c by (simp add: holders_def)
  ultimately show thesis using that c O(1) by blast
qed

text \<open>The only holder of a cell.\<close>

lemma sole_holder:
  assumes "st_handles s h = Some c" "card (holders s c) = 1" "st_handles s h' = Some c"
  shows "h' = h"
proof -
  obtain x where "holders s c = {x}" using assms(2) card_1_singletonE by blast
  moreover have "h \<in> holders s c" "h' \<in> holders s c" using assms(1,3) by (simp_all add: holders_def)
  ultimately show ?thesis by simp
qed

text \<open>Updates of one cell and one handle, and the counts after them.\<close>

lemma cells_okI:
  assumes "cells_ok s" "finite (dom hs)" "finite (dom cs)"
    "\<And>h c. hs h = Some c \<Longrightarrow> c \<in> dom cs"
    "\<And>c inner n. cs c = Some (inner, n) \<Longrightarrow>
      inner_ok (bp_buffer_size p) inner \<and> n = card {h. hs h = Some c} \<and> 0 < n"
  shows "cells_ok (s\<lparr>st_cells := cs, st_handles := hs, st_pool := p\<rparr>)"
  using assms(2-5) by (simp add: cells_ok_def holders_def)

lemma from_inner_ok:
  assumes "cells_ok s" "c \<notin> dom (st_cells s)" "h \<notin> dom (st_handles s)"
    "inner_ok (bp_buffer_size (st_pool s)) inner"
  shows "cells_ok (bf_from_inner c h inner s)"
    "pooled_cells (bf_from_inner c h inner s) = (if bi_pooled inner then insert c (pooled_cells s) else pooled_cells s)"
    "st_value (bf_from_inner c h inner s) = (st_value s)(h \<mapsto> ab_as_slice (bi_data inner))"
proof -
  have fresh: "st_handles s x \<noteq> Some c" for x using assms(1,2) by (auto simp: cells_ok_def)
  have one: "{x. ((st_handles s)(h \<mapsto> c)) x = Some c} = {h}" using fresh by auto
  have rest: "c' \<noteq> c \<Longrightarrow> {x. ((st_handles s)(h \<mapsto> c)) x = Some c'} = holders s c'" for c'
    using assms(3) by (auto simp: holders_def)
  show "cells_ok (bf_from_inner c h inner s)"
    using assms one rest unfolding cells_ok_def bf_from_inner_def holders_def by auto
  show "pooled_cells (bf_from_inner c h inner s) = (if bi_pooled inner then insert c (pooled_cells s) else pooled_cells s)"
    using assms(2) by (auto simp: pooled_cells_def bf_from_inner_def)
  show "st_value (bf_from_inner c h inner s) = (st_value s)(h \<mapsto> ab_as_slice (bi_data inner))"
    using fresh by (auto simp: st_value_def bf_from_inner_def fun_eq_iff split: bind_splits)
qed

subsection \<open>Every operation\<close>

lemma pool_update [simp]:
  "pooled_cells (s\<lparr>st_pool := p\<rparr>) = pooled_cells s" "st_value (s\<lparr>st_pool := p\<rparr>) = st_value s"
  "holders (s\<lparr>st_pool := p\<rparr>) = holders s"
  "bp_buffer_size p = bp_buffer_size (st_pool s) \<Longrightarrow> cells_ok (s\<lparr>st_pool := p\<rparr>) = cells_ok s"
  by (auto simp: pooled_cells_def st_value_def holders_def cells_ok_def fun_eq_iff)

lemma holders_update:
  "{a. (hs(h := x)) a = Some c} = (if x = Some c then insert h {a. hs a = Some c} else {a. hs a = Some c} - {h})"
  by auto

lemma bf_clone_ok:
  assumes "cells_ok s" "h \<in> dom (st_handles s)" "h' \<notin> dom (st_handles s)"
  shows "cells_ok (bf_clone h h' s)" "pooled_cells (bf_clone h h' s) = pooled_cells s"
    "st_value (bf_clone h h' s) = (st_value s)(h' := st_value s h)"
    "st_pool (bf_clone h h' s) = st_pool s" "st_alive (bf_clone h h' s) = st_alive s"
proof -
  obtain c inner where c: "st_handles s h = Some c" "st_cells s c = Some (inner, card (holders s c))"
    "inner_ok (bp_buffer_size (st_pool s)) inner" by (rule handle_cell [OF assms(1,2)])
  let ?s = "s\<lparr>st_cells := (st_cells s)(c \<mapsto> (inner, card (holders s c) + 1)), st_handles := (st_handles s)(h' \<mapsto> c)\<rparr>"
  have e: "bf_clone h h' s = ?s" by (simp add: bf_clone_def c)
  have "st_handles s h' = None" using assms(3) by blast
  then have H: "holders ?s x = (if x = c then insert h' (holders s c) else holders s x)" for x
    by (auto simp: holders_def)
  have "h' \<notin> holders s c" using assms(3) by (auto simp: holders_def)
  then have card: "card (holders ?s c) = card (holders s c) + 1"
    unfolding H using holders_finite [OF assms(1)] by simp
  have fin: "finite (dom (st_handles ?s))" "finite (dom (st_cells ?s))"
    and in_dom: "st_handles s a = Some x \<Longrightarrow> x \<in> dom (st_cells s)" for a x
    using assms(1) unfolding cells_ok_def by auto
  have handles: "x \<in> dom (st_cells ?s)" if "st_handles ?s a = Some x" for a x
    using that in_dom [of a x] by (cases "a = h'") auto
  have cells: "inner_ok (bp_buffer_size (st_pool s)) i \<and> n = card (holders ?s x) \<and> 0 < n"
    if "st_cells ?s x = Some (i, n)" for x i n
  proof (cases "x = c")
    case True
    then have "i = inner" "n = card (holders s c) + 1" using that by simp_all
    then show ?thesis using True c(3) card by simp
  next
    case False
    then have "st_cells s x = Some (i, n)" using that by simp
    from other_cells [OF assms(1) this] show ?thesis using False H [of x] by (simp add: holders_def)
  qed
  show "cells_ok (bf_clone h h' s)"
    unfolding e cells_ok_def using fin handles cells by (intro conjI allI impI) simp_all
  show "pooled_cells (bf_clone h h' s) = pooled_cells s"
    unfolding e using c(2) by (auto simp: pooled_cells_def)
  show "st_value (bf_clone h h' s) = (st_value s)(h' := st_value s h)"
    unfolding e using c(1,2) by (auto simp: st_value_def fun_eq_iff split: bind_splits)
  show "st_pool (bf_clone h h' s) = st_pool s" "st_alive (bf_clone h h' s) = st_alive s" by (simp_all add: e)
qed

text \<open>Dropping a handle, when others remain and when it was the last.\<close>

lemma drop_shared:
  assumes "cells_ok s" "st_handles s h = Some c" "st_cells s c = Some (inner, n)" "n \<noteq> 1"
  shows "cells_ok (bf_drop h s)" "pooled_cells (bf_drop h s) = pooled_cells s"
    "st_value (bf_drop h s) = (st_value s)(h := None)"
    "st_pool (bf_drop h s) = st_pool s" "st_alive (bf_drop h s) = st_alive s"
    "dom (st_cells (bf_drop h s)) = dom (st_cells s)" "st_handles (bf_drop h s) h = None"
proof -
  let ?s = "s\<lparr>st_cells := (st_cells s)(c \<mapsto> (inner, n - 1)), st_handles := (st_handles s)(h := None)\<rparr>"
  have e: "bf_drop h s = ?s" using assms(4) by (simp add: bf_drop_def assms(2,3))
  note O = other_cells [OF assms(1,3)]
  have H: "holders ?s x = holders s x - {h}" for x by (auto simp: holders_def)
  have "h \<in> holders s c" using assms(2) by (simp add: holders_def)
  then have "card (holders ?s c) = n - 1" using O(2) unfolding H by (simp add: holders_def)
  moreover have "holders ?s x = holders s x" if "x \<noteq> c" for x using assms(2) that by (auto simp: holders_def)
  moreover have "0 < n - 1" using O(3) assms(4) by simp
  moreover have "x \<in> dom (st_cells ?s)" if "st_handles ?s a = Some x" for a x
    using that assms(1) unfolding cells_ok_def by (cases "a = h") auto
  ultimately show "cells_ok (bf_drop h s)"
    using assms(1) O(1) other_cells [OF assms(1)] unfolding e cells_ok_def [of ?s]
    by (simp add: cells_ok_def holders_def)
  show "pooled_cells (bf_drop h s) = pooled_cells s" unfolding e using assms(3) by (auto simp: pooled_cells_def)
  show "st_value (bf_drop h s) = (st_value s)(h := None)"
    unfolding e using assms(3) by (auto simp: st_value_def fun_eq_iff split: bind_splits)
  show "st_pool (bf_drop h s) = st_pool s" "st_alive (bf_drop h s) = st_alive s"
    "dom (st_cells (bf_drop h s)) = dom (st_cells s)" "st_handles (bf_drop h s) h = None"
    using assms(3) by (auto simp: e)
qed

lemma drop_last:
  assumes "cells_ok s" "st_handles s h = Some c" "st_cells s c = Some (inner, 1)"
  defines "s1 \<equiv> s\<lparr>st_cells := (st_cells s)(c := None), st_handles := (st_handles s)(h := None)\<rparr>"
  shows "bf_drop h s = inner_drop inner s1" "cells_ok s1" "pooled_cells s1 = pooled_cells s - {c}"
    "st_value s1 = (st_value s)(h := None)"
proof -
  show "bf_drop h s = inner_drop inner s1" by (simp add: bf_drop_def assms(2,3) s1_def)
  have "card (holders s c) = 1" using other_cells(2) [OF assms(1,3)] by (simp add: holders_def)
  then have sole: "a = h" if "st_handles s a = Some c" for a using sole_holder [OF assms(2) _ that] by blast
  have "holders s1 x = holders s x" if "x \<noteq> c" for x using assms(2) that by (auto simp: holders_def s1_def)
  moreover have "x \<in> dom (st_cells s1)" if "st_handles s1 a = Some x" for a x
    using that assms(1) sole unfolding cells_ok_def s1_def by (cases "a = h") auto
  ultimately show "cells_ok s1"
    using assms(1) other_cells [OF assms(1)] unfolding cells_ok_def [of s1]
    by (simp add: s1_def cells_ok_def holders_def)
  show "pooled_cells s1 = pooled_cells s - {c}" by (auto simp: s1_def pooled_cells_def)
  show "st_value s1 = (st_value s)(h := None)"
    using sole by (auto simp: s1_def st_value_def fun_eq_iff split: bind_splits)
qed

lemma inner_drop_frame:
  "st_cells (inner_drop inner s) = st_cells s" "st_handles (inner_drop inner s) = st_handles s"
  "st_alive (inner_drop inner s) = st_alive s"
  "bp_buffer_size (st_pool (inner_drop inner s)) = bp_buffer_size (st_pool s)"
  "bp_config (st_pool (inner_drop inner s)) = bp_config (st_pool s)"
  by (simp_all add: inner_drop_def recycle_def Let_def)

lemma inner_drop_same:
  "cells_ok (inner_drop inner s) = cells_ok s" "pooled_cells (inner_drop inner s) = pooled_cells s"
  "st_value (inner_drop inner s) = st_value s"
  by (simp_all add: cells_ok_def pooled_cells_def st_value_def holders_def inner_drop_frame fun_eq_iff)

definition same_pool :: "store \<Rightarrow> store \<Rightarrow> bool" where
  "same_pool s s' \<longleftrightarrow> bp_buffer_size (st_pool s') = bp_buffer_size (st_pool s) \<and>
     bp_config (st_pool s') = bp_config (st_pool s)"

lemma bf_drop_ok:
  assumes "store_ok s" "h \<in> dom (st_handles s)"
  shows "store_ok (bf_drop h s) \<and> st_value (bf_drop h s) = (st_value s)(h := None) \<and> same_pool s (bf_drop h s)"
proof -
  have ok: "cells_ok s" "st_alive s \<Longrightarrow> pool_ok (st_pool s) (card (pooled_cells s))"
    using assms(1) by (simp_all add: store_ok_def)
  obtain c inner where c: "st_handles s h = Some c" "st_cells s c = Some (inner, card (holders s c))"
    "inner_ok (bp_buffer_size (st_pool s)) inner" by (rule handle_cell [OF ok(1) assms(2)])
  show ?thesis
  proof (cases "card (holders s c) = 1")
    case False
    show ?thesis
      unfolding store_ok_def same_pool_def drop_shared [OF ok(1) c(1,2) False] using ok
      by (simp add: drop_shared [OF ok(1) c(1,2) False])
  next
    case True
    note L = drop_last [OF ok(1) c(1) c(2) [unfolded True]]
    let ?s = "s\<lparr>st_cells := (st_cells s)(c := None), st_handles := (st_handles s)(h := None)\<rparr>"
    have "pool_ok (st_pool (inner_drop inner ?s)) (card (pooled_cells s - {c}))" if alive: "st_alive s"
    proof (cases "bi_pooled inner")
      case False
      then have "c \<notin> pooled_cells s" using c(2) by (simp add: pooled_cells_def)
      then show ?thesis using False ok(2) [OF alive] by (simp add: inner_drop_def)
    next
      case True
      then have "c \<in> pooled_cells s" using c(2) by (simp add: pooled_cells_def)
      then have "card (pooled_cells s) = Suc (card (pooled_cells s - {c}))"
        using card_Suc_Diff1 [OF pooled_finite [OF ok(1)]] by simp
      then have "pool_ok (st_pool s) (Suc (card (pooled_cells s - {c})))" using ok(2) [OF alive] by simp
      from recycle_ok(1) [OF this, of "bi_data inner"] show ?thesis
        using True alive c(3) by (simp add: inner_drop_def inner_ok_def)
    qed
    then show ?thesis
      unfolding store_ok_def same_pool_def L(1) inner_drop_same inner_drop_frame L(3,4) using L(2) by simp
  qed
qed

text \<open>A new cell for a new handle: allocation, \<^verbatim>\<open>get\<close>, and the copy of a shared buffer.\<close>

lemma from_inner_store:
  assumes "cells_ok s" "c \<notin> dom (st_cells s)" "h \<notin> dom (st_handles s)"
    "inner_ok (bp_buffer_size (st_pool s)) inner"
    "st_alive s \<Longrightarrow> pool_ok (st_pool s) (card (pooled_cells s) + of_bool (bi_pooled inner))"
  shows "store_ok (bf_from_inner c h inner s)"
    "st_value (bf_from_inner c h inner s) = (st_value s)(h \<mapsto> ab_as_slice (bi_data inner))"
    "same_pool s (bf_from_inner c h inner s)"
proof -
  note F = from_inner_ok [OF assms(1-4)]
  have "c \<notin> pooled_cells s" using assms(2) by (auto simp: pooled_cells_def)
  then have "card (pooled_cells (bf_from_inner c h inner s)) = card (pooled_cells s) + of_bool (bi_pooled inner)"
    unfolding F(2) using pooled_finite [OF assms(1)] by simp
  moreover have "st_pool (bf_from_inner c h inner s) = st_pool s" "st_alive (bf_from_inner c h inner s) = st_alive s"
    by (simp_all add: bf_from_inner_def)
  ultimately show "store_ok (bf_from_inner c h inner s)" "same_pool s (bf_from_inner c h inner s)"
    using F(1) assms(5) by (simp_all add: store_ok_def same_pool_def)
  show "st_value (bf_from_inner c h inner s) = (st_value s)(h \<mapsto> ab_as_slice (bi_data inner))" by (rule F(3))
qed

lemma inner_clone_ok:
  assumes "store_ok s" "inner_ok (bp_buffer_size (st_pool s)) inner" "inner_clone addr inner s = (copy, s1)"
  shows "\<exists>p. s1 = s\<lparr>st_pool := p\<rparr> \<and> bp_buffer_size p = bp_buffer_size (st_pool s) \<and> bp_config p = bp_config (st_pool s) \<and>
    inner_ok (bp_buffer_size p) copy \<and> ab_as_slice (bi_data copy) = ab_as_slice (bi_data inner) \<and>
    (st_alive s \<longrightarrow> pool_ok p (card (pooled_cells s) + of_bool (bi_pooled copy)))"
proof -
  let ?src = "ab_as_slice (bi_data inner)"
  have i: "ab_ok (bi_data inner)" using assms(2) by (simp add: inner_ok_def)
  from length_ab_as_slice [OF i] have len: "length ?src = ab_len (bi_data inner)" "length ?src + (ALIGN - 1) < 2 ^ 64"
    using i by (simp_all add: ab_ok_def ALIGN_def)
  obtain r p where a: "(if bi_pooled inner \<and> st_alive s then acquire addr (ab_len (bi_data inner)) (st_pool s)
      else (None, st_pool s)) = (r, p)" by fastforce
  show ?thesis
  proof (cases r)
    case None
    have "p = st_pool s"
      using a None acquire_ok [of "st_pool s" "card (pooled_cells s)" addr] assms(1)
      by (fastforce simp: store_ok_def split: if_splits)
    moreover have "copy = \<lparr>bi_data = ab_copy_of addr ?src, bi_pooled = False\<rparr>" "s1 = s\<lparr>st_pool := p\<rparr>"
      using assms(3) unfolding inner_clone_def a None by simp_all
    ultimately show ?thesis
      using assms(1) ab_copy_of_ok [OF len(2), of addr] by (intro exI [of _ p]) (simp add: inner_ok_def store_ok_def)
  next
    case (Some data)
    then have p: "bi_pooled inner" "st_alive s" "acquire addr (ab_len (bi_data inner)) (st_pool s) = (Some data, p)"
      using a by (auto split: if_splits)
    have "pool_ok (st_pool s) (card (pooled_cells s))" using assms(1) p(2) by (simp add: store_ok_def)
    note A = acquire_ok [OF this p(3)] acquire_frame [OF p(3)]
    then have l: "length ?src = ab_len data" "ab_ok data" using len(1) by simp_all
    note W = ab_fill [OF l(2,1)]
    have "copy = \<lparr>bi_data = ab_write (\<lambda>_. ?src) data, bi_pooled = True\<rparr>" "s1 = s\<lparr>st_pool := p\<rparr>"
      using assms(3) unfolding inner_clone_def a Some by simp_all
    then show ?thesis using A W by (intro exI [of _ p]) (simp add: inner_ok_def)
  qed
qed

lemma inner_write_ok:
  assumes "inner_ok k inner" "\<And>xs. length (f xs) = length xs"
  shows "inner_ok k (inner_write f inner)" "bi_pooled (inner_write f inner) = bi_pooled inner"
    "ab_as_slice (bi_data (inner_write f inner)) = f (ab_as_slice (bi_data inner))"
  using assms ab_write_ok [of "bi_data inner" f] by (simp_all add: inner_ok_def inner_write_def)

lemma write_unique:
  assumes "store_ok s" "st_handles s h = Some c" "st_cells s c = Some (inner, 1)" "\<And>xs. length (f xs) = length xs"
  defines "s' \<equiv> s\<lparr>st_cells := (st_cells s)(c \<mapsto> (inner_write f inner, 1))\<rparr>"
  shows "store_ok s'" "st_value s' = (st_value s)(h := map_option f (st_value s h))"
proof -
  have ok: "cells_ok s" using assms(1) by (simp add: store_ok_def)
  note O = other_cells [OF ok assms(3)]
  note W = inner_write_ok [OF O(1) assms(4)]
  have one: "card (holders s c) = 1" using O(2) by (simp add: holders_def)
  have H: "holders s' = holders s" by (simp add: s'_def holders_def fun_eq_iff)
  have cells: "inner_ok (bp_buffer_size (st_pool s)) i \<and> n = card (holders s x) \<and> 0 < n"
    if "st_cells s' x = Some (i, n)" for x i n
  proof (cases "x = c")
    case True
    then have "i = inner_write f inner" "n = 1" using that by (simp_all add: s'_def)
    then show ?thesis using True W(1) one by simp
  next
    case False
    then have "st_cells s x = Some (i, n)" using that by (simp add: s'_def)
    from other_cells [OF ok this] show ?thesis by (simp add: holders_def)
  qed
  have fin: "finite (dom (st_handles s))" "finite (dom (st_cells s))"
    and in_dom: "st_handles s a = Some x \<Longrightarrow> x \<in> dom (st_cells s)" for a x
    using ok unfolding cells_ok_def by auto
  have d: "dom (st_cells s') = dom (st_cells s)" using assms(3) by (auto simp: s'_def)
  have frame: "st_handles s' = st_handles s" "st_pool s' = st_pool s" "st_alive s' = st_alive s"
    by (simp_all add: s'_def)
  have "cells_ok s'"
    unfolding cells_ok_def H frame d using fin in_dom cells by (intro conjI allI impI) simp_all
  moreover have "pooled_cells s' = pooled_cells s" using assms(3) W(2) by (auto simp: s'_def pooled_cells_def)
  ultimately show "store_ok s'" using assms(1) by (simp add: store_ok_def frame)
  have sole: "a = h" if "st_handles s a = Some c" for a using sole_holder [OF assms(2) one that] .
  show "st_value s' = (st_value s)(h := map_option f (st_value s h))"
  proof
    fix a
    show "st_value s' a = ((st_value s)(h := map_option f (st_value s h))) a"
    proof (cases "st_handles s a")
      case None
      then show ?thesis using assms(2) by (auto simp: st_value_def frame)
    next
      case (Some x)
      show ?thesis
      proof (cases "x = c")
        case True
        then show ?thesis using Some sole assms(2,3) W(3) by (simp add: st_value_def s'_def)
      next
        case False
        then have "a \<noteq> h" using Some assms(2) by auto
        then show ?thesis using Some False by (simp add: st_value_def s'_def)
      qed
    qed
  qed
qed

lemma bf_make_mut_ok:
  assumes "store_ok s" "h \<in> dom (st_handles s)" "c' \<notin> dom (st_cells s)" "\<And>xs. length (f xs) = length xs"
  shows "store_ok (bf_make_mut f addr c' h s) \<and>
    st_value (bf_make_mut f addr c' h s) = (st_value s)(h := map_option f (st_value s h)) \<and>
    same_pool s (bf_make_mut f addr c' h s)"
proof -
  have ok: "cells_ok s" using assms(1) by (simp add: store_ok_def)
  obtain c inner where c: "st_handles s h = Some c" "st_cells s c = Some (inner, card (holders s c))"
    "inner_ok (bp_buffer_size (st_pool s)) inner" by (rule handle_cell [OF ok assms(2)])
  show ?thesis
  proof (cases "card (holders s c) = 1")
    case True
    then show ?thesis
      using write_unique [OF assms(1) c(1) c(2) [unfolded True] assms(4)] c(1,2)
      by (simp add: bf_make_mut_def same_pool_def)
  next
    case False
    obtain copy s1 where cl: "inner_clone addr inner s = (copy, s1)" by fastforce
    from inner_clone_ok [OF assms(1) c(3) cl] obtain p where p: "s1 = s\<lparr>st_pool := p\<rparr>"
      "bp_buffer_size p = bp_buffer_size (st_pool s)" "bp_config p = bp_config (st_pool s)"
      "inner_ok (bp_buffer_size p) copy" "ab_as_slice (bi_data copy) = ab_as_slice (bi_data inner)"
      "st_alive s \<Longrightarrow> pool_ok p (card (pooled_cells s) + of_bool (bi_pooled copy))" by blast
    have s1: "cells_ok s1" "st_handles s1 h = Some c" "st_cells s1 c = Some (inner, card (holders s c))"
      using ok c(1,2) p(1,2) by simp_all
    note D = drop_shared [OF s1 False]
    note W = inner_write_ok [OF p(4) assms(4)]
    have "bf_make_mut f addr c' h s = bf_from_inner c' h (inner_write f copy) (bf_drop h s1)"
      using False c(1,2) cl s1(2,3) by (simp add: bf_make_mut_def bf_from_inner_def bf_drop_def)
    moreover have "store_ok (bf_from_inner c' h (inner_write f copy) (bf_drop h s1))"
      "st_value (bf_from_inner c' h (inner_write f copy) (bf_drop h s1)) =
        (st_value (bf_drop h s1))(h \<mapsto> ab_as_slice (bi_data (inner_write f copy)))"
      "same_pool (bf_drop h s1) (bf_from_inner c' h (inner_write f copy) (bf_drop h s1))"
    proof -
      have a: "c' \<notin> dom (st_cells (bf_drop h s1))" "h \<notin> dom (st_handles (bf_drop h s1))"
        using assms(3) p(1) D(6,7) by auto
      have b: "inner_ok (bp_buffer_size (st_pool (bf_drop h s1))) (inner_write f copy)"
        unfolding D(4) using W(1) by (simp add: p(1))
      have d: "st_alive (bf_drop h s1) \<Longrightarrow> pool_ok (st_pool (bf_drop h s1))
          (card (pooled_cells (bf_drop h s1)) + of_bool (bi_pooled (inner_write f copy)))"
        using p(6) unfolding D(2,4,5) W(2) by (simp add: p(1))
      note F = from_inner_store [OF D(1) a b d]
      show "store_ok (bf_from_inner c' h (inner_write f copy) (bf_drop h s1))"
        "st_value (bf_from_inner c' h (inner_write f copy) (bf_drop h s1)) =
          (st_value (bf_drop h s1))(h \<mapsto> ab_as_slice (bi_data (inner_write f copy)))"
        "same_pool (bf_drop h s1) (bf_from_inner c' h (inner_write f copy) (bf_drop h s1))"
        using F by simp_all
    qed
    moreover have "st_value s h = Some (ab_as_slice (bi_data inner))" using c(1,2) by (simp add: st_value_def)
    ultimately show ?thesis
      using D(3,4) W(3) p by (simp add: same_pool_def)
  qed
qed

section \<open>Programs over buffers\<close>

lemma bp_get_ok:
  assumes "store_ok s" "st_alive s" "c \<notin> dom (st_cells s)" "h \<notin> dom (st_handles s)"
  shows "store_ok (snd (bp_get addr c h s)) \<and> same_pool s (snd (bp_get addr c h s)) \<and>
    spec_step (bp_buffer_size (st_pool s)) (Get addr c h) (st_value s) (st_value (snd (bp_get addr c h s)))"
proof -
  have ok: "cells_ok s" "pool_ok (st_pool s) (card (pooled_cells s))" using assms(1,2) by (simp_all add: store_ok_def)
  obtain r p where a: "acquire addr (bp_buffer_size (st_pool s)) (st_pool s) = (r, p)" by fastforce
  note A = acquire_ok [OF ok(2) a] acquire_frame [OF a]
  show ?thesis
  proof (cases r)
    case None
    then have "snd (bp_get addr c h s) = s" using A a by (simp add: bp_get_def)
    then show ?thesis using assms(1) by (simp add: same_pool_def spec_refused)
  next
    case (Some data)
    let ?s = "s\<lparr>st_pool := p\<rparr>" and ?i = "\<lparr>bi_data = data, bi_pooled = True\<rparr>"
    have e: "snd (bp_get addr c h s) = bf_from_inner c h ?i ?s" using a Some by (simp add: bp_get_def)
    have "inner_ok (bp_buffer_size (st_pool ?s)) ?i" using A Some by (simp add: inner_ok_def)
    note F = from_inner_store [of ?s c h ?i, OF _ _ _ this]
    have "length (ab_as_slice data) = bp_buffer_size (st_pool s)" using A Some length_ab_as_slice by simp
    from spec_get [OF this, of addr c h "st_value s"] show ?thesis
      using F A Some ok(1) assms(3,4) unfolding e by (simp add: same_pool_def)
  qed
qed

lemma exec_ok:
  assumes "store_ok s" "enabled ev s"
  shows "store_ok (exec ev s) \<and> same_pool s (exec ev s) \<and>
    spec_step (bp_buffer_size (st_pool s)) ev (st_value s) (st_value (exec ev s))"
proof (cases ev)
  case (New c h data)
  let ?i = "\<lparr>bi_data = data, bi_pooled = False\<rparr>"
  have "inner_ok (bp_buffer_size (st_pool s)) ?i" using assms(2) New by (simp add: inner_ok_def)
  note F = from_inner_store [of s c h ?i, OF _ _ _ this]
  show ?thesis using F assms spec_new [of "bp_buffer_size (st_pool s)" c h data "st_value s"]
    by (simp add: New store_ok_def)
next
  case (Get addr c h)
  then show ?thesis using bp_get_ok [OF assms(1), of c h addr] assms(2) by simp
next
  case (Clone h h')
  then have "h \<in> dom (st_handles s)" "h' \<notin> dom (st_handles s)" using assms(2) by simp_all
  from bf_clone_ok [OF _ this] show ?thesis
    using assms(1) spec_clone by (simp add: Clone store_ok_def same_pool_def)
next
  case (Drop h)
  then show ?thesis using bf_drop_ok [OF assms(1)] assms(2) spec_drop by simp
next
  case (Write f addr c h)
  then show ?thesis using bf_make_mut_ok [OF assms(1), of h c f addr] assms(2) spec_write by simp
next
  case Clear
  then show ?thesis
    using assms clear_ok [of "st_pool s" "card (pooled_cells s)"] spec_clear
    by (simp add: store_ok_def same_pool_def)
next
  case Drop_pool
  have "cells_ok (s\<lparr>st_alive := False\<rparr>) = cells_ok s" "st_value (s\<lparr>st_alive := False\<rparr>) = st_value s"
    by (simp_all add: cells_ok_def holders_def st_value_def fun_eq_iff)
  then show ?thesis using assms(1) spec_drop_pool by (simp add: Drop_pool store_ok_def same_pool_def)
qed

fun run_events :: "event list \<Rightarrow> store \<Rightarrow> store option" where
  "run_events [] s = Some s"
| "run_events (ev # evs) s = (if enabled ev s then run_events evs (exec ev s) else None)"

inductive spec_run :: "nat \<Rightarrow> event list \<Rightarrow> (nat \<rightharpoonup> u8 list) \<Rightarrow> (nat \<rightharpoonup> u8 list) \<Rightarrow> bool" for sz where
  run_nil: "spec_run sz [] v v"
| run_cons: "spec_step sz ev v v' \<Longrightarrow> spec_run sz evs v' v'' \<Longrightarrow> spec_run sz (ev # evs) v v''"

lemma run_events_ok:
  "run_events evs s = Some s' \<Longrightarrow> store_ok s \<Longrightarrow> store_ok s' \<and> same_pool s s' \<and>
     spec_run (bp_buffer_size (st_pool s)) evs (st_value s) (st_value s')"
proof (induction evs arbitrary: s)
  case Nil
  then show ?case by (simp add: same_pool_def run_nil)
next
  case (Cons ev evs)
  then have en: "enabled ev s" "run_events evs (exec ev s) = Some s'" by (simp_all split: if_splits)
  note E = exec_ok [OF Cons.prems(2) en(1)]
  show ?case using E Cons.IH [OF en(2)] run_cons by (auto simp: same_pool_def)
qed

lemma store_new_ok: "config_ok cfg \<Longrightarrow> store_ok (store_new (bp_with_config n cfg))"
  using bp_with_config_ok [of cfg n] by (simp add: store_ok_def cells_ok_def store_new_def pooled_cells_def)

lemma store_new_init:
  "st_value (store_new p) = Map.empty" "st_pool (store_new p) = p"
  "bp_buffer_size (bp_with_config n cfg) = n" "bp_config (bp_with_config n cfg) = cfg"
  by (simp_all add: st_value_def store_new_def bp_with_config_def fun_eq_iff)

lemma unique_iff:
  assumes "store_ok s" "h \<in> dom (st_handles s)"
  shows "bf_is_unique h s \<longleftrightarrow> (\<forall>h'. h' \<noteq> h \<longrightarrow> \<not> bf_ptr_eq h h' s)"
proof -
  have ok: "cells_ok s" using assms(1) by (simp add: store_ok_def)
  obtain c inner where c: "st_handles s h = Some c" "st_cells s c = Some (inner, card (holders s c))"
    "h \<in> holders s c" by (rule handle_cell [OF ok assms(2)])
  have "card (holders s c) = 1 \<longleftrightarrow> holders s c = {h}" using c(3) by (auto simp: card_1_singleton_iff)
  moreover have "bf_is_unique h s \<longleftrightarrow> card (holders s c) = 1" by (simp add: bf_is_unique_def c(1,2))
  moreover have "bf_ptr_eq h h' s \<longleftrightarrow> h' \<in> holders s c" for h' using c(1) by (auto simp: bf_ptr_eq_def holders_def)
  ultimately show ?thesis using c(3) by auto
qed

text \<open>
  C13. Copy-on-write is invisible: in any program over buffers (allocations, pool gets, clones,
  drops, writes, the pool cleared or dropped while buffers are out), every handle behaves as a
  variable of its own that holds bytes; a write changes the value of its handle and of no
  other, whether it copies or not. \<^verbatim>\<open>is_unique\<close> says exactly that no other handle shares the
  storage, and every live buffer starts at an aligned address.
\<close>

theorem buffers_are_values:
  assumes "run_events evs (store_new (bp_with_config n cfg)) = Some s" "config_ok cfg"
  shows "spec_run n evs Map.empty (st_value s) \<and>
    (\<forall>h \<in> dom (st_handles s). (bf_is_unique h s \<longleftrightarrow> (\<forall>h'. h' \<noteq> h \<longrightarrow> \<not> bf_ptr_eq h h' s)) \<and>
       (\<exists>c inner k. st_handles s h = Some c \<and> st_cells s c = Some (inner, k) \<and> ab_is_aligned (bi_data inner) \<and>
          st_value s h = Some (ab_as_slice (bi_data inner))))"
proof -
  note R = run_events_ok [OF assms(1) store_new_ok [OF assms(2)], unfolded same_pool_def store_new_init]
  have ok: "store_ok s" "cells_ok s" using R by (simp_all add: store_ok_def)
  have "\<exists>c inner k. st_handles s h = Some c \<and> st_cells s c = Some (inner, k) \<and> ab_is_aligned (bi_data inner) \<and>
      st_value s h = Some (ab_as_slice (bi_data inner))" if "h \<in> dom (st_handles s)" for h
    by (rule handle_cell [OF ok(2) that]) (auto simp: st_value_def inner_ok_def ab_ok_def)
  then show ?thesis using R unique_iff [OF ok(1)] by blast
qed

theorem buffers_are_values_witness:
  "\<exists>s. run_events [Get 5 0 0, Clone 0 1, Write (map (\<lambda>b. 7)) 130 1 1, Drop 0] (store_new (bp_new 2)) = Some s \<and>
     spec_run 2 [Get 5 0 0, Clone 0 1, Write (map (\<lambda>b. 7)) 130 1 1, Drop 0] Map.empty (st_value s)"
proof -
  let ?evs = "[Get 5 0 0, Clone 0 1, Write (map (\<lambda>b. 7)) 130 1 1, Drop 0]"
  have "\<exists>s. run_events ?evs (store_new (bp_new 2)) = Some s"
    by (simp add: store_new_def bp_new_def bp_with_config_def default_pool_config_def bp_get_def acquire_def
        Let_def checked_u_def fits_u_def ALIGN_def bf_from_inner_def bf_clone_def bf_make_mut_def inner_clone_def
        ab_new_def raw_len_def ab_from_raw_def)
  then obtain s where s: "run_events ?evs (store_new (bp_new 2)) = Some s" by blast
  have "config_ok default_pool_config" by (simp add: config_ok_def default_pool_config_def)
  then show ?thesis using buffers_are_values [OF s [unfolded bp_new_def]] s by blast
qed

text \<open>
  C24. The pool is bounded: in any such program, as long as the pool lives, the buffers it is
  responsible for are exactly those in use and those retained, their number and bytes stay
  within the configured caps, at most the configured number is retained, and every retained
  buffer is an aligned buffer of the pool's size class. A \<^verbatim>\<open>get\<close> is refused exactly when
  nothing is retained and one more buffer would pass a cap.
\<close>

theorem pool_within_caps:
  assumes "run_events evs (store_new (bp_with_config n cfg)) = Some s" "config_ok cfg" "st_alive s"
  shows "let st = bp_state (st_pool s) in
    ps_live_buffers st = card (pooled_cells s) + length (ps_free st) \<and>
    ps_live_bytes st = ps_live_buffers st * (n + 63) \<and>
    ps_live_buffers st \<le> max_live_buffers cfg \<and> ps_live_bytes st \<le> max_live_bytes cfg \<and>
    length (ps_free st) \<le> max_retained_buffers cfg \<and>
    (\<forall>buf \<in> set (ps_free st). ab_is_aligned buf \<and> length (ab_as_slice buf) = n) \<and>
    (fst (bp_get addr c h s) = Inr () \<longleftrightarrow> ps_free st \<noteq> [] \<or>
       ps_live_buffers st < max_live_buffers cfg \<and> ps_live_bytes st + (n + 63) \<le> max_live_bytes cfg)"
proof -
  let ?p = "st_pool s"
  note R = run_events_ok [OF assms(1) store_new_ok [OF assms(2)], unfolded same_pool_def store_new_init]
  have p: "pool_ok ?p (card (pooled_cells s))" "bp_buffer_size ?p = n" "bp_config ?p = cfg"
    using R assms(3) by (simp_all add: store_ok_def)
  have a: "ALIGN - 1 = 63" by (simp add: ALIGN_def)
  note P = p(1) [unfolded pool_ok_def Let_def p(2,3) a]
  have bufs: "\<forall>buf \<in> set (ps_free (bp_state ?p)). ab_is_aligned buf \<and> length (ab_as_slice buf) = n"
    using p(1,2) length_ab_as_slice by (auto simp: pool_ok_def Let_def list_all_iff ab_ok_def)
  have cap: "max_live_bytes cfg < 2 ^ 64" using assms(2) by (simp add: config_ok_def)
  have "fst (bp_get addr c h s) = Inr () \<longleftrightarrow> (\<exists>data q. acquire addr n ?p = (Some data, q))"
    using p(2) by (simp add: bp_get_def split: prod.split option.split)
  also have "\<dots> \<longleftrightarrow> ps_free (bp_state ?p) \<noteq> [] \<or> ps_live_buffers (bp_state ?p) < max_live_buffers cfg \<and>
      ps_live_bytes (bp_state ?p) + (n + 63) \<le> max_live_bytes cfg"
    using cap p(2,3) by (auto simp: acquire_def Let_def ALIGN_def checked_u_def fits_u_def)
  finally show ?thesis unfolding Let_def using P bufs by blast
qed

theorem pool_within_caps_witness:
  "\<exists>s. run_events [Get 5 0 0, Get 6 1 1] (store_new (bp_with_config 2 \<lparr>max_live_bytes = 130,
       max_live_buffers = 9, max_retained_buffers = 1\<rparr>)) = Some s \<and> ps_live_bytes (bp_state (st_pool s)) \<le> 130"
proof -
  let ?cfg = "\<lparr>max_live_bytes = 130, max_live_buffers = 9, max_retained_buffers = 1\<rparr>"
  have "\<exists>s. run_events [Get 5 0 0, Get 6 1 1] (store_new (bp_with_config 2 ?cfg)) = Some s \<and> st_alive s"
    by (simp add: store_new_def bp_with_config_def bp_get_def acquire_def
        Let_def checked_u_def fits_u_def ALIGN_def bf_from_inner_def sat_u_def)
  then obtain s where s: "run_events [Get 5 0 0, Get 6 1 1] (store_new (bp_with_config 2 ?cfg)) = Some s" "st_alive s"
    by blast
  have "config_ok ?cfg" by (simp add: config_ok_def)
  note W = pool_within_caps [OF s(1) this s(2), unfolded Let_def]
  have "ps_live_bytes (bp_state (st_pool s)) \<le> max_live_bytes ?cfg" using W by blast
  then show ?thesis using s(1) by (intro exI [of _ s]) (simp only: pool_config.simps simp_thms)
qed

end
