(* ===== verification/Model_Packet.thy ===== *)
theory Model_Packet
  imports Model_Pool Core_Time
begin

text \<open>
  Buffer construction against a budget (\<^verbatim>\<open>crates/model/vaco-pool/src/buffer.rs\<close>) and
  compressed packets (\<^verbatim>\<open>crates/model/vaco-packet/src\<close>: \<^verbatim>\<open>lib.rs\<close>,
  \<^verbatim>\<open>sidedata.rs\<close>).

  A buffer is the list of its bytes here: \<open>Model_Pool\<close> shows that sharing and copy-on-write
  do not make a difference. \<open>grow\<close> is the allocator, \<open>addr\<close> the address it returns.
\<close>

section \<open>Buffers against a budget\<close>

type_synonym buffer = "u8 list"
type_synonym 'a checked = "(codec_error + 'a) \<times> budget"

definition buf_alloc :: "(nat \<Rightarrow> nat option) \<Rightarrow> nat \<Rightarrow> nat \<Rightarrow> budget \<Rightarrow> buffer checked" where
  "buf_alloc grow addr len b =
     (case ab_alloc grow addr len b of
        (Inl e, b') \<Rightarrow> (Inl e, b')
      | (Inr ab, b') \<Rightarrow> (Inr (ab_as_slice ab), b'))"

definition buf_from_slice :: "(nat \<Rightarrow> nat option) \<Rightarrow> nat \<Rightarrow> u8 list \<Rightarrow> budget \<Rightarrow> buffer checked" where
  "buf_from_slice grow addr src b =
     (case buf_alloc grow addr (length src) b of
        (Inl e, b') \<Rightarrow> (Inl e, b')
      | (Inr _, b') \<Rightarrow> (Inr src, b'))"

definition buf_alloc_padded :: "(nat \<Rightarrow> nat option) \<Rightarrow> nat \<Rightarrow> nat \<Rightarrow> budget \<Rightarrow> buffer checked" where
  "buf_alloc_padded grow addr logical_len b =
     (case checked_u 64 (logical_len + BITSTREAM_PADDING) of
        None \<Rightarrow> (Inl (Over_limit (LimitExceeded ''buffer_len'' logical_len (USIZE_MAX - BITSTREAM_PADDING))), b)
      | Some whole \<Rightarrow> buf_alloc grow addr whole b)"

definition buf_from_slice_padded :: "(nat \<Rightarrow> nat option) \<Rightarrow> nat \<Rightarrow> u8 list \<Rightarrow> budget \<Rightarrow> buffer checked" where
  "buf_from_slice_padded grow addr src b =
     (case buf_alloc_padded grow addr (length src) b of
        (Inl e, b') \<Rightarrow> (Inl e, b')
      | (Inr bytes, b') \<Rightarrow>
          (Inr (case slice_range bytes 0 (length src) of
                  None \<Rightarrow> bytes | Some _ \<Rightarrow> src @ drop (length src) bytes), b'))"

text \<open>\<^verbatim>\<open>Buffer::padded\<close>.\<close>

definition buf_padded :: "buffer \<Rightarrow> nat \<Rightarrow> padded option" where
  "buf_padded buf logical_len = padded_new buf logical_len"

lemma buf_alloc_zero:
  assumes "buf_alloc grow addr len b = (Inr buf, b')"
  shows "buf = replicate len 0"
proof -
  obtain ab where ab: "ab_alloc grow addr len b = (Inr ab, b')" "buf = ab_as_slice ab"
    using assms by (auto simp: buf_alloc_def split: prod.splits sum.splits)
  then obtain raw where r: "len + (ALIGN - 1) < 2 ^ 64" "ab = ab_from_raw addr raw len"
    "bd_alloc grow 1 0 (len + (ALIGN - 1)) b = (Inr raw, b')"
    by (auto simp: ab_alloc_def raw_len_def checked_u_def fits_u_def split: prod.splits sum.splits option.splits if_splits)
  have "ab = ab_new addr len"
    using r(1,2) bd_alloc_replicate [OF r(3)] by (simp add: ab_new_def raw_len_def checked_u_def fits_u_def)
  then show ?thesis using ab(2) ab_new_ok(2) [OF r(1)] by simp
qed

section \<open>Packets\<close>

datatype packet_side_data =
    Palette buffer
  | NewExtradata buffer
  | DisplayMatrix "i32 list"
  | SkipSamples u32 u32 u8 u8
  | MpegtsStreamId u8
  | DurationTicks int

datatype packet_side_data_kind =
    K_Palette | K_NewExtradata | K_DisplayMatrix | K_SkipSamples | K_MpegtsStreamId | K_DurationTicks

primrec sd_kind :: "packet_side_data \<Rightarrow> packet_side_data_kind" where
  "sd_kind (Palette b) = K_Palette"
| "sd_kind (NewExtradata b) = K_NewExtradata"
| "sd_kind (DisplayMatrix m) = K_DisplayMatrix"
| "sd_kind (SkipSamples a z r d) = K_SkipSamples"
| "sd_kind (MpegtsStreamId i) = K_MpegtsStreamId"
| "sd_kind (DurationTicks t) = K_DurationTicks"

record packet =
  pk_data :: buffer
  pk_len :: nat
  pk_stream_index :: nat
  pk_pts :: timestamp
  pk_dts :: timestamp
  pk_duration :: duration
  pk_pos :: "nat option"
  pk_flags :: u8
  pk_side_data :: "packet_side_data list"

definition PK_KEY :: u8 where "PK_KEY = push_bit 0 1"
definition PK_CORRUPT :: u8 where "PK_CORRUPT = push_bit 1 1"
definition PK_DISCARD :: u8 where "PK_DISCARD = push_bit 2 1"

definition pk_new :: "buffer \<Rightarrow> nat \<Rightarrow> packet" where
  "pk_new data len =
     \<lparr>pk_data = data, pk_len = min len (length data), pk_stream_index = 0, pk_pts = TS_NONE, pk_dts = TS_NONE,
      pk_duration = DURATION_ZERO, pk_pos = None, pk_flags = 0, pk_side_data = []\<rparr>"

definition pk_empty :: packet where
  "pk_empty = pk_new [] 0"

definition pk_alloc :: "(nat \<Rightarrow> nat option) \<Rightarrow> nat \<Rightarrow> nat \<Rightarrow> budget \<Rightarrow> packet checked" where
  "pk_alloc grow addr len b =
     (case buf_alloc_padded grow addr len b of
        (Inl e, b') \<Rightarrow> (Inl e, b') | (Inr buf, b') \<Rightarrow> (Inr (pk_new buf len), b'))"

definition pk_from_slice :: "(nat \<Rightarrow> nat option) \<Rightarrow> nat \<Rightarrow> u8 list \<Rightarrow> budget \<Rightarrow> packet checked" where
  "pk_from_slice grow addr data b =
     (case buf_from_slice_padded grow addr data b of
        (Inl e, b') \<Rightarrow> (Inl e, b') | (Inr buf, b') \<Rightarrow> (Inr (pk_new buf (length data)), b'))"

text \<open>\<open>got\<close> is what \<^verbatim>\<open>BufferPool::get\<close> returns, \<open>buffer_size\<close> the pool's size class.\<close>

definition pk_alloc_pooled :: "nat \<Rightarrow> codec_error + buffer \<Rightarrow> nat \<Rightarrow> codec_error + packet" where
  "pk_alloc_pooled buffer_size got len =
     (case checked_u 64 (len + BITSTREAM_PADDING) of
        None \<Rightarrow> Inl (InvalidData ''packet length overflows'')
      | Some need \<Rightarrow>
          if buffer_size < need then Inl (InvalidData ''pool size class is too small for this packet'')
          else (case got of Inl e \<Rightarrow> Inl e
            | Inr data \<Rightarrow>
                Inr (pk_new (case slice_range data len need of None \<Rightarrow> data
                       | Some _ \<Rightarrow> take len data @ replicate (need - len) 0 @ drop need data) len)))"

definition payload :: "packet \<Rightarrow> u8 list" where
  "payload p = (case slice_range (pk_data p) 0 (pk_len p) of Some xs \<Rightarrow> xs | None \<Rightarrow> [])"

text \<open>A write through \<^verbatim>\<open>payload_mut\<close>: \<open>f\<close> keeps the length.\<close>

definition payload_write :: "(u8 list \<Rightarrow> u8 list) \<Rightarrow> packet \<Rightarrow> packet" where
  "payload_write f p =
     (case slice_range (pk_data p) 0 (pk_len p) of None \<Rightarrow> p
      | Some xs \<Rightarrow> p\<lparr>pk_data := f xs @ drop (pk_len p) (pk_data p)\<rparr>)"

definition payload_padded :: "packet \<Rightarrow> padded option" where
  "payload_padded p = buf_padded (pk_data p) (pk_len p)"

definition pk_truncate :: "nat \<Rightarrow> packet \<Rightarrow> packet" where
  "pk_truncate len p =
     (if len \<ge> pk_len p then p
      else let data = pk_data p; stop = min (sat_u 64 (pk_len p + BITSTREAM_PADDING)) (length data)
           in p\<lparr>pk_data := (case slice_range data len stop of None \<Rightarrow> data
                  | Some gap \<Rightarrow> take len data @ map (\<lambda>_. 0) gap @ drop stop data),
                pk_len := len\<rparr>)"

definition sub_packet ::
  "(nat \<Rightarrow> nat option) \<Rightarrow> nat \<Rightarrow> nat \<Rightarrow> nat \<Rightarrow> packet \<Rightarrow> budget \<Rightarrow> packet checked" where
  "sub_packet grow addr i j p b =
     (case slice_range (payload p) i j of
        None \<Rightarrow> (Inl (InvalidData ''sub-packet range outside the payload''), b)
      | Some src \<Rightarrow>
          (case pk_from_slice grow addr src b of
             (Inl e, b') \<Rightarrow> (Inl e, b')
           | (Inr out, b') \<Rightarrow>
               (Inr (out\<lparr>pk_stream_index := pk_stream_index p, pk_pts := pk_pts p, pk_dts := pk_dts p,
                  pk_duration := pk_duration p, pk_pos := pk_pos p, pk_flags := pk_flags p,
                  pk_side_data := pk_side_data p\<rparr>), b')))"

definition is_key :: "packet \<Rightarrow> bool" where
  "is_key p \<longleftrightarrow> pk_flags p AND PK_KEY = PK_KEY"

definition pk_is_empty :: "packet \<Rightarrow> bool" where
  "pk_is_empty p \<longleftrightarrow> pk_len p = 0"

subsection \<open>Side data\<close>

definition side_data :: "packet_side_data_kind \<Rightarrow> packet \<Rightarrow> packet_side_data option" where
  "side_data k p = find (\<lambda>d. sd_kind d = k) (pk_side_data p)"

fun replace_first :: "packet_side_data \<Rightarrow> packet_side_data list \<Rightarrow> packet_side_data list" where
  "replace_first d [] = [d]"
| "replace_first d (x # xs) = (if sd_kind x = sd_kind d then d # xs else x # replace_first d xs)"

definition set_side_data :: "packet_side_data \<Rightarrow> packet \<Rightarrow> packet" where
  "set_side_data d p = p\<lparr>pk_side_data := replace_first d (pk_side_data p)\<rparr>"

fun remove_first ::
  "packet_side_data_kind \<Rightarrow> packet_side_data list \<Rightarrow> (packet_side_data \<times> packet_side_data list) option" where
  "remove_first k [] = None"
| "remove_first k (x # xs) =
     (if sd_kind x = k then Some (x, xs)
      else map_option (\<lambda>(y, ys). (y, x # ys)) (remove_first k xs))"

definition remove_side_data :: "packet_side_data_kind \<Rightarrow> packet \<Rightarrow> packet_side_data option \<times> packet" where
  "remove_side_data k p =
     (case remove_first k (pk_side_data p) of
        None \<Rightarrow> (None, p) | Some (d, rest) \<Rightarrow> (Some d, p\<lparr>pk_side_data := rest\<rparr>))"

definition duration_ts :: "packet \<Rightarrow> int option" where
  "duration_ts p = (case side_data K_DurationTicks p of Some (DurationTicks t) \<Rightarrow> Some t | _ \<Rightarrow> None)"

definition set_duration_ts :: "int \<Rightarrow> packet \<Rightarrow> packet" where
  "set_duration_ts t p =
     (if t \<ge> 0 then set_side_data (DurationTicks t) p else snd (remove_side_data K_DurationTicks p))"

definition rescale_ts :: "rational \<Rightarrow> rational \<Rightarrow> rounding \<Rightarrow> packet \<Rightarrow> packet" where
  "rescale_ts from to rnd p =
     (let p1 = p\<lparr>pk_pts := rescale (pk_pts p) from to rnd, pk_dts := rescale (pk_dts p) from to rnd\<rparr>
      in case duration_ts p1 of None \<Rightarrow> p1
         | Some t \<Rightarrow> (case ticks (rescale (timestamp_new t) from to rnd) of
             Some scaled \<Rightarrow> set_duration_ts scaled p1 | None \<Rightarrow> p1))"

section \<open>The padding is never lost\<close>

definition padded_ok :: "packet \<Rightarrow> bool" where
  "padded_ok p \<longleftrightarrow> pk_len p + BITSTREAM_PADDING \<le> length (pk_data p) \<and>
     (\<forall>i < BITSTREAM_PADDING. pk_data p ! (pk_len p + i) = 0) \<and> pk_len p + BITSTREAM_PADDING < 2 ^ 64"

lemma payload_take: "padded_ok p \<Longrightarrow> payload p = take (pk_len p) (pk_data p)"
  by (simp add: payload_def padded_ok_def slice_range_def)

lemma padded_ok_padded:
  assumes "padded_ok p"
  shows "payload_padded p = Some \<lparr>pd_bytes = pk_data p, pd_logical_len = pk_len p\<rparr>"
    "logical_bytes \<lparr>pd_bytes = pk_data p, pd_logical_len = pk_len p\<rparr> = payload p"
proof -
  have len: "pk_len p + 64 \<le> length (pk_data p)" and z: "\<And>i. i < 64 \<Longrightarrow> pk_data p ! (pk_len p + i) = 0"
    using assms by (simp_all add: padded_ok_def BITSTREAM_PADDING_def)
  have "\<not> list_ex (\<lambda>b. b \<noteq> 0) (take 64 (drop (pk_len p) (pk_data p)))"
    using len z by (auto simp: list_ex_iff in_set_conv_nth)
  then show "payload_padded p = Some \<lparr>pd_bytes = pk_data p, pd_logical_len = pk_len p\<rparr>"
    using len by (simp add: payload_padded_def buf_padded_def padded_new_def slice_from_def slice_range_def PAD_def)
  show "logical_bytes \<lparr>pd_bytes = pk_data p, pd_logical_len = pk_len p\<rparr> = payload p"
    using len by (simp add: logical_bytes_def payload_def slice_range_def)
qed

lemma buf_alloc_padded_zero:
  assumes "buf_alloc_padded grow addr len b = (Inr buf, b')"
  shows "buf = replicate (len + 64) 0" "len + 64 < 2 ^ 64"
  using assms buf_alloc_zero
  by (fastforce simp: buf_alloc_padded_def checked_u_def fits_u_def BITSTREAM_PADDING_def split: option.splits if_splits)+

lemma pk_from_slice_ok:
  assumes "pk_from_slice grow addr src b = (Inr p, b')"
  shows "padded_ok p" "payload p = src" "p = pk_new (src @ replicate 64 0) (length src)"
proof -
  obtain buf where b: "buf_from_slice_padded grow addr src b = (Inr buf, b')" "p = pk_new buf (length src)"
    using assms by (auto simp: pk_from_slice_def split: prod.splits sum.splits)
  then obtain z where z: "buf_alloc_padded grow addr (length src) b = (Inr z, b')"
    by (auto simp: buf_from_slice_padded_def split: prod.splits sum.splits)
  note Z = buf_alloc_padded_zero [OF z]
  have "buf = src @ replicate 64 0"
    using b(1) z Z(1) by (simp add: buf_from_slice_padded_def slice_range_def)
  then show e: "p = pk_new (src @ replicate 64 0) (length src)" using b(2) by simp
  then show ok: "padded_ok p" using Z(2) by (simp add: padded_ok_def pk_new_def BITSTREAM_PADDING_def nth_append)
  show "payload p = src" using payload_take [OF ok] by (simp add: e pk_new_def)
qed

lemma pk_alloc_ok:
  assumes "pk_alloc grow addr len b = (Inr p, b')"
  shows "padded_ok p" "payload p = replicate len 0"
proof -
  obtain buf where b: "buf_alloc_padded grow addr len b = (Inr buf, b')" "p = pk_new buf len"
    using assms by (auto simp: pk_alloc_def split: prod.splits sum.splits)
  note Z = buf_alloc_padded_zero [OF b(1)]
  show ok: "padded_ok p" using b(2) Z by (simp add: padded_ok_def pk_new_def BITSTREAM_PADDING_def)
  show "payload p = replicate len 0" using payload_take [OF ok] b(2) Z by (simp add: pk_new_def)
qed

lemma pk_alloc_pooled_ok:
  assumes "pk_alloc_pooled n (Inr data) len = Inr p" "length data = n"
  shows "padded_ok p" "payload p = take len data"
proof -
  have l: "len + 64 < 2 ^ 64" "len + 64 \<le> length data"
    "p = pk_new (take len data @ replicate 64 0 @ drop (len + 64) data) len"
    using assms by (auto simp: pk_alloc_pooled_def checked_u_def fits_u_def BITSTREAM_PADDING_def slice_range_def
        split: option.splits if_splits)
  then show ok: "padded_ok p" by (simp add: padded_ok_def pk_new_def BITSTREAM_PADDING_def nth_append)
  show "payload p = take len data" using payload_take [OF ok] l by (simp add: pk_new_def)
qed

lemma payload_write_ok:
  assumes "padded_ok p" "\<And>xs. length (f xs) = length xs"
  shows "padded_ok (payload_write f p)" "payload (payload_write f p) = f (payload p)"
    "pk_len (payload_write f p) = pk_len p"
proof -
  have len: "pk_len p + 64 \<le> length (pk_data p)" using assms(1) by (simp add: padded_ok_def BITSTREAM_PADDING_def)
  then have w: "payload_write f p = p\<lparr>pk_data := f (payload p) @ drop (pk_len p) (pk_data p)\<rparr>"
    using payload_take [OF assms(1)] by (simp add: payload_write_def slice_range_def)
  have l: "length (f (payload p)) = pk_len p" using assms payload_take [OF assms(1)] len by simp
  then show ok: "padded_ok (payload_write f p)"
    using assms(1) len unfolding w by (simp add: padded_ok_def BITSTREAM_PADDING_def nth_append)
  show "pk_len (payload_write f p) = pk_len p" by (simp add: w)
  show "payload (payload_write f p) = f (payload p)" using payload_take [OF ok] l by (simp add: w)
qed

lemma pk_truncate_ok:
  assumes "padded_ok p"
  shows "padded_ok (pk_truncate len p)" "payload (pk_truncate len p) = take len (payload p)"
proof -
  have l: "pk_len p + 64 \<le> length (pk_data p)" "pk_len p + 64 < 2 ^ 64"
    "\<And>i. i < 64 \<Longrightarrow> pk_data p ! (pk_len p + i) = 0"
    using assms by (simp_all add: padded_ok_def BITSTREAM_PADDING_def)
  have "padded_ok (pk_truncate len p) \<and> payload (pk_truncate len p) = take len (payload p)"
  proof (cases "pk_len p \<le> len")
    case True
    then show ?thesis using assms payload_take [OF assms] by (simp add: pk_truncate_def)
  next
    case False
    let ?d = "take len (pk_data p) @ replicate (pk_len p + 64 - len) 0 @ drop (pk_len p + 64) (pk_data p)"
    have stop: "min (sat_u 64 (pk_len p + 64)) (length (pk_data p)) = pk_len p + 64"
      using l(1,2) by (simp add: sat_u_id fits_u_def)
    have t: "pk_truncate len p = p\<lparr>pk_data := ?d, pk_len := len\<rparr>"
      using False l(1) stop
      by (simp add: pk_truncate_def BITSTREAM_PADDING_def Let_def slice_range_def map_replicate_const)
    have ok: "padded_ok (pk_truncate len p)"
      using False l(1,2) unfolding t by (auto simp: padded_ok_def BITSTREAM_PADDING_def nth_append)
    then show ?thesis using payload_take [OF ok] payload_take [OF assms] False l(1) by (simp add: t)
  qed
  then show "padded_ok (pk_truncate len p)" "payload (pk_truncate len p) = take len (payload p)" by blast+
qed

lemma sub_packet_ok:
  assumes "sub_packet grow addr i j p b = (Inr q, b')"
  shows "padded_ok q" "slice_range (payload p) i j = Some (payload q)"
    "pk_pts q = pk_pts p \<and> pk_dts q = pk_dts p \<and> pk_duration q = pk_duration p \<and>
      pk_stream_index q = pk_stream_index p \<and> pk_flags q = pk_flags p \<and> pk_side_data q = pk_side_data p"
proof -
  obtain src out where s: "slice_range (payload p) i j = Some src" "pk_from_slice grow addr src b = (Inr out, b')"
    "q = out\<lparr>pk_stream_index := pk_stream_index p, pk_pts := pk_pts p, pk_dts := pk_dts p,
       pk_duration := pk_duration p, pk_pos := pk_pos p, pk_flags := pk_flags p, pk_side_data := pk_side_data p\<rparr>"
    using assms by (auto simp: sub_packet_def split: option.splits prod.splits sum.splits)
  note F = pk_from_slice_ok [OF s(2)]
  show "padded_ok q" using F(1) s(3) by (simp add: padded_ok_def)
  show "slice_range (payload p) i j = Some (payload q)" using F(2) s(1,3) by (simp add: payload_def)
  show "pk_pts q = pk_pts p \<and> pk_dts q = pk_dts p \<and> pk_duration q = pk_duration p \<and>
      pk_stream_index q = pk_stream_index p \<and> pk_flags q = pk_flags p \<and> pk_side_data q = pk_side_data p"
    by (simp add: s(3))
qed

text \<open>
  The packets a program can build with the constructors and methods of the crate, over any
  buffers (the fields are public: a packet whose \<^verbatim>\<open>data\<close> or \<^verbatim>\<open>len\<close> was replaced by hand is
  not one of them). The flag says whether padding was provided: always by \<^verbatim>\<open>alloc\<close>,
  \<^verbatim>\<open>from_slice\<close>, \<^verbatim>\<open>alloc_pooled\<close> and \<^verbatim>\<open>sub_packet\<close>, by \<^verbatim>\<open>new\<close> only when the caller's
  buffer has it, never by \<^verbatim>\<open>empty\<close>.
\<close>

inductive made :: "bool \<Rightarrow> packet \<Rightarrow> bool" where
  made_new: "length data < 2 ^ 64 \<Longrightarrow>
    made (padded_new data (min len (length data)) \<noteq> None) (pk_new data len)"
| made_empty: "made False pk_empty"
| made_alloc: "pk_alloc grow addr len b = (Inr p, b') \<Longrightarrow> made True p"
| made_slice: "pk_from_slice grow addr src b = (Inr p, b') \<Longrightarrow> made True p"
| made_pooled: "length data = n \<Longrightarrow> pk_alloc_pooled n (Inr data) len = Inr p \<Longrightarrow> made True p"
| made_write: "made pad p \<Longrightarrow> (\<And>xs. length (f xs) = length xs) \<Longrightarrow> made pad (payload_write f p)"
| made_truncate: "made pad p \<Longrightarrow> made pad (pk_truncate len p)"
| made_sub: "made pad p \<Longrightarrow> sub_packet grow addr i j p b = (Inr q, b') \<Longrightarrow> made True q"
| made_side: "made pad p \<Longrightarrow> made pad (set_side_data d p)"
| made_remove: "made pad p \<Longrightarrow> made pad (snd (remove_side_data k p))"
| made_rescale: "made pad p \<Longrightarrow> made pad (rescale_ts from to rnd p)"

lemma side_data_frame:
  "pk_data (set_side_data d p) = pk_data p" "pk_len (set_side_data d p) = pk_len p"
  "pk_data (snd (remove_side_data k p)) = pk_data p" "pk_len (snd (remove_side_data k p)) = pk_len p"
  by (simp_all add: set_side_data_def remove_side_data_def split: option.split)

lemma rescale_frame: "pk_data (rescale_ts from to rnd p) = pk_data p" "pk_len (rescale_ts from to rnd p) = pk_len p"
  by (simp_all add: rescale_ts_def Let_def set_duration_ts_def side_data_frame split: option.split)

lemma padded_ok_len: "padded_ok p \<Longrightarrow> pk_len p \<le> length (pk_data p)"
  by (simp add: padded_ok_def)

lemma payload_write_len:
  assumes "pk_len p \<le> length (pk_data p)" "\<And>xs. length (f xs) = length xs"
  shows "pk_len (payload_write f p) \<le> length (pk_data (payload_write f p))"
  using assms by (simp add: payload_write_def slice_range_def)

lemma pk_truncate_len:
  "pk_len p \<le> length (pk_data p) \<Longrightarrow> pk_len (pk_truncate len p) \<le> length (pk_data (pk_truncate len p))"
  by (auto simp: pk_truncate_def Let_def slice_range_def)

lemma pk_new_padded_ok:
  assumes "length data < 2 ^ 64" "padded_new data (min len (length data)) = Some pd"
  shows "padded_ok (pk_new data len)"
  using assms(1) assms(2) [unfolded padded_new_Some]
  by (auto simp: padded_ok_def pk_new_def BITSTREAM_PADDING_def PAD_def)

lemma made_len: "made pad p \<Longrightarrow> pk_len p \<le> length (pk_data p)"
proof (induction rule: made.induct)
  case (made_new data len)
  then show ?case by (simp add: pk_new_def)
qed (simp_all add: pk_empty_def pk_new_def padded_ok_len pk_alloc_ok pk_from_slice_ok pk_alloc_pooled_ok
    payload_write_len pk_truncate_len sub_packet_ok side_data_frame rescale_frame)

lemma made_padded: "made pad p \<Longrightarrow> pad \<Longrightarrow> padded_ok p"
proof (induction rule: made.induct)
  case (made_new data len)
  then show ?case using pk_new_padded_ok by blast
next
  case (made_side pad p d)
  then show ?case by (simp add: padded_ok_def side_data_frame)
next
  case (made_remove pad p k)
  then show ?case by (simp add: padded_ok_def side_data_frame)
next
  case (made_rescale pad p tb tb' rnd)
  then show ?case by (simp add: padded_ok_def rescale_frame)
qed (simp_all add: pk_alloc_ok pk_from_slice_ok pk_alloc_pooled_ok payload_write_ok pk_truncate_ok sub_packet_ok)

lemma padded_view_ok:
  assumes "payload_padded p = Some pd"
  shows "logical_bytes pd = payload p"
    "i < 8 * (pk_len p + PAD) \<Longrightarrow> stream (br_new_padded pd) i = stream (br_new (payload p)) i"
proof -
  have d: "pk_len p + PAD \<le> length (pk_data p)" "\<forall>i < PAD. pk_data p ! (pk_len p + i) = 0"
    "pd = \<lparr>pd_bytes = pk_data p, pd_logical_len = pk_len p\<rparr>"
    using assms unfolding payload_padded_def buf_padded_def padded_new_Some by blast+
  then show "logical_bytes pd = payload p" by (simp add: logical_bytes_def payload_def slice_range_def)
  have "payload p = take (pk_len p) (pk_data p)" using d(1) by (simp add: payload_def slice_range_def)
  then show "i < 8 * (pk_len p + PAD) \<Longrightarrow> stream (br_new_padded pd) i = stream (br_new (payload p)) i"
    using sbit_padding [OF d(1,2)] by (simp add: d(3) br_new_padded_def br_new_def stream_start)
qed

text \<open>
  C14. Padding is never lost: whatever sequence of constructors (\<^verbatim>\<open>new\<close> over any buffer
  and \<^verbatim>\<open>empty\<close> among them), in-place writes, truncations, sub-packets, side-data updates and
  rescalings built a packet, its payload has exactly \<open>len\<close> bytes; if it began with padding
  (\<^verbatim>\<open>alloc\<close>, \<^verbatim>\<open>from_slice\<close>, \<^verbatim>\<open>alloc_pooled\<close>, \<^verbatim>\<open>sub_packet\<close>, or \<^verbatim>\<open>new\<close> over a buffer with 64 zero
  bytes past \<open>len\<close>), \<^verbatim>\<open>payload_padded\<close> succeeds; and whenever it succeeds, its logical
  bytes are the payload and a bit reader over it sees exactly what a reader over the payload
  alone sees through the padding. \<^verbatim>\<open>Packet::empty\<close> and \<^verbatim>\<open>new\<close> over an unpadded buffer promise
  no padding (\<open>empty_not_padded\<close>).
\<close>

theorem packets_stay_padded:
  assumes "made pad p"
  shows "length (payload p) = pk_len p \<and> (pad \<longrightarrow> payload_padded p \<noteq> None) \<and>
    (\<forall>pd. payload_padded p = Some pd \<longrightarrow> logical_bytes pd = payload p \<and>
      (\<forall>i. i < 8 * (pk_len p + PAD) \<longrightarrow> stream (br_new_padded pd) i = stream (br_new (payload p)) i))"
proof -
  have "length (payload p) = pk_len p"
    using made_len [OF assms] by (simp add: payload_def slice_range_def)
  moreover have "payload_padded p \<noteq> None" if pad
    using padded_ok_padded(1) [OF made_padded [OF assms that]] by simp
  ultimately show ?thesis using padded_view_ok by blast
qed

theorem packets_stay_padded_witness:
  "let p = pk_truncate 1 (pk_new ([9, 8, 7] @ replicate 64 0) 3)
   in payload p = [9] \<and> (\<exists>pd. payload_padded p = Some pd \<and> logical_bytes pd = [9])"
proof -
  let ?src = "[9, 8, 7] :: u8 list" and ?b = "bd_new default_limits"
  obtain p b' where p: "pk_from_slice Some 0 ?src ?b = (Inr p, b')"
    by (simp add: pk_from_slice_def buf_from_slice_padded_def buf_alloc_padded_def buf_alloc_def ab_alloc_def
        raw_len_def checked_u_def fits_u_def bd_alloc_def reserve_array_def byte_size_def reserve_def bd_check_def
        bd_new_def default_limits_def strict_def MIB_def res_alloc_def BITSTREAM_PADDING_def ALIGN_def)
  then have "made True p" by (rule made_slice)
  then have m: "made True (pk_truncate 1 p)" by (rule made_truncate)
  have "p = pk_new (?src @ replicate 64 0) 3" using pk_from_slice_ok(3) [OF p] by (simp add: numeral_3_eq_3)
  moreover have "payload (pk_truncate 1 p) = [9]"
    using pk_truncate_ok(2) [OF pk_from_slice_ok(1) [OF p], of 1] pk_from_slice_ok(2) [OF p] by simp
  ultimately show ?thesis using packets_stay_padded [OF m] by (auto simp: Let_def)
qed

text \<open>
  The documentation of \<^verbatim>\<open>payload_padded\<close> promises a view for every packet built by a
  constructor of the crate; \<^verbatim>\<open>empty\<close>, and \<^verbatim>\<open>new\<close> over a buffer without padding, give none.
\<close>

lemma empty_not_padded:
  "made False pk_empty \<and> payload_padded pk_empty = None \<and> payload_padded (pk_new [1, 2] 2) = None"
  by (simp add: made_empty)
    (simp add: pk_empty_def pk_new_def payload_padded_def buf_padded_def padded_new_def slice_from_def
      slice_range_def PAD_def)

subsection \<open>Side data is a map\<close>

lemma find_replace_first:
  "find (\<lambda>x. sd_kind x = k) (replace_first d xs) = (if sd_kind d = k then Some d else find (\<lambda>x. sd_kind x = k) xs)"
  by (induction d xs rule: replace_first.induct) auto

lemma remove_first_spec:
  "distinct (map sd_kind xs) \<Longrightarrow> remove_first k xs =
     map_option (\<lambda>d. (d, filter (\<lambda>x. sd_kind x \<noteq> k) xs)) (find (\<lambda>x. sd_kind x = k) xs)"
proof (induction k xs rule: remove_first.induct)
  case (2 k x xs)
  have "sd_kind x \<notin> sd_kind ` set xs \<Longrightarrow> filter (\<lambda>y. sd_kind y \<noteq> sd_kind x) xs = xs"
    by (simp add: filter_id_conv image_iff) metis
  then show ?case using 2 by (auto simp: option.map_comp comp_def)
qed simp

lemma distinct_replace_first:
  "distinct (map sd_kind xs) \<Longrightarrow> distinct (map sd_kind (replace_first d xs)) \<and>
     sd_kind ` set (replace_first d xs) = insert (sd_kind d) (sd_kind ` set xs)"
  by (induction d xs rule: replace_first.induct) auto

text \<open>
  C39. Side data is a map from kinds to entries: on a packet with at most one entry per kind,
  setting an entry is a map update, removing one returns it and deletes exactly it, and both keep
  the property; the exact duration read back is the one set, and a negative one clears it.
\<close>

theorem side_data_is_map:
  assumes "distinct (map sd_kind (pk_side_data p))"
  shows "(\<lambda>k. side_data k (set_side_data d p)) = (\<lambda>k. side_data k p)(sd_kind d \<mapsto> d) \<and>
    fst (remove_side_data k p) = side_data k p \<and>
    (\<lambda>j. side_data j (snd (remove_side_data k p))) = (\<lambda>j. side_data j p)(k := None) \<and>
    distinct (map sd_kind (pk_side_data (set_side_data d p))) \<and>
    distinct (map sd_kind (pk_side_data (snd (remove_side_data k p)))) \<and>
    duration_ts (set_duration_ts t p) = (if t \<ge> 0 then Some t else None)"
proof -
  have S: "side_data j (set_side_data e p) = (if sd_kind e = j then Some e else side_data j p)" for j e
    by (simp add: side_data_def set_side_data_def find_replace_first)
  have F: "find (\<lambda>x. sd_kind x = j) (filter (\<lambda>x. sd_kind x \<noteq> i) xs) =
      (if j = i then None else find (\<lambda>x. sd_kind x = j) xs)" for i j xs
    by (induction xs) auto
  have none: "find (\<lambda>x. sd_kind x = i) xs = None \<Longrightarrow> filter (\<lambda>x. sd_kind x \<noteq> i) xs = xs" for i xs
    by (auto simp: find_None_iff filter_id_conv)
  have R: "remove_side_data i p = (side_data i p, p\<lparr>pk_side_data := filter (\<lambda>x. sd_kind x \<noteq> i) (pk_side_data p)\<rparr>)" for i
    using none [of i "pk_side_data p"]
    by (simp add: remove_side_data_def remove_first_spec [OF assms] side_data_def split: option.split)
  have RS: "side_data j (snd (remove_side_data i p)) = (if j = i then None else side_data j p)" for i j
    by (simp add: R) (simp add: side_data_def F)
  have "duration_ts (set_duration_ts t p) = (if t \<ge> 0 then Some t else None)"
    by (simp add: duration_ts_def set_duration_ts_def S RS)
  moreover have "distinct (map sd_kind (pk_side_data (set_side_data d p)))"
    using distinct_replace_first [OF assms] by (simp add: set_side_data_def)
  moreover have "distinct (map sd_kind (pk_side_data (snd (remove_side_data k p))))"
    using distinct_map_filter [OF assms] by (simp add: R)
  moreover have "fst (remove_side_data k p) = side_data k p" by (simp add: R)
  ultimately show ?thesis by (simp add: S RS fun_eq_iff)
qed

theorem side_data_is_map_witness:
  "fst (remove_side_data K_DurationTicks (set_duration_ts 5 pk_empty)) = Some (DurationTicks 5)"
  using side_data_is_map [of "set_duration_ts 5 pk_empty" "MpegtsStreamId 0" K_DurationTicks 0]
  by (simp add: pk_empty_def pk_new_def set_duration_ts_def set_side_data_def side_data_def)

end
