(* ===== verification/Model_Frame.thy ===== *)
theory Model_Frame
  imports Model_Packet
begin

text \<open>
  Pixel formats (\<^verbatim>\<open>crates/model/vaco-pixfmt/src/lib.rs\<close>), decoded frames and their planes
  (\<^verbatim>\<open>crates/model/vaco-frame/src\<close>: \<^verbatim>\<open>lib.rs\<close>, \<^verbatim>\<open>alloc.rs\<close>, \<^verbatim>\<open>plane.rs\<close>).

  A \<^verbatim>\<open>PixFmt\<close> is an index into a generated table of 267 descriptors and every query reads
  the descriptor, so a format is represented by its descriptor; the few descriptors that the
  codecs here name are translated from the table. Dimensions are \<^verbatim>\<open>u32\<close>; where the source
  adds to one in \<^verbatim>\<open>u32\<close> the wrap-around of a release build is written out.
\<close>

section \<open>Pixel formats\<close>

record component =
  cp_plane :: nat
  cp_step :: nat
  cp_offset :: nat
  cp_shift :: nat
  cp_depth :: nat

record pix_fmt =
  pf_name :: string
  pf_components :: "component list"
  pf_planes :: nat
  pf_log2_chroma_w :: nat
  pf_log2_chroma_h :: nat
  pf_bits_per_pixel :: nat
  pf_flags :: u16

definition PF_BIG_ENDIAN :: u16 where "PF_BIG_ENDIAN = push_bit 0 1"
definition PF_PALETTE :: u16 where "PF_PALETTE = push_bit 1 1"
definition PF_BITSTREAM :: u16 where "PF_BITSTREAM = push_bit 2 1"
definition PF_HW_ACCEL :: u16 where "PF_HW_ACCEL = push_bit 3 1"
definition PF_PLANAR :: u16 where "PF_PLANAR = push_bit 4 1"
definition PF_RGB :: u16 where "PF_RGB = push_bit 5 1"
definition PF_ALPHA :: u16 where "PF_ALPHA = push_bit 6 1"

lemmas pf_flag_defs = PF_BIG_ENDIAN_def PF_PALETTE_def PF_BITSTREAM_def PF_HW_ACCEL_def PF_PLANAR_def
  PF_RGB_def PF_ALPHA_def

definition cpt :: "nat \<Rightarrow> nat \<Rightarrow> nat \<Rightarrow> nat \<Rightarrow> nat \<Rightarrow> component" where
  "cpt plane step off shift depth =
     \<lparr>cp_plane = plane, cp_step = step, cp_offset = off, cp_shift = shift, cp_depth = depth\<rparr>"

definition RGB24 :: pix_fmt where
  "RGB24 = \<lparr>pf_name = ''rgb24'', pf_components = [cpt 0 3 0 0 8, cpt 0 3 1 0 8, cpt 0 3 2 0 8], pf_planes = 1,
     pf_log2_chroma_w = 0, pf_log2_chroma_h = 0, pf_bits_per_pixel = 24, pf_flags = PF_RGB\<rparr>"

definition RGBA :: pix_fmt where
  "RGBA = \<lparr>pf_name = ''rgba'',
     pf_components = [cpt 0 4 0 0 8, cpt 0 4 1 0 8, cpt 0 4 2 0 8, cpt 0 4 3 0 8], pf_planes = 1,
     pf_log2_chroma_w = 0, pf_log2_chroma_h = 0, pf_bits_per_pixel = 32, pf_flags = PF_RGB OR PF_ALPHA\<rparr>"

definition YUV420P :: pix_fmt where
  "YUV420P = \<lparr>pf_name = ''yuv420p'', pf_components = [cpt 0 1 0 0 8, cpt 1 1 0 0 8, cpt 2 1 0 0 8], pf_planes = 3,
     pf_log2_chroma_w = 1, pf_log2_chroma_h = 1, pf_bits_per_pixel = 12, pf_flags = PF_PLANAR\<rparr>"

definition pf_has :: "pix_fmt \<Rightarrow> u16 \<Rightarrow> bool" where
  "pf_has f flag \<longleftrightarrow> pf_flags f AND flag = flag"

definition is_hw :: "pix_fmt \<Rightarrow> bool" where
  "is_hw f \<longleftrightarrow> pf_has f PF_HW_ACCEL"

fun chroma_scan :: "nat \<Rightarrow> component list \<Rightarrow> nat \<Rightarrow> bool" where
  "chroma_scan i [] plane = False"
| "chroma_scan i (c # cs) plane = (if cp_plane c = plane then i = 1 \<or> i = 2 else chroma_scan (i + 1) cs plane)"

definition chroma_plane :: "pix_fmt \<Rightarrow> nat \<Rightarrow> bool" where
  "chroma_plane f plane = chroma_scan 0 (pf_components f) plane"

text \<open>\<^verbatim>\<open>(x + (1 << s) - 1) >> s\<close> in \<^verbatim>\<open>u32\<close>.\<close>

definition ceil_shift_u32 :: "nat \<Rightarrow> nat \<Rightarrow> nat" where
  "ceil_shift_u32 s x = drop_bit s ((x + 2 ^ s - 1) mod 2 ^ 32)"

definition plane_width :: "pix_fmt \<Rightarrow> nat \<Rightarrow> nat \<Rightarrow> nat" where
  "plane_width f width plane =
     (if chroma_plane f plane then ceil_shift_u32 (pf_log2_chroma_w f) width else width)"

definition plane_height :: "pix_fmt \<Rightarrow> nat \<Rightarrow> nat \<Rightarrow> nat" where
  "plane_height f height plane =
     (if chroma_plane f plane then ceil_shift_u32 (pf_log2_chroma_h f) height else height)"

text \<open>The samples of component \<open>i\<close> in a row, computed in \<^verbatim>\<open>u64\<close>.\<close>

definition row_samples :: "pix_fmt \<Rightarrow> nat \<Rightarrow> nat \<Rightarrow> nat" where
  "row_samples f width i =
     (if i = 1 \<or> i = 2 then drop_bit (pf_log2_chroma_w f) (width + 2 ^ pf_log2_chroma_w f - 1) else width)"

fun span_scan :: "pix_fmt \<Rightarrow> nat \<Rightarrow> nat \<Rightarrow> nat \<Rightarrow> component list \<Rightarrow> nat \<Rightarrow> nat" where
  "span_scan f width plane i [] acc = acc"
| "span_scan f width plane i (c # cs) acc =
     span_scan f width plane (i + 1) cs
       (if cp_plane c = plane
        then (let this = row_samples f width i * cp_step c in if this > acc then this else acc) else acc)"

definition min_stride :: "pix_fmt \<Rightarrow> nat \<Rightarrow> nat \<Rightarrow> nat" where
  "min_stride f width plane =
     (let s = span_scan f width plane 0 (pf_components f) 0
      in if pf_has f PF_BITSTREAM then (s + 7) div 8 else s)"

definition plane_size :: "pix_fmt \<Rightarrow> nat \<Rightarrow> nat \<Rightarrow> nat \<Rightarrow> nat" where
  "plane_size f plane height stride =
     (if plane \<ge> pf_planes f then 0 else sat_u 64 (plane_height f height plane * stride))"

definition checked_next_multiple_of :: "nat \<Rightarrow> nat \<Rightarrow> nat option" where
  "checked_next_multiple_of n a = (if n mod a = 0 then Some n else checked_u 64 (n + (a - n mod a)))"

definition is_power_of_two :: "nat \<Rightarrow> bool" where
  "is_power_of_two n \<longleftrightarrow> n \<noteq> 0 \<and> n AND (n - 1) = 0"

record plane_layout =
  ly_strides :: "nat list"
  ly_sizes :: "nat list"
  ly_planes :: nat
  ly_total :: nat

definition image_overflow :: codec_error where
  "image_overflow = Over_limit (LimitExceeded ''image buffer'' U64_MAX USIZE_MAX)"

definition ok_or :: "'e \<Rightarrow> 'a option \<Rightarrow> 'e + 'a" where
  "ok_or e x = (case x of None \<Rightarrow> Inl e | Some v \<Rightarrow> Inr v)"

definition and_then :: "'e + 'a \<Rightarrow> ('a \<Rightarrow> 'e + 'b) \<Rightarrow> 'e + 'b" where
  "and_then r k = (case r of Inl e \<Rightarrow> Inl e | Inr x \<Rightarrow> k x)"

lemma and_then_simps [simp]: "and_then (Inl e) k = Inl e" "and_then (Inr x) k = k x"
  by (simp_all add: and_then_def)

lemma and_then_Inr: "and_then r k = Inr y \<longleftrightarrow> (\<exists>x. r = Inr x \<and> k x = Inr y)"
  by (cases r) simp_all

lemma ok_or_Inr [simp]: "ok_or e x = Inr v \<longleftrightarrow> x = Some v"
  by (cases x) (simp_all add: ok_or_def)

definition layout_step :: "pix_fmt \<Rightarrow> nat \<Rightarrow> nat \<Rightarrow> nat \<Rightarrow> nat \<Rightarrow> plane_layout \<Rightarrow> codec_error + plane_layout" where
  "layout_step f width height align plane out =
     and_then (ok_or image_overflow (checked_next_multiple_of (min_stride f width plane) align)) (\<lambda>stride.
     and_then (ok_or image_overflow (checked_u 64 (stride * plane_height f height plane))) (\<lambda>bytes.
     if plane \<ge> length (ly_strides out) \<or> plane \<ge> length (ly_sizes out)
     then Inl (Unsupported ''more than four planes'')
     else and_then (ok_or image_overflow (checked_u 64 (ly_total out + bytes))) (\<lambda>sum.
       Inr (out\<lparr>ly_strides := (ly_strides out)[plane := stride], ly_sizes := (ly_sizes out)[plane := bytes],
              ly_total := sum\<rparr>))))"

definition compute_layout :: "pix_fmt \<Rightarrow> nat \<Rightarrow> nat \<Rightarrow> nat \<Rightarrow> codec_error + plane_layout" where
  "compute_layout f width height align =
     (if align = 0 \<or> \<not> is_power_of_two align then Inl (Bad_option ''align'')
      else for_each (layout_step f width height align) [0..<pf_planes f]
             \<lparr>ly_strides = replicate 4 0, ly_sizes = replicate 4 0, ly_planes = pf_planes f, ly_total = 0\<rparr>)"

section \<open>Frames\<close>

datatype sample_fmt = U8 | S16 | S32 | S64 | F32 | F64 | U8P | S16P | S32P | S64P | F32P | F64P

definition sf_is_planar :: "sample_fmt \<Rightarrow> bool" where
  "sf_is_planar f \<longleftrightarrow> f \<in> {U8P, S16P, S32P, S64P, F32P, F64P}"

fun bytes_per_sample :: "sample_fmt \<Rightarrow> nat" where
  "bytes_per_sample U8 = 1" | "bytes_per_sample U8P = 1"
| "bytes_per_sample S16 = 2" | "bytes_per_sample S16P = 2"
| "bytes_per_sample S32 = 4" | "bytes_per_sample S32P = 4"
| "bytes_per_sample F32 = 4" | "bytes_per_sample F32P = 4"
| "bytes_per_sample S64 = 8" | "bytes_per_sample S64P = 8"
| "bytes_per_sample F64 = 8" | "bytes_per_sample F64P = 8"

record plane =
  pl_data :: buffer
  pl_stride :: nat

text \<open>
  The channel count is what the frame code uses of a \<^verbatim>\<open>ChannelLayout\<close>. The colour
  description, the sample aspect ratio, the side data and the subtitle rectangles, which no
  operation here reads, are left out.
\<close>

datatype frame_data =
    Video (fd_format: pix_fmt) (fd_width: nat) (fd_height: nat) (fd_planes: "plane list")
  | Audio sample_fmt nat nat nat "plane list"
  | Subtitle

record frame =
  fr_data :: frame_data
  fr_pts :: timestamp
  fr_duration :: duration
  fr_time_base :: rational
  fr_flags :: u8

definition from_data :: "frame_data \<Rightarrow> frame" where
  "from_data d =
     \<lparr>fr_data = d, fr_pts = TS_NONE, fr_duration = DURATION_ZERO, fr_time_base = ONE, fr_flags = 0\<rparr>"

text \<open>\<open>(stride, rows, row_bytes)\<close>.\<close>

definition video_geometry :: "pix_fmt \<Rightarrow> nat \<Rightarrow> nat \<Rightarrow> nat \<Rightarrow> nat \<times> nat \<times> nat" where
  "video_geometry f width height index =
     (let i = (if index < 256 then index else 255); row_bytes = min_stride f width i
      in ((row_bytes + (ALIGN - 1)) div ALIGN * ALIGN, plane_height f height i, row_bytes))"

text \<open>The loop over the planes; the budget keeps what was charged before a failure.\<close>

primrec alloc_planes ::
  "(nat \<Rightarrow> nat option) \<Rightarrow> (nat \<Rightarrow> nat) \<Rightarrow> plane_layout \<Rightarrow> nat list \<Rightarrow> plane list \<Rightarrow> budget \<Rightarrow> plane list checked" where
  "alloc_planes grow addr ly [] planes b = (Inr planes, b)"
| "alloc_planes grow addr ly (i # is) planes b =
     (case buf_alloc grow (addr i) (case get_at (ly_sizes ly) i of Some n \<Rightarrow> n | None \<Rightarrow> 0) b of
        (Inl e, b') \<Rightarrow> (Inl e, b')
      | (Inr buf, b') \<Rightarrow>
          alloc_planes grow addr ly is
            (planes @ [\<lparr>pl_data = buf, pl_stride = (case get_at (ly_strides ly) i of Some n \<Rightarrow> n | None \<Rightarrow> 0)\<rparr>]) b')"

definition alloc_video ::
  "(nat \<Rightarrow> nat option) \<Rightarrow> (nat \<Rightarrow> nat) \<Rightarrow> pix_fmt \<Rightarrow> nat \<Rightarrow> nat \<Rightarrow> budget \<Rightarrow> frame checked" where
  "alloc_video grow addr f width height b =
     (if is_hw f then (Inl (Unsupported ''cannot allocate a hardware pixel format''), b)
      else let bpp = max ((pf_bits_per_pixel f + 7) div 8) 1
           in case check_frame width height bpp b of
                Inl e \<Rightarrow> (Inl (Over_limit (core_error_of_limit e)), b)
              | Inr _ \<Rightarrow> (case compute_layout f width height ALIGN of
                  Inl e \<Rightarrow> (Inl e, b)
                | Inr ly \<Rightarrow> (case alloc_planes grow addr ly [0..<ly_planes ly] [] b of
                    (Inl e, b') \<Rightarrow> (Inl e, b')
                  | (Inr planes, b') \<Rightarrow> (Inr (from_data (Video f width height planes)), b'))))"

definition check_plane :: "pix_fmt \<Rightarrow> nat \<Rightarrow> nat \<Rightarrow> nat \<times> plane \<Rightarrow> unit \<Rightarrow> codec_error + unit" where
  "check_plane f width height ip u =
     (case ip of (i, p) \<Rightarrow> (case video_geometry f width height i of (_, rows, row_bytes) \<Rightarrow>
        if pl_stride p < row_bytes then Inl (InvalidData ''plane stride is narrower than a row'')
        else if rows > 0 \<and> length (pl_data p) < sat_u 64 (pl_stride p * rows)
        then Inl (InvalidData ''plane buffer is shorter than its rows'')
        else Inr ()))"

definition video_from_planes :: "pix_fmt \<Rightarrow> nat \<Rightarrow> nat \<Rightarrow> plane list \<Rightarrow> codec_error + frame" where
  "video_from_planes f width height planes =
     (if length planes \<noteq> pf_planes f then Inl (InvalidData ''plane count does not match pixel format'')
      else and_then (for_each (check_plane f width height) (List.enumerate 0 planes) ()) (\<lambda>_.
        Inr (from_data (Video f width height planes))))"

primrec alloc_audio_planes ::
  "(nat \<Rightarrow> nat option) \<Rightarrow> (nat \<Rightarrow> nat) \<Rightarrow> nat \<Rightarrow> nat list \<Rightarrow> plane list \<Rightarrow> budget \<Rightarrow> plane list checked" where
  "alloc_audio_planes grow addr bytes [] planes b = (Inr planes, b)"
| "alloc_audio_planes grow addr bytes (i # is) planes b =
     (case buf_alloc grow (addr i) bytes b of
        (Inl e, b') \<Rightarrow> (Inl e, b')
      | (Inr buf, b') \<Rightarrow>
          alloc_audio_planes grow addr bytes is (planes @ [\<lparr>pl_data = buf, pl_stride = bytes\<rparr>]) b')"

definition alloc_audio ::
  "(nat \<Rightarrow> nat option) \<Rightarrow> (nat \<Rightarrow> nat) \<Rightarrow> sample_fmt \<Rightarrow> nat \<Rightarrow> nat \<Rightarrow> nat \<Rightarrow> budget \<Rightarrow> frame checked" where
  "alloc_audio grow addr f layout_channels samples sample_rate b =
     (case check_channels layout_channels b of
        Inl e \<Rightarrow> (Inl (Over_limit (core_error_of_limit e)), b)
      | Inr _ \<Rightarrow>
          let channels = max layout_channels 1;
              (count, per_plane) = (if sf_is_planar f then (channels, 1) else (1, channels))
          in case Option.bind (checked_u 64 (samples * bytes_per_sample f)) (\<lambda>n. checked_u 64 (n * per_plane)) of
               None \<Rightarrow> (Inl (Over_limit (LimitExceeded ''audio_frame_bytes'' U64_MAX USIZE_MAX)), b)
             | Some bytes \<Rightarrow> (case alloc_audio_planes grow addr bytes [0..<count] [] b of
                 (Inl e, b') \<Rightarrow> (Inl e, b')
               | (Inr planes, b') \<Rightarrow> (Inr (from_data (Audio f sample_rate samples layout_channels planes)), b')))"

definition planes_slice :: "frame \<Rightarrow> plane list" where
  "planes_slice fr = (case fr_data fr of Video _ _ _ ps \<Rightarrow> ps | Audio _ _ _ _ ps \<Rightarrow> ps | Subtitle \<Rightarrow> [])"

definition pixel_format :: "frame \<Rightarrow> pix_fmt option" where
  "pixel_format fr = (case fr_data fr of Video f _ _ _ \<Rightarrow> Some f | _ \<Rightarrow> None)"

definition dimensions :: "frame \<Rightarrow> (nat \<times> nat) option" where
  "dimensions fr = (case fr_data fr of Video _ width height _ \<Rightarrow> Some (width, height) | _ \<Rightarrow> None)"

section \<open>Plane views\<close>

record plane_ref =
  pr_data :: buffer
  pr_stride :: nat
  pr_rows :: nat
  pr_row_bytes :: nat

definition plane_view :: "nat \<Rightarrow> frame \<Rightarrow> plane_ref option" where
  "plane_view index fr =
     (case fr_data fr of
        Video f width height planes \<Rightarrow>
          (case get_at planes index of None \<Rightarrow> None
           | Some p \<Rightarrow> (case video_geometry f width height index of (_, rows, row_bytes) \<Rightarrow>
               Some \<lparr>pr_data = pl_data p, pr_stride = pl_stride p, pr_rows = rows,
                     pr_row_bytes = min row_bytes (pl_stride p)\<rparr>))
      | Audio _ _ _ _ planes \<Rightarrow>
          (case get_at planes index of None \<Rightarrow> None
           | Some p \<Rightarrow> Some \<lparr>pr_data = pl_data p, pr_stride = length (pl_data p), pr_rows = 1,
                            pr_row_bytes = length (pl_data p)\<rparr>)
      | Subtitle \<Rightarrow> None)"

definition pr_row :: "nat \<Rightarrow> plane_ref \<Rightarrow> u8 list option" where
  "pr_row y p =
     (if y \<ge> pr_rows p then None
      else Option.bind (checked_u 64 (y * pr_stride p)) (\<lambda>start.
        Option.bind (checked_u 64 (start + pr_row_bytes p)) (\<lambda>stop. slice_range (pr_data p) start stop)))"

definition pr_rows_iter :: "plane_ref \<Rightarrow> u8 list list" where
  "pr_rows_iter p =
     List.map_filter (\<lambda>y. Option.bind (checked_u 64 (y * pr_stride p)) (\<lambda>start.
        Option.bind (checked_u 64 (start + pr_row_bytes p)) (\<lambda>stop. slice_range (pr_data p) start stop)))
       [0..<pr_rows p]"

text \<open>A write through \<^verbatim>\<open>row_mut\<close>: \<open>g\<close> keeps the length of the row.\<close>

definition pm_row_write :: "nat \<Rightarrow> (u8 list \<Rightarrow> u8 list) \<Rightarrow> plane_ref \<Rightarrow> plane_ref option" where
  "pm_row_write y g p =
     (if y \<ge> pr_rows p then None
      else Option.bind (checked_u 64 (y * pr_stride p)) (\<lambda>start.
        Option.bind (checked_u 64 (start + pr_row_bytes p)) (\<lambda>stop.
          map_option (\<lambda>row. p\<lparr>pr_data := take start (pr_data p) @ g row @ drop stop (pr_data p)\<rparr>)
            (slice_range (pr_data p) start stop))))"

definition pm_fill :: "u8 \<Rightarrow> plane_ref \<Rightarrow> plane_ref" where
  "pm_fill v p =
     fold (\<lambda>y q. case pm_row_write y (map (\<lambda>_. v)) q of None \<Rightarrow> q | Some q' \<Rightarrow> q') [0..<pr_rows p] p"


text \<open>\<^verbatim>\<open>chunks_mut\<close> of the standard library, for a positive chunk size.\<close>

function chunks :: "nat \<Rightarrow> 'a list \<Rightarrow> 'a list list" where
  "chunks n xs = (if n = 0 \<or> xs = [] then [] else take n xs # chunks n (drop n xs))"
  by auto

termination by (relation "measure (length o snd)") auto

declare chunks.simps [simp del]

primrec band_views :: "nat \<Rightarrow> nat \<Rightarrow> nat \<Rightarrow> u8 list list \<Rightarrow> plane_ref list" where
  "band_views stride row_bytes rows_left [] = []"
| "band_views stride row_bytes rows_left (band # bands) =
     (let rows = min rows_left (length band div stride)
      in \<lparr>pr_data = band, pr_stride = stride, pr_rows = rows, pr_row_bytes = row_bytes\<rparr>
         # band_views stride row_bytes (rows_left - rows) bands)"

definition split_bands :: "nat \<Rightarrow> plane_ref \<Rightarrow> plane_ref list" where
  "split_bands n p =
     (if pr_stride p = 0 \<or> pr_rows p = 0 then [p]
      else let n = max n 1; band_rows = (pr_rows p + n - 1) div n; chunk = sat_u 64 (band_rows * pr_stride p)
           in if chunk = 0 then [p]
              else band_views (pr_stride p) (pr_row_bytes p) (pr_rows p) (chunks chunk (pr_data p)))"

section \<open>The layout of a frame\<close>

text \<open>The stride and the size the layout gives to a plane.\<close>

definition aligned_stride :: "pix_fmt \<Rightarrow> nat \<Rightarrow> nat \<Rightarrow> nat" where
  "aligned_stride f width i = (min_stride f width i + (ALIGN - 1)) div ALIGN * ALIGN"

lemma checked_next_multiple_of_Some:
  assumes "checked_next_multiple_of n ALIGN = Some m"
  shows "m = (n + (ALIGN - 1)) div ALIGN * ALIGN" "n \<le> m" "m < n + ALIGN" "m mod ALIGN = 0"
proof -
  define q r where "q = n div 64" and "r = n mod 64"
  have n: "n = 64 * q + r" "r < 64" by (simp_all add: q_def r_def)
  have m: "m = (if r = 0 then n else n + (64 - r))"
    using assms by (auto simp: checked_next_multiple_of_def ALIGN_def checked_u_def r_def split: if_splits)
  have "(64 * q + r + 63) div 64 = q + (r + 63) div 64" by (simp add: add.assoc)
  moreover have "(r + 63) div 64 = (if r = 0 then 0 else 1)" using n(2) by auto
  ultimately show "m = (n + (ALIGN - 1)) div ALIGN * ALIGN" using m n by (simp add: ALIGN_def)
  then show "n \<le> m" "m < n + ALIGN" "m mod ALIGN = 0" using m n by (auto simp: ALIGN_def)
qed

lemma layout_step_Inr:
  assumes "layout_step f width height ALIGN i ly = Inr ly'" "length (ly_strides ly) = 4" "length (ly_sizes ly) = 4"
  shows "i < 4 \<and> ly_strides ly' = (ly_strides ly)[i := aligned_stride f width i] \<and>
    ly_sizes ly' = (ly_sizes ly)[i := aligned_stride f width i * plane_height f height i] \<and>
    ly_planes ly' = ly_planes ly \<and> aligned_stride f width i * plane_height f height i < 2 ^ 64 \<and>
    min_stride f width i \<le> aligned_stride f width i \<and> aligned_stride f width i < min_stride f width i + ALIGN \<and>
    aligned_stride f width i mod ALIGN = 0"
proof -
  obtain stride where s: "checked_next_multiple_of (min_stride f width i) ALIGN = Some stride"
    using assms(1) by (auto simp: layout_step_def and_then_Inr)
  note S = checked_next_multiple_of_Some [OF s]
  have "stride = aligned_stride f width i" using S(1) by (simp add: aligned_stride_def)
  then show ?thesis
    using assms s S(2-4)
    by (auto simp: layout_step_def and_then_Inr checked_u_def fits_u_def not_le split: if_splits)
qed

lemma layout_loop:
  assumes "for_each (layout_step f width height ALIGN) [0..<n] ly = Inr ly'"
    "length (ly_strides ly) = 4" "length (ly_sizes ly) = 4"
  shows "length (ly_strides ly') = 4 \<and> length (ly_sizes ly') = 4 \<and> ly_planes ly' = ly_planes ly \<and>
    (\<forall>i<n. i < 4 \<and> ly_strides ly' ! i = aligned_stride f width i \<and>
      ly_sizes ly' ! i = aligned_stride f width i * plane_height f height i \<and>
      aligned_stride f width i * plane_height f height i < 2 ^ 64 \<and>
      min_stride f width i \<le> aligned_stride f width i \<and> aligned_stride f width i < min_stride f width i + ALIGN \<and>
      aligned_stride f width i mod ALIGN = 0)"
  using assms(1)
proof (induction n arbitrary: ly')
  case (Suc n)
  then obtain ly1 where 1: "for_each (layout_step f width height ALIGN) [0..<n] ly = Inr ly1"
    and 2: "layout_step f width height ALIGN n ly1 = Inr ly'"
    by (auto simp: for_each_append split: sum.splits)
  note H = Suc.IH [OF 1]
  have L: "length (ly_strides ly1) = 4" "length (ly_sizes ly1) = 4" "ly_planes ly1 = ly_planes ly" using H by blast+
  note S = layout_step_Inr [OF 2 L(1,2)]
  have "ly_strides ly' = (ly_strides ly1)[n := aligned_stride f width n]"
    "ly_sizes ly' = (ly_sizes ly1)[n := aligned_stride f width n * plane_height f height n]"
    "ly_planes ly' = ly_planes ly" using S L(3) by auto
  then show ?case using S H L by (auto simp: less_Suc_eq nth_list_update)
qed (use assms in simp)

lemma alloc_planes_zero:
  assumes "alloc_planes grow addr ly is ps b = (Inr planes, b')"
    "\<forall>i \<in> set is. i < length (ly_strides ly) \<and> i < length (ly_sizes ly)"
  shows "planes = ps @ map (\<lambda>i. \<lparr>pl_data = replicate (ly_sizes ly ! i) 0, pl_stride = ly_strides ly ! i\<rparr>) is"
  using assms
proof (induction "is" arbitrary: ps b)
  case (Cons i "is")
  then obtain buf b1 where "buf_alloc grow (addr i) (ly_sizes ly ! i) b = (Inr buf, b1)"
    "alloc_planes grow addr ly is (ps @ [\<lparr>pl_data = buf, pl_stride = ly_strides ly ! i\<rparr>]) b1 = (Inr planes, b')"
    by (auto simp: get_at_def split: prod.splits sum.splits)
  then show ?case using Cons.IH Cons.prems(2) buf_alloc_zero by fastforce
qed simp

lemma alloc_video_Inr:
  assumes "alloc_video grow addr f width height b = (Inr fr, b')"
  shows "fr = from_data (Video f width height (map (\<lambda>i.
      \<lparr>pl_data = replicate (aligned_stride f width i * plane_height f height i) 0,
       pl_stride = aligned_stride f width i\<rparr>) [0..<pf_planes f]))" (is ?A)
    "i < pf_planes f \<Longrightarrow> i < 4 \<and> aligned_stride f width i * plane_height f height i < 2 ^ 64 \<and>
      min_stride f width i \<le> aligned_stride f width i \<and> aligned_stride f width i < min_stride f width i + ALIGN \<and>
      aligned_stride f width i mod ALIGN = 0"
proof -
  obtain ly planes where ly: "compute_layout f width height ALIGN = Inr ly"
    and p: "alloc_planes grow addr ly [0..<ly_planes ly] [] b = (Inr planes, b')"
    and fr: "fr = from_data (Video f width height planes)"
    using assms by (auto simp: alloc_video_def Let_def split: if_splits sum.splits prod.splits)
  let ?ly0 = "\<lparr>ly_strides = replicate 4 0, ly_sizes = replicate 4 0, ly_planes = pf_planes f, ly_total = 0\<rparr>"
  have "for_each (layout_step f width height ALIGN) [0..<pf_planes f] ?ly0 = Inr ly"
    using ly by (simp add: compute_layout_def split: if_splits)
  from layout_loop [OF this] have L: "length (ly_strides ly) = 4" "length (ly_sizes ly) = 4" "ly_planes ly = pf_planes f"
    "\<forall>i<pf_planes f. i < 4 \<and> ly_strides ly ! i = aligned_stride f width i \<and>
      ly_sizes ly ! i = aligned_stride f width i * plane_height f height i \<and>
      aligned_stride f width i * plane_height f height i < 2 ^ 64 \<and>
      min_stride f width i \<le> aligned_stride f width i \<and> aligned_stride f width i < min_stride f width i + ALIGN \<and>
      aligned_stride f width i mod ALIGN = 0" by simp_all
  then show "i < pf_planes f \<Longrightarrow> i < 4 \<and> aligned_stride f width i * plane_height f height i < 2 ^ 64 \<and>
      min_stride f width i \<le> aligned_stride f width i \<and> aligned_stride f width i < min_stride f width i + ALIGN \<and>
      aligned_stride f width i mod ALIGN = 0" by blast
  have "planes = [] @ map (\<lambda>i. \<lparr>pl_data = replicate (ly_sizes ly ! i) 0, pl_stride = ly_strides ly ! i\<rparr>) [0..<pf_planes f]"
    using alloc_planes_zero [OF p] L by simp
  also have "\<dots> = map (\<lambda>i. \<lparr>pl_data = replicate (aligned_stride f width i * plane_height f height i) 0,
       pl_stride = aligned_stride f width i\<rparr>) [0..<pf_planes f]" using L(4) by simp
  finally show ?A using fr by simp
qed

section \<open>Rows of a view\<close>

text \<open>The rows lie inside the data; a slice in memory has fewer than \<^verbatim>\<open>2^63\<close> bytes.\<close>

definition view_ok :: "plane_ref \<Rightarrow> bool" where
  "view_ok p \<longleftrightarrow> pr_row_bytes p \<le> pr_stride p \<and> pr_rows p * pr_stride p \<le> length (pr_data p) \<and>
     length (pr_data p) < 2 ^ 63"

definition rows_of :: "nat \<Rightarrow> nat \<Rightarrow> nat \<Rightarrow> u8 list \<Rightarrow> u8 list list" where
  "rows_of stride row_bytes k data = map (\<lambda>y. take row_bytes (drop (y * stride) data)) [0..<k]"

lemma row_inside:
  assumes "view_ok p" "y < pr_rows p"
  shows "y * pr_stride p + pr_row_bytes p \<le> pr_rows p * pr_stride p"
proof -
  have "(y + 1) * pr_stride p \<le> pr_rows p * pr_stride p" using assms(2) by (intro mult_le_mono1) simp
  then show ?thesis using assms(1) by (simp add: view_ok_def)
qed

lemma row_slice:
  assumes "view_ok p" "y < pr_rows p"
  shows "Option.bind (checked_u 64 (y * pr_stride p)) (\<lambda>start.
        Option.bind (checked_u 64 (start + pr_row_bytes p)) (\<lambda>stop. slice_range (pr_data p) start stop)) =
      Some (take (pr_row_bytes p) (drop (y * pr_stride p) (pr_data p)))"
  using row_inside [OF assms] assms(1)
  by (simp add: view_ok_def checked_u_def fits_u_def slice_range_def)

lemma pr_row_eq:
  assumes "view_ok p"
  shows "pr_row y p = (if y < pr_rows p then Some (take (pr_row_bytes p) (drop (y * pr_stride p) (pr_data p))) else None)"
  using row_slice [OF assms] by (simp add: pr_row_def)

lemma pr_rows_iter_eq:
  assumes "view_ok p"
  shows "pr_rows_iter p = rows_of (pr_stride p) (pr_row_bytes p) (pr_rows p) (pr_data p)"
proof -
  have M: "List.map_filter f xs = map g xs" if "\<forall>x \<in> set xs. f x = Some (g x)" for f and g :: "nat \<Rightarrow> u8 list" and xs
    using that by (induction xs) (simp_all add: map_filter_def)
  show ?thesis unfolding pr_rows_iter_def rows_of_def by (rule M) (simp add: row_slice [OF assms])
qed

text \<open>A write through one row.\<close>

lemma row_write:
  assumes "view_ok p" "y < pr_rows p" and len: "\<And>xs. length (g xs) = length xs"
  obtains q where "pm_row_write y g p = Some q" "view_ok q" "pr_rows q = pr_rows p" "pr_stride q = pr_stride p"
    "pr_row_bytes q = pr_row_bytes p" "length (pr_data q) = length (pr_data p)"
    "\<And>k. k < length (pr_data p) \<Longrightarrow> \<not> (y * pr_stride p \<le> k \<and> k < y * pr_stride p + pr_row_bytes p) \<Longrightarrow>
       pr_data q ! k = pr_data p ! k"
    "take (pr_row_bytes p) (drop (y * pr_stride p) (pr_data q)) =
       g (take (pr_row_bytes p) (drop (y * pr_stride p) (pr_data p)))"
proof -
  let ?s = "y * pr_stride p" and ?d = "pr_data p"
  let ?row = "take (pr_row_bytes p) (drop ?s ?d)"
  have in1: "?s + pr_row_bytes p \<le> length ?d" using row_inside [OF assms(1,2)] assms(1) by (simp add: view_ok_def)
  have lr: "length (g ?row) = pr_row_bytes p" using in1 by (simp add: len)
  let ?q = "p\<lparr>pr_data := take ?s ?d @ g ?row @ drop (?s + pr_row_bytes p) ?d\<rparr>"
  have "pm_row_write y g p = Some ?q"
    using assms(1,2) in1 by (simp add: pm_row_write_def view_ok_def checked_u_def fits_u_def slice_range_def)
  moreover have l: "length (pr_data ?q) = length ?d" using in1 lr by simp
  moreover have "view_ok ?q" using assms(1) l by (simp add: view_ok_def)
  moreover have "pr_data ?q ! k = ?d ! k" if "k < length ?d" "\<not> (?s \<le> k \<and> k < ?s + pr_row_bytes p)" for k
    using that in1 lr by (auto simp: nth_append not_le)
  moreover have "take (pr_row_bytes p) (drop ?s (pr_data ?q)) = g ?row" using in1 lr by simp
  ultimately show ?thesis by (intro that [of ?q]) simp_all
qed

lemma rows_apart:
  fixes stride :: nat
  assumes "y * stride \<le> k" "k < y * stride + rb" "z * stride \<le> k" "k < z * stride + rb" "rb \<le> stride"
  shows "y = z"
proof -
  have "y * stride < (z + 1) * stride" "z * stride < (y + 1) * stride" using assms by simp_all
  then have "y < z + 1" "z < y + 1" by (meson mult_less_cancel2)+
  then show ?thesis by simp
qed

lemma row_write_row:
  assumes "view_ok p" "pm_row_write y g p = Some q" and len: "\<And>xs. length (g xs) = length xs"
  shows "view_ok q \<and> pr_rows q = pr_rows p \<and> pr_stride q = pr_stride p \<and> pr_row_bytes q = pr_row_bytes p \<and>
    length (pr_data q) = length (pr_data p) \<and> y < pr_rows p"
    "pr_row z q = (if z = y then map_option g (pr_row z p) else pr_row z p)"
    "\<lbrakk>k < length (pr_data p); \<not> (y * pr_stride p \<le> k \<and> k < y * pr_stride p + pr_row_bytes p)\<rbrakk> \<Longrightarrow>
       pr_data q ! k = pr_data p ! k"
proof -
  have y: "y < pr_rows p" using assms(2) by (auto simp: pm_row_write_def split: if_splits)
  from row_write [of p y g, OF assms(1) y len] obtain q' where W: "pm_row_write y g p = Some q'" "view_ok q'"
    "pr_rows q' = pr_rows p" "pr_stride q' = pr_stride p" "pr_row_bytes q' = pr_row_bytes p"
    "length (pr_data q') = length (pr_data p)"
    "\<And>k. k < length (pr_data p) \<Longrightarrow> \<not> (y * pr_stride p \<le> k \<and> k < y * pr_stride p + pr_row_bytes p) \<Longrightarrow>
       pr_data q' ! k = pr_data p ! k"
    "take (pr_row_bytes p) (drop (y * pr_stride p) (pr_data q')) =
       g (take (pr_row_bytes p) (drop (y * pr_stride p) (pr_data p)))"
    by blast
  have q: "q' = q" using W(1) assms(2) by simp
  note V = W(2-8) [unfolded q]
  show "view_ok q \<and> pr_rows q = pr_rows p \<and> pr_stride q = pr_stride p \<and> pr_row_bytes q = pr_row_bytes p \<and>
    length (pr_data q) = length (pr_data p) \<and> y < pr_rows p" using V(1-5) y by simp
  show "\<lbrakk>k < length (pr_data p); \<not> (y * pr_stride p \<le> k \<and> k < y * pr_stride p + pr_row_bytes p)\<rbrakk> \<Longrightarrow>
       pr_data q ! k = pr_data p ! k" using V(6) by simp
  show "pr_row z q = (if z = y then map_option g (pr_row z p) else pr_row z p)"
  proof (cases "z < pr_rows p \<and> z \<noteq> y")
    case True
    then have z: "z < pr_rows p" by simp
    have rb: "pr_row_bytes p \<le> pr_stride p" using assms(1) by (simp add: view_ok_def)
    have in1: "z * pr_stride p + pr_row_bytes p \<le> length (pr_data p)"
      using row_inside [OF assms(1) z] assms(1) by (simp add: view_ok_def)
    have "pr_data q ! (z * pr_stride p + i) = pr_data p ! (z * pr_stride p + i)" if "i < pr_row_bytes p" for i
      using V(6) [of "z * pr_stride p + i"] rows_apart [of y "pr_stride p" "z * pr_stride p + i" "pr_row_bytes p" z]
        that in1 rb True by fastforce
    then have "take (pr_row_bytes p) (drop (z * pr_stride p) (pr_data q)) =
        take (pr_row_bytes p) (drop (z * pr_stride p) (pr_data p))"
      using in1 V(5) by (intro nth_equalityI) simp_all
    then show ?thesis using True V(2-4) by (simp add: pr_row_eq [OF assms(1)] pr_row_eq [OF V(1)])
  next
    case False
    then consider "z = y" | "z \<noteq> y" "\<not> z < pr_rows p" by blast
    then show ?thesis
    proof cases
      case 1
      then show ?thesis using y V(2-4) V(7) by (simp add: pr_row_eq [OF assms(1)] pr_row_eq [OF V(1)])
    next
      case 2
      then show ?thesis using V(2) by (simp add: pr_row_def)
    qed
  qed
qed

lemma fill_rows:
  assumes "view_ok p" "n \<le> pr_rows p"
    "q = fold (\<lambda>y q. case pm_row_write y (map (\<lambda>_. v)) q of None \<Rightarrow> q | Some q' \<Rightarrow> q') [0..<n] p"
  shows "view_ok q \<and> pr_rows q = pr_rows p \<and> pr_stride q = pr_stride p \<and> pr_row_bytes q = pr_row_bytes p \<and>
    length (pr_data q) = length (pr_data p) \<and>
    (\<forall>y. pr_row y q = (if y < n then Some (replicate (pr_row_bytes p) v) else pr_row y p)) \<and>
    (\<forall>k < length (pr_data p). pr_row_bytes p \<le> k mod pr_stride p \<longrightarrow> pr_data q ! k = pr_data p ! k)"
  using assms(2,3)
proof (induction n arbitrary: q)
  case (Suc n)
  define q1 where "q1 = fold (\<lambda>y q. case pm_row_write y (map (\<lambda>_. v)) q of None \<Rightarrow> q | Some q' \<Rightarrow> q') [0..<n] p"
  have IH: "view_ok q1 \<and> pr_rows q1 = pr_rows p \<and> pr_stride q1 = pr_stride p \<and> pr_row_bytes q1 = pr_row_bytes p \<and>
    length (pr_data q1) = length (pr_data p) \<and>
    (\<forall>y. pr_row y q1 = (if y < n then Some (replicate (pr_row_bytes p) v) else pr_row y p)) \<and>
    (\<forall>k < length (pr_data p). pr_row_bytes p \<le> k mod pr_stride p \<longrightarrow> pr_data q1 ! k = pr_data p ! k)"
    using Suc.IH [OF _ q1_def] Suc.prems(1) by simp
  have ok: "view_ok q1" and n: "n < pr_rows q1" using IH Suc.prems by auto
  obtain q2 where w: "pm_row_write n (map (\<lambda>_. v)) q1 = Some q2"
    using row_write [OF ok n, of "map (\<lambda>_. v)"] by (metis length_map)
  note R = row_write_row [OF ok w length_map]
  have row: "map (\<lambda>_. v) (take (pr_row_bytes p) (drop (n * pr_stride p) (pr_data p))) = replicate (pr_row_bytes p) v"
  proof -
    have "n * pr_stride p + pr_row_bytes p \<le> length (pr_data p)"
      using row_inside [OF assms(1), of n] assms(1) Suc.prems(1) by (simp add: view_ok_def)
    then show ?thesis by (intro nth_equalityI) simp_all
  qed
  have step: "q = q2" using w Suc.prems(2) by (simp add: q1_def [symmetric])
  have "pr_data q2 ! k = pr_data p ! k" if "k < length (pr_data p)" "pr_row_bytes p \<le> k mod pr_stride p" for k
  proof -
    have "\<not> (n * pr_stride p \<le> k \<and> k < n * pr_stride p + pr_row_bytes p)"
    proof
      assume a: "n * pr_stride p \<le> k \<and> k < n * pr_stride p + pr_row_bytes p"
      then obtain j where j: "k = j + n * pr_stride p" "j < pr_row_bytes p" by (metis add.commute le_add_diff_inverse2
        less_diff_conv2 nat_add_left_cancel_less)
      have "j < pr_stride p" using j(2) assms(1) by (simp add: view_ok_def)
      then show False using j that(2) by simp
    qed
    then show ?thesis using R(3) [of k] IH that by simp
  qed
  moreover have "pr_row y q2 = (if y < Suc n then Some (replicate (pr_row_bytes p) v) else pr_row y p)" for y
    using R(2) [of y] IH row Suc.prems by (auto simp: pr_row_eq [OF assms(1)] less_Suc_eq)
  ultimately show ?case unfolding step using R(1) IH by simp
qed (use assms(1) in simp)

subsection \<open>Bands\<close>

lemma rows_of_add:
  "rows_of stride rb (a + c) data = rows_of stride rb a data @ rows_of stride rb c (drop (a * stride) data)"
  by (rule nth_equalityI) (auto simp: rows_of_def nth_append add_mult_distrib diff_mult_distrib)

lemma rows_of_take:
  assumes "k * stride \<le> n" "rb \<le> stride"
  shows "rows_of stride rb k (take n data) = rows_of stride rb k data"
proof -
  have "take rb (drop (y * stride) (take n data)) = take rb (drop (y * stride) data)" if "y < k" for y
  proof -
    have "(y + 1) * stride \<le> k * stride" using that by (intro mult_le_mono1) simp
    then have "rb \<le> n - y * stride" using assms by simp
    then show ?thesis by (simp add: drop_take min_def)
  qed
  then show ?thesis by (simp add: rows_of_def)
qed

lemma rows_of_0 [simp]: "rows_of stride rb 0 data = []"
  by (simp add: rows_of_def)

lemma band_views_rows:
  assumes "stride > 0" "m > 0" "rb \<le> stride" "k * stride \<le> length data" "length data < 2 ^ 63"
  shows "concat (map pr_rows_iter (band_views stride rb k (chunks (m * stride) data))) = rows_of stride rb k data \<and>
    list_all view_ok (band_views stride rb k (chunks (m * stride) data)) \<and>
    list_all (\<lambda>v. pr_rows v \<le> m) (band_views stride rb k (chunks (m * stride) data))"
  using assms(4,5)
proof (induction "m * stride" data arbitrary: k rule: chunks.induct)
  case (1 data)
  let ?n = "m * stride"
  show ?case
  proof (cases "data = []")
    case True
    then show ?thesis using 1(2) assms(1) by (simp add: chunks.simps [of _ "[]"])
  next
    case False
    have n: "?n \<noteq> 0" using assms(1,2) by simp
    let ?band = "take ?n data"
    define r where "r = min k (length ?band div stride)"
    define v where "v = \<lparr>pr_data = ?band, pr_stride = stride, pr_rows = r, pr_row_bytes = rb\<rparr>"
    have c: "band_views stride rb k (chunks ?n data) = v # band_views stride rb (k - r) (chunks ?n (drop ?n data))"
      using False n by (simp add: chunks.simps [of _ data] r_def v_def Let_def)
    have rm: "r \<le> m" using assms(1) by (simp add: r_def min_def div_le_mono [THEN le_trans])
        (metis div_le_mono min.cobounded1 min.commute nonzero_mult_div_cancel_right not_gr_zero le_trans min_def)
    have rs: "r * stride \<le> length ?band" unfolding r_def
      by (meson div_times_less_eq_dividend le_trans min.cobounded2 mult_le_mono1)
    have ok: "view_ok v" using rs 1(3) assms(3) by (auto simp: view_ok_def v_def)
    have rest: "(k - r) * stride \<le> length (drop ?n data) \<and> (k = r \<or> r = m)"
    proof (cases "k \<le> m")
      case True
      then have "k * stride \<le> length ?band" using 1(2) by simp
      then have "k \<le> length ?band div stride" using assms(1) by (simp add: less_eq_div_iff_mult_less_eq)
      then show ?thesis by (simp add: r_def)
    next
      case False
      then have "m * stride \<le> k * stride" by (intro mult_le_mono1) simp
      then have "m * stride \<le> length data" using 1(2) by (rule le_trans)
      then have "length ?band = m * stride" by simp
      then have "r = m" using False assms(1) by (simp add: r_def)
      then show ?thesis using 1(2) by (simp add: diff_mult_distrib)
    qed
    have IH: "concat (map pr_rows_iter (band_views stride rb (k - r) (chunks ?n (drop ?n data)))) =
        rows_of stride rb (k - r) (drop ?n data) \<and>
      list_all view_ok (band_views stride rb (k - r) (chunks ?n (drop ?n data))) \<and>
      list_all (\<lambda>v. pr_rows v \<le> m) (band_views stride rb (k - r) (chunks ?n (drop ?n data)))"
      using 1(1) [of "k - r"] rest False n 1(3) by simp
    have "rows_of stride rb r ?band @ rows_of stride rb (k - r) (drop ?n data) = rows_of stride rb k data"
    proof -
      have "rows_of stride rb k data = rows_of stride rb r data @ rows_of stride rb (k - r) (drop (r * stride) data)"
        using rows_of_add [of stride rb r "k - r" data] by (simp add: r_def)
      moreover have "rows_of stride rb r ?band = rows_of stride rb r data"
        using rm by (intro rows_of_take assms(3)) (simp add: mult_le_mono1)
      ultimately show ?thesis using rest by (metis diff_self_eq_0 rows_of_0)
    qed
    then show ?thesis using IH ok rm by (simp add: c pr_rows_iter_eq [OF ok]) (simp add: v_def)
  qed
qed

lemma split_bands_eq:
  fixes n :: nat
  assumes "view_ok p" "pr_stride p \<noteq> 0" "pr_rows p \<noteq> 0"
  defines "m \<equiv> (pr_rows p + max n 1 - 1) div max n 1"
  shows "m > 0" "pr_rows p \<le> m * max n 1"
    "split_bands n p = band_views (pr_stride p) (pr_row_bytes p) (pr_rows p) (chunks (m * pr_stride p) (pr_data p))"
proof -
  have "pr_rows p + max n 1 - 1 \<le> pr_rows p * max n 1"
    using assms(3) by (cases "pr_rows p"; cases "max n 1") auto
  then have le: "m \<le> pr_rows p" using div_le_mono [of _ _ "max n 1"] unfolding m_def by fastforce
  show m: "m > 0" using assms(3) by (auto simp: m_def div_greater_zero_iff max_def)
  show "pr_rows p \<le> m * max n 1"
    using div_mult_mod_eq [of "pr_rows p + max n 1 - 1" "max n 1"] mod_less_divisor [of "max n 1" "pr_rows p + max n 1 - 1"]
    unfolding m_def by linarith
  have "m * pr_stride p \<le> length (pr_data p)"
    using le assms(1) by (meson le_trans mult_le_mono1 view_ok_def)
  then have s: "sat_u 64 (m * pr_stride p) = m * pr_stride p"
    using assms(1) by (intro sat_u_id) (simp add: view_ok_def fits_u_def)
  show "split_bands n p = band_views (pr_stride p) (pr_row_bytes p) (pr_rows p) (chunks (m * pr_stride p) (pr_data p))"
    using assms(2,3) m unfolding split_bands_def Let_def m_def [symmetric] s by simp
qed

lemma split_bands_rows:
  assumes "view_ok p"
  shows "concat (map pr_rows_iter (split_bands n p)) = pr_rows_iter p \<and> list_all view_ok (split_bands n p)"
proof (cases "pr_stride p = 0 \<or> pr_rows p = 0")
  case False
  then have "pr_stride p \<noteq> 0" "pr_rows p \<noteq> 0" by simp_all
  note S = split_bands_eq [OF assms this, of n]
  show ?thesis
    using band_views_rows [of "pr_stride p" _ "pr_row_bytes p" "pr_rows p" "pr_data p", OF _ S(1)] False assms
    unfolding S(3) by (simp add: view_ok_def pr_rows_iter_eq [OF assms])
qed (simp add: split_bands_def assms)

lemma length_chunks: "c > 0 \<Longrightarrow> xs \<noteq> [] \<Longrightarrow> c * (length (chunks c xs) - 1) < length xs"
proof (induction c xs rule: chunks.induct)
  case (1 c xs)
  show ?case
  proof (cases "drop c xs = []")
    case True
    then show ?thesis using 1(2,3) by (simp add: chunks.simps [of _ xs] chunks.simps [of _ "[]"])
  next
    case False
    then have "chunks c (drop c xs) \<noteq> []" using 1(2) by (simp add: chunks.simps [of _ "drop c xs"])
    then obtain k where "length (chunks c (drop c xs)) = Suc k" by (cases "chunks c (drop c xs)") auto
    then show ?thesis using 1 False by (auto simp: chunks.simps [of _ xs])
  qed
qed

lemma length_band_views [simp]: "length (band_views stride rb k bands) = length bands"
  by (induction bands arbitrary: k) (simp_all add: Let_def)

lemma split_bands_count:
  assumes "view_ok p" "length (pr_data p) = pr_rows p * pr_stride p"
  shows "length (split_bands n p) \<le> max n 1"
proof (cases "pr_stride p = 0 \<or> pr_rows p = 0")
  case False
  then have nz: "pr_stride p \<noteq> 0" "pr_rows p \<noteq> 0" by simp_all
  note S = split_bands_eq [OF assms(1) nz, of n]
  let ?m = "(pr_rows p + max n 1 - 1) div max n 1" and ?L = "length (split_bands n p)"
  have "?m * pr_stride p > 0" "pr_data p \<noteq> []" using S(1) nz assms(2) by auto
  from length_chunks [OF this] have "?m * pr_stride p * (?L - 1) < pr_rows p * pr_stride p"
    using assms(2) unfolding S(3) by simp
  then have "?m * (?L - 1) < pr_rows p" using nz by (simp add: mult.assoc mult.commute [of "pr_stride p"])
  then have "?m * (?L - 1) < ?m * max n 1" using S(2) by linarith
  then have "?L - 1 < max n 1" by (meson mult_less_cancel1)
  then show ?thesis by linarith
qed (simp add: split_bands_def)

section \<open>Frames\<close>

lemma check_plane_loop:
  "for_each (check_plane f width height) ps u = Inr v \<longleftrightarrow>
     list_all (\<lambda>p. check_plane f width height p () = Inr ()) ps \<and> v = u"
  by (induction ps arbitrary: u) (auto split: sum.splits)

lemma check_plane_Inr:
  "check_plane f width height (i, p) u = Inr v \<longleftrightarrow>
     (case video_geometry f width height i of (_, rows, row_bytes) \<Rightarrow> row_bytes \<le> pl_stride p \<and>
       (rows > 0 \<longrightarrow> sat_u 64 (pl_stride p * rows) \<le> length (pl_data p)))"
  by (auto simp: check_plane_def not_less split: prod.splits)

lemma plane_view_video:
  "plane_view i (from_data (Video f width height planes)) =
     (if i < length planes then case video_geometry f width height i of (_, rows, row_bytes) \<Rightarrow>
        Some \<lparr>pr_data = pl_data (planes ! i), pr_stride = pl_stride (planes ! i), pr_rows = rows,
              pr_row_bytes = min row_bytes (pl_stride (planes ! i))\<rparr> else None)"
  by (simp add: plane_view_def from_data_def get_at_def)

text \<open>The views of a frame whose planes were checked.\<close>

lemma checked_views:
  assumes "video_from_planes f width height planes = Inr fr" "i < length planes"
    "\<forall>p \<in> set planes. length (pl_data p) < 2 ^ 63"
  obtains v where "plane_view i fr = Some v" "view_ok v" "pr_data v = pl_data (planes ! i)"
    "pr_stride v = pl_stride (planes ! i)"
    "(pr_rows v, pr_row_bytes v) = snd (video_geometry f width height i)"
proof -
  obtain s rows rb where g: "video_geometry f width height i = (s, rows, rb)" by (metis prod_cases3)
  let ?p = "planes ! i"
  have "list_all (\<lambda>p. check_plane f width height p () = Inr ()) (List.enumerate 0 planes)"
    and fr: "fr = from_data (Video f width height planes)"
    using assms(1) by (auto simp: video_from_planes_def and_then_Inr check_plane_loop split: if_splits)
  then have "check_plane f width height (i, ?p) () = Inr ()"
    using assms(2) by (simp add: list_all_length nth_enumerate_eq)
  then have c: "rb \<le> pl_stride ?p" "rows > 0 \<Longrightarrow> sat_u 64 (pl_stride ?p * rows) \<le> length (pl_data ?p)"
    by (simp_all add: check_plane_Inr g)
  have len: "length (pl_data ?p) < 2 ^ 63" using assms(2,3) by simp
  have "rows * pl_stride ?p \<le> length (pl_data ?p)"
    using c(2) len by (cases "rows > 0") (auto simp: sat_u_def min_def mult.commute split: if_splits)
  then show ?thesis
    using c(1) len assms(2)
    by (intro that [of "\<lparr>pr_data = pl_data ?p, pr_stride = pl_stride ?p, pr_rows = rows, pr_row_bytes = rb\<rparr>"])
      (simp_all add: fr plane_view_video g view_ok_def min_absorb1)
qed

lemma video_geometry_eq:
  "i < 256 \<Longrightarrow> video_geometry f width height i = (aligned_stride f width i, plane_height f height i, min_stride f width i)"
  by (simp add: video_geometry_def aligned_stride_def Let_def)

lemma alloc_video_checked:
  assumes "alloc_video grow addr f width height b = (Inr fr, b')"
  obtains planes where "fr = from_data (Video f width height planes)" "length planes = pf_planes f"
    "\<And>i. i < pf_planes f \<Longrightarrow> planes ! i = \<lparr>pl_data = replicate (aligned_stride f width i * plane_height f height i) 0,
       pl_stride = aligned_stride f width i\<rparr>"
    "video_from_planes f width height planes = Inr fr"
proof -
  note A = alloc_video_Inr [OF assms]
  let ?planes = "map (\<lambda>i. \<lparr>pl_data = replicate (aligned_stride f width i * plane_height f height i) (0 :: u8),
       pl_stride = aligned_stride f width i\<rparr>) [0..<pf_planes f]"
  have "check_plane f width height (i, ?planes ! i) () = Inr ()" if "i < pf_planes f" for i
    using A(2) [OF that] that sat_u_le(2) [of 64 "aligned_stride f width i * plane_height f height i"]
    by (simp add: check_plane_Inr video_geometry_eq)
  then have "list_all (\<lambda>p. check_plane f width height p () = Inr ()) (List.enumerate 0 ?planes)"
    by (simp add: list_all_length nth_enumerate_eq)
  then have "video_from_planes f width height ?planes = Inr fr"
    using A(1) by (simp add: video_from_planes_def and_then_Inr check_plane_loop)
  then show ?thesis using A(1) by (intro that [of ?planes]) simp_all
qed

text \<open>
  C25. An allocated frame has the rows its format asks for: every plane has a stride that is the
  smallest multiple of 64 above a row, a view with as many rows as the format says, each of them
  \<open>min_stride\<close> zero bytes long, and none beyond; iterating over the rows gives exactly these; and
  the frame is one the constructor for foreign planes accepts.
\<close>

theorem frames_have_rows:
  assumes "alloc_video grow addr f width height b = (Inr fr, b')"
    "\<forall>p \<in> set (planes_slice fr). length (pl_data p) < 2 ^ 63"
  shows "video_from_planes f width height (planes_slice fr) = Inr fr \<and> length (planes_slice fr) = pf_planes f \<and>
    pf_planes f \<le> 4 \<and> pixel_format fr = Some f \<and> dimensions fr = Some (width, height) \<and>
    (\<forall>i. plane_view i fr = None \<longleftrightarrow> pf_planes f \<le> i) \<and>
    (\<forall>i v. plane_view i fr = Some v \<longrightarrow> view_ok v \<and> pr_rows v = plane_height f height i \<and>
       pr_row_bytes v = min_stride f width i \<and> pr_stride v mod ALIGN = 0 \<and>
       pr_row_bytes v \<le> pr_stride v \<and> pr_stride v < pr_row_bytes v + ALIGN \<and>
       (\<forall>y. pr_row y v = (if y < pr_rows v then Some (replicate (pr_row_bytes v) 0) else None)) \<and>
       map Some (pr_rows_iter v) = map (\<lambda>y. pr_row y v) [0..<pr_rows v])"
proof -
  obtain planes where P: "fr = from_data (Video f width height planes)" "length planes = pf_planes f"
    "\<And>i. i < pf_planes f \<Longrightarrow> planes ! i = \<lparr>pl_data = replicate (aligned_stride f width i * plane_height f height i) 0,
       pl_stride = aligned_stride f width i\<rparr>"
    "video_from_planes f width height planes = Inr fr"
    using alloc_video_checked [OF assms(1)] by metis
  have ps: "planes_slice fr = planes" by (simp add: P(1) planes_slice_def from_data_def)
  note A = alloc_video_Inr(2) [OF assms(1)]
  have four: "pf_planes f \<le> 4" using A [of "pf_planes f - 1"] by (cases "pf_planes f") auto
  have none: "plane_view i fr = None \<longleftrightarrow> pf_planes f \<le> i" for i
    using P(2) by (simp add: P(1) plane_view_video split: prod.split)
  have "view_ok v \<and> pr_rows v = plane_height f height i \<and> pr_row_bytes v = min_stride f width i \<and>
       pr_stride v mod ALIGN = 0 \<and> pr_row_bytes v \<le> pr_stride v \<and> pr_stride v < pr_row_bytes v + ALIGN \<and>
       (\<forall>y. pr_row y v = (if y < pr_rows v then Some (replicate (pr_row_bytes v) 0) else None)) \<and>
       map Some (pr_rows_iter v) = map (\<lambda>y. pr_row y v) [0..<pr_rows v]" if v: "plane_view i fr = Some v" for i v
  proof -
    have i: "i < pf_planes f" using none [of i] v by (cases "pf_planes f \<le> i") simp_all
    then obtain v' where V: "plane_view i fr = Some v'" "view_ok v'" "pr_data v' = pl_data (planes ! i)"
      "pr_stride v' = pl_stride (planes ! i)" "(pr_rows v', pr_row_bytes v') = snd (video_geometry f width height i)"
      using checked_views [OF P(4)] P(2) assms(2) ps by metis
    have [simp]: "v' = v" using V(1) v by simp
    have i256: "i < 256" using i four by simp
    have geo: "pr_stride v = aligned_stride f width i" "pr_rows v = plane_height f height i"
      "pr_row_bytes v = min_stride f width i"
      "pr_data v = replicate (aligned_stride f width i * plane_height f height i) 0"
      using V(3-5) P(3) [OF i] video_geometry_eq [OF i256] by simp_all
    have row: "pr_row y v = (if y < pr_rows v then Some (replicate (pr_row_bytes v) 0) else None)" for y
    proof (cases "y < pr_rows v")
      case True
      then have "min_stride f width i \<le> aligned_stride f width i * plane_height f height i - y * aligned_stride f width i"
        using row_inside [of v y] V(2) geo by (simp add: mult.commute [of "aligned_stride f width i"])
      then show ?thesis using V(2) geo by (simp add: pr_row_eq min_absorb2)
    qed (use V(2) in \<open>simp add: pr_row_eq\<close>)
    have "map Some (pr_rows_iter v) = map (\<lambda>y. pr_row y v) [0..<pr_rows v]"
      using V(2) by (simp add: pr_rows_iter_eq rows_of_def pr_row_eq)
    then show ?thesis using V(2) geo A [OF i] row by simp
  qed
  moreover have "pixel_format fr = Some f" "dimensions fr = Some (width, height)"
    by (simp_all add: P(1) pixel_format_def dimensions_def from_data_def)
  ultimately show ?thesis unfolding ps using P(2,4) none four by blast
qed

theorem frames_have_rows_witness:
  "\<exists>fr b' v. alloc_video Some (\<lambda>_. 0) RGB24 2 1 (bd_new default_limits) = (Inr fr, b') \<and> plane_view 0 fr = Some v \<and>
     pr_row 0 v = Some [0, 0, 0, 0, 0, 0] \<and> pr_row 1 v = None"
proof -
  obtain fr b' where a: "alloc_video Some (\<lambda>_. 0) RGB24 2 1 (bd_new default_limits) = (Inr fr, b')"
    by (simp add: alloc_video_def is_hw_def pf_has_def pf_flag_defs RGB24_def check_frame_def bd_new_def
        default_limits_def strict_def MIB_def Let_def checked_u_def fits_u_def compute_layout_def ALIGN_def
        is_power_of_two_def layout_step_def min_stride_def row_samples_def cpt_def checked_next_multiple_of_def
        and_then_def ok_or_def plane_height_def chroma_plane_def get_at_def buf_alloc_def ab_alloc_def raw_len_def
        bd_alloc_def reserve_array_def byte_size_def reserve_def bd_check_def res_alloc_def)
  have len: "\<forall>p \<in> set (planes_slice fr). length (pl_data p) < 2 ^ 63"
    using alloc_video_Inr(1) [OF a]
    by (simp add: planes_slice_def from_data_def RGB24_def aligned_stride_def min_stride_def pf_has_def
        pf_flag_defs row_samples_def cpt_def plane_height_def chroma_plane_def ALIGN_def)
  note W = frames_have_rows [OF a len]
  have "pf_planes RGB24 = 1" by (simp add: RGB24_def)
  then have "\<not> pf_planes RGB24 \<le> 0" by simp
  then have "plane_view 0 fr \<noteq> None" using W by blast
  then obtain v where v: "plane_view 0 fr = Some v" by blast
  have g: "plane_height RGB24 1 0 = 1" "min_stride RGB24 2 0 = 6"
    by (simp_all add: RGB24_def min_stride_def pf_has_def pf_flag_defs row_samples_def cpt_def plane_height_def
        chroma_plane_def)
  have "pr_rows v = 1" "pr_row_bytes v = 6"
    and R: "\<forall>y. pr_row y v = (if y < pr_rows v then Some (replicate (pr_row_bytes v) 0) else None)"
    using W v g by metis+
  then have "pr_row 0 v = Some [0, 0, 0, 0, 0, 0]" "pr_row 1 v = None" by (simp_all add: numeral_eq_Suc)
  then show ?thesis using a v by blast
qed

text \<open>
  C26. The rows of a plane are separate: in a frame whose planes were checked, every row of a view
  can be written, and writing one changes that row and no other byte of the plane; filling a
  plane sets every row and leaves the padding between rows alone; and splitting a plane into
  bands cuts the same rows, in order, into valid views, at most \<open>n\<close> of them when the plane has
  no bytes beyond its rows.
\<close>

theorem rows_are_separate:
  assumes "video_from_planes f width height planes = Inr fr" "\<forall>p \<in> set planes. length (pl_data p) < 2 ^ 63"
    "plane_view i fr = Some v"
  shows "(\<forall>y g. (\<forall>xs. length (g xs) = length xs) \<longrightarrow>
      (case pm_row_write y g v of
         None \<Rightarrow> pr_rows v \<le> y
       | Some q \<Rightarrow> y < pr_rows v \<and> view_ok q \<and>
           (\<forall>z. pr_row z q = (if z = y then map_option g (pr_row z v) else pr_row z v)) \<and>
           (\<forall>k < length (pr_data v). k < y * pr_stride v \<or> y * pr_stride v + pr_row_bytes v \<le> k \<longrightarrow>
              pr_data q ! k = pr_data v ! k))) \<and>
    (\<forall>y. pr_row y (pm_fill c v) = (if y < pr_rows v then Some (replicate (pr_row_bytes v) c) else None)) \<and>
    (\<forall>k < length (pr_data v). pr_row_bytes v \<le> k mod pr_stride v \<longrightarrow> pr_data (pm_fill c v) ! k = pr_data v ! k) \<and>
    concat (map pr_rows_iter (split_bands n v)) = pr_rows_iter v \<and> list_all view_ok (split_bands n v) \<and>
    (length (pr_data v) = pr_rows v * pr_stride v \<longrightarrow> length (split_bands n v) \<le> max n 1)"
proof -
  have "fr = from_data (Video f width height planes)"
    using assms(1) by (auto simp: video_from_planes_def and_then_Inr split: if_splits)
  then have "i < length planes" using assms(3) by (simp add: plane_view_video split: if_splits)
  then have ok: "view_ok v" using checked_views [OF assms(1) _ assms(2)] assms(3) by (metis option.inject)
  have write1: "case pm_row_write y g v of
         None \<Rightarrow> pr_rows v \<le> y
       | Some q \<Rightarrow> y < pr_rows v \<and> view_ok q \<and>
           (\<forall>z. pr_row z q = (if z = y then map_option g (pr_row z v) else pr_row z v)) \<and>
           (\<forall>k < length (pr_data v). k < y * pr_stride v \<or> y * pr_stride v + pr_row_bytes v \<le> k \<longrightarrow>
              pr_data q ! k = pr_data v ! k)" if len: "\<forall>xs. length (g xs) = length xs" for y g
  proof (cases "pm_row_write y g v")
    case None
    then show ?thesis using row_write [OF ok, of y g] len by (metis not_le option.distinct(1) option.simps(4))
  next
    case (Some q)
    have len': "\<And>xs. length (g xs) = length xs" using len by blast
    show ?thesis using row_write_row [OF ok Some len'] Some by auto
  qed
  have F: "view_ok (pm_fill c v) \<and> pr_rows (pm_fill c v) = pr_rows v \<and> pr_stride (pm_fill c v) = pr_stride v \<and>
    pr_row_bytes (pm_fill c v) = pr_row_bytes v \<and> length (pr_data (pm_fill c v)) = length (pr_data v) \<and>
    (\<forall>y. pr_row y (pm_fill c v) = (if y < pr_rows v then Some (replicate (pr_row_bytes v) c) else pr_row y v)) \<and>
    (\<forall>k < length (pr_data v). pr_row_bytes v \<le> k mod pr_stride v \<longrightarrow> pr_data (pm_fill c v) ! k = pr_data v ! k)"
    by (rule fill_rows [OF ok le_refl pm_fill_def])
  have "pr_row y v = None" if "\<not> y < pr_rows v" for y using that by (simp add: pr_row_def)
  then show ?thesis using write1 F split_bands_rows [OF ok] split_bands_count [OF ok] by simp
qed

theorem rows_are_separate_witness:
  "case video_from_planes RGB24 1 2 [\<lparr>pl_data = [1, 2, 3, 9, 4, 5, 6, 9], pl_stride = 4\<rparr>] of
     Inl _ \<Rightarrow> False
   | Inr fr \<Rightarrow> (case plane_view 0 fr of
       None \<Rightarrow> False
     | Some v \<Rightarrow> pr_row 1 (pm_fill 7 v) = Some [7, 7, 7] \<and> concat (map pr_rows_iter (split_bands 2 v)) = pr_rows_iter v)"
proof -
  let ?ps = "[\<lparr>pl_data = [1, 2, 3, 9, 4, 5, 6, 9 :: u8], pl_stride = 4\<rparr>]"
  have g: "video_geometry RGB24 1 2 0 = (64, 2, 3)"
    by (simp add: video_geometry_def RGB24_def min_stride_def pf_has_def pf_flag_defs row_samples_def cpt_def
        plane_height_def chroma_plane_def ALIGN_def Let_def)
  have np: "pf_planes RGB24 = 1" by (simp add: RGB24_def)
  have vf: "video_from_planes RGB24 1 2 ?ps = Inr (from_data (Video RGB24 1 2 ?ps))"
    using np g by (simp add: video_from_planes_def check_plane_def sat_u_def and_then_def)
  have pv: "plane_view 0 (from_data (Video RGB24 1 2 ?ps)) =
      Some \<lparr>pr_data = [1, 2, 3, 9, 4, 5, 6, 9], pr_stride = 4, pr_rows = 2, pr_row_bytes = 3\<rparr>"
    using g by (simp add: plane_view_video)
  have "\<forall>p \<in> set ?ps. length (pl_data p) < 2 ^ 63" by simp
  note W = rows_are_separate [OF vf this pv, of 7 2]
  let ?v = "\<lparr>pr_data = [1, 2, 3, 9, 4, 5, 6, 9 :: u8], pr_stride = 4, pr_rows = 2, pr_row_bytes = 3\<rparr>"
  have "\<forall>y. pr_row y (pm_fill 7 ?v) = (if y < pr_rows ?v then Some (replicate (pr_row_bytes ?v) 7) else None)"
    and bands: "concat (map pr_rows_iter (split_bands 2 ?v)) = pr_rows_iter ?v"
    using W by blast+
  then have "pr_row 1 (pm_fill 7 ?v) = (if 1 < pr_rows ?v then Some (replicate (pr_row_bytes ?v) 7) else None)" by blast
  also have "\<dots> = Some [7, 7, 7]" by (simp add: numeral_eq_Suc)
  finally show ?thesis unfolding vf sum.case pv option.case using bands by blast
qed

end
