(* ===== verification/Codec_Qoi.thy ===== *)
theory Codec_Qoi
  imports Io_Writer Model_Frame Codec_Protocol
begin

text \<open>
  The QOI codec (\<^verbatim>\<open>crates/codec/vaco-codec-qoi/src\<close>: \<^verbatim>\<open>reader.rs\<close>, \<^verbatim>\<open>codec.rs\<close>,
  \<^verbatim>\<open>lib.rs\<close>): the chunk stream over the running array of 64 pixels, the image codec over frames,
  and the two codecs of the send/receive protocol.

  Differences are computed in \<^verbatim>\<open>i16\<close> and truncated to bytes by the decoder, and in wrapping
  \<^verbatim>\<open>i8\<close> by the encoder: they are integers cast by \<open>word_of_int\<close> and bytes read by \<open>sint\<close>.
\<close>

section \<open>The reader\<close>

record qoi_reader =
  rd_data :: "u8 list"
  rd_pos :: nat

definition rd_new :: "u8 list \<Rightarrow> qoi_reader" where
  "rd_new data = \<lparr>rd_data = data, rd_pos = 0\<rparr>"

definition rd_u8 :: "qoi_reader \<Rightarrow> codec_error + u8 \<times> qoi_reader" where
  "rd_u8 r =
     and_then (ok_or UnexpectedEof (get_at (rd_data r) (rd_pos r))) (\<lambda>b. Inr (b, r\<lparr>rd_pos := rd_pos r + 1\<rparr>))"

definition rd_bytes :: "nat \<Rightarrow> qoi_reader \<Rightarrow> codec_error + u8 list \<times> qoi_reader" where
  "rd_bytes n r =
     and_then (ok_or UnexpectedEof (checked_u 64 (rd_pos r + n))) (\<lambda>stop.
     and_then (ok_or UnexpectedEof (slice_range (rd_data r) (rd_pos r) stop)) (\<lambda>out.
       Inr (out, r\<lparr>rd_pos := stop\<rparr>)))"

definition rd_u32_be :: "qoi_reader \<Rightarrow> codec_error + u32 \<times> qoi_reader" where
  "rd_u32_be r = and_then (rd_bytes 4 r) (\<lambda>(b, r). Inr (from_be b, r))"

section \<open>Pixels and the running array\<close>

definition MAGIC :: "u8 list" where "MAGIC = [0x71, 0x6F, 0x69, 0x66]"
definition END_MARKER :: "u8 list" where "END_MARKER = [0, 0, 0, 0, 0, 0, 0, 1]"
definition RUN_MAX :: nat where "RUN_MAX = 62"

type_synonym px = "u8 \<times> u8 \<times> u8 \<times> u8"

definition START_PIXEL :: px where "START_PIXEL = (0, 0, 0, 255)"

fun px_hash :: "px \<Rightarrow> nat" where
  "px_hash (r, g, b, a) = (unat r * 3 + unat g * 5 + unat b * 7 + unat a * 11) mod 64"

type_synonym qoi_table = "px list"

definition qt_new :: qoi_table where
  "qt_new = replicate 64 (0, 0, 0, 0)"

definition qt_get :: "nat \<Rightarrow> qoi_table \<Rightarrow> px" where
  "qt_get i t = (case get_at t i of Some p \<Rightarrow> p | None \<Rightarrow> (0, 0, 0, 0))"

definition qt_set :: "nat \<Rightarrow> px \<Rightarrow> qoi_table \<Rightarrow> qoi_table" where
  "qt_set i p t = (if i < length t then t[i := p] else t)"

definition write_pixel :: "nat \<Rightarrow> u8 list \<Rightarrow> u8 list \<Rightarrow> codec_error + u8 list" where
  "write_pixel off bytes buf =
     (let stop = sat_u 64 (off + length bytes)
      in and_then (ok_or (InvalidData ''qoi: pixel write out of bounds'') (slice_range buf off stop)) (\<lambda>_.
         Inr (take off buf @ bytes @ drop stop buf)))"

definition read_pixel :: "u8 list \<Rightarrow> nat \<Rightarrow> nat \<Rightarrow> codec_error + u8 list" where
  "read_pixel buf off n =
     ok_or (InvalidData ''qoi: pixel read out of bounds'') (slice_range buf off (sat_u 64 (off + n)))"

section \<open>The header\<close>

record qoi_header =
  hd_width :: nat
  hd_height :: nat
  hd_format :: pix_fmt
  hd_channel_bytes :: nat

definition read_header :: "qoi_reader \<Rightarrow> codec_error + qoi_header \<times> qoi_reader" where
  "read_header r =
     and_then (rd_bytes 4 r) (\<lambda>(magic, r).
     if magic \<noteq> MAGIC then Inl (InvalidData ''qoi: bad magic'')
     else and_then (rd_u32_be r) (\<lambda>(width, r).
     and_then (rd_u32_be r) (\<lambda>(height, r).
     and_then (rd_u8 r) (\<lambda>(channels, r).
     and_then (rd_u8 r) (\<lambda>(_, r).
     if width = 0 \<or> height = 0 then Inl (InvalidData ''qoi: zero-sized image'')
     else and_then (if channels = 3 then Inr (RGB24, 3)
                    else if channels = 4 then Inr (RGBA, 4)
                    else Inl (InvalidData ''qoi: channels must be 3 or 4'')) (\<lambda>(f, n).
       Inr (\<lparr>hd_width = unat width, hd_height = unat height, hd_format = f, hd_channel_bytes = n\<rparr>, r)))))))"

text \<open>\<^verbatim>\<open>parameters\<close>: the dimensions and the format of the stream description.\<close>

definition parameters :: "u8 list \<Rightarrow> (nat \<times> nat \<times> pix_fmt) option" where
  "parameters data =
     (case read_header (rd_new data) of
        Inl _ \<Rightarrow> None
      | Inr (h, _) \<Rightarrow> Some (hd_width h, hd_height h, hd_format h))"

section \<open>Decoding\<close>

record qoi_dec =
  dq_reader :: qoi_reader
  dq_table :: qoi_table
  dq_prev :: px
  dq_run :: nat

definition dq_set :: "qoi_reader \<Rightarrow> px \<Rightarrow> qoi_dec \<Rightarrow> qoi_dec" where
  "dq_set r p d = d\<lparr>dq_reader := r, dq_table := qt_set (px_hash p) p (dq_table d), dq_prev := p\<rparr>"

definition chunk_rgb :: "qoi_reader \<Rightarrow> qoi_dec \<Rightarrow> codec_error + qoi_dec" where
  "chunk_rgb r d =
     and_then (rd_bytes 3 r) (\<lambda>(rgb, r). case (rgb, dq_prev d) of
       ([nr, ng, nb], (_, _, _, pa)) \<Rightarrow> Inr (dq_set r (nr, ng, nb, pa) d) | _ \<Rightarrow> Inl UnexpectedEof)"

definition chunk_rgba :: "qoi_reader \<Rightarrow> qoi_dec \<Rightarrow> codec_error + qoi_dec" where
  "chunk_rgba r d =
     and_then (rd_bytes 4 r) (\<lambda>(rgba, r). case rgba of
       [nr, ng, nb, na] \<Rightarrow> Inr (dq_set r (nr, ng, nb, na) d) | _ \<Rightarrow> Inl UnexpectedEof)"

definition chunk_diff :: "u8 \<Rightarrow> qoi_reader \<Rightarrow> qoi_dec \<Rightarrow> codec_error + qoi_dec" where
  "chunk_diff t r d =
     (case dq_prev d of (pr, pg, pb, pa) \<Rightarrow>
        let dr = uint (drop_bit 4 t AND 0x03) - 2; dg = uint (drop_bit 2 t AND 0x03) - 2; db = uint (t AND 0x03) - 2
        in Inr (dq_set r (pr + word_of_int dr, pg + word_of_int dg, pb + word_of_int db, pa) d))"

definition chunk_luma :: "u8 \<Rightarrow> qoi_reader \<Rightarrow> qoi_dec \<Rightarrow> codec_error + qoi_dec" where
  "chunk_luma t r d =
     and_then (rd_u8 r) (\<lambda>(b2, r). case dq_prev d of (pr, pg, pb, pa) \<Rightarrow>
        let vg = uint (t AND 0x3F) - 32; vr = vg - 8 + uint (drop_bit 4 b2 AND 0x0F); vb = vg - 8 + uint (b2 AND 0x0F)
        in Inr (dq_set r (pr + word_of_int vr, pg + word_of_int vg, pb + word_of_int vb, pa) d))"

definition next_pixel :: "qoi_dec \<Rightarrow> codec_error + qoi_dec" where
  "next_pixel d =
     (if dq_run d > 0 then Inr (d\<lparr>dq_run := dq_run d - 1\<rparr>)
      else and_then (rd_u8 (dq_reader d)) (\<lambda>(t, r).
        if t = 0xFE then chunk_rgb r d
        else if t = 0xFF then chunk_rgba r d
        else if drop_bit 6 t = 0 then Inr (dq_set r (qt_get (unat (t AND 0x3F)) (dq_table d)) d)
        else if drop_bit 6 t = 1 then chunk_diff t r d
        else if drop_bit 6 t = 2 then chunk_luma t r d
        else Inr (d\<lparr>dq_reader := r, dq_run := unat (t AND 0x3F)\<rparr>)))"

fun px_bytes :: "nat \<Rightarrow> px \<Rightarrow> u8 list" where
  "px_bytes n (r, g, b, a) = (if n = 4 then [r, g, b, a] else [r, g, b])"

definition px_offset :: "nat \<Rightarrow> nat \<Rightarrow> nat \<Rightarrow> nat \<Rightarrow> nat" where
  "px_offset stride n y x = sat_u 64 (sat_u 64 (y * stride) + sat_u 64 (x * n))"

definition decode_pixel :: "nat \<Rightarrow> nat \<Rightarrow> nat \<Rightarrow> nat \<Rightarrow> qoi_dec \<times> u8 list \<Rightarrow> codec_error + qoi_dec \<times> u8 list" where
  "decode_pixel stride n y x = (\<lambda>(d, buf).
     and_then (next_pixel d) (\<lambda>d.
     and_then (write_pixel (px_offset stride n y x) (px_bytes n (dq_prev d)) buf) (\<lambda>buf. Inr (d, buf))))"

definition decode_image :: "qoi_header \<Rightarrow> nat \<Rightarrow> qoi_reader \<Rightarrow> u8 list \<Rightarrow> codec_error + u8 list" where
  "decode_image h stride r buf =
     and_then (for_each (\<lambda>y. for_each (decode_pixel stride (hd_channel_bytes h) y) [0..<hd_width h]) [0..<hd_height h]
       (\<lparr>dq_reader = r, dq_table = qt_new, dq_prev = START_PIXEL, dq_run = 0\<rparr>, buf)) (\<lambda>(d, buf).
     and_then (rd_bytes (length END_MARKER) (dq_reader d)) (\<lambda>(marker, _).
     if marker \<noteq> END_MARKER then Inl (InvalidData ''qoi: missing end marker'') else Inr buf))"

definition qoi_decode :: "(nat \<Rightarrow> nat option) \<Rightarrow> (nat \<Rightarrow> nat) \<Rightarrow> u8 list \<Rightarrow> budget \<Rightarrow> frame checked" where
  "qoi_decode grow addr data b =
     (case read_header (rd_new data) of
        Inl e \<Rightarrow> (Inl e, b)
      | Inr (h, r) \<Rightarrow>
          (case alloc_video grow addr (hd_format h) (hd_width h) (hd_height h) b of
             (Inl e, b') \<Rightarrow> (Inl e, b')
           | (Inr fr, b') \<Rightarrow>
               (case fr_data fr of
                  Video f width height planes \<Rightarrow>
                    (case get_at planes 0 of
                       None \<Rightarrow> Inl (InvalidData ''qoi: no plane 0'')
                     | Some p \<Rightarrow> and_then (decode_image h (pl_stride p) r (pl_data p)) (\<lambda>buf.
                         Inr (fr\<lparr>fr_data := Video f width height (planes[0 := p\<lparr>pl_data := buf\<rparr>])\<rparr>)))
                | _ \<Rightarrow> Inl (InvalidData ''qoi: expected a video frame''), b')))"

section \<open>Encoding\<close>

record qoi_enc =
  eq_out :: "u8 list"
  eq_table :: qoi_table
  eq_prev :: px
  eq_run :: nat
  eq_seen :: nat

definition run_chunk :: "nat \<Rightarrow> u8" where
  "run_chunk run = 0xC0 OR word_of_nat (run - 1)"

definition in_range :: "int \<Rightarrow> int \<Rightarrow> u8 \<Rightarrow> bool" where
  "in_range lo hi v \<longleftrightarrow> lo \<le> sint v \<and> sint v \<le> hi"

text \<open>The chunk of a pixel that is neither the previous one nor in the array.\<close>

definition colour_chunk :: "px \<Rightarrow> px \<Rightarrow> u8 list" where
  "colour_chunk p prev = (case (p, prev) of ((r, g, b, a), (pr, pg, pb, pa)) \<Rightarrow>
     if a = pa then
       (let vr = r - pr; vg = g - pg; vb = b - pb; vg_r = vr - vg; vg_b = vb - vg
        in if in_range (-2) 1 vr \<and> in_range (-2) 1 vg \<and> in_range (-2) 1 vb
           then [0x40 OR push_bit 4 (vr + 2) OR push_bit 2 (vg + 2) OR (vb + 2)]
           else if in_range (-32) 31 vg \<and> in_range (-8) 7 vg_r \<and> in_range (-8) 7 vg_b
           then [0x80 OR (vg + 32), push_bit 4 (vg_r + 8) OR (vg_b + 8)]
           else [0xFE, r, g, b])
     else [0xFF, r, g, b, a])"

definition encode_pixel :: "nat \<Rightarrow> px \<Rightarrow> qoi_enc \<Rightarrow> qoi_enc" where
  "encode_pixel total_pixels p s =
     (let s = s\<lparr>eq_seen := eq_seen s + 1\<rparr>
      in if p = eq_prev s
         then let s = s\<lparr>eq_run := eq_run s + 1\<rparr>
              in if eq_run s = RUN_MAX \<or> eq_seen s = total_pixels
                 then s\<lparr>eq_out := eq_out s @ [run_chunk (eq_run s)], eq_run := 0\<rparr> else s
         else
           let s = (if eq_run s > 0 then s\<lparr>eq_out := eq_out s @ [run_chunk (eq_run s)], eq_run := 0\<rparr> else s);
               idx = px_hash p;
               s = (if qt_get idx (eq_table s) = p then s\<lparr>eq_out := eq_out s @ [word_of_nat idx]\<rparr>
                    else s\<lparr>eq_table := qt_set idx p (eq_table s),
                           eq_out := eq_out s @ colour_chunk p (eq_prev s)\<rparr>)
           in s\<lparr>eq_prev := p\<rparr>)"

definition sample_px :: "nat \<Rightarrow> u8 list \<Rightarrow> codec_error + px" where
  "sample_px channels s =
     (if channels = 4 then (case s of [r, g, b, a] \<Rightarrow> Inr (r, g, b, a) | _ \<Rightarrow> Inl (InvalidData ''qoi: short pixel''))
      else (case s of [r, g, b] \<Rightarrow> Inr (r, g, b, 255) | _ \<Rightarrow> Inl (InvalidData ''qoi: short pixel'')))"

definition encode_sample :: "u8 list \<Rightarrow> nat \<Rightarrow> nat \<Rightarrow> nat \<Rightarrow> nat \<Rightarrow> nat \<Rightarrow> qoi_enc \<Rightarrow> codec_error + qoi_enc" where
  "encode_sample src stride n total_pixels y x s =
     and_then (read_pixel src (px_offset stride n y x) n) (\<lambda>sample.
     and_then (sample_px n sample) (\<lambda>p. Inr (encode_pixel total_pixels p s)))"

definition qoi_encode :: "frame \<Rightarrow> codec_error + u8 list" where
  "qoi_encode fr =
     (case fr_data fr of
        Video f width height planes \<Rightarrow>
          and_then (if f = RGB24 then Inr 3 else if f = RGBA then Inr 4
                    else Inl (Unsupported ''qoi: encoder needs rgb24 or rgba input'')) (\<lambda>channels.
          if width = 0 \<or> height = 0 then Inl (InvalidData ''qoi: zero-sized image'')
          else and_then (ok_or (InvalidData ''qoi: no plane 0'') (get_at planes 0)) (\<lambda>p.
            let header = MAGIC @ to_be_bytes 4 (word_of_nat width :: u32) @ to_be_bytes 4 (word_of_nat height :: u32) @
                  [word_of_nat channels, 0]
            in and_then (for_each (\<lambda>y. for_each (encode_sample (pl_data p) (pl_stride p) channels (width * height) y)
                   [0..<width]) [0..<height]
                 \<lparr>eq_out = header, eq_table = qt_new, eq_prev = START_PIXEL, eq_run = 0, eq_seen = 0\<rparr>) (\<lambda>s.
               Inr (eq_out s @ END_MARKER))))
      | _ \<Rightarrow> Inl (InvalidData ''qoi: expected a video frame''))"

section \<open>Tags and differences\<close>

text \<open>A statement about a byte is checked on all of them.\<close>

lemma word_of_unat: "word_of_nat (unat w) = (w :: 'a :: len word)"
  by simp

lemma small_byte_cases: "list_all (\<lambda>n. P (word_of_nat n)) [0..<k] \<Longrightarrow> unat w < k \<Longrightarrow> P (w :: u8)"
  unfolding list_all_iff by (metis atLeastLessThan_iff set_upt word_of_unat zero_le)

lemma byte_cases: "list_all (\<lambda>n. P (word_of_nat n)) [0..<256] \<Longrightarrow> P (w :: u8)"
  using unsigned_less [of w] by (intro small_byte_cases [of P 256 w]) simp_all

lemma index_tag:
  assumes "i < 64"
  shows "(word_of_nat i :: u8) \<noteq> 0xFE \<and> (word_of_nat i :: u8) \<noteq> 0xFF \<and> drop_bit 6 (word_of_nat i :: u8) = 0 \<and>
    unat ((word_of_nat i :: u8) AND 0x3F) = i"
proof -
  have "list_all (\<lambda>i. (word_of_nat i :: u8) \<noteq> 0xFE \<and> (word_of_nat i :: u8) \<noteq> 0xFF \<and>
      drop_bit 6 (word_of_nat i :: u8) = 0 \<and> unat ((word_of_nat i :: u8) AND 0x3F) = i) [0..<64]" by code_simp
  then show ?thesis using assms by (simp add: list_all_iff)
qed

lemma run_tag:
  assumes "1 \<le> n" "n \<le> 62"
  shows "run_chunk n \<noteq> 0xFE \<and> run_chunk n \<noteq> 0xFF \<and> drop_bit 6 (run_chunk n) = 3 \<and> unat (run_chunk n AND 0x3F) = n - 1"
proof -
  have "list_all (\<lambda>n. run_chunk n \<noteq> 0xFE \<and> run_chunk n \<noteq> 0xFF \<and> drop_bit 6 (run_chunk n) = 3 \<and>
      unat (run_chunk n AND 0x3F) = n - 1) [1..<63]" by code_simp
  then show ?thesis using assms by (simp add: list_all_iff)
qed

definition diff_tag :: "u8 \<Rightarrow> u8 \<Rightarrow> u8 \<Rightarrow> u8" where
  "diff_tag a b c = 0x40 OR push_bit 4 a OR push_bit 2 b OR c"

lemma diff_tag:
  assumes "unat a < 4" "unat b < 4" "unat c < 4"
  shows "diff_tag a b c \<noteq> 0xFE \<and> diff_tag a b c \<noteq> 0xFF \<and> drop_bit 6 (diff_tag a b c) = 1 \<and>
    drop_bit 4 (diff_tag a b c) AND 0x03 = a \<and> drop_bit 2 (diff_tag a b c) AND 0x03 = b \<and> diff_tag a b c AND 0x03 = c"
proof -
  have "list_all (\<lambda>a. list_all (\<lambda>b. list_all (\<lambda>c. let a = word_of_nat a; b = word_of_nat b; c = word_of_nat c; t = diff_tag a b c in
      t \<noteq> 0xFE \<and> t \<noteq> 0xFF \<and> drop_bit 6 t = 1 \<and> drop_bit 4 t AND 0x03 = a \<and> drop_bit 2 t AND 0x03 = b \<and>
      t AND 0x03 = c) [0..<4]) [0..<4]) [0..<4]" by code_simp
  then have "let t = diff_tag (word_of_nat (unat a)) (word_of_nat (unat b)) (word_of_nat (unat c)) in
      t \<noteq> 0xFE \<and> t \<noteq> 0xFF \<and> drop_bit 6 t = 1 \<and> drop_bit 4 t AND 0x03 = a \<and> drop_bit 2 t AND 0x03 = b \<and> t AND 0x03 = c"
    using assms unfolding list_all_iff Let_def by (metis atLeastLessThan_iff set_upt word_of_unat zero_le)
  then show ?thesis by (simp add: Let_def)
qed

lemma luma_tag:
  assumes "unat g < 64"
  shows "0x80 OR g \<noteq> (0xFE :: u8) \<and> 0x80 OR g \<noteq> 0xFF \<and> drop_bit 6 (0x80 OR g) = 2 \<and> (0x80 OR g) AND 0x3F = g"
  by (rule small_byte_cases [OF _ assms]) code_simp

lemma luma_byte:
  assumes "unat (hi :: u8) < 16" "unat (lo :: u8) < 16"
  shows "drop_bit 4 (push_bit 4 hi OR lo) AND 0x0F = hi \<and> (push_bit 4 hi OR lo) AND 0x0F = lo"
proof -
  have m: "(0x0F :: u8) = mask 4" by (simp add: mask_eq_exp_minus_1)
  have "take_bit 4 hi = hi" "take_bit 4 lo = lo"
    using assms by (simp_all add: word_unat_eq_iff unsigned_take_bit_eq take_bit_nat_eq_self)
  then have "bit hi n \<Longrightarrow> n < 4" "bit lo n \<Longrightarrow> n < 4" for n by (metis bit_take_bit_iff)+
  then show ?thesis unfolding m by (auto simp: bit_eq_iff bit_simps)
qed

lemma in_range_unat:
  assumes "in_range lo hi v" "0 \<le> hi - lo" "hi - lo < 256"
  shows "unat (v - word_of_int lo) \<le> nat (hi - lo)"
proof -
  have "v - word_of_int lo = word_of_int (sint v - lo)" by simp
  then have "uint (v - word_of_int lo) = (sint v - lo) mod 256"
    by (simp only: uint_word_of_int) simp
  moreover have "0 \<le> sint v - lo" "sint v - lo \<le> hi - lo" using assms(1) by (simp_all add: in_range_def)
  ultimately show ?thesis using assms(3) by (simp add: unat_eq_nat_uint)
qed

lemma in_range_small:
  "in_range (-2) 1 v \<Longrightarrow> unat (v + 2) < 4" "in_range (-32) 31 v \<Longrightarrow> unat (v + 32) < 64"
  "in_range (-8) 7 v \<Longrightarrow> unat (v + 8) < 16"
  using in_range_unat [of "-2" 1 v] in_range_unat [of "-32" 31 v] in_range_unat [of "-8" 7 v] by simp_all

section \<open>Chunks\<close>

text \<open>The bytes in front of a reader.\<close>

definition rd_ok :: "qoi_reader \<Rightarrow> bool" where
  "rd_ok r \<longleftrightarrow> rd_pos r \<le> length (rd_data r) \<and> length (rd_data r) < 2 ^ 64"

definition ahead :: "qoi_reader \<Rightarrow> u8 list" where
  "ahead r = drop (rd_pos r) (rd_data r)"

definition rd_skip :: "nat \<Rightarrow> qoi_reader \<Rightarrow> qoi_reader" where
  "rd_skip n r = r\<lparr>rd_pos := rd_pos r + n\<rparr>"

lemma rd_skip_add [simp]: "rd_skip n (rd_skip k r) = rd_skip (k + n) r" "rd_skip 0 r = r"
  by (simp_all add: rd_skip_def add.assoc)

lemma rd_data_skip [simp]: "rd_data (rd_skip n r) = rd_data r"
  by (simp add: rd_skip_def)

lemma ahead_skip [simp]: "ahead (rd_skip n r) = drop n (ahead r)"
  by (simp add: ahead_def rd_skip_def add.commute)

lemma rd_ok_skip: "rd_ok r \<Longrightarrow> n \<le> length (ahead r) \<Longrightarrow> rd_ok (rd_skip n r)"
  by (simp add: rd_ok_def rd_skip_def ahead_def) arith

lemma rd_u8_eq: "rd_u8 r = (case ahead r of [] \<Rightarrow> Inl UnexpectedEof | b # _ \<Rightarrow> Inr (b, rd_skip 1 r))"
proof (cases "rd_pos r < length (rd_data r)")
  case True
  then have "ahead r = rd_data r ! rd_pos r # drop (rd_pos r + 1) (rd_data r)"
    by (simp add: ahead_def Cons_nth_drop_Suc)
  then show ?thesis using True by (simp add: rd_u8_def get_at_def rd_skip_def ok_or_def)
qed (simp add: rd_u8_def get_at_def ahead_def ok_or_def)

lemma rd_bytes_eq:
  assumes "rd_ok r" "n < 2 ^ 32" "length (rd_data r) < 2 ^ 63"
  shows "rd_bytes n r = (if n \<le> length (ahead r) then Inr (take n (ahead r), rd_skip n r) else Inl UnexpectedEof)"
  using assms
  by (auto simp: rd_bytes_def rd_ok_def ahead_def rd_skip_def ok_or_def checked_u_def fits_u_def slice_range_def)

text \<open>The decoder's state before a pixel: the chunk bytes are ahead, no run is pending.\<close>

definition dq_ok :: "qoi_dec \<Rightarrow> bool" where
  "dq_ok d \<longleftrightarrow> rd_ok (dq_reader d) \<and> length (rd_data (dq_reader d)) < 2 ^ 63 \<and> length (dq_table d) = 64"

definition px_chunk :: "qoi_table \<Rightarrow> px \<Rightarrow> px \<Rightarrow> u8 list" where
  "px_chunk t prev p = (if qt_get (px_hash p) t = p then [word_of_nat (px_hash p)] else colour_chunk p prev)"

lemma px_hash_less [simp]: "px_hash p < 64"
  by (cases p) simp

lemma next_tag:
  assumes "dq_run d = 0" "ahead (dq_reader d) = t # rest"
  shows "next_pixel d = (let r = rd_skip 1 (dq_reader d) in
     if t = 0xFE then chunk_rgb r d
     else if t = 0xFF then chunk_rgba r d
     else if drop_bit 6 t = 0 then Inr (dq_set r (qt_get (unat (t AND 0x3F)) (dq_table d)) d)
     else if drop_bit 6 t = 1 then chunk_diff t r d
     else if drop_bit 6 t = 2 then chunk_luma t r d
     else Inr (d\<lparr>dq_reader := r, dq_run := unat (t AND 0x3F)\<rparr>))"
  using assms by (simp add: next_pixel_def rd_u8_eq Let_def)

lemma word_of_int_uint_minus: "word_of_int (uint w - k) = (w - word_of_int k :: 'a :: len word)"
  by simp

lemma chunk_luma_eq:
  assumes "ahead r = b2 # rest" "dq_prev d = (pr, pg, pb, pa)" "t AND 0x3F = vg + 32"
    "drop_bit 4 b2 AND 0x0F = hi" "b2 AND 0x0F = lo"
  shows "chunk_luma t r d = Inr (dq_set (rd_skip 1 r) (pr + (vg - 8 + hi), pg + vg, pb + (vg - 8 + lo), pa) d)"
proof -
  have i: "word_of_int (uint w - 32) = w - 32" "word_of_int (uint w - 32 - 8 + uint v) = w - 32 - 8 + v" for w v :: u8
    by simp_all
  show ?thesis
    unfolding chunk_luma_def rd_u8_eq assms(1) list.case and_then_simps prod.case Let_def assms(2-5) i by simp
qed

lemma next_colour:
  assumes "dq_ok d" "dq_run d = 0" "ahead (dq_reader d) = colour_chunk p (dq_prev d) @ rest"
  shows "next_pixel d = Inr (dq_set (rd_skip (length (colour_chunk p (dq_prev d))) (dq_reader d)) p d)"
proof -
  obtain r g b a pr pg pb pa where p: "p = (r, g, b, a)" and prev: "dq_prev d = (pr, pg, pb, pa)"
    by (metis prod_cases4)
  let ?vr = "r - pr" and ?vg = "g - pg" and ?vb = "b - pb"
  have R: "rd_ok (dq_reader d)" "length (rd_data (dq_reader d)) < 2 ^ 63" using assms(1) by (simp_all add: dq_ok_def)
  consider (diff) "a = pa" "in_range (-2) 1 ?vr" "in_range (-2) 1 ?vg" "in_range (-2) 1 ?vb"
    | (luma) "a = pa" "\<not> (in_range (-2) 1 ?vr \<and> in_range (-2) 1 ?vg \<and> in_range (-2) 1 ?vb)"
        "in_range (-32) 31 ?vg" "in_range (-8) 7 (?vr - ?vg)" "in_range (-8) 7 (?vb - ?vg)"
    | (rgb) "a = pa" "colour_chunk p (dq_prev d) = [0xFE, r, g, b]"
    | (rgba) "colour_chunk p (dq_prev d) = [0xFF, r, g, b, a]"
    by (simp add: colour_chunk_def p prev Let_def) metis
  then show ?thesis
  proof cases
    case diff
    then have c: "colour_chunk p (dq_prev d) = [diff_tag (?vr + 2) (?vg + 2) (?vb + 2)]"
      by (simp add: colour_chunk_def p prev diff_tag_def)
    note T = diff_tag [OF in_range_small(1) [OF diff(2)] in_range_small(1) [OF diff(3)] in_range_small(1) [OF diff(4)]]
    have "next_pixel d = chunk_diff (diff_tag (?vr + 2) (?vg + 2) (?vb + 2)) (rd_skip 1 (dq_reader d)) d"
      using next_tag [OF assms(2), of "diff_tag (?vr + 2) (?vg + 2) (?vb + 2)" rest] assms(3) T c by (simp add: Let_def)
    then show ?thesis unfolding c using T diff(1) by (simp add: chunk_diff_def prev p Let_def)
  next
    case luma
    let ?t = "0x80 OR (?vg + 32)" and ?b = "push_bit 4 (?vr - ?vg + 8) OR (?vb - ?vg + 8)"
    have c: "colour_chunk p (dq_prev d) = [?t, ?b]" using luma by (auto simp: colour_chunk_def p prev Let_def)
    note T = luma_tag [OF in_range_small(2) [OF luma(3)]]
      and B = luma_byte [OF in_range_small(3) [OF luma(4)] in_range_small(3) [OF luma(5)]]
    have a1: "ahead (dq_reader d) = ?t # ?b # rest" using assms(3) c by simp
    have "next_pixel d = chunk_luma ?t (rd_skip 1 (dq_reader d)) d"
      using next_tag [OF assms(2) a1] T by (simp add: Let_def)
    have a2: "ahead (rd_skip 1 (dq_reader d)) = ?b # rest" using a1 by simp
    have l: "chunk_luma ?t (rd_skip 1 (dq_reader d)) d = Inr (dq_set (rd_skip 1 (rd_skip 1 (dq_reader d)))
        (pr + (?vg - 8 + (?vr - ?vg + 8)), pg + ?vg, pb + (?vg - 8 + (?vb - ?vg + 8)), pa) d)"
      using T B by (intro chunk_luma_eq [OF a2 prev]) blast+
    have "pr + (?vg - 8 + (?vr - ?vg + 8)) = r" "pg + ?vg = g" "pb + (?vg - 8 + (?vb - ?vg + 8)) = b"
      by simp_all
    moreover have "length (colour_chunk p (dq_prev d)) = 1 + 1" unfolding c by simp
    ultimately show ?thesis using \<open>next_pixel d = _\<close> luma(1) unfolding l p by (simp only: rd_skip_add)
  next
    case rgb
    have a1: "ahead (dq_reader d) = 0xFE # r # g # b # rest" using assms(3) rgb(2) by simp
    have "rd_bytes 3 (rd_skip 1 (dq_reader d)) = Inr ([r, g, b], rd_skip 4 (dq_reader d))"
    proof -
      have "rd_skip 4 (dq_reader d) = rd_skip 3 (rd_skip 1 (dq_reader d))" by simp
      then show ?thesis using R a1 rd_ok_skip [OF R(1), of 1] by (simp add: rd_bytes_eq)
    qed
    moreover have len: "length (colour_chunk p (dq_prev d)) = 4" using rgb(2) by simp
    ultimately show ?thesis unfolding len using next_tag [OF assms(2) a1] rgb(1) by (simp add: Let_def chunk_rgb_def prev p)
  next
    case rgba
    have a1: "ahead (dq_reader d) = 0xFF # r # g # b # a # rest" using assms(3) rgba by simp
    have "rd_bytes 4 (rd_skip 1 (dq_reader d)) = Inr ([r, g, b, a], rd_skip 5 (dq_reader d))"
    proof -
      have "rd_skip 5 (dq_reader d) = rd_skip 4 (rd_skip 1 (dq_reader d))" by simp
      then show ?thesis using R a1 rd_ok_skip [OF R(1), of 1] by (simp add: rd_bytes_eq)
    qed
    moreover have len: "length (colour_chunk p (dq_prev d)) = 5" using rgba by simp
    ultimately show ?thesis unfolding len using next_tag [OF assms(2) a1] by (simp add: Let_def chunk_rgba_def p)
  qed
qed

lemma table_set_get: "length t = 64 \<Longrightarrow> qt_get (px_hash p) t = p \<Longrightarrow> qt_set (px_hash p) p t = t"
  by (simp add: qt_get_def qt_set_def get_at_def list_update_same_conv split: if_splits)

lemma length_qt_set [simp]: "length (qt_set i p t) = length t"
  by (simp add: qt_set_def)

lemma dq_set_simps [simp]:
  "dq_reader (dq_set r p d) = r" "dq_table (dq_set r p d) = qt_set (px_hash p) p (dq_table d)"
  "dq_prev (dq_set r p d) = p" "dq_run (dq_set r p d) = dq_run d"
  by (simp_all add: dq_set_def)

text \<open>What the decoder does with the chunk of a pixel, and with a run.\<close>

lemma next_chunk:
  assumes "dq_ok d" "dq_run d = 0" "ahead (dq_reader d) = px_chunk (dq_table d) (dq_prev d) p @ rest"
  shows "next_pixel d = Inr (dq_set (rd_skip (length (px_chunk (dq_table d) (dq_prev d) p)) (dq_reader d)) p d)"
proof (cases "qt_get (px_hash p) (dq_table d) = p")
  case True
  then have a1: "ahead (dq_reader d) = word_of_nat (px_hash p) # rest" using assms(3) by (simp add: px_chunk_def)
  show ?thesis
    using next_tag [OF assms(2) a1] index_tag [OF px_hash_less, of p] True by (simp add: Let_def px_chunk_def)
next
  case False
  then show ?thesis using next_colour [OF assms(1,2)] assms(3) by (simp add: px_chunk_def)
qed

lemma next_run:
  assumes "dq_ok d" "dq_run d = 0" "ahead (dq_reader d) = run_chunk n # rest" "1 \<le> n" "n \<le> 62"
  shows "next_pixel d = Inr (d\<lparr>dq_reader := rd_skip 1 (dq_reader d), dq_run := n - 1\<rparr>)"
  using next_tag [OF assms(2,3)] run_tag [OF assms(4,5)] by (simp add: Let_def)

lemma dq_ok_step:
  "dq_ok d \<Longrightarrow> n \<le> length (ahead (dq_reader d)) \<Longrightarrow> dq_ok (dq_set (rd_skip n (dq_reader d)) p d)"
  "dq_ok d \<Longrightarrow> n \<le> length (ahead (dq_reader d)) \<Longrightarrow> dq_ok (d\<lparr>dq_reader := rd_skip n (dq_reader d), dq_run := k\<rparr>)"
  by (simp_all add: dq_ok_def rd_ok_skip)

section \<open>Sequences of pixels\<close>

text \<open>The pixels the decoder produces, and the encoder's loop over pixels already read.\<close>

primrec next_pixels :: "nat \<Rightarrow> qoi_dec \<Rightarrow> codec_error + px list \<times> qoi_dec" where
  "next_pixels 0 d = Inr ([], d)"
| "next_pixels (Suc n) d =
     and_then (next_pixel d) (\<lambda>d'. and_then (next_pixels n d') (\<lambda>(ps, d''). Inr (dq_prev d' # ps, d'')))"

lemma next_pixels_add:
  "next_pixels (m + n) d =
     and_then (next_pixels m d) (\<lambda>(ps, d'). and_then (next_pixels n d') (\<lambda>(qs, d''). Inr (ps @ qs, d'')))"
proof (induction m arbitrary: d)
  case (Suc m)
  show ?case
    by (cases "next_pixel d"; simp add: Suc and_then_def split: sum.split)
qed (simp add: and_then_def split: sum.split)

lemma next_pixels_pending:
  "dq_run d = k + j \<Longrightarrow> next_pixels k d = Inr (replicate k (dq_prev d), d\<lparr>dq_run := j\<rparr>)"
  by (induction k arbitrary: d) (simp_all add: next_pixel_def)

lemma next_pixels_run:
  assumes "dq_ok d" "dq_run d = 0" "ahead (dq_reader d) = run_chunk n # rest" "1 \<le> n" "n \<le> 62"
  shows "next_pixels n d = Inr (replicate n (dq_prev d), d\<lparr>dq_reader := rd_skip 1 (dq_reader d)\<rparr>)"
proof -
  obtain k where k: "n = Suc k" using assms(4) by (cases n) auto
  let ?d = "d\<lparr>dq_reader := rd_skip 1 (dq_reader d), dq_run := k\<rparr>"
  have "next_pixel d = Inr ?d" using next_run [OF assms] k by simp
  moreover have "next_pixels k ?d = Inr (replicate k (dq_prev d), d\<lparr>dq_reader := rd_skip 1 (dq_reader d)\<rparr>)"
    using next_pixels_pending [of ?d k 0] assms(2) by simp
  ultimately show ?thesis by (simp add: k)
qed

text \<open>Bytes that stand for pixels, for a decoder with this array and previous pixel.\<close>

definition decodes :: "qoi_table \<Rightarrow> px \<Rightarrow> u8 list \<Rightarrow> px list \<Rightarrow> bool" where
  "decodes t prev bytes qs \<longleftrightarrow> (\<forall>d rest. dq_ok d \<longrightarrow> dq_run d = 0 \<longrightarrow> ahead (dq_reader d) = bytes @ rest \<longrightarrow>
     dq_table d = t \<longrightarrow> dq_prev d = prev \<longrightarrow>
     (\<exists>d'. next_pixels (length qs) d = Inr (qs, d') \<and> dq_reader d' = rd_skip (length bytes) (dq_reader d)))"

lemma decodesD:
  assumes "decodes t prev bytes qs" "dq_ok d" "dq_run d = 0" "ahead (dq_reader d) = bytes @ rest"
    "dq_table d = t" "dq_prev d = prev"
  obtains d' where "next_pixels (length qs) d = Inr (qs, d')" "dq_reader d' = rd_skip (length bytes) (dq_reader d)"
  using assms unfolding decodes_def by blast

lemma decodes_nil: "decodes t prev [] []"
  by (simp add: decodes_def)

lemma decodes_run:
  assumes "decodes t prev bytes qs" "1 \<le> n" "n \<le> 62"
  shows "decodes t prev (run_chunk n # bytes) (replicate n prev @ qs)"
  unfolding decodes_def
proof (intro allI impI)
  fix d rest
  assume d: "dq_ok d" "dq_run d = 0" "ahead (dq_reader d) = (run_chunk n # bytes) @ rest" "dq_table d = t" "dq_prev d = prev"
  let ?d = "d\<lparr>dq_reader := rd_skip 1 (dq_reader d)\<rparr>"
  have run: "next_pixels n d = Inr (replicate n prev, ?d)" using next_pixels_run [OF d(1,2)] d(3,5) assms(2,3) by simp
  have "dq_ok ?d" using dq_ok_step(2) [OF d(1), of 1 "dq_run d"] d(3) by simp
  then obtain d' where "next_pixels (length qs) ?d = Inr (qs, d')"
    "dq_reader d' = rd_skip (length bytes) (dq_reader ?d)"
    by (rule decodesD [OF assms(1), of ?d rest]) (use d in simp_all)
  then show "\<exists>d'. next_pixels (length (replicate n prev @ qs)) d = Inr (replicate n prev @ qs, d') \<and>
      dq_reader d' = rd_skip (length (run_chunk n # bytes)) (dq_reader d)"
    by (simp add: next_pixels_add run)
qed

lemma decodes_chunk:
  assumes "decodes (qt_set (px_hash p) p t) p bytes qs"
  shows "decodes t prev (px_chunk t prev p @ bytes) (p # qs)"
  unfolding decodes_def
proof (intro allI impI)
  fix d rest
  assume d: "dq_ok d" "dq_run d = 0" "ahead (dq_reader d) = (px_chunk t prev p @ bytes) @ rest" "dq_table d = t" "dq_prev d = prev"
  let ?d = "dq_set (rd_skip (length (px_chunk t prev p)) (dq_reader d)) p d"
  have step: "next_pixel d = Inr ?d" using next_chunk [OF d(1,2), of p "bytes @ rest"] d(3-5) by simp
  have "dq_ok ?d" using dq_ok_step(1) [OF d(1)] d(3) by simp
  then obtain d' where "next_pixels (length qs) ?d = Inr (qs, d')"
    "dq_reader d' = rd_skip (length bytes) (dq_reader ?d)"
    by (rule decodesD [OF assms, of ?d rest]) (use d in simp_all)
  then show "\<exists>d'. next_pixels (length (p # qs)) d = Inr (p # qs, d') \<and>
      dq_reader d' = rd_skip (length (px_chunk t prev p @ bytes)) (dq_reader d)"
    by (simp add: step)
qed

text \<open>One step of the encoder.\<close>

lemma encode_pixel_same:
  assumes "p = eq_prev s" "eq_run s + 1 \<noteq> RUN_MAX" "eq_seen s + 1 \<noteq> total_pixels"
  shows "encode_pixel total_pixels p s = s\<lparr>eq_seen := eq_seen s + 1, eq_run := eq_run s + 1\<rparr>"
  using assms by (simp add: encode_pixel_def)

lemma encode_pixel_flush:
  assumes "p = eq_prev s" "eq_run s + 1 = RUN_MAX \<or> eq_seen s + 1 = total_pixels"
  shows "encode_pixel total_pixels p s =
    s\<lparr>eq_seen := eq_seen s + 1, eq_out := eq_out s @ [run_chunk (eq_run s + 1)], eq_run := 0\<rparr>"
  using assms by (auto simp: encode_pixel_def Let_def)

lemma encode_pixel_new:
  assumes "p \<noteq> eq_prev s" "length (eq_table s) = 64"
  shows "encode_pixel total_pixels p s =
    s\<lparr>eq_seen := eq_seen s + 1,
      eq_out := eq_out s @ (if eq_run s > 0 then [run_chunk (eq_run s)] else []) @ px_chunk (eq_table s) (eq_prev s) p,
      eq_run := 0, eq_table := qt_set (px_hash p) p (eq_table s), eq_prev := p\<rparr>"
  using assms table_set_get [of "eq_table s" p] by (simp add: encode_pixel_def Let_def px_chunk_def)

lemma pixels_round_trip:
  assumes "eq_seen s + length ps = total_pixels" "eq_run s < 62" "ps = [] \<Longrightarrow> eq_run s = 0" "length (eq_table s) = 64"
  shows "\<exists>bytes. eq_out (fold (encode_pixel total_pixels) ps s) = eq_out s @ bytes \<and>
    decodes (eq_table s) (eq_prev s) bytes (replicate (eq_run s) (eq_prev s) @ ps)"
  using assms
proof (induction ps arbitrary: s)
  case Nil
  then show ?case using decodes_nil by simp
next
  case (Cons p ps)
  let ?s = "encode_pixel total_pixels p s"
  have seen: "eq_seen ?s + length ps = total_pixels" if "eq_seen ?s = eq_seen s + 1" using that Cons.prems(1) by simp
  consider (same) "p = eq_prev s" "eq_run s + 1 \<noteq> RUN_MAX" "eq_seen s + 1 \<noteq> total_pixels"
    | (flush) "p = eq_prev s" "eq_run s + 1 = RUN_MAX \<or> eq_seen s + 1 = total_pixels" | (new) "p \<noteq> eq_prev s" by blast
  then show ?case
  proof cases
    case same
    note E = encode_pixel_same [OF same]
    have "ps \<noteq> []" using same(3) Cons.prems(1) by auto
    then obtain bytes where b: "eq_out (fold (encode_pixel total_pixels) ps ?s) = eq_out ?s @ bytes"
      "decodes (eq_table ?s) (eq_prev ?s) bytes (replicate (eq_run ?s) (eq_prev ?s) @ ps)"
      using Cons.IH [of ?s] seen same(2) Cons.prems(2,4) by (auto simp: E RUN_MAX_def)
    have "replicate (eq_run s + 1) (eq_prev s) @ ps = replicate (eq_run s) (eq_prev s) @ p # ps"
      using same(1) by (simp add: replicate_append_same [symmetric])
    then show ?thesis using b by (intro exI [of _ bytes]) (simp add: E)
  next
    case flush
    note E = encode_pixel_flush [OF flush]
    obtain bytes where b: "eq_out (fold (encode_pixel total_pixels) ps ?s) = eq_out ?s @ bytes"
      "decodes (eq_table ?s) (eq_prev ?s) bytes (replicate (eq_run ?s) (eq_prev ?s) @ ps)"
      using Cons.IH [of ?s] seen Cons.prems(4) by (auto simp: E)
    have "decodes (eq_table s) (eq_prev s) (run_chunk (eq_run s + 1) # bytes)
        (replicate (eq_run s + 1) (eq_prev s) @ ps)"
      using b(2) Cons.prems(2) by (intro decodes_run) (simp_all add: E)
    moreover have "replicate (eq_run s + 1) (eq_prev s) @ ps = replicate (eq_run s) (eq_prev s) @ p # ps"
      using flush(1) by (simp add: replicate_append_same [symmetric])
    ultimately have "decodes (eq_table s) (eq_prev s) (run_chunk (eq_run s + 1) # bytes)
        (replicate (eq_run s) (eq_prev s) @ p # ps)" by (simp only:)
    then show ?thesis using b(1) by (intro exI [of _ "run_chunk (eq_run s + 1) # bytes"]) (simp add: E)
  next
    case new
    note E = encode_pixel_new [OF new Cons.prems(4)]
    obtain bytes where b: "eq_out (fold (encode_pixel total_pixels) ps ?s) = eq_out ?s @ bytes"
      "decodes (eq_table ?s) (eq_prev ?s) bytes (replicate (eq_run ?s) (eq_prev ?s) @ ps)"
      using Cons.IH [of ?s] seen Cons.prems(4) by (auto simp: E)
    have c: "decodes (eq_table s) (eq_prev s) (px_chunk (eq_table s) (eq_prev s) p @ bytes) (p # ps)"
      using b(2) by (intro decodes_chunk) (simp add: E)
    show ?thesis
    proof (cases "eq_run s > 0")
      case True
      have "decodes (eq_table s) (eq_prev s) (run_chunk (eq_run s) # px_chunk (eq_table s) (eq_prev s) p @ bytes)
          (replicate (eq_run s) (eq_prev s) @ p # ps)"
        using c True Cons.prems(2) by (intro decodes_run) simp_all
      then show ?thesis using b(1) True
        by (intro exI [of _ "run_chunk (eq_run s) # px_chunk (eq_table s) (eq_prev s) p @ bytes"]) (simp add: E)
    next
      case False
      then show ?thesis using b(1) c
        by (intro exI [of _ "px_chunk (eq_table s) (eq_prev s) p @ bytes"]) (simp add: E)
    qed
  qed
qed

text \<open>An encoded image has at most one byte more than its samples per pixel.\<close>

lemma px_chunk_length:
  "length (px_chunk t prev p) \<le> (if snd (snd (snd p)) = snd (snd (snd prev)) then 4 else 5)"
  by (cases p; cases prev) (simp add: px_chunk_def colour_chunk_def Let_def)

lemma encoded_length:
  assumes "length (eq_table s) = 64" "n = 4 \<or> n = 3 \<and> list_all (\<lambda>p. snd (snd (snd p)) = 255) (eq_prev s # ps)"
  shows "length (eq_out (fold (encode_pixel total_pixels) ps s)) \<le>
    length (eq_out s) + (if eq_run s > 0 then 1 else 0) + (n + 1) * length ps"
  using assms
proof (induction ps arbitrary: s)
  case (Cons p ps)
  let ?s = "encode_pixel total_pixels p s"
  let ?w = "\<lambda>s. length (eq_out s) + (if eq_run s > 0 then 1 else 0)"
  have "length (eq_table ?s) = 64 \<and> (eq_prev ?s = p) \<and> ?w ?s \<le> ?w s + (n + 1)"
  proof (cases "p = eq_prev s")
    case True
    then show ?thesis
      using encode_pixel_same [OF True, of total_pixels] encode_pixel_flush [OF True, of total_pixels] Cons.prems(1)
      by (cases "eq_run s + 1 \<noteq> RUN_MAX \<and> eq_seen s + 1 \<noteq> total_pixels") auto
  next
    case False
    then show ?thesis
      using px_chunk_length [of "eq_table s" "eq_prev s" p] Cons.prems
      by (auto simp: encode_pixel_new [OF False Cons.prems(1)] split: if_splits)
  qed
  then show ?case using Cons.IH [of ?s] Cons.prems(2) by auto
qed simp

end
