(* ===== verification/Codec_Oneshot.thy ===== *)
theory Codec_Oneshot
  imports Codec_Protocol
begin

text \<open>
  Codecs that turn every input into at most one output at once: the shape of the image codecs of
  the repository, whose \<^verbatim>\<open>send\<close> asks the machine, converts the input and emits the result. The
  locale \<open>one_shot\<close> states this shape over the machine a codec embeds; it gives the rules of
  the protocol (\<open>send_receive\<close>) and the order of the outputs.
\<close>

text \<open>
  A caller that records, since the last flush, the inputs that succeeded and the outputs it was
  handed.
\<close>

fun history ::
  "('i option \<Rightarrow> 's \<Rightarrow> (codec_error + unit) \<times> 's) \<Rightarrow> ('s \<Rightarrow> (codec_error + 'o) \<times> 's) \<Rightarrow> ('s \<Rightarrow> 's) \<Rightarrow>
     'i call list \<Rightarrow> 's \<Rightarrow> 'i list \<Rightarrow> 'o list \<Rightarrow> 'i list \<times> 'o list \<times> 's" where
  "history send receive flush [] s ins outs = (ins, outs, s)"
| "history send receive flush (Send (Some i) # cs) s ins outs =
     (case send (Some i) s of
        (Inl _, s') \<Rightarrow> history send receive flush cs s' ins outs
      | (Inr _, s') \<Rightarrow> history send receive flush cs s' (ins @ [i]) outs)"
| "history send receive flush (Send None # cs) s ins outs =
     history send receive flush cs (snd (send None s)) ins outs"
| "history send receive flush (Receive # cs) s ins outs =
     (case receive s of
        (Inl _, s') \<Rightarrow> history send receive flush cs s' ins outs
      | (Inr x, s') \<Rightarrow> history send receive flush cs s' ins (outs @ [x]))"
| "history send receive flush (Flush # cs) s ins outs = history send receive flush cs (flush s) [] []"

locale one_shot =
  fixes machine_of :: "'s \<Rightarrow> 'o machine"
    and with_machine :: "'o machine \<Rightarrow> 's \<Rightarrow> 's"
    and conv :: "'s \<Rightarrow> 'i \<Rightarrow> codec_error + 'o"
    and send :: "'i option \<Rightarrow> 's \<Rightarrow> (codec_error + unit) \<times> 's"
    and receive :: "'s \<Rightarrow> (codec_error + 'o) \<times> 's"
    and flush :: "'s \<Rightarrow> 's"
  assumes machine_with: "machine_of (with_machine m s) = m"
    and with_same: "with_machine (machine_of s) s = s"
    and with_with: "with_machine m (with_machine m' s) = with_machine m s"
    and conv_with: "conv (with_machine m s) = conv s"
    and conv_error: "conv s x = Inl e \<Longrightarrow> input_taken (Inl e)"
    and send_shape: "send i s = (case m_accept (i = None) (machine_of s) of
        (Inl e, m) \<Rightarrow> (Inl e, with_machine m s)
      | (Inr Drain, m) \<Rightarrow> (Inr (), with_machine (m_finish m) s)
      | (Inr Input, m) \<Rightarrow> (case i of
            None \<Rightarrow> (Inr (), with_machine m s)
          | Some x \<Rightarrow> (case conv s x of
                Inl e \<Rightarrow> (Inl e, with_machine m s)
              | Inr y \<Rightarrow> (Inr (), with_machine (m_emit y m) s))))"
    and receive_shape: "receive s = (case m_receive (machine_of s) of (r, m) \<Rightarrow> (r, with_machine m s))"
    and flush_shape: "flush s = with_machine (m_flush (machine_of s)) s"
begin

definition ready :: "'s \<Rightarrow> bool" where
  "ready s \<longleftrightarrow> machine_ok (machine_of s) \<and> m_caps (machine_of s) = 0 \<and>
     (m_stage (machine_of s) \<noteq> Feeding \<longrightarrow> m_source_done (machine_of s))"

lemma no_caps [simp]: "caps_contains 0 SUBFRAMES = False" "caps_contains 0 DELAY = False"
  by (simp_all add: caps_contains_def SUBFRAMES_def DELAY_def)

lemma send_refused: "m_stage (machine_of s) \<noteq> Feeding \<Longrightarrow> send i s = (Inl Eof, s)"
  by (cases "m_stage (machine_of s)") (simp_all add: send_shape m_accept_def with_same)

lemma send_drain:
  assumes "ready s" "m_stage (machine_of s) = Feeding"
  shows "\<exists>s'. send None s = (Inr (), s') \<and> ready s' \<and> m_stage (machine_of s') = Draining \<and>
    m_queue (machine_of s') = m_queue (machine_of s) \<and> (\<exists>m. s' = with_machine m s)"
  using assms by (auto simp: send_shape m_accept_def m_finish_def ready_def machine_ok_def machine_with)

lemma send_taken:
  assumes "ready s" "m_stage (machine_of s) = Feeding" "length (m_queue (machine_of s)) < m_capacity (machine_of s)"
  shows "\<exists>r s'. send (Some x) s = (r, s') \<and> input_taken r \<and> ready s' \<and> m_stage (machine_of s') = Feeding \<and>
    (\<exists>m. s' = with_machine m s) \<and>
    (case conv s x of
       Inl e \<Rightarrow> r = Inl e \<and> m_queue (machine_of s') = m_queue (machine_of s)
     | Inr y \<Rightarrow> r = Inr () \<and> m_queue (machine_of s') = m_queue (machine_of s) @ [y])"
  using assms conv_error [of s x]
  by (cases "conv s x")
    (auto simp: send_shape m_accept_def m_emit_def ready_def machine_ok_def machine_with sat_u_Suc_pos)

lemma send_full:
  assumes "m_stage (machine_of s) = Feeding" "\<not> length (m_queue (machine_of s)) < m_capacity (machine_of s)"
  shows "send (Some x) s = (Inl OutputPending, s)"
  using assms by (simp add: send_shape m_accept_def with_same)

lemma receive_queue:
  assumes "ready s" "m_queue (machine_of s) = y # q"
  shows "\<exists>s'. receive s = (Inr y, s') \<and> ready s' \<and> m_stage (machine_of s') = m_stage (machine_of s) \<and>
    m_queue (machine_of s') = q \<and> (\<exists>m. s' = with_machine m s)"
  using assms by (auto simp: receive_shape m_receive_def ready_def machine_ok_def machine_with)

lemma receive_end:
  assumes "ready s" "m_queue (machine_of s) = []" "m_stage (machine_of s) \<noteq> Feeding"
  shows "\<exists>s'. receive s = (Inl Eof, s') \<and> ready s' \<and> m_stage (machine_of s') = Drained \<and>
    m_queue (machine_of s') = [] \<and> (\<exists>m. s' = with_machine m s)"
  using assms
  by (cases "m_stage (machine_of s)")
    (auto simp: receive_shape m_receive_def ready_def machine_ok_def machine_with)

lemma flush_ready:
  assumes "ready s"
  shows "ready (flush s)" "m_stage (machine_of (flush s)) = Feeding" "m_queue (machine_of (flush s)) = []"
    "\<exists>m. flush s = with_machine m s"
  using assms by (auto simp: flush_shape m_flush_def ready_def machine_ok_def machine_with)

lemma receive_feeding:
  "m_queue (machine_of s) = [] \<Longrightarrow> m_stage (machine_of s) = Feeding \<Longrightarrow> receive s = (Inl NeedMoreInput, s)"
  by (simp add: receive_shape m_receive_def with_same)

lemma fresh_ready:
  "machine_of s = m_new 0 \<Longrightarrow> ready s"
  by (simp add: ready_def m_new_def m_with_capacity_def machine_ok_def caps_intersects_def TIGHT_CAPACITY_def)

text \<open>The outputs handed over and those queued are the conversions of the inputs, in order.\<close>

definition in_order :: "('i \<Rightarrow> codec_error + 'o) \<Rightarrow> 'i list \<Rightarrow> 'o list \<Rightarrow> 's \<Rightarrow> bool" where
  "in_order f ins outs s \<longleftrightarrow> ready s \<and> conv s = f \<and> map f ins = map Inr (outs @ m_queue (machine_of s))"

lemma in_order_send:
  assumes "in_order f ins outs s" "send (Some i) s = (r, s')"
  shows "in_order f (case r of Inl _ \<Rightarrow> ins | Inr _ \<Rightarrow> ins @ [i]) outs s'"
proof (cases "m_stage (machine_of s) = Feeding")
  case False
  then show ?thesis using assms send_refused [OF False] by auto
next
  case F: True
  have r: "ready s" and f: "conv s = f" using assms(1) by (simp_all add: in_order_def)
  show ?thesis
  proof (cases "length (m_queue (machine_of s)) < m_capacity (machine_of s)")
    case False
    then show ?thesis using assms send_full [OF F False] by auto
  next
    case True
    obtain m where S: "ready s'" "s' = with_machine m s"
      "case conv s i of Inl e \<Rightarrow> r = Inl e \<and> m_queue (machine_of s') = m_queue (machine_of s)
       | Inr y \<Rightarrow> r = Inr () \<and> m_queue (machine_of s') = m_queue (machine_of s) @ [y]"
      using send_taken [OF r F True, of i] assms(2) by auto
    then show ?thesis using assms(1) f conv_with [of m s]
      by (cases "f i") (auto simp: in_order_def)
  qed
qed

lemma in_order_drain: "in_order f ins outs s \<Longrightarrow> in_order f ins outs (snd (send None s))"
proof (cases "m_stage (machine_of s) = Feeding")
  case True
  assume a: "in_order f ins outs s"
  then obtain s' m where "send None s = (Inr (), s')" "ready s'" "m_queue (machine_of s') = m_queue (machine_of s)"
    "s' = with_machine m s"
    using send_drain [OF _ True] unfolding in_order_def by blast
  then show ?thesis using a conv_with [of m s] by (auto simp: in_order_def)
qed (simp add: send_refused)

lemma in_order_receive:
  assumes "in_order f ins outs s" "receive s = (r, s')"
  shows "in_order f ins (case r of Inl _ \<Rightarrow> outs | Inr x \<Rightarrow> outs @ [x]) s'"
proof -
  have r: "ready s" using assms(1) by (simp add: in_order_def)
  show ?thesis
  proof (cases "m_queue (machine_of s)")
    case (Cons y q)
    then obtain m where "r = Inr y" "ready s'" "m_queue (machine_of s') = q" "s' = with_machine m s"
      using receive_queue [OF r] assms(2) by auto
    then show ?thesis using assms(1) Cons conv_with [of m s] by (simp add: in_order_def)
  next
    case Nil
    show ?thesis
    proof (cases "m_stage (machine_of s) = Feeding")
      case True
      then show ?thesis using assms receive_feeding [OF Nil] by auto
    next
      case False
      then obtain m where "r = Inl Eof" "ready s'" "m_queue (machine_of s') = []" "s' = with_machine m s"
        using receive_end [OF r Nil] assms(2) by auto
      then show ?thesis using assms(1) Nil conv_with [of m s] by (simp add: in_order_def)
    qed
  qed
qed

lemma in_order_flush: "in_order f ins outs s \<Longrightarrow> in_order f [] [] (flush s)"
  using flush_ready [of s] conv_with by (auto simp: in_order_def)

lemma history_in_order:
  "history send receive flush cs s ins outs = (ins', outs', s') \<Longrightarrow> in_order f ins outs s \<Longrightarrow> in_order f ins' outs' s'"
proof (induction cs arbitrary: s ins outs)
  case (Cons c cs)
  show ?case
  proof (cases c)
    case (Send x)
    show ?thesis
    proof (cases x)
      case None
      then show ?thesis using Cons.IH [OF _ in_order_drain [OF Cons.prems(2)]] Cons.prems(1) Send by simp
    next
      case (Some i)
      obtain r s1 where r: "send (Some i) s = (r, s1)" by fastforce
      show ?thesis using Cons in_order_send [OF Cons.prems(2) r] r Send Some by (cases r) auto
    qed
  next
    case Receive
    obtain r s1 where r: "receive s = (r, s1)" by fastforce
    show ?thesis using Cons in_order_receive [OF Cons.prems(2) r] r Receive by (cases r) auto
  next
    case Flush
    then show ?thesis using Cons.IH [OF _ in_order_flush [OF Cons.prems(2)]] Cons.prems(1) by simp
  qed
qed simp

end

sublocale one_shot \<subseteq> protocol: send_receive send receive flush "\<lambda>s. m_caps (machine_of s)" "\<lambda>s. m_stage (machine_of s)"
  "\<lambda>s. length (m_queue (machine_of s))" "\<lambda>_. 0" ready
proof
  fix s i x
  assume r: "ready s"
  let ?m = "machine_of s"
  have m: "machine_ok ?m" "m_caps ?m = 0" using r by (simp_all add: ready_def)
  show "m_stage ?m \<noteq> Feeding \<Longrightarrow> send i s = (Inl Eof, s)" by (rule send_refused)
  show "m_stage ?m = Feeding \<Longrightarrow> \<exists>s'. send None s = (Inr (), s') \<and> ready s' \<and> m_stage (machine_of s') = Draining \<and>
      length (m_queue (machine_of s')) = length (m_queue ?m) + 0 \<and> 0 = (0 :: nat) \<and> m_caps (machine_of s') = m_caps ?m"
    using send_drain [OF r] m(2) unfolding ready_def by fastforce
  show "0 < length (m_queue ?m) \<Longrightarrow> \<exists>x s'. receive s = (Inr x, s') \<and> ready s' \<and>
      m_stage (machine_of s') = m_stage ?m \<and> length (m_queue (machine_of s')) = length (m_queue ?m) - 1 \<and>
      0 = (0 :: nat) \<and> m_caps (machine_of s') = m_caps ?m"
    using receive_queue [OF r] m(2) unfolding ready_def by (cases "m_queue ?m") fastforce+
  show "length (m_queue ?m) = 0 \<Longrightarrow> m_stage ?m = Feeding \<Longrightarrow> receive s = (Inl NeedMoreInput, s)"
    by (simp add: receive_feeding)
  show "length (m_queue ?m) = 0 \<Longrightarrow> m_stage ?m \<noteq> Feeding \<Longrightarrow> \<exists>s'. receive s = (Inl Eof, s') \<and> ready s' \<and>
      m_stage (machine_of s') = Drained \<and> length (m_queue (machine_of s')) = 0 \<and> 0 = (0 :: nat) \<and>
      m_caps (machine_of s') = m_caps ?m"
    using receive_end [OF r] m(2) unfolding ready_def by fastforce
  show "m_stage ?m = Drained \<Longrightarrow> length (m_queue ?m) = 0" using m by (simp add: machine_ok_def)
  show "ready (flush s) \<and> m_stage (machine_of (flush s)) = Feeding \<and> length (m_queue (machine_of (flush s))) = 0 \<and>
      0 = (0 :: nat) \<and> m_caps (machine_of (flush s)) = m_caps ?m"
    using flush_ready [OF r] m(2) unfolding ready_def by simp
  assume F: "m_stage ?m = Feeding"
  show "send (Some x) s = (Inl OutputPending, s) \<and> 0 < length (m_queue ?m) \<or>
      (\<exists>r s'. send (Some x) s = (r, s') \<and> input_taken r \<and> ready s' \<and> m_stage (machine_of s') = Feeding \<and>
        m_caps (machine_of s') = m_caps ?m \<and> (caps_contains (m_caps ?m) SUBFRAMES \<or>
          length (m_queue (machine_of s')) + 0 \<le> length (m_queue ?m) + 0 + 1))"
  proof (cases "length (m_queue ?m) < m_capacity ?m")
    case False
    then have "0 < length (m_queue ?m)" using m by (auto simp: machine_ok_def)
    then show ?thesis using send_full [OF F False] by blast
  next
    case True
    obtain r s' where S: "send (Some x) s = (r, s')" "input_taken r" "ready s'" "m_stage (machine_of s') = Feeding"
      "case conv s x of Inl e \<Rightarrow> r = Inl e \<and> m_queue (machine_of s') = m_queue ?m
       | Inr y \<Rightarrow> r = Inr () \<and> m_queue (machine_of s') = m_queue ?m @ [y]"
      using send_taken [OF r F True, of x] by blast
    have "length (m_queue (machine_of s')) \<le> length (m_queue ?m) + 1" using S(5) by (cases "conv s x") auto
    then show ?thesis using S(1-4) m(2) unfolding ready_def by (intro disjI2 exI [of _ r] exI [of _ s']) simp
  qed
qed simp

end
