(* ===== verification/Codec_Qoi_Image.thy ===== *)
theory Codec_Qoi_Image
  imports Codec_Qoi Codec_Oneshot
begin

text \<open>
  QOI images as frames: the encoder and the decoder are inverse on the rows of a picture, the
  decoder is safe on every input, and the two codecs keep the send/receive protocol
  (\<^verbatim>\<open>crates/codec/vaco-codec-qoi/src/lib.rs\<close>).
\<close>

section \<open>Samples and rows\<close>

definition px_of :: "nat \<Rightarrow> u8 list \<Rightarrow> px" where
  "px_of n s = (s ! 0, s ! 1, s ! 2, if n = 4 then s ! 3 else 255)"

lemma length_3_4:
  "length s = 3 \<Longrightarrow> s = [s ! 0, s ! 1, s ! 2]" "length s = 4 \<Longrightarrow> s = [s ! 0, s ! 1, s ! 2, s ! 3]"
  by (intro nth_equalityI; auto simp: less_Suc_eq numeral_eq_Suc)+

lemma sample_px_of:
  assumes "length s = n" "n = 3 \<or> n = 4"
  shows "sample_px n s = Inr (px_of n s)" "px_bytes n (px_of n s) = s"
  using length_3_4 [of s] assms by (auto simp: sample_px_def px_of_def split: list.splits)

lemma length_px_bytes [simp]: "n = 3 \<or> n = 4 \<Longrightarrow> length (px_bytes n p) = n"
  by (cases p) auto

lemma concat_slices: "length xs = w * n \<Longrightarrow> concat (map (\<lambda>x. take n (drop (x * n) xs)) [0..<w]) = xs"
proof (induction w arbitrary: xs)
  case (Suc w)
  have "concat (map (\<lambda>x. take n (drop (x * n) (take (w * n) xs))) [0..<w]) = take (w * n) xs"
    by (rule Suc.IH) (simp add: Suc.prems)
  moreover have "take n (drop (x * n) (take (w * n) xs)) = take n (drop (x * n) xs)" if "x < w" for x
  proof -
    have "(x + 1) * n \<le> w * n" using that by (intro mult_le_mono1) simp
    then show ?thesis by (simp add: drop_take min_def)
  qed
  ultimately have "concat (map (\<lambda>x. take n (drop (x * n) xs)) [0..<w]) = take (w * n) xs"
    by (metis (no_types, lifting) atLeastLessThan_iff map_cong set_upt)
  then show ?case using Suc.prems by simp
qed simp

lemma px_offset_eq: "y * stride + x * n < 2 ^ 64 \<Longrightarrow> px_offset stride n y x = y * stride + x * n"
  by (simp add: px_offset_def sat_u_def)

text \<open>Reading a pixel of a row that lies inside the data.\<close>

lemma encode_sample_eq:
  assumes "n = 3 \<or> n = 4" "y * stride + (x + 1) * n \<le> length src" "length src < 2 ^ 63"
  shows "encode_sample src stride n total_pixels y x s =
    Inr (encode_pixel total_pixels (px_of n (take n (drop (y * stride + x * n) src))) s)"
proof -
  have le: "y * stride + x * n + n \<le> length src" using assms(2) by simp
  have "read_pixel src (px_offset stride n y x) n = Inr (take n (drop (y * stride + x * n) src))"
    using le assms(3) by (simp add: read_pixel_def px_offset_eq slice_range_def sat_u_def ok_or_def)
  moreover have "length (take n (drop (y * stride + x * n) src)) = n" using le by simp
  ultimately show ?thesis using sample_px_of(1) [OF _ assms(1)] by (simp add: encode_sample_def)
qed

lemma for_each_fold: "(\<And>x s. x \<in> set xs \<Longrightarrow> f x s = Inr (g x s)) \<Longrightarrow> for_each f xs s = Inr (fold g xs s)"
  by (induction xs arbitrary: s) simp_all

lemma fold_nested: "fold (\<lambda>y. fold f (g y)) ys s = fold f (concat (map g ys)) s"
  by (induction ys arbitrary: s) simp_all

text \<open>The pixels of an image in memory.\<close>

definition image_px :: "nat \<Rightarrow> nat \<Rightarrow> nat \<Rightarrow> nat \<Rightarrow> u8 list \<Rightarrow> px list list" where
  "image_px n stride w h src = map (\<lambda>y. map (\<lambda>x. px_of n (take n (drop (y * stride + x * n) src))) [0..<w]) [0..<h]"

lemma image_inside:
  fixes stride :: nat
  assumes "w * n \<le> stride" "h * stride \<le> len" "y < h" "x < w"
  shows "y * stride + (x + 1) * n \<le> len"
proof -
  have "(x + 1) * n \<le> w * n" "(y + 1) * stride \<le> h * stride" using assms(3,4) by (intro mult_le_mono1; simp)+
  then show ?thesis using assms(1,2) by simp
qed

lemma encode_rows:
  assumes "n = 3 \<or> n = 4" "w * n \<le> stride" "h * stride \<le> length src" "length src < 2 ^ 63"
  shows "for_each (\<lambda>y. for_each (encode_sample src stride n total_pixels y) [0..<w]) [0..<h] s =
    Inr (fold (encode_pixel total_pixels) (concat (image_px n stride w h src)) s)"
proof -
  let ?px = "\<lambda>y x. px_of n (take n (drop (y * stride + x * n) src))"
  have row: "for_each (encode_sample src stride n total_pixels y) [0..<w] s =
      Inr (fold (encode_pixel total_pixels) (map (?px y) [0..<w]) s)" if "y < h" for y s
    using encode_sample_eq [OF assms(1) image_inside [OF assms(2,3) that] assms(4)]
    by (subst for_each_fold [where g = "\<lambda>x. encode_pixel total_pixels (?px y x)"]) (simp_all add: fold_map comp_def)
  show ?thesis
    by (subst for_each_fold [where g = "\<lambda>y. fold (encode_pixel total_pixels) (map (?px y) [0..<w])"])
      (simp_all add: row fold_nested image_px_def)
qed

lemma image_row_bytes:
  assumes "n = 3 \<or> n = 4" "y * stride + w * n \<le> length src"
  shows "concat (map (\<lambda>x. px_bytes n (px_of n (take n (drop (y * stride + x * n) src)))) [0..<w]) =
    take (w * n) (drop (y * stride) src)"
proof -
  let ?row = "take (w * n) (drop (y * stride) src)"
  have "px_bytes n (px_of n (take n (drop (y * stride + x * n) src))) = take n (drop (x * n) ?row)" if "x < w" for x
  proof -
    have x: "(x + 1) * n \<le> w * n" using that by (intro mult_le_mono1) simp
    then have "take n (drop (x * n) ?row) = take n (drop (y * stride + x * n) src)"
      by (simp add: drop_take min_def add.commute)
    moreover have "length (take n (drop (y * stride + x * n) src)) = n" using x assms(2) by simp
    ultimately show ?thesis using sample_px_of(2) [OF _ assms(1)] by simp
  qed
  then have "concat (map (\<lambda>x. px_bytes n (px_of n (take n (drop (y * stride + x * n) src)))) [0..<w]) =
      concat (map (\<lambda>x. take n (drop (x * n) ?row)) [0..<w])"
    by (metis (no_types, lifting) atLeastLessThan_iff map_cong set_upt)
  also have "\<dots> = ?row" using assms(2) by (intro concat_slices) simp
  finally show ?thesis .
qed

section \<open>Writing rows\<close>

lemma slice_prefix: "i + k \<le> m \<Longrightarrow> m \<le> length b \<Longrightarrow> take k (drop i (take m b @ c)) = take k (drop i b)"
  by (rule nth_equalityI) (auto simp: nth_append)

lemma decode_row:
  assumes "n = 3 \<or> n = 4" "next_pixels k d = Inr (ps, d')" "y * stride + k * n \<le> length buf" "length buf < 2 ^ 63"
  shows "for_each (decode_pixel stride n y) [0..<k] (d, buf) =
    Inr (d', take (y * stride) buf @ concat (map (px_bytes n) ps) @ drop (y * stride + k * n) buf) \<and> length ps = k"
  using assms(2,3)
proof (induction k arbitrary: ps d')
  case (Suc k)
  obtain qs d1 where 1: "next_pixels k d = Inr (qs, d1)" "next_pixel d1 = Inr d'" "ps = qs @ [dq_prev d']"
    using Suc.prems(1) unfolding Suc_eq_plus1 next_pixels_add by (auto simp: and_then_Inr)
  let ?b = "take (y * stride) buf @ concat (map (px_bytes n) qs) @ drop (y * stride + k * n) buf"
  have le: "y * stride + k * n + n \<le> length buf" using Suc.prems(2) by simp
  have IH: "for_each (decode_pixel stride n y) [0..<k] (d, buf) = Inr (d1, ?b)" "length qs = k"
    using Suc.IH [OF 1(1)] le by simp_all
  have lc: "length (concat (map (px_bytes n) qs)) = k * n"
    using assms(1) IH(2) by (simp add: length_concat comp_def sum_list_triv mult.commute)
  have lb: "length ?b = length buf" using lc le by simp
  have p: "y * stride + k * n + n < 2 ^ 64" using le assms(4) by simp
  have "write_pixel (px_offset stride n y k) (px_bytes n (dq_prev d')) ?b =
      Inr (take (y * stride) buf @ concat (map (px_bytes n) ps) @ drop (y * stride + (k * n + n)) buf)"
  proof -
    have "write_pixel (y * stride + k * n) (px_bytes n (dq_prev d')) ?b =
        Inr (take (y * stride + k * n) ?b @ px_bytes n (dq_prev d') @ drop (y * stride + k * n + n) ?b)"
      using le lb p assms(1) by (simp add: write_pixel_def sat_u_def slice_range_def ok_or_def Let_def)
    also have "take (y * stride + k * n) ?b = take (y * stride) buf @ concat (map (px_bytes n) qs)"
      using lc le by simp
    also have "drop (y * stride + k * n + n) ?b = drop (y * stride + (k * n + n)) buf"
      using lc le by (simp add: ac_simps)
    finally show ?thesis using p by (simp add: px_offset_eq 1(3))
  qed
  then have "decode_pixel stride n y k (d1, ?b) =
      Inr (d', take (y * stride) buf @ concat (map (px_bytes n) ps) @ drop (y * stride + (k * n + n)) buf)"
    by (simp add: decode_pixel_def 1(2))
  then show ?case using IH 1(3) by (simp add: for_each_append add.commute [of n])
qed simp

lemma decode_rows:
  assumes "n = 3 \<or> n = 4" "w * n \<le> stride" "next_pixels (h * w) d = Inr (ps, d')"
    "h * stride \<le> length buf" "length buf < 2 ^ 63"
  shows "\<exists>buf'. for_each (\<lambda>y. for_each (decode_pixel stride n y) [0..<w]) [0..<h] (d, buf) = Inr (d', buf') \<and>
    length ps = h * w \<and> length buf' = length buf \<and>
    (\<forall>y<h. take (w * n) (drop (y * stride) buf') = concat (map (px_bytes n) (take w (drop (y * w) ps))))"
  using assms(3,4)
proof (induction h arbitrary: ps d')
  case (Suc h)
  obtain qs d1 rs where 1: "next_pixels (h * w) d = Inr (qs, d1)" "next_pixels w d1 = Inr (rs, d')" "ps = qs @ rs"
    using Suc.prems(1) next_pixels_add [of "h * w" w d] by (auto simp: and_then_Inr add.commute [of w])
  have le: "h * stride + stride \<le> length buf" using Suc.prems(2) by simp
  obtain b where IH: "for_each (\<lambda>y. for_each (decode_pixel stride n y) [0..<w]) [0..<h] (d, buf) = Inr (d1, b)"
    "length qs = h * w" "length b = length buf"
    "\<forall>y<h. take (w * n) (drop (y * stride) b) = concat (map (px_bytes n) (take w (drop (y * w) qs)))"
    using Suc.IH [OF 1(1)] le by auto
  have in1: "h * stride + w * n \<le> length b" using le assms(2) IH(3) by simp
  let ?b = "take (h * stride) b @ concat (map (px_bytes n) rs) @ drop (h * stride + w * n) b"
  have row: "for_each (decode_pixel stride n h) [0..<w] (d1, b) = Inr (d', ?b)" "length rs = w"
    using decode_row [OF assms(1) 1(2) in1] IH(3) assms(5) by simp_all
  have lc: "length (concat (map (px_bytes n) rs)) = w * n"
    using assms(1) row(2) by (simp add: length_concat comp_def sum_list_triv mult.commute)
  have lb: "length ?b = length buf" using lc in1 IH(3) by simp
  have "take (w * n) (drop (y * stride) ?b) = concat (map (px_bytes n) (take w (drop (y * w) ps)))" if "y < Suc h" for y
  proof (cases "y < h")
    case True
    have "(y + 1) * stride \<le> h * stride" "(y + 1) * w \<le> h * w" using True by (intro mult_le_mono1; simp)+
    then have i: "y * stride + w * n \<le> h * stride" "y * w + w \<le> length qs" using assms(2) IH(2) by simp_all
    have "take (w * n) (drop (y * stride) ?b) = take (w * n) (drop (y * stride) b)"
      by (rule slice_prefix [OF i(1)]) (use in1 in simp)
    then show ?thesis using IH(4) True i(2) 1(3) by simp
  next
    case False
    then have y: "y = h" using that by simp
    have "take (w * n) (drop (h * stride) ?b) = concat (map (px_bytes n) rs)" using lc in1 by simp
    then show ?thesis using y 1(3) IH(2) row(2) by simp
  qed
  then show ?case
    using IH(1,2) row 1(3) lb by (intro exI [of _ ?b]) (simp add: for_each_append)
qed simp

section \<open>The header\<close>

definition header_bytes :: "nat \<Rightarrow> nat \<Rightarrow> nat \<Rightarrow> u8 list" where
  "header_bytes width height channels = MAGIC @ to_be_bytes 4 (word_of_nat width :: u32) @
     to_be_bytes 4 (word_of_nat height :: u32) @ [word_of_nat channels, 0]"

lemma rd_u32_be_eq:
  assumes "rd_ok r" "length (rd_data r) < 2 ^ 63" "ahead r = to_be_bytes 4 (c :: u32) @ rest"
  shows "rd_u32_be r = Inr (c, rd_skip 4 r)"
proof -
  have "length (to_be_bytes 4 c) = 4" by (simp add: to_be_bytes_def)
  then have "rd_bytes 4 r = Inr (to_be_bytes 4 c, rd_skip 4 r)" using assms by (simp add: rd_bytes_eq)
  moreover have "from_be (to_be_bytes 4 c) = c"
    using from_be_bytes(2) [of c] by (simp add: to_be_bytes_def word_unat_eq_iff)
  ultimately show ?thesis by (simp add: rd_u32_be_def)
qed

lemma read_header_eq:
  assumes "0 < w" "w < 2 ^ 32" "0 < h" "h < 2 ^ 32" "f = RGB24 \<and> n = 3 \<or> f = RGBA \<and> n = 4"
    "length (header_bytes w h n @ rest) < 2 ^ 63"
  shows "read_header (rd_new (header_bytes w h n @ rest)) =
    Inr (\<lparr>hd_width = w, hd_height = h, hd_format = f, hd_channel_bytes = n\<rparr>, rd_skip 14 (rd_new (header_bytes w h n @ rest)))"
proof -
  let ?r = "rd_new (header_bytes w h n @ rest)" and ?w = "word_of_nat w :: u32" and ?h = "word_of_nat h :: u32"
  have l4: "length MAGIC = 4" "length (to_be_bytes 4 (c :: u32)) = 4" for c by (simp_all add: MAGIC_def to_be_bytes_def)
  have a0: "ahead ?r = MAGIC @ to_be_bytes 4 ?w @ to_be_bytes 4 ?h @ word_of_nat n # 0 # rest"
    by (simp add: ahead_def rd_new_def header_bytes_def)
  have len: "length (rd_data ?r) < 2 ^ 63" using assms(6) by (simp add: rd_new_def)
  have ok: "rd_ok ?r" using assms(6) by (simp add: rd_ok_def rd_new_def)
  have al: "length (ahead ?r) \<ge> 14" using a0 l4 by simp
  have ok4: "rd_ok (rd_skip 4 ?r)" "rd_ok (rd_skip 8 ?r)" using rd_ok_skip [OF ok] al by simp_all
  have r1: "rd_bytes 4 ?r = Inr (MAGIC, rd_skip 4 ?r)" using ok len a0 l4 by (simp add: rd_bytes_eq)
  have r2: "rd_u32_be (rd_skip 4 ?r) = Inr (?w, rd_skip 4 (rd_skip 4 ?r))"
    by (rule rd_u32_be_eq [OF ok4(1)]) (use len a0 l4 in simp_all)
  have r3: "rd_u32_be (rd_skip 8 ?r) = Inr (?h, rd_skip 4 (rd_skip 8 ?r))"
    by (rule rd_u32_be_eq [OF ok4(2)]) (use len a0 l4 in simp_all)
  have r4: "rd_u8 (rd_skip 12 ?r) = Inr (word_of_nat n, rd_skip 13 ?r)" "rd_u8 (rd_skip 13 ?r) = Inr (0, rd_skip 14 ?r)"
    using a0 l4 by (simp_all add: rd_u8_eq)
  have u: "unat ?w = w" "unat ?h = h" using assms(2,4) by (simp_all add: unsigned_of_nat take_bit_nat_eq_self)
  then have "?w \<noteq> 0" "?h \<noteq> 0" using assms(1,3) by auto
  then show ?thesis using assms(5) r1 r2 r3 r4 u by (auto simp: read_header_def)
qed

section \<open>Frames\<close>

lemma RGB24_RGBA [simp]: "RGB24 \<noteq> RGBA" "RGBA \<noteq> RGB24"
  by (simp_all add: RGB24_def RGBA_def)

definition qoi_format :: "pix_fmt \<Rightarrow> nat \<Rightarrow> bool" where
  "qoi_format f n \<longleftrightarrow> f = RGB24 \<and> n = 3 \<or> f = RGBA \<and> n = 4"

lemma qoi_format_geometry:
  assumes "qoi_format f n"
  shows "n = 3 \<or> n = 4" "pf_planes f = 1" "min_stride f width 0 = width * n" "plane_height f height 0 = height"
  using assms
  by (auto simp: qoi_format_def RGB24_def RGBA_def min_stride_def pf_has_def pf_flag_defs row_samples_def cpt_def
      plane_height_def chroma_plane_def Let_def)

text \<open>The plane of a checked frame in one of the two formats.\<close>

lemma qoi_plane:
  assumes "video_from_planes f w h planes = Inr fr" "qoi_format f n" "\<forall>p \<in> set planes. length (pl_data p) < 2 ^ 63"
  obtains p where "planes = [p]" "fr = from_data (Video f w h [p])" "w * n \<le> pl_stride p"
    "h * pl_stride p \<le> length (pl_data p)" "length (pl_data p) < 2 ^ 63"
    "\<And>y. Option.bind (plane_view 0 fr) (pr_row y) =
       (if y < h then Some (take (w * n) (drop (y * pl_stride p) (pl_data p))) else None)"
proof -
  note G = qoi_format_geometry [OF assms(2)]
  have fr: "fr = from_data (Video f w h planes)" and l: "length planes = 1"
    using assms(1) G(2) by (auto simp: video_from_planes_def and_then_Inr split: if_splits)
  then obtain p where p: "planes = [p]" by (auto simp: length_Suc_conv)
  obtain v where V: "plane_view 0 fr = Some v" "view_ok v" "pr_data v = pl_data (planes ! 0)"
    "pr_stride v = pl_stride (planes ! 0)" "(pr_rows v, pr_row_bytes v) = snd (video_geometry f w h 0)"
    using checked_views [OF assms(1) _ assms(3), of 0] l by auto
  have geo: "pr_rows v = h" "pr_row_bytes v = w * n" "pr_data v = pl_data p" "pr_stride v = pl_stride p"
    using V(3-5) G(3,4) p by (simp_all add: video_geometry_eq)
  then have "w * n \<le> pl_stride p" "h * pl_stride p \<le> length (pl_data p)" "length (pl_data p) < 2 ^ 63"
    using V(2) by (simp_all add: view_ok_def)
  then show ?thesis using fr p V(1) geo pr_row_eq [OF V(2)] by (intro that [of p]) simp_all
qed

lemma length_image_px: "length (concat (image_px n stride w h src)) = h * w"
  by (simp add: image_px_def length_concat comp_def sum_list_triv)

lemma image_px_row:
  assumes "y < h"
  shows "take w (drop (y * w) (concat (image_px n stride w h src))) =
    map (\<lambda>x. px_of n (take n (drop (y * stride + x * n) src))) [0..<w]"
proof -
  let ?row = "\<lambda>y. map (\<lambda>x. px_of n (take n (drop (y * stride + x * n) src))) [0..<w]"
  have split: "[0..<h] = [0..<y] @ y # [Suc y..<h]" using assms
    by (metis le_add2 le_add_same_cancel2 less_imp_le upt_add_eq_append upt_conv_Cons le_iff_add)
  have "length (concat (map ?row [0..<y])) = y * w" by (simp add: length_concat comp_def sum_list_triv)
  then show ?thesis unfolding image_px_def split by simp
qed

lemma qoi_encode_eq:
  assumes "qoi_format f n" "0 < w" "0 < h" "w * n \<le> pl_stride p" "h * pl_stride p \<le> length (pl_data p)"
    "length (pl_data p) < 2 ^ 63"
  defines "ps \<equiv> concat (image_px n (pl_stride p) w h (pl_data p))"
  shows "\<exists>body. qoi_encode (from_data (Video f w h [p])) = Inr (header_bytes w h n @ body @ END_MARKER) \<and>
    decodes qt_new START_PIXEL body ps \<and> length body \<le> (n + 1) * (h * w)"
proof -
  note G = qoi_format_geometry [OF assms(1)]
  let ?s = "\<lparr>eq_out = header_bytes w h n, eq_table = qt_new, eq_prev = START_PIXEL, eq_run = 0, eq_seen = 0\<rparr>"
  have t: "length (eq_table ?s) = 64" by (simp add: qt_new_def)
  have len: "length ps = h * w" by (simp add: ps_def length_image_px)
  obtain body where b: "eq_out (fold (encode_pixel (w * h)) ps ?s) = header_bytes w h n @ body"
    "decodes qt_new START_PIXEL body ps"
    using pixels_round_trip [of ?s ps "w * h"] len t by auto
  have "list_all (\<lambda>p. snd (snd (snd p)) = 255) ps" if "n = 3"
    using that by (auto simp: ps_def image_px_def list_all_iff px_of_def)
  then have "length (eq_out (fold (encode_pixel (w * h)) ps ?s)) \<le> length (header_bytes w h n) + 0 + (n + 1) * length ps"
    using encoded_length [OF t, of n ps "w * h"] G(1) by (auto simp: START_PIXEL_def)
  then have l: "length body \<le> (n + 1) * (h * w)" using b(1) len by simp
  have "qoi_encode (from_data (Video f w h [p])) = Inr (eq_out (fold (encode_pixel (w * h)) ps ?s) @ END_MARKER)"
    using assms(1-3) encode_rows [OF G(1) assms(4-6)]
    by (auto simp: qoi_encode_def from_data_def qoi_format_def ok_or_def get_at_def Let_def header_bytes_def ps_def)
  then show ?thesis using b l by (intro exI [of _ body]) simp
qed

lemma decode_image_eq:
  assumes "qoi_format f n" "w * n \<le> stride" "h * stride \<le> length buf" "length buf < 2 ^ 63"
    "decodes qt_new START_PIXEL body ps" "length ps = h * w" "rd_ok r" "length (rd_data r) < 2 ^ 63"
    "ahead r = body @ END_MARKER"
  shows "\<exists>buf'. decode_image \<lparr>hd_width = w, hd_height = h, hd_format = f, hd_channel_bytes = n\<rparr> stride r buf = Inr buf' \<and>
    length buf' = length buf \<and>
    (\<forall>y<h. take (w * n) (drop (y * stride) buf') = concat (map (px_bytes n) (take w (drop (y * w) ps))))"
proof -
  let ?d = "\<lparr>dq_reader = r, dq_table = qt_new, dq_prev = START_PIXEL, dq_run = 0\<rparr>"
  have "dq_ok ?d" using assms(7,8) by (simp add: dq_ok_def qt_new_def)
  then obtain d' where d': "next_pixels (length ps) ?d = Inr (ps, d')" "dq_reader d' = rd_skip (length body) r"
    by (rule decodesD [OF assms(5), of ?d END_MARKER]) (use assms(9) in simp_all)
  obtain buf' where B: "for_each (\<lambda>y. for_each (decode_pixel stride n y) [0..<w]) [0..<h] (?d, buf) = Inr (d', buf')"
    "length buf' = length buf"
    "\<forall>y<h. take (w * n) (drop (y * stride) buf') = concat (map (px_bytes n) (take w (drop (y * w) ps)))"
    using decode_rows [OF qoi_format_geometry(1) [OF assms(1)] assms(2) d'(1) [unfolded assms(6)] assms(3,4)] by blast
  have "rd_ok (rd_skip (length body) r)" using assms(7,9) by (intro rd_ok_skip) simp_all
  then have "rd_bytes (length END_MARKER) (dq_reader d') = Inr (END_MARKER, rd_skip (length END_MARKER) (dq_reader d'))"
    using assms(8,9) by (simp add: d'(2) rd_bytes_eq END_MARKER_def)
  then show ?thesis using B by (intro exI [of _ buf']) (simp add: decode_image_def)
qed

lemma qoi_lossless:
  assumes "video_from_planes f w h planes = Inr fr" "\<forall>p \<in> set planes. length (pl_data p) < 2 ^ 63"
    "f = RGB24 \<and> n = 3 \<or> f = RGBA \<and> n = 4" "0 < w" "w < 2 ^ 32" "0 < h" "h < 2 ^ 32" "22 + (n + 1) * (h * w) < 2 ^ 63"
    "alloc_video grow addr f w h b = (Inr blank, b')"
  shows "\<exists>bytes out. qoi_encode fr = Inr bytes \<and> length bytes \<le> 22 + (n + 1) * (h * w) \<and>
    parameters bytes = Some (w, h, f) \<and> qoi_decode grow addr bytes b = (Inr out, b') \<and>
    video_from_planes f w h (planes_slice out) = Inr out \<and>
    (\<forall>y. Option.bind (plane_view 0 out) (pr_row y) = Option.bind (plane_view 0 fr) (pr_row y))"
proof -
  have F: "qoi_format f n" using assms(3) by (simp add: qoi_format_def)
  note G = qoi_format_geometry [OF F]
  obtain p where P: "planes = [p]" "fr = from_data (Video f w h [p])" "w * n \<le> pl_stride p"
    "h * pl_stride p \<le> length (pl_data p)" "length (pl_data p) < 2 ^ 63"
    "\<And>y. Option.bind (plane_view 0 fr) (pr_row y) =
       (if y < h then Some (take (w * n) (drop (y * pl_stride p) (pl_data p))) else None)"
    using qoi_plane [OF assms(1) F assms(2)] by blast
  let ?ps = "concat (image_px n (pl_stride p) w h (pl_data p))"
  obtain body where B: "qoi_encode fr = Inr (header_bytes w h n @ body @ END_MARKER)"
    "decodes qt_new START_PIXEL body ?ps" "length body \<le> (n + 1) * (h * w)"
    using qoi_encode_eq [OF F assms(4,6) P(3-5)] P(2) by blast
  let ?bytes = "header_bytes w h n @ body @ END_MARKER"
  have l: "length ?bytes = 22 + length body" by (simp add: header_bytes_def MAGIC_def END_MARKER_def to_be_bytes_def)
  then have len: "length ?bytes < 2 ^ 63" using B(3) assms(8) by linarith
  let ?h = "\<lparr>hd_width = w, hd_height = h, hd_format = f, hd_channel_bytes = n\<rparr>" and ?r = "rd_skip 14 (rd_new ?bytes)"
  have H: "read_header (rd_new ?bytes) = Inr (?h, ?r)" by (rule read_header_eq [OF assms(4-7,3) len])
  have r: "rd_ok ?r" "length (rd_data ?r) < 2 ^ 63" "ahead ?r = body @ END_MARKER"
    using len l by (simp_all add: rd_ok_def rd_skip_def rd_new_def ahead_def header_bytes_def MAGIC_def to_be_bytes_def)
  let ?stride = "aligned_stride f w 0"
  let ?q = "\<lparr>pl_data = replicate (?stride * h) 0, pl_stride = ?stride\<rparr> :: plane"
  note A = alloc_video_Inr [OF assms(9)]
  have blank: "blank = from_data (Video f w h [?q])" using A(1) G(2,4) by simp
  have s: "w * n \<le> ?stride" "?stride < w * n + 64" using A(2) [of 0] G(2,3) by (simp_all add: ALIGN_def)
  have "?stride * h \<le> (w * n + 63) * h" using s(2) by (intro mult_le_mono1) simp
  also have "\<dots> = n * (h * w) + 63 * h" by (simp add: algebra_simps)
  also have "\<dots> < 2 ^ 63" using assms(7,8) G(1) by auto
  finally have small: "length (pl_data ?q) < 2 ^ 63" by simp
  obtain buf where D: "decode_image ?h ?stride ?r (pl_data ?q) = Inr buf" "length buf = length (pl_data ?q)"
    "\<forall>y<h. take (w * n) (drop (y * ?stride) buf) = concat (map (px_bytes n) (take w (drop (y * w) ?ps)))"
    using decode_image_eq [OF F s(1) _ small B(2) length_image_px r] by (auto simp: mult.commute)
  let ?out = "from_data (Video f w h [?q\<lparr>pl_data := buf\<rparr>])"
  have out: "qoi_decode grow addr ?bytes b = (Inr ?out, b')"
    using H assms(9) blank D(1) by (simp add: qoi_decode_def from_data_def get_at_def)
  have V: "video_from_planes f w h [?q\<lparr>pl_data := buf\<rparr>] = Inr ?out"
  proof -
    have "check_plane f w h (0, ?q\<lparr>pl_data := buf\<rparr>) () = Inr ()"
      using D(2) s(1) G small by (simp add: check_plane_Inr video_geometry_eq sat_u_def)
    then show ?thesis using G(2) by (simp add: video_from_planes_def)
  qed
  obtain q where Q: "[?q\<lparr>pl_data := buf\<rparr>] = [q]"
    "\<And>y. Option.bind (plane_view 0 ?out) (pr_row y) =
       (if y < h then Some (take (w * n) (drop (y * pl_stride q) (pl_data q))) else None)"
    using qoi_plane [OF V F] D(2) small by auto
  have "take (w * n) (drop (y * ?stride) buf) = take (w * n) (drop (y * pl_stride p) (pl_data p))" if y: "y < h" for y
  proof -
    have "(y + 1) * pl_stride p \<le> h * pl_stride p" using y by (intro mult_le_mono1) simp
    then have "y * pl_stride p + w * n \<le> length (pl_data p)" using P(3,4) by simp
    from image_row_bytes [OF G(1) this] show ?thesis using D(3) y by (simp add: image_px_row [OF y] comp_def)
  qed
  then have "Option.bind (plane_view 0 ?out) (pr_row y) = Option.bind (plane_view 0 fr) (pr_row y)" for y
    using Q P(6) by auto
  then show ?thesis using B(1,3) l H out V
    by (intro exI [of _ ?bytes] exI [of _ ?out])
      (simp add: parameters_def planes_slice_def from_data_def)
qed

text \<open>
  C5. The codec is lossless: a frame in RGB24 or RGBA whose planes were checked encodes, to at most
  one byte per pixel more than its samples plus 22; wherever the decoder may allocate the
  picture, it returns a frame of the same format and dimensions, accepted by the same check,
  with the same rows, and charges the budget for nothing else; the header alone states the
  same format and dimensions.
\<close>

theorem qoi_round_trip:
  assumes "video_from_planes f w h planes = Inr fr" "\<forall>p \<in> set planes. length (pl_data p) < 2 ^ 63"
    "f = RGB24 \<and> n = 3 \<or> f = RGBA \<and> n = 4" "0 < w" "w < 2 ^ 32" "0 < h" "h < 2 ^ 32" "22 + (n + 1) * (h * w) < 2 ^ 63"
    "alloc_video grow addr f w h b = (Inr blank, b')"
  shows "\<exists>bytes out. qoi_encode fr = Inr bytes \<and> length bytes \<le> 22 + (n + 1) * (h * w) \<and>
    parameters bytes = Some (w, h, f) \<and> qoi_decode grow addr bytes b = (Inr out, b') \<and>
    video_from_planes f w h (planes_slice out) = Inr out \<and>
    (\<forall>y. Option.bind (plane_view 0 out) (pr_row y) = Option.bind (plane_view 0 fr) (pr_row y))"
  by (rule qoi_lossless [OF assms])

text \<open>A picture of one pixel.\<close>

definition one_pixel :: "plane list" where
  "one_pixel = [\<lparr>pl_data = [1, 2, 3], pl_stride = 3\<rparr>]"

lemma one_pixel_ok:
  shows "video_from_planes RGB24 1 1 one_pixel = Inr (from_data (Video RGB24 1 1 one_pixel))"
    "\<exists>blank b'. alloc_video Some (\<lambda>_. 0) RGB24 1 1 (bd_new default_limits) = (Inr blank, b')"
    "\<forall>p \<in> set one_pixel. length (pl_data p) < 2 ^ 63"
proof -
  have np: "pf_planes RGB24 = 1" by (simp add: RGB24_def)
  have g: "video_geometry RGB24 1 1 0 = (64, 1, 3)"
    by (simp add: video_geometry_def RGB24_def min_stride_def pf_has_def pf_flag_defs row_samples_def cpt_def
        plane_height_def chroma_plane_def ALIGN_def Let_def)
  show "video_from_planes RGB24 1 1 one_pixel = Inr (from_data (Video RGB24 1 1 one_pixel))"
    using np g by (simp add: one_pixel_def video_from_planes_def check_plane_def sat_u_def and_then_def)
  show "\<exists>blank b'. alloc_video Some (\<lambda>_. 0) RGB24 1 1 (bd_new default_limits) = (Inr blank, b')"
    by (simp add: alloc_video_def is_hw_def pf_has_def pf_flag_defs RGB24_def check_frame_def bd_new_def
        default_limits_def strict_def MIB_def Let_def checked_u_def fits_u_def compute_layout_def ALIGN_def
        is_power_of_two_def layout_step_def min_stride_def row_samples_def cpt_def checked_next_multiple_of_def
        and_then_def ok_or_def plane_height_def chroma_plane_def get_at_def buf_alloc_def ab_alloc_def raw_len_def
        bd_alloc_def reserve_array_def byte_size_def reserve_def bd_check_def res_alloc_def)
qed (simp add: one_pixel_def)

theorem qoi_round_trip_witness:
  "let fr = from_data (Video RGB24 1 1 one_pixel)
   in \<exists>bytes out b'. qoi_encode fr = Inr bytes \<and>
        qoi_decode Some (\<lambda>_. 0) bytes (bd_new default_limits) = (Inr out, b') \<and>
        Option.bind (plane_view 0 out) (pr_row 0) = Option.bind (plane_view 0 fr) (pr_row 0)"
proof -
  obtain blank b' where "alloc_video Some (\<lambda>_. 0) RGB24 1 1 (bd_new default_limits) = (Inr blank, b')"
    using one_pixel_ok(2) by blast
  from qoi_round_trip [OF one_pixel_ok(1,3) _ _ _ _ _ _ this, of 3] show ?thesis unfolding Let_def by fastforce
qed

section \<open>Every input\<close>

text \<open>A result that is an answer or one of some errors.\<close>

definition errors_in :: "codec_error set \<Rightarrow> codec_error + 'a \<Rightarrow> bool" where
  "errors_in E r \<longleftrightarrow> (case r of Inl e \<Rightarrow> e \<in> E | Inr _ \<Rightarrow> True)"

lemma errors_in_simps [simp]: "errors_in E (Inr x)" "errors_in E (Inl e) \<longleftrightarrow> e \<in> E"
  by (simp_all add: errors_in_def)

lemma errors_inD: "errors_in E r \<Longrightarrow> r = Inl e \<Longrightarrow> e \<in> E"
  by simp

lemma errors_in_ok_or [simp]: "e \<in> E \<Longrightarrow> errors_in E (ok_or e x)"
  by (simp add: ok_or_def split: option.split)

lemma errors_in_and_then [intro!]: "errors_in E r \<Longrightarrow> (\<And>x. errors_in E (k x)) \<Longrightarrow> errors_in E (and_then r k)"
  by (cases r) simp_all

lemma errors_in_reader [simp]:
  assumes "UnexpectedEof \<in> E"
  shows "errors_in E (rd_u8 r)" "errors_in E (rd_bytes n r)" "errors_in E (rd_u32_be r)"
  using assms by (auto simp: rd_u8_def rd_u32_be_def rd_bytes_def)

lemma next_pixel_errors: "errors_in {UnexpectedEof} (next_pixel d)"
proof -
  have "errors_in {UnexpectedEof} (chunk_rgb r d)" "errors_in {UnexpectedEof} (chunk_rgba r d)"
    "errors_in {UnexpectedEof} (chunk_diff t r d)" "errors_in {UnexpectedEof} (chunk_luma t r d)" for t r
    by (auto simp: chunk_rgb_def chunk_rgba_def chunk_diff_def chunk_luma_def Let_def split: list.split prod.split)
  then show ?thesis by (auto simp: next_pixel_def)
qed

lemma decode_pixel_safe:
  assumes "n = 3 \<or> n = 4" "y * stride + (x + 1) * n \<le> length buf" "length buf < 2 ^ 64"
  shows "case decode_pixel stride n y x (d, buf) of Inl e \<Rightarrow> e = UnexpectedEof | Inr (_, buf') \<Rightarrow> length buf' = length buf"
proof -
  have le: "y * stride + x * n + n \<le> length buf" using assms(2) by simp
  then have "\<exists>buf'. write_pixel (px_offset stride n y x) (px_bytes n q) buf = Inr buf' \<and> length buf' = length buf" for q
    using assms(1,3) by (simp add: write_pixel_def px_offset_eq sat_u_def slice_range_def ok_or_def Let_def)
  note W = this
  show ?thesis
  proof (cases "next_pixel d")
    case (Inl e)
    then show ?thesis using next_pixel_errors [of d] by (simp add: decode_pixel_def)
  next
    case (Inr d')
    obtain buf' where "write_pixel (px_offset stride n y x) (px_bytes n (dq_prev d')) buf = Inr buf'" "length buf' = length buf"
      using W by blast
    then show ?thesis using Inr by (simp add: decode_pixel_def)
  qed
qed

lemma decode_image_safe:
  assumes "n = 3 \<or> n = 4" "w * n \<le> stride" "h * stride \<le> length buf" "length buf < 2 ^ 64"
  shows "case for_each (\<lambda>y. for_each (decode_pixel stride n y) [0..<w]) [0..<h] (d :: qoi_dec, buf) of
      Inl e \<Rightarrow> e = UnexpectedEof | Inr t \<Rightarrow> length (snd t) = length buf"
proof (rule for_each_inv [where I = "\<lambda>_ t. length (snd t) = length buf"])
  fix ys y zs and t :: "qoi_dec \<times> u8 list"
  assume y: "[0..<h] = ys @ y # zs" and t: "length (snd t) = length buf"
  have yh: "y < h" using arg_cong [OF y, of set] by auto
  show "case for_each (decode_pixel stride n y) [0..<w] t of Inl e \<Rightarrow> e = UnexpectedEof | Inr t' \<Rightarrow> length (snd t') = length buf"
  proof (rule for_each_inv [where I = "\<lambda>_ t. length (snd t) = length buf"])
    fix us x vs and s :: "qoi_dec \<times> u8 list"
    assume x: "[0..<w] = us @ x # vs" and s: "length (snd s) = length buf"
    have "x < w" using arg_cong [OF x, of set] by auto
    from image_inside [OF assms(2,3) yh this] show "case decode_pixel stride n y x s of
        Inl e \<Rightarrow> e = UnexpectedEof | Inr t' \<Rightarrow> length (snd t') = length buf"
      using decode_pixel_safe [OF assms(1), of y stride x "snd s" "fst s"] s assms(4)
      by (auto split: sum.splits)
  qed (rule t)
qed simp

lemma decode_image_result:
  assumes "hd_channel_bytes h = 3 \<or> hd_channel_bytes h = 4" "hd_width h * hd_channel_bytes h \<le> stride"
    "hd_height h * stride \<le> length buf" "length buf < 2 ^ 64"
  shows "case decode_image h stride r buf of
      Inl e \<Rightarrow> e = UnexpectedEof \<or> e = InvalidData ''qoi: missing end marker'' | Inr buf' \<Rightarrow> length buf' = length buf"
proof -
  let ?loop = "for_each (\<lambda>y. for_each (decode_pixel stride (hd_channel_bytes h) y) [0..<hd_width h]) [0..<hd_height h]
       (\<lparr>dq_reader = r, dq_table = qt_new, dq_prev = START_PIXEL, dq_run = 0\<rparr>, buf)"
  have "case ?loop of Inl e \<Rightarrow> e = UnexpectedEof | Inr t \<Rightarrow> length (snd t) = length buf"
    by (rule decode_image_safe [OF assms])
  then show ?thesis
  proof (cases ?loop)
    case (Inr t)
    obtain d buf' where t: "t = (d, buf')" by fastforce
    have "errors_in {UnexpectedEof} (rd_bytes (length END_MARKER) (dq_reader d))" by simp
    then show ?thesis
      using \<open>case ?loop of Inl e \<Rightarrow> e = UnexpectedEof | Inr t \<Rightarrow> length (snd t) = length buf\<close> Inr t
      by (cases "rd_bytes (length END_MARKER) (dq_reader d)") (auto simp: decode_image_def)
  qed (simp add: decode_image_def)
qed

lemma alloc_planes_error:
  "alloc_planes grow addr ly is ps b = (Inl e, b') \<Longrightarrow> \<exists>l. e = Over_limit l"
  by (induction "is" arbitrary: ps b)
    (auto simp: buf_alloc_def ab_alloc_def split: prod.splits sum.splits option.splits)

lemma layout_step_error:
  assumes "layout_step f w h align i ly = Inl e" "i < 4" "length (ly_strides ly) = 4" "length (ly_sizes ly) = 4"
  shows "\<exists>l. e = Over_limit l"
  using assms
  by (auto simp: layout_step_def and_then_def ok_or_def image_overflow_def split: sum.splits option.splits if_splits)

lemma alloc_video_error:
  assumes "alloc_video grow addr f w h b = (Inl e, b')" "\<not> is_hw f" "pf_planes f \<le> 1"
  shows "\<exists>l. e = Over_limit l"
proof -
  let ?ly0 = "\<lparr>ly_strides = replicate 4 0, ly_sizes = replicate 4 0, ly_planes = pf_planes f, ly_total = 0\<rparr>"
  have "compute_layout f w h ALIGN = for_each (layout_step f w h ALIGN) [0..<pf_planes f] ?ly0"
    by (simp add: compute_layout_def ALIGN_def is_power_of_two_def)
  moreover have "for_each (layout_step f w h ALIGN) [0..<pf_planes f] ?ly0 = Inl e \<Longrightarrow> \<exists>l. e = Over_limit l" for e
    using layout_step_error [of f w h ALIGN 0 ?ly0 e] assms(3)
    by (cases "pf_planes f") (auto split: sum.splits)
  ultimately show ?thesis
    using assms(1,2) alloc_planes_error
    by (fastforce simp: alloc_video_def Let_def split: sum.splits prod.splits)
qed

lemma read_header_errors:
  "errors_in {UnexpectedEof, InvalidData ''qoi: bad magic'', InvalidData ''qoi: zero-sized image'',
    InvalidData ''qoi: channels must be 3 or 4''} (read_header r)"
  by (auto simp: read_header_def)

lemma read_header_Inr:
  assumes "read_header r = Inr (h, r')"
  shows "qoi_format (hd_format h) (hd_channel_bytes h)" "0 < hd_width h" "hd_width h < 2 ^ 32"
    "0 < hd_height h" "hd_height h < 2 ^ 32"
proof -
  have "unat (w :: u32) < 2 ^ 32" for w
  proof -
    have "unat w < 2 ^ LENGTH(32)" by (rule unsigned_less)
    then show ?thesis by simp
  qed
  then show "qoi_format (hd_format h) (hd_channel_bytes h)" "0 < hd_width h" "hd_width h < 2 ^ 32"
    "0 < hd_height h" "hd_height h < 2 ^ 32"
    using assms by (auto simp: read_header_def and_then_Inr qoi_format_def unat_gt_0 split: if_splits)
qed

lemma alloc_video_limits:
  assumes "alloc_video grow addr f w h b = (Inr fr, b')"
  shows "w \<le> max_dimension (bd_limits b)" "h \<le> max_dimension (bd_limits b)"
    "w * h * max ((pf_bits_per_pixel f + 7) div 8) 1 \<le> max_frame_bytes (bd_limits b)"
  using assms
  by (auto simp: alloc_video_def check_frame_def Let_def checked_u_def split: if_splits sum.splits prod.splits option.splits)

lemma qoi_decode_errors:
  "case qoi_decode grow addr data b of
     (Inl e, b') \<Rightarrow> e \<in> {UnexpectedEof, InvalidData ''qoi: bad magic'', InvalidData ''qoi: zero-sized image'',
         InvalidData ''qoi: channels must be 3 or 4'', InvalidData ''qoi: missing end marker''} \<union> range Over_limit
   | (Inr fr, b') \<Rightarrow> \<exists>w h f n planes. parameters data = Some (w, h, f) \<and> qoi_format f n \<and>
       0 < w \<and> w \<le> max_dimension (bd_limits b) \<and> 0 < h \<and> h \<le> max_dimension (bd_limits b) \<and>
       w * h * n \<le> max_frame_bytes (bd_limits b) \<and>
       fr = from_data (Video f w h planes) \<and> video_from_planes f w h planes = Inr fr"
proof (cases "read_header (rd_new data)")
  case (Inl e)
  then show ?thesis using errors_inD [OF read_header_errors Inl] by (auto simp: qoi_decode_def)
next
  case (Inr hr)
  then obtain h r where H: "read_header (rd_new data) = Inr (h, r)" by (cases hr) simp
  let ?f = "hd_format h" and ?w = "hd_width h" and ?h = "hd_height h" and ?n = "hd_channel_bytes h"
  note R = read_header_Inr [OF H] and G = qoi_format_geometry [OF read_header_Inr(1) [OF H]]
  obtain res b' where a: "alloc_video grow addr ?f ?w ?h b = (res, b')" by fastforce
  show ?thesis
  proof (cases res)
    case (Inl e)
    have "\<not> is_hw ?f"
      using R(1) by (auto simp: qoi_format_def is_hw_def pf_has_def RGB24_def RGBA_def pf_flag_defs)
    then have "\<exists>l. e = Over_limit l" using alloc_video_error a Inl G(2) by fastforce
    then show ?thesis using H a Inl by (auto simp: qoi_decode_def)
  next
    case (Inr fr)
    let ?s = "aligned_stride ?f ?w 0"
    let ?q = "\<lparr>pl_data = replicate (?s * ?h) 0, pl_stride = ?s\<rparr> :: plane"
    note A = alloc_video_Inr [OF a [unfolded Inr]]
    have fr: "fr = from_data (Video ?f ?w ?h [?q])" using A(1) G(2,4) by simp
    have s: "?w * ?n \<le> ?s" "?s * ?h < 2 ^ 64" using A(2) [of 0] G(2-4) by simp_all
    have D: "case decode_image h ?s r (pl_data ?q) of
        Inl e \<Rightarrow> e = UnexpectedEof \<or> e = InvalidData ''qoi: missing end marker'' | Inr buf \<Rightarrow> length buf = ?s * ?h"
      using decode_image_result [OF G(1) s(1), where buf = "pl_data ?q" and r = r] s(2)
      by (cases "decode_image h ?s r (pl_data ?q)") (simp_all add: mult.commute)
    show ?thesis
    proof (cases "decode_image h ?s r (pl_data ?q)")
      case (Inl e)
      then show ?thesis using D H a Inr fr by (auto simp: qoi_decode_def from_data_def get_at_def)
    next
      case (Inr buf)
      let ?out = "from_data (Video ?f ?w ?h [?q\<lparr>pl_data := buf\<rparr>])"
      have out: "qoi_decode grow addr data b = (Inr ?out, b')"
        using H a \<open>res = Inr fr\<close> fr Inr by (simp add: qoi_decode_def from_data_def get_at_def)
      have "check_plane ?f ?w ?h (0, ?q\<lparr>pl_data := buf\<rparr>) () = Inr ()"
        using D Inr s G by (simp add: check_plane_Inr video_geometry_eq sat_u_def)
      then have "video_from_planes ?f ?w ?h [?q\<lparr>pl_data := buf\<rparr>] = Inr ?out"
        using G(2) by (simp add: video_from_planes_def)
      moreover have "max ((pf_bits_per_pixel ?f + 7) div 8) 1 = ?n"
        using R(1) by (auto simp: qoi_format_def RGB24_def RGBA_def)
      ultimately show ?thesis
        using alloc_video_limits [OF a [unfolded \<open>res = Inr fr\<close>]] R(1,2,4) H unfolding out
        by (simp add: parameters_def) (metis (no_types, lifting))
    qed
  qed
qed

text \<open>
  C17. The decoder is safe on every input: it returns, with a frame or with one of six errors (a bad
  magic, dimension, channel count or end marker, the end of the input, a limit of the budget);
  the internal errors of the code, a pixel written out of bounds among them, are not reachable.
  A frame has the format and the dimensions the header states, within the limits, and planes
  that pass the check.
\<close>

theorem qoi_decode_safe:
  "case qoi_decode grow addr data b of
     (Inl e, b') \<Rightarrow> e \<in> {UnexpectedEof, InvalidData ''qoi: bad magic'', InvalidData ''qoi: zero-sized image'',
         InvalidData ''qoi: channels must be 3 or 4'', InvalidData ''qoi: missing end marker''} \<union> range Over_limit
   | (Inr fr, b') \<Rightarrow> \<exists>w h f n planes. parameters data = Some (w, h, f) \<and> qoi_format f n \<and>
       0 < w \<and> w \<le> max_dimension (bd_limits b) \<and> 0 < h \<and> h \<le> max_dimension (bd_limits b) \<and>
       w * h * n \<le> max_frame_bytes (bd_limits b) \<and>
       fr = from_data (Video f w h planes) \<and> video_from_planes f w h planes = Inr fr"
  by (rule qoi_decode_errors)

section \<open>The codecs\<close>

record qoi_decoder =
  qd_machine :: "frame machine"
  qd_limits :: limits

definition qd_new :: "limits \<Rightarrow> qoi_decoder" where
  "qd_new lims = \<lparr>qd_machine = m_new 0, qd_limits = lims\<rparr>"

definition qd_caps :: "qoi_decoder \<Rightarrow> caps" where
  "qd_caps s = m_caps (qd_machine s)"

definition qd_send ::
  "(nat \<Rightarrow> nat option) \<Rightarrow> (nat \<Rightarrow> nat) \<Rightarrow> packet option \<Rightarrow> qoi_decoder \<Rightarrow> (codec_error + unit) \<times> qoi_decoder" where
  "qd_send grow addr input s =
     (case m_accept (input = None) (qd_machine s) of
        (Inl e, m) \<Rightarrow> (Inl e, s\<lparr>qd_machine := m\<rparr>)
      | (Inr Drain, m) \<Rightarrow> (Inr (), s\<lparr>qd_machine := m_finish m\<rparr>)
      | (Inr Input, m) \<Rightarrow>
          (case input of
             None \<Rightarrow> (Inr (), s\<lparr>qd_machine := m\<rparr>)
           | Some pkt \<Rightarrow>
               (case qoi_decode grow addr (payload pkt) (bd_new (qd_limits s)) of
                  (Inl e, _) \<Rightarrow> (Inl e, s\<lparr>qd_machine := m\<rparr>)
                | (Inr fr, _) \<Rightarrow> (Inr (), s\<lparr>qd_machine := m_emit (fr\<lparr>fr_pts := pk_pts pkt\<rparr>) m\<rparr>))))"

definition qd_receive :: "qoi_decoder \<Rightarrow> (codec_error + frame) \<times> qoi_decoder" where
  "qd_receive s = (case m_receive (qd_machine s) of (r, m) \<Rightarrow> (r, s\<lparr>qd_machine := m\<rparr>))"

definition qd_flush :: "qoi_decoder \<Rightarrow> qoi_decoder" where
  "qd_flush s = s\<lparr>qd_machine := m_flush (qd_machine s)\<rparr>"

record qoi_encoder =
  qe_machine :: "packet machine"
  qe_limits :: limits

definition qe_new :: "limits \<Rightarrow> qoi_encoder" where
  "qe_new lims = \<lparr>qe_machine = m_new 0, qe_limits = lims\<rparr>"

definition qe_caps :: "qoi_encoder \<Rightarrow> caps" where
  "qe_caps s = m_caps (qe_machine s)"

definition qe_send ::
  "(nat \<Rightarrow> nat option) \<Rightarrow> nat \<Rightarrow> frame option \<Rightarrow> qoi_encoder \<Rightarrow> (codec_error + unit) \<times> qoi_encoder" where
  "qe_send grow addr input s =
     (case m_accept (input = None) (qe_machine s) of
        (Inl e, m) \<Rightarrow> (Inl e, s\<lparr>qe_machine := m\<rparr>)
      | (Inr Drain, m) \<Rightarrow> (Inr (), s\<lparr>qe_machine := m_finish m\<rparr>)
      | (Inr Input, m) \<Rightarrow>
          (case input of
             None \<Rightarrow> (Inr (), s\<lparr>qe_machine := m\<rparr>)
           | Some fr \<Rightarrow>
               (case qoi_encode fr of
                  Inl e \<Rightarrow> (Inl e, s\<lparr>qe_machine := m\<rparr>)
                | Inr bytes \<Rightarrow>
                    (case pk_from_slice grow addr bytes (bd_new (qe_limits s)) of
                       (Inl e, _) \<Rightarrow> (Inl e, s\<lparr>qe_machine := m\<rparr>)
                     | (Inr pkt, _) \<Rightarrow>
                         (Inr (), s\<lparr>qe_machine :=
                            m_emit (pkt\<lparr>pk_pts := fr_pts fr, pk_duration := fr_duration fr\<rparr>) m\<rparr>)))))"

definition qe_receive :: "qoi_encoder \<Rightarrow> (codec_error + packet) \<times> qoi_encoder" where
  "qe_receive s = (case m_receive (qe_machine s) of (r, m) \<Rightarrow> (r, s\<lparr>qe_machine := m\<rparr>))"

definition qe_flush :: "qoi_encoder \<Rightarrow> qoi_encoder" where
  "qe_flush s = s\<lparr>qe_machine := m_flush (qe_machine s)\<rparr>"

text \<open>What one input becomes.\<close>

definition qd_output :: "(nat \<Rightarrow> nat option) \<Rightarrow> (nat \<Rightarrow> nat) \<Rightarrow> limits \<Rightarrow> packet \<Rightarrow> codec_error + frame" where
  "qd_output grow addr lims pkt =
     and_then (fst (qoi_decode grow addr (payload pkt) (bd_new lims))) (\<lambda>fr. Inr (fr\<lparr>fr_pts := pk_pts pkt\<rparr>))"

definition qe_output :: "(nat \<Rightarrow> nat option) \<Rightarrow> nat \<Rightarrow> limits \<Rightarrow> frame \<Rightarrow> codec_error + packet" where
  "qe_output grow addr lims fr =
     and_then (qoi_encode fr) (\<lambda>bytes. and_then (fst (pk_from_slice grow addr bytes (bd_new lims))) (\<lambda>pkt.
       Inr (pkt\<lparr>pk_pts := fr_pts fr, pk_duration := fr_duration fr\<rparr>)))"

lemma input_taken_error: "e \<notin> {OutputPending, NeedMoreInput, Eof} \<Longrightarrow> input_taken (Inl e)"
  by (simp add: input_taken_def)

lemma qoi_decode_error:
  assumes "fst (qoi_decode grow addr data b) = Inl e"
  shows "e \<notin> {OutputPending, NeedMoreInput, Eof}"
  using qoi_decode_errors [where grow = grow and addr = addr and data = data and b = b] assms
  by (cases "qoi_decode grow addr data b") auto

lemma errors_in_for_each: "(\<And>x s. errors_in E (f x s)) \<Longrightarrow> errors_in E (for_each f xs s)"
proof (induction xs arbitrary: s)
  case (Cons x xs)
  have "errors_in E (f x s)" by (rule Cons.prems)
  then show ?case using Cons by (cases "f x s") auto
qed simp

lemma errors_in_mono: "errors_in E r \<Longrightarrow> E \<subseteq> F \<Longrightarrow> errors_in F r"
  by (cases r) auto

lemma qoi_encode_errors:
  "errors_in {InvalidData ''qoi: expected a video frame'', Unsupported ''qoi: encoder needs rgb24 or rgba input'',
     InvalidData ''qoi: zero-sized image'', InvalidData ''qoi: no plane 0'', InvalidData ''qoi: pixel read out of bounds'',
     InvalidData ''qoi: short pixel''} (qoi_encode fr)"
proof -
  let ?E = "{InvalidData ''qoi: expected a video frame'', Unsupported ''qoi: encoder needs rgb24 or rgba input'',
     InvalidData ''qoi: zero-sized image'', InvalidData ''qoi: no plane 0'', InvalidData ''qoi: pixel read out of bounds'',
     InvalidData ''qoi: short pixel''}"
  have s: "errors_in ?E (encode_sample src stride n k y x s)" for src stride n k y x s
    by (auto simp: encode_sample_def read_pixel_def sample_px_def split: list.split)
  have "errors_in ?E (for_each (\<lambda>y. for_each (encode_sample src stride n k y) [0..<w]) [0..<h] s)" for src stride n k w h s
    by (intro errors_in_for_each s)
  then show ?thesis by (auto simp: qoi_encode_def Let_def split: frame_data.split)
qed

lemma pk_from_slice_error:
  "fst (pk_from_slice grow addr bytes b) = Inl e \<Longrightarrow> \<exists>l. e = Over_limit l"
  by (auto simp: pk_from_slice_def buf_from_slice_padded_def buf_alloc_padded_def buf_alloc_def ab_alloc_def
      split: prod.splits sum.splits option.splits)

lemma qd_output_error: "qd_output grow addr lims x = Inl e \<Longrightarrow> input_taken (Inl e)"
  using qoi_decode_error [of grow addr "payload x" "bd_new lims" e]
  by (intro input_taken_error) (auto simp: qd_output_def and_then_def split: sum.splits)

lemma qe_output_error: "qe_output grow addr lims x = Inl e \<Longrightarrow> input_taken (Inl e)"
proof (intro input_taken_error)
  assume a: "qe_output grow addr lims x = Inl e"
  show "e \<notin> {OutputPending, NeedMoreInput, Eof}"
  proof (cases "qoi_encode x")
    case (Inl e')
    then show ?thesis using a errors_inD [OF qoi_encode_errors Inl] by (auto simp: qe_output_def)
  next
    case (Inr bytes)
    then have "fst (pk_from_slice grow addr bytes (bd_new lims)) = Inl e"
      using a by (simp add: qe_output_def and_then_def split: sum.splits)
    then show ?thesis using pk_from_slice_error by blast
  qed
qed

interpretation qoi_dec: one_shot qd_machine "\<lambda>m. qd_machine_update (\<lambda>_. m)" "\<lambda>s. qd_output grow addr (qd_limits s)"
  "qd_send grow addr" qd_receive qd_flush for grow addr
proof
  fix s :: qoi_decoder and i :: "packet option" and x e
  show "qd_output grow addr (qd_limits s) x = Inl e \<Longrightarrow> input_taken (Inl e)"
    by (rule qd_output_error)
  show "qd_send grow addr i s = (case m_accept (i = None) (qd_machine s) of
        (Inl e, m) \<Rightarrow> (Inl e, s\<lparr>qd_machine := m\<rparr>)
      | (Inr Drain, m) \<Rightarrow> (Inr (), s\<lparr>qd_machine := m_finish m\<rparr>)
      | (Inr Input, m) \<Rightarrow> (case i of
            None \<Rightarrow> (Inr (), s\<lparr>qd_machine := m\<rparr>)
          | Some x \<Rightarrow> (case qd_output grow addr (qd_limits s) x of
                Inl e \<Rightarrow> (Inl e, s\<lparr>qd_machine := m\<rparr>)
              | Inr y \<Rightarrow> (Inr (), s\<lparr>qd_machine := m_emit y m\<rparr>))))"
    by (auto simp: qd_send_def qd_output_def split: prod.split sum.split accept.split option.split)
qed (simp_all add: qd_receive_def qd_flush_def)

interpretation qoi_enc: one_shot qe_machine "\<lambda>m. qe_machine_update (\<lambda>_. m)" "\<lambda>s. qe_output grow addr (qe_limits s)"
  "qe_send grow addr" qe_receive qe_flush for grow addr
proof
  fix s :: qoi_encoder and i :: "frame option" and x e
  show "qe_output grow addr (qe_limits s) x = Inl e \<Longrightarrow> input_taken (Inl e)"
    by (rule qe_output_error)
  show "qe_send grow addr i s = (case m_accept (i = None) (qe_machine s) of
        (Inl e, m) \<Rightarrow> (Inl e, s\<lparr>qe_machine := m\<rparr>)
      | (Inr Drain, m) \<Rightarrow> (Inr (), s\<lparr>qe_machine := m_finish m\<rparr>)
      | (Inr Input, m) \<Rightarrow> (case i of
            None \<Rightarrow> (Inr (), s\<lparr>qe_machine := m\<rparr>)
          | Some x \<Rightarrow> (case qe_output grow addr (qe_limits s) x of
                Inl e \<Rightarrow> (Inl e, s\<lparr>qe_machine := m\<rparr>)
              | Inr y \<Rightarrow> (Inr (), s\<lparr>qe_machine := m_emit y m\<rparr>))))"
    by (auto simp: qe_send_def qe_output_def split: prod.split sum.split accept.split option.split)
qed (simp_all add: qe_receive_def qe_flush_def)

text \<open>
  C15. The registered QOI codecs keep the protocol: behind the validator, whatever a caller sends
  (corrupt packets, frames of the wrong format and illegal calls included), neither codec
  panics or violates a rule; and since the last flush, the outputs handed over followed by
  those queued are the decoded (or encoded) inputs that succeeded, in order, with nothing lost
  once the end is reported.
\<close>

theorem qoi_codecs_conform:
  "(\<exists>v. vd_run (qd_send grow addr) qd_receive qd_flush qd_caps calls (vd_with_mode (qd_new lims) mode) = Some v \<and>
      vd_violations v = []) \<and>
   (\<exists>v. vd_run (qe_send grow addr') qe_receive qe_flush qe_caps calls' (vd_with_mode (qe_new lims) mode) = Some v \<and>
      vd_violations v = []) \<and>
   (case history (qd_send grow addr) qd_receive qd_flush calls (qd_new lims) [] [] of (ins, outs, s) \<Rightarrow>
      map (qd_output grow addr lims) ins = map Inr (outs @ m_queue (qd_machine s))) \<and>
   (case history (qe_send grow addr') qe_receive qe_flush calls' (qe_new lims) [] [] of (ins, outs, s) \<Rightarrow>
      map (qe_output grow addr' lims) ins = map Inr (outs @ m_queue (qe_machine s)))"
proof -
  have D: "qoi_dec.ready (qd_new lims)" and E: "qoi_enc.ready (qe_new lims)"
    by (simp_all add: qoi_dec.fresh_ready qoi_enc.fresh_ready qd_new_def qe_new_def)
  have new: "qd_limits (qd_new lims) = lims" "m_queue (qd_machine (qd_new lims)) = []" "m_stage (qd_machine (qd_new lims)) = Feeding"
    "qe_limits (qe_new lims) = lims" "m_queue (qe_machine (qe_new lims)) = []" "m_stage (qe_machine (qe_new lims)) = Feeding"
    by (simp_all add: qd_new_def qe_new_def m_new_def m_with_capacity_def)
  have dc: "qd_caps = (\<lambda>s. m_caps (qd_machine s))" and ec: "qe_caps = (\<lambda>s. m_caps (qe_machine s))"
    by (simp_all add: fun_eq_iff qd_caps_def qe_caps_def)
  have DO: "qoi_dec.in_order grow addr (qd_output grow addr lims) [] [] (qd_new lims)"
    and EO: "qoi_enc.in_order grow addr' (qe_output grow addr' lims) [] [] (qe_new lims)"
    using D E new by (simp_all add: qoi_dec.in_order_def qoi_enc.in_order_def)
  show ?thesis
  proof (intro conjI)
    show "\<exists>v. vd_run (qd_send grow addr) qd_receive qd_flush qd_caps calls (vd_with_mode (qd_new lims) mode) = Some v \<and>
      vd_violations v = []" unfolding dc
      by (rule qoi_dec.protocol.never_reports) (use D new in simp_all)
    show "\<exists>v. vd_run (qe_send grow addr') qe_receive qe_flush qe_caps calls' (vd_with_mode (qe_new lims) mode) = Some v \<and>
      vd_violations v = []" unfolding ec
      by (rule qoi_enc.protocol.never_reports) (use E new in simp_all)
    show "case history (qd_send grow addr) qd_receive qd_flush calls (qd_new lims) [] [] of (ins, outs, s) \<Rightarrow>
      map (qd_output grow addr lims) ins = map Inr (outs @ m_queue (qd_machine s))"
      using qoi_dec.history_in_order [OF _ DO, of calls] by (auto simp: qoi_dec.in_order_def split: prod.split)
    show "case history (qe_send grow addr') qe_receive qe_flush calls' (qe_new lims) [] [] of (ins, outs, s) \<Rightarrow>
      map (qe_output grow addr' lims) ins = map Inr (outs @ m_queue (qe_machine s))"
      using qoi_enc.history_in_order [OF _ EO, of calls'] by (auto simp: qoi_enc.in_order_def split: prod.split)
  qed
qed

lemma video_from_planes_frame: "video_from_planes f w h ps = Inr fr \<Longrightarrow> fr = from_data (Video f w h ps)"
  by (auto simp: video_from_planes_def and_then_Inr split: if_splits)

text \<open>
  C16. A picture survives the whole chain: a frame sent to the encoder comes out as a packet, padded
  for the bit reader, with the time of the frame; sent to the decoder, the packet comes out as
  a frame with the same time, format, dimensions and rows.
\<close>

theorem qoi_transcode:
  assumes "video_from_planes f w h planes = Inr fr" "\<forall>p \<in> set planes. length (pl_data p) < 2 ^ 63"
    "f = RGB24 \<and> n = 3 \<or> f = RGBA \<and> n = 4" "0 < w" "w < 2 ^ 32" "0 < h" "h < 2 ^ 32" "22 + (n + 1) * (h * w) < 2 ^ 63"
    "alloc_video grow addr f w h (bd_new lims') = (Inr blank, b')"
    "qe_send grow addr' (Some (fr\<lparr>fr_pts := t, fr_duration := dur\<rparr>)) (qe_new lims) = (Inr (), e)"
  shows "\<exists>pkt e' d out d'. qe_receive e = (Inr pkt, e') \<and> padded_ok pkt \<and> pk_pts pkt = t \<and> pk_duration pkt = dur \<and>
    qd_send grow addr (Some pkt) (qd_new lims') = (Inr (), d) \<and> qd_receive d = (Inr out, d') \<and> fr_pts out = t \<and>
    pixel_format out = Some f \<and> dimensions out = Some (w, h) \<and>
    (\<forall>y. Option.bind (plane_view 0 out) (pr_row y) = Option.bind (plane_view 0 fr) (pr_row y))"
proof -
  let ?fr = "fr\<lparr>fr_pts := t, fr_duration := dur\<rparr>"
  obtain bytes out where L: "qoi_encode fr = Inr bytes" "qoi_decode grow addr bytes (bd_new lims') = (Inr out, b')"
    "video_from_planes f w h (planes_slice out) = Inr out"
    "\<forall>y. Option.bind (plane_view 0 out) (pr_row y) = Option.bind (plane_view 0 fr) (pr_row y)"
    using qoi_lossless [OF assms(1-9)] by blast
  have enc: "qoi_encode ?fr = Inr bytes" using L(1) by (simp add: qoi_encode_def)
  obtain pkt b1 where pk: "pk_from_slice grow addr' bytes (bd_new lims) = (Inr pkt, b1)"
    and e: "e = qe_new lims\<lparr>qe_machine := m_emit (pkt\<lparr>pk_pts := t, pk_duration := dur\<rparr>)
       ((m_new 0)\<lparr>m_accepted := 1, m_produced_this_input := 0\<rparr>)\<rparr>"
    using assms(10) enc
    by (auto simp: qe_send_def m_accept_def qe_new_def m_new_def m_with_capacity_def caps_intersects_def
        TIGHT_CAPACITY_def sat_u_def split: prod.splits sum.splits)
  note P = pk_from_slice_ok [OF pk]
  let ?pkt = "pkt\<lparr>pk_pts := t, pk_duration := dur\<rparr>"
  have q: "payload ?pkt = bytes" "padded_ok ?pkt" using P(1,2) by (simp_all add: payload_def padded_ok_def)
  have recv: "\<exists>e'. qe_receive e = (Inr ?pkt, e')"
    by (simp add: e qe_receive_def m_receive_def m_emit_def m_new_def m_with_capacity_def)
  let ?out = "out\<lparr>fr_pts := t\<rparr>"
  have "\<exists>d d'. qd_send grow addr (Some ?pkt) (qd_new lims') = (Inr (), d) \<and> qd_receive d = (Inr ?out, d')"
    using q(1) L(2)
    by (simp add: qd_send_def m_accept_def qd_new_def m_new_def m_with_capacity_def caps_intersects_def
        TIGHT_CAPACITY_def sat_u_def qd_receive_def m_receive_def m_emit_def)
  moreover obtain ps where "out = from_data (Video f w h ps)" using video_from_planes_frame [OF L(3)] by blast
  then have "pixel_format ?out = Some f" "dimensions ?out = Some (w, h)"
    by (simp_all add: pixel_format_def dimensions_def from_data_def)
  moreover have "plane_view 0 ?out = plane_view 0 out" by (simp add: plane_view_def)
  ultimately show ?thesis using recv q(2) L(4) by auto
qed

theorem qoi_transcode_witness:
  "\<exists>e pkt e' d out d'. qe_send Some 0 (Some (from_data (Video RGB24 1 1 one_pixel)\<lparr>fr_pts := timestamp_new 7, fr_duration := DURATION_ZERO\<rparr>))
       (qe_new default_limits) = (Inr (), e) \<and> qe_receive e = (Inr pkt, e') \<and>
     qd_send Some (\<lambda>_. 0) (Some pkt) (qd_new default_limits) = (Inr (), d) \<and> qd_receive d = (Inr out, d') \<and>
     fr_pts out = timestamp_new 7"
proof -
  obtain blank b' where a: "alloc_video Some (\<lambda>_. 0) RGB24 1 1 (bd_new default_limits) = (Inr blank, b')"
    using one_pixel_ok(2) by blast
  let ?fr = "from_data (Video RGB24 1 1 one_pixel)"
  have "\<exists>bytes. qoi_encode ?fr = Inr bytes \<and> length bytes \<le> 22 + (3 + 1) * (1 * 1)"
    using qoi_lossless [OF one_pixel_ok(1,3) _ _ _ _ _ _ a, of 3] by fastforce
  then obtain bytes where B: "qoi_encode ?fr = Inr bytes" "length bytes \<le> 26" by auto
  have "\<exists>pkt b1. pk_from_slice Some 0 bytes (bd_new default_limits) = (Inr pkt, b1)"
    using B(2)
    by (simp add: pk_from_slice_def buf_from_slice_padded_def buf_alloc_padded_def buf_alloc_def ab_alloc_def
        raw_len_def checked_u_def fits_u_def bd_alloc_def reserve_array_def byte_size_def reserve_def bd_check_def
        bd_new_def default_limits_def strict_def MIB_def res_alloc_def BITSTREAM_PADDING_def ALIGN_def sat_u_def)
  then obtain pkt b1 where pk: "pk_from_slice Some 0 bytes (bd_new default_limits) = (Inr pkt, b1)" by blast
  have "qoi_encode (?fr\<lparr>fr_pts := timestamp_new 7, fr_duration := DURATION_ZERO\<rparr>) = Inr bytes"
    using B(1) by (simp add: qoi_encode_def)
  then have "\<exists>e. qe_send Some 0 (Some (?fr\<lparr>fr_pts := timestamp_new 7, fr_duration := DURATION_ZERO\<rparr>)) (qe_new default_limits) =
      (Inr (), e)"
    using pk by (simp add: qe_send_def m_accept_def qe_new_def m_new_def m_with_capacity_def caps_intersects_def
        TIGHT_CAPACITY_def)
  then obtain e where e: "qe_send Some 0 (Some (?fr\<lparr>fr_pts := timestamp_new 7, fr_duration := DURATION_ZERO\<rparr>)) (qe_new default_limits) =
      (Inr (), e)" by blast
  show ?thesis using e qoi_transcode [OF one_pixel_ok(1,3) _ _ _ _ _ _ a e, of 3] by fastforce
qed

end
