(* ===== verification/Signal_Vlc.thy ===== *)
theory Signal_Vlc
  imports Bits_Writer
begin

text \<open>
  Variable-length code tables: \<^verbatim>\<open>crates/signal/vaco-codec-vlc/src/lib.rs\<close>.

  A table is a list of codewords that is searched by a linear scan over a peek of the longest
  length (\<open>vlc_decode\<close>). The two accelerated routines, a full lookup table and a
  bounded one with a fallback, are proved equivalent to the scan; the structural checks
  \<open>is_prefix_free\<close> and \<open>kraft_numerator\<close> are proved to mean what they are
  used for: unique decoding and completeness. How a list of slots is filled in table order is
  stated once, in the locale \<open>first_claim\<close>.
\<close>

section \<open>The model\<close>

text \<open>
  Shifts are those of a release build (\<open>shr_word\<close>, \<open>shl_usize\<close>): on codewords of 1 to
  32 bits only one of them can reach the width of its type, the shift by 32 in
  \<^verbatim>\<open>build_lookup\<close> of a 32-bit codeword at width zero (\<open>zero_width_lookup_misses\<close>).
\<close>

record vlc_entry =
  ve_code :: u32
  ve_len :: nat
  ve_symbol :: u32

record vlc_table =
  vt_entries :: "vlc_entry list"
  vt_max_len :: nat

record vlc_lookup =
  vl_table :: vlc_table
  vl_width :: nat
  vl_slots :: "(u32 \<times> nat) list"

definition LOOKUP_FALLBACK :: nat where "LOOKUP_FALLBACK = 255"

definition vlc_new :: "vlc_entry list \<Rightarrow> vlc_table" where
  "vlc_new entries = \<lparr>vt_entries = entries, vt_max_len = fold max (map ve_len entries) 0\<rparr>"

text \<open>The loop of \<^verbatim>\<open>decode\<close>: the first candidate whose code is the top of the peek.\<close>

fun vlc_scan :: "nat \<Rightarrow> u32 \<Rightarrow> vlc_entry list \<Rightarrow> vlc_entry option" where
  "vlc_scan max_len peeked [] = None"
| "vlc_scan max_len peeked (e # es) =
     (if ve_len e = 0 \<or> ve_len e > max_len then vlc_scan max_len peeked es
      else let shift = max_len - ve_len e
           in if shr_word peeked shift = ve_code e then Some e else vlc_scan max_len peeked es)"

definition vlc_decode :: "vlc_table \<Rightarrow> bit_reader \<Rightarrow> u32 option \<times> bit_reader" where
  "vlc_decode t r =
     (if vt_max_len t = 0 then (None, r)
      else case br_peek (vt_max_len t) r of (peeked, r1) \<Rightarrow>
        (case vlc_scan (vt_max_len t) peeked (vt_entries t) of
           Some e \<Rightarrow> (Some (ve_symbol e), br_skip (ve_len e) r1)
         | None \<Rightarrow> (None, r1)))"

text \<open>\<^verbatim>\<open>slots.iter_mut().skip(base).take(span)\<close>: free slots of the span get the value.\<close>

definition fill_slots :: "nat \<Rightarrow> nat \<Rightarrow> u32 \<times> nat \<Rightarrow> (u32 \<times> nat) list \<Rightarrow> (u32 \<times> nat) list" where
  "fill_slots base count v slots =
     take base slots @ map (\<lambda>s. if snd s = 0 then v else s) (take count (drop base slots)) @
     drop count (drop base slots)"

definition lut_step :: "nat \<Rightarrow> vlc_entry \<Rightarrow> (u32 \<times> nat) list \<Rightarrow> (u32 \<times> nat) list" where
  "lut_step max_len e lut =
     (if ve_len e = 0 \<or> ve_len e > max_len then lut
      else let shift = max_len - ve_len e
           in fill_slots (shl_usize (unat (ve_code e)) shift) (shl_usize 1 shift)
                (ve_symbol e, ve_len e) lut)"

definition build_lut :: "vlc_table \<Rightarrow> (u32 \<times> nat) list" where
  "build_lut t =
     fold (lut_step (vt_max_len t)) (vt_entries t) (replicate (shl_usize 1 (vt_max_len t)) (0, 0))"

definition decode_with_lut ::
  "vlc_table \<Rightarrow> (u32 \<times> nat) list \<Rightarrow> bit_reader \<Rightarrow> u32 option \<times> bit_reader" where
  "decode_with_lut t lut r =
     (if vt_max_len t = 0 then (None, r)
      else case br_peek (vt_max_len t) r of (peeked, r1) \<Rightarrow>
        (case get_at lut (unat peeked) of
           None \<Rightarrow> (None, r1)
         | Some (symbol, len) \<Rightarrow>
             if len = 0 then (None, r1) else (Some symbol, br_skip len r1)))"

definition lookup_step ::
  "nat \<Rightarrow> nat \<Rightarrow> vlc_entry \<Rightarrow> (u32 \<times> nat) list \<Rightarrow> (u32 \<times> nat) list" where
  "lookup_step max_len width e slots =
     (if ve_len e = 0 \<or> ve_len e > max_len then slots
      else if ve_len e > width then
        (let prefix = unat (shr_word (ve_code e) (ve_len e - width))
         in case get_at slots prefix of
              Some s \<Rightarrow> if snd s = 0 then slots[prefix := (0, LOOKUP_FALLBACK)] else slots
            | None \<Rightarrow> slots)
      else fill_slots (shl_usize (unat (ve_code e)) (width - ve_len e))
             (shl_usize 1 (width - ve_len e)) (ve_symbol e, ve_len e) slots)"

definition build_lookup :: "vlc_table \<Rightarrow> nat \<Rightarrow> vlc_lookup option" where
  "build_lookup t width =
     (if width > vt_max_len t \<or> width \<ge> 64 then None
      else Some \<lparr>vl_table = t, vl_width = width,
        vl_slots = fold (lookup_step (vt_max_len t) width) (vt_entries t)
                     (replicate (shl_usize 1 width) (0, 0))\<rparr>)"

definition lookup_decode :: "vlc_lookup \<Rightarrow> bit_reader \<Rightarrow> u32 option \<times> bit_reader" where
  "lookup_decode l r =
     (case br_peek (vl_width l) r of (peeked, r1) \<Rightarrow>
       (case get_at (vl_slots l) (unat peeked) of
          None \<Rightarrow> (None, r1)
        | Some (symbol, len) \<Rightarrow>
            if len = 0 then (None, r1)
            else if len = LOOKUP_FALLBACK then vlc_decode (vl_table l) r1
            else (Some symbol, br_skip len r1)))"

definition entries_clash :: "vlc_entry \<Rightarrow> vlc_entry \<Rightarrow> bool" where
  "entries_clash a b =
     (case (if ve_len a \<le> ve_len b then (a, b) else (b, a)) of (short, long) \<Rightarrow>
        if ve_len short = 0 \<or> ve_len long = 0 \<or> ve_len short = ve_len long
        then ve_len short = ve_len long \<and> ve_code short = ve_code long
        else shr_word (ve_code long) (ve_len long - ve_len short) = ve_code short)"

fun is_prefix_free :: "vlc_entry list \<Rightarrow> bool" where
  "is_prefix_free [] = True"
| "is_prefix_free (a # es) \<longleftrightarrow> list_all (\<lambda>b. \<not> entries_clash a b) es \<and> is_prefix_free es"

definition kraft_step :: "nat \<Rightarrow> vlc_entry \<Rightarrow> nat \<Rightarrow> nat" where
  "kraft_step scale_len e acc =
     (if ve_len e = 0 \<or> ve_len e > scale_len then acc
      else sat_u 64 (acc + shl_usize 1 (scale_len - ve_len e)))"

definition kraft_numerator :: "vlc_entry list \<Rightarrow> nat \<Rightarrow> nat" where
  "kraft_numerator entries scale_len = fold (kraft_step scale_len) entries 0"

section \<open>Slots filled in table order\<close>

text \<open>
  Each step offers a value to the slots it claims and a slot keeps the first value it gets, so
  a slot ends up with the value of the first entry that claims it.
\<close>

locale first_claim =
  fixes step :: "'e \<Rightarrow> ('a \<times> nat) list \<Rightarrow> ('a \<times> nat) list"
    and claims :: "'e \<Rightarrow> nat \<Rightarrow> bool"
    and offer :: "'e \<Rightarrow> 'a \<times> nat"
  assumes step_length: "length (step e slots) = length slots"
    and step_nth: "i < length slots \<Longrightarrow>
      step e slots ! i = (if claims e i \<and> snd (slots ! i) = 0 then offer e else slots ! i)"
    and offer_marks: "claims e i \<Longrightarrow> snd (offer e) \<noteq> 0"
begin

lemma fold_length: "length (fold step es slots) = length slots"
  by (induction es arbitrary: slots) (simp_all add: step_length)

lemma fold_nth:
  "i < length slots \<Longrightarrow> fold step es slots ! i =
     (if snd (slots ! i) \<noteq> 0 then slots ! i
      else case find (\<lambda>e. claims e i) es of Some e \<Rightarrow> offer e | None \<Rightarrow> slots ! i)"
proof (induction es arbitrary: slots)
  case (Cons e es)
  then show ?case
    using offer_marks [of e i] by (auto simp: step_length step_nth split: option.split)
qed simp

lemma filled_nth:
  "i < n \<Longrightarrow> get_at (fold step es (replicate n (z, 0))) i =
     Some (case find (\<lambda>e. claims e i) es of Some e \<Rightarrow> offer e | None \<Rightarrow> (z, 0))"
  by (auto simp: get_at_def fold_length fold_nth split: option.split)

end

lemma length_fill_slots [simp]: "length (fill_slots base count v slots) = length slots"
  by (simp add: fill_slots_def)

lemma fill_slots_nth:
  assumes "i < length slots"
  shows "fill_slots base count v slots ! i =
    (if (base \<le> i \<and> i < base + count) \<and> snd (slots ! i) = 0 then v else slots ! i)"
  using assms by (auto simp: fill_slots_def nth_append min_def)

lemma span_iff:
  "(c * 2 ^ k \<le> i \<and> i < c * 2 ^ k + 2 ^ k) \<longleftrightarrow> i div 2 ^ k = (c :: nat)" (is "?L \<longleftrightarrow> ?R")
proof
  assume ?L
  then show ?R by (intro div_nat_eqI) (simp_all add: mult.commute)
next
  assume ?R
  then have "c * 2 ^ k + i mod 2 ^ k = i" using div_mult_mod_eq [of i "2 ^ k"] by simp
  moreover have "i mod 2 ^ k < 2 ^ k" by simp
  ultimately show ?L by linarith
qed

definition candidate :: "nat \<Rightarrow> vlc_entry \<Rightarrow> bool" where
  "candidate m e \<longleftrightarrow> ve_len e \<noteq> 0 \<and> ve_len e \<le> m"

definition entry_claims :: "nat \<Rightarrow> vlc_entry \<Rightarrow> nat \<Rightarrow> bool" where
  "entry_claims m e i \<longleftrightarrow> candidate m e \<and> i div 2 ^ (m - ve_len e) = unat (ve_code e)"

text \<open>
  The slots an entry fills, as the code computes them, and as a prefix condition. The two
  agree while no shift overflows.
\<close>

definition span_claims :: "nat \<Rightarrow> vlc_entry \<Rightarrow> nat \<Rightarrow> bool" where
  "span_claims k e i \<longleftrightarrow> shl_usize (unat (ve_code e)) k \<le> i \<and>
     i < shl_usize (unat (ve_code e)) k + shl_usize 1 k"

lemma span_claims_prefix:
  assumes "k < 32"
  shows "span_claims k e i \<longleftrightarrow> i div 2 ^ k = unat (ve_code e)"
proof -
  have "unat (ve_code e) < 2 ^ 32" using unsigned_less [of "ve_code e"] by simp
  then have "shl_usize (unat (ve_code e)) k = unat (ve_code e) * 2 ^ k" "shl_usize 1 k = 2 ^ k"
    using assms shl_usize_eq [of _ 32 k] shl_usize_eq [of 1 1 k] by (simp_all add: push_bit_eq_mult)
  then show ?thesis by (simp only: span_claims_def span_iff)
qed

lemma one_shl_usize: "n < 64 \<Longrightarrow> shl_usize (Suc 0) n = 2 ^ n"
  using shl_usize_eq [of 1 1 n] by (cases "n = 63") (simp_all add: push_bit_eq_mult shl_usize_def take_bit_nat_eq_self)

interpretation lut: first_claim "lut_step m" "\<lambda>e i. candidate m e \<and> span_claims (m - ve_len e) e i"
  "\<lambda>e. (ve_symbol e, ve_len e)" for m
proof unfold_locales
  show "length (lut_step m e slots) = length slots" for m e slots
    by (simp add: lut_step_def Let_def)
  show "i < length slots \<Longrightarrow> lut_step m e slots ! i =
      (if (candidate m e \<and> span_claims (m - ve_len e) e i) \<and> snd (slots ! i) = 0
       then (ve_symbol e, ve_len e) else slots ! i)"
    for m e slots i
    by (simp add: lut_step_def Let_def fill_slots_nth span_claims_def candidate_def not_less)
qed (simp add: candidate_def)

definition lookup_claims :: "nat \<Rightarrow> nat \<Rightarrow> vlc_entry \<Rightarrow> nat \<Rightarrow> bool" where
  "lookup_claims m w e i \<longleftrightarrow> candidate m e \<and>
     (if ve_len e > w then unat (shr_word (ve_code e) (ve_len e - w)) = i
      else span_claims (w - ve_len e) e i)"

definition lookup_offer :: "nat \<Rightarrow> vlc_entry \<Rightarrow> u32 \<times> nat" where
  "lookup_offer w e = (if ve_len e > w then (0, LOOKUP_FALLBACK) else (ve_symbol e, ve_len e))"

interpretation lookup: first_claim "lookup_step m w" "lookup_claims m w" "lookup_offer w" for m w
proof unfold_locales
  show "length (lookup_step m w e slots) = length slots" for m w e slots
    by (simp add: lookup_step_def Let_def split: option.split)
  show "i < length slots \<Longrightarrow> lookup_step m w e slots ! i =
      (if lookup_claims m w e i \<and> snd (slots ! i) = 0 then lookup_offer w e else slots ! i)"
    for m w e slots i
    by (auto simp: lookup_step_def Let_def fill_slots_nth span_claims_def lookup_claims_def lookup_offer_def
      candidate_def not_less get_at_def nth_list_update)
  show "lookup_claims m w e i \<Longrightarrow> snd (lookup_offer w e) \<noteq> 0" for m w e i
    by (auto simp: lookup_claims_def lookup_offer_def candidate_def LOOKUP_FALLBACK_def)
qed

text \<open>Where no shift overflows, the claims are prefix conditions.\<close>

lemma lut_claims_prefix:
  "m \<le> 32 \<Longrightarrow> (\<lambda>e i. candidate m e \<and> span_claims (m - ve_len e) e i) = entry_claims m"
  by (auto simp: fun_eq_iff entry_claims_def candidate_def span_claims_prefix)

lemma lookup_claims_prefix:
  assumes "m \<le> 32" "w \<le> m" "0 < w \<or> m < 32"
  shows "lookup_claims m w e i \<longleftrightarrow> candidate m e \<and>
     (if ve_len e > w then unat (ve_code e) div 2 ^ (ve_len e - w) = i
      else i div 2 ^ (w - ve_len e) = unat (ve_code e))"
proof -
  have "candidate m e \<Longrightarrow> ve_len e - w < 32" "candidate m e \<Longrightarrow> w - ve_len e < 32"
    using assms by (auto simp: candidate_def)
  then show ?thesis by (auto simp: lookup_claims_def shr_word_eq span_claims_prefix unat_drop)
qed

section \<open>The scan\<close>

lemma vlc_scan_find:
  assumes "m \<le> 32"
  shows "vlc_scan m p es = find (\<lambda>e. entry_claims m e (unat p)) es"
proof (induction es)
  case (Cons e es)
  have "ve_len e \<noteq> 0 \<Longrightarrow> m - ve_len e < 32" using assms by simp
  then show ?case
    using Cons.IH by (auto simp: Let_def entry_claims_def candidate_def shr_word_eq
      word_eq_iff_unsigned [where ?'a = nat] unat_drop simp del: unsigned_drop_bit_eq)
qed simp

text \<open>
  C29. The full lookup table is the scan: for every table whose longest code has at most 32
  bits, well formed or not, decoding through the table built by \<^verbatim>\<open>build_lut\<close> returns the
  same result and leaves the reader in the same state as the linear scan.
\<close>

theorem lut_is_scan:
  assumes "vt_max_len t \<le> 32"
  shows "decode_with_lut t (build_lut t) r = vlc_decode t r"
proof (cases "vt_max_len t = 0")
  case False
  obtain p r1 where p: "br_peek (vt_max_len t) r = (p, r1)" by fastforce
  have "unat p < shl_usize 1 (vt_max_len t)"
    using br_peek_less [OF assms p] assms by (simp add: one_shl_usize)
  note slot = lut.filled_nth [OF this, of "vt_max_len t" "vt_entries t" 0,
      unfolded fun_cong [OF fun_cong [OF lut_claims_prefix [OF assms]]]]
  have "find (\<lambda>e. entry_claims (vt_max_len t) e (unat p)) (vt_entries t) = Some e \<Longrightarrow> ve_len e \<noteq> 0" for e
    unfolding find_Some_iff entry_claims_def candidate_def by blast
  then show ?thesis
    using False p slot
    by (auto simp: decode_with_lut_def vlc_decode_def build_lut_def vlc_scan_find [OF assms] split: option.split)
qed (simp add: decode_with_lut_def vlc_decode_def)

theorem lut_is_scan_witness:
  "decode_with_lut (vlc_new [\<lparr>ve_code = 0, ve_len = 1, ve_symbol = 7\<rparr>])
     (build_lut (vlc_new [\<lparr>ve_code = 0, ve_len = 1, ve_symbol = 7\<rparr>])) (br_new [0x7F]) =
   vlc_decode (vlc_new [\<lparr>ve_code = 0, ve_len = 1, ve_symbol = 7\<rparr>]) (br_new [0x7F])"
  using lut_is_scan [of "vlc_new [\<lparr>ve_code = 0, ve_len = 1, ve_symbol = 7\<rparr>]" "br_new [0x7F]"]
  by (simp add: vlc_new_def)

section \<open>The bounded lookup\<close>

definition vlc_match :: "vlc_table \<Rightarrow> (nat \<Rightarrow> bool) \<Rightarrow> vlc_entry option" where
  "vlc_match t str =
     find (\<lambda>e. entry_claims (vt_max_len t) e (bits_val (window str (vt_max_len t)))) (vt_entries t)"

definition used_bits :: "vlc_entry option \<Rightarrow> nat" where
  "used_bits m = (case m of Some e \<Rightarrow> ve_len e | None \<Rightarrow> 0)"

lemma vlc_match_candidate: "vlc_match t str = Some e \<Longrightarrow> candidate (vt_max_len t) e"
  unfolding vlc_match_def find_Some_iff entry_claims_def by blast

lemma used_bits_le: "used_bits (vlc_match t str) \<le> vt_max_len t"
  using vlc_match_candidate [of t str] by (auto simp: used_bits_def candidate_def split: option.split)

lemma window_0 [simp]: "window str 0 = []"
  by (simp add: window_def)

lemma vlc_decode_spec:
  assumes "reader_ok r" "room r (vt_max_len t)" "vt_max_len t \<le> 32"
  shows "fst (vlc_decode t r) = map_option ve_symbol (vlc_match t (stream r)) \<and>
    advanced r (used_bits (vlc_match t (stream r))) (snd (vlc_decode t r))"
proof (cases "vt_max_len t = 0")
  case True
  then have "vlc_match t (stream r) = None"
    by (auto simp: vlc_match_def find_None_iff entry_claims_def candidate_def)
  then show ?thesis using True assms by (simp add: vlc_decode_def advanced_refl used_bits_def)
next
  case False
  obtain p r1 where p: "br_peek (vt_max_len t) r = (p, r1)" by fastforce
  have "room r 0" using assms(2) by (rule room_mono) simp
  note P = br_peek_spec [OF assms(1) this assms(3) p]
  then have r1: "advanced r 0 r1" "reader_ok r1" by (simp_all add: advanced_def)
  have scan: "vlc_scan (vt_max_len t) p (vt_entries t) = vlc_match t (stream r)"
    using P by (simp add: vlc_scan_find [OF assms(3)] vlc_match_def)
  show ?thesis
  proof (cases "vlc_match t (stream r)")
    case None
    then show ?thesis using False p scan r1 by (simp add: vlc_decode_def used_bits_def)
  next
    case (Some e)
    then have "ve_len e \<le> vt_max_len t" using vlc_match_candidate by (simp add: candidate_def)
    then have "room r1 (ve_len e)"
      using advanced_room [OF r1(1), of "ve_len e"] room_mono [OF assms(2)] by simp
    then have "advanced r (0 + ve_len e) (br_skip (ve_len e) r1)"
      using br_skip_spec r1 advanced_trans by blast
    then show ?thesis using False p scan Some by (simp add: vlc_decode_def used_bits_def)
  qed
qed

lemma window_prefix_val:
  "k \<le> n \<Longrightarrow> bits_val (window str n) div 2 ^ (n - k) = bits_val (window str k)"
proof -
  assume "k \<le> n"
  then obtain d where n: "n = k + d" using le_Suc_ex by blast
  have "bits_val (window (\<lambda>i. str (i + k)) d) < 2 ^ d"
    using bits_val_less [of "window (\<lambda>i. str (i + k)) d"] by simp
  then show ?thesis by (simp add: n window_add bits_val_append)
qed

lemma claims_at_width:
  assumes "m \<le> 32" "w \<le> m" "0 < w \<or> m < 32" "i = p div 2 ^ (m - w)"
  shows "entry_claims m e p \<Longrightarrow> lookup_claims m w e i"
    and "ve_len e \<le> w \<Longrightarrow> entry_claims m e p \<longleftrightarrow> lookup_claims m w e i"
proof -
  note lc = lookup_claims_prefix [OF assms(1-3)]
  have short: "ve_len e \<le> w \<Longrightarrow> entry_claims m e p \<longleftrightarrow> lookup_claims m w e i"
    using assms(2,4) by (simp add: entry_claims_def lc div_mult2_eq [symmetric] flip: power_add)
  then show "ve_len e \<le> w \<Longrightarrow> entry_claims m e p \<longleftrightarrow> lookup_claims m w e i" .
  show "lookup_claims m w e i" if c: "entry_claims m e p"
  proof (cases "ve_len e \<le> w")
    case False
    have len: "ve_len e \<le> m" using c by (simp add: entry_claims_def candidate_def)
    have code: "p div 2 ^ (m - ve_len e) = unat (ve_code e)" using c by (simp add: entry_claims_def)
    have "unat (ve_code e) div 2 ^ (ve_len e - w) = p div 2 ^ (m - ve_len e) div 2 ^ (ve_len e - w)"
      by (simp only: code)
    also have "\<dots> = p div 2 ^ (m - w)"
      using len False by (simp add: div_mult2_eq [symmetric] flip: power_add)
    finally show ?thesis using c False assms(4) by (simp add: entry_claims_def lc)
  qed (use short c in blast)
qed

lemma find_weaker:
  assumes "\<And>x. P x \<Longrightarrow> Q x"
  shows "find Q xs = None \<Longrightarrow> find P xs = None"
    and "find Q xs = Some x \<Longrightarrow> P x \<Longrightarrow> find P xs = Some x"
  using assms by (induction xs) (auto split: if_splits)

text \<open>The first entry that claims the slot of the next bits, and what the slot makes of it.\<close>

definition lookup_hit :: "vlc_table \<Rightarrow> nat \<Rightarrow> (nat \<Rightarrow> bool) \<Rightarrow> vlc_entry option" where
  "lookup_hit t w str =
     find (\<lambda>e. lookup_claims (vt_max_len t) w e (bits_val (window str w))) (vt_entries t)"

lemma lookup_hit_match:
  assumes "vt_max_len t \<le> 32" "w \<le> vt_max_len t" "0 < w \<or> vt_max_len t < 32"
  shows "lookup_hit t w str = None \<Longrightarrow> vlc_match t str = None"
    and "lookup_hit t w str = Some e \<Longrightarrow> ve_len e \<le> w \<Longrightarrow> vlc_match t str = Some e"
proof -
  let ?m = "vt_max_len t" and ?p = "bits_val (window str (vt_max_len t))" and ?i = "bits_val (window str w)"
  have "?i = ?p div 2 ^ (?m - w)" using window_prefix_val [OF assms(2)] by simp
  note C = claims_at_width [OF assms this]
  show "lookup_hit t w str = None \<Longrightarrow> vlc_match t str = None"
    unfolding vlc_match_def lookup_hit_def by (rule find_weaker(1) [where P = "\<lambda>e. entry_claims ?m e ?p", OF C(1)])
  assume hit: "lookup_hit t w str = Some e" and len: "ve_len e \<le> w"
  then have "lookup_claims ?m w e ?i" unfolding lookup_hit_def find_Some_iff by blast
  then have claims: "entry_claims ?m e ?p" unfolding C(2) [OF len] .
  show "vlc_match t str = Some e"
    unfolding vlc_match_def
    by (rule find_weaker(2) [where P = "\<lambda>e. entry_claims ?m e ?p",
          OF C(1) hit [unfolded lookup_hit_def] claims])
qed

lemma lookup_decode_slot:
  assumes "reader_ok r" "room r 0" "vt_max_len t \<le> 32" "build_lookup t w = Some l"
  shows "\<exists>r1. advanced r 0 r1 \<and> lookup_decode l r =
    (case lookup_hit t w (stream r) of None \<Rightarrow> (None, r1)
     | Some e \<Rightarrow> if ve_len e > w then vlc_decode t r1 else (Some (ve_symbol e), br_skip (ve_len e) r1))"
proof -
  let ?i = "bits_val (window (stream r) w)"
  have w: "w \<le> 32" and l: "vl_table l = t" "vl_width l = w"
    "vl_slots l = fold (lookup_step (vt_max_len t) w) (vt_entries t) (replicate (2 ^ w) (0, 0))"
    using assms(3,4) by (auto simp: build_lookup_def one_shl_usize split: if_splits)
  obtain v r1 where v: "br_peek w r = (v, r1)" by fastforce
  note P = br_peek_spec [OF assms(1,2) w v]
  have "?i < 2 ^ w" using bits_val_less [of "window (stream r) w"] by simp
  note slot = lookup.filled_nth [OF this, of "vt_max_len t" w "vt_entries t" 0, folded l(3) lookup_hit_def]
  have "lookup_decode l r =
      (case (case lookup_hit t w (stream r) of Some e \<Rightarrow> lookup_offer w e | None \<Rightarrow> (0, 0)) of (symbol, len) \<Rightarrow>
         if len = 0 then (None, r1) else if len = LOOKUP_FALLBACK then vlc_decode t r1
         else (Some symbol, br_skip len r1))"
    unfolding lookup_decode_def l(1,2) v using slot P by simp
  moreover have "ve_len e \<noteq> 0" if "lookup_hit t w (stream r) = Some e" for e
    using that unfolding lookup_hit_def find_Some_iff lookup_claims_def candidate_def by blast
  ultimately show ?thesis
    using P w by (intro exI [of _ r1]) (auto simp: lookup_offer_def LOOKUP_FALLBACK_def split: option.split)
qed

text \<open>
  C21. The bounded lookup is the scan: for every prefix width, on every table of codes of at
  most 32 bits, well formed or not, decoding through the cache-sized lookup returns the scan's
  result and consumes the same number of bits; \<^verbatim>\<open>build_lookup\<close> accepts no width above the
  longest code. Excluded is width zero on a table whose longest code has 32 bits: there
  \<^verbatim>\<open>build_lookup\<close> shifts a \<^verbatim>\<open>u32\<close> by 32, which panics with overflow checks and loses the
  fallback slot without (\<open>zero_width_lookup_misses\<close>).
\<close>

theorem lookup_is_scan:
  assumes "reader_ok r" "room r 32" "vt_max_len t \<le> 32" "build_lookup t w = Some l"
    "0 < w \<or> vt_max_len t < 32"
  shows "fst (lookup_decode l r) = fst (vlc_decode t r) \<and>
    (\<exists>n. advanced r n (snd (lookup_decode l r)) \<and> advanced r n (snd (vlc_decode t r))) \<and>
    w \<le> vt_max_len t"
proof -
  have w: "w \<le> vt_max_len t" using assms(4) by (simp add: build_lookup_def split: if_splits)
  have rooms: "room r (vt_max_len t)" "room r 0"
    using room_mono [OF assms(2) assms(3)] room_mono [OF assms(2), of 0] by simp_all
  note D = vlc_decode_spec [OF assms(1) rooms(1) assms(3)] and H = lookup_hit_match [OF assms(3) w assms(5), of "stream r"]
  obtain r1 where r1: "advanced r 0 r1" "lookup_decode l r =
      (case lookup_hit t w (stream r) of None \<Rightarrow> (None, r1)
       | Some e \<Rightarrow> if ve_len e > w then vlc_decode t r1 else (Some (ve_symbol e), br_skip (ve_len e) r1))"
    using lookup_decode_slot [OF assms(1) rooms(2) assms(3,4)] by blast
  have ok1: "reader_ok r1" using r1(1) by (simp add: advanced_def)
  have room1: "room r1 n" if "n \<le> 32" for n
    using advanced_room [OF r1(1), of n] room_mono [OF assms(2) that] by simp
  have "fst (lookup_decode l r) = fst (vlc_decode t r) \<and>
      (\<exists>n. advanced r n (snd (lookup_decode l r)) \<and> advanced r n (snd (vlc_decode t r)))"
  proof (cases "lookup_hit t w (stream r)")
    case None
    then show ?thesis using D H(1) r1 by (auto simp: used_bits_def)
  next
    case hit: (Some e)
    show ?thesis
    proof (cases "ve_len e \<le> w")
      case True
      have "advanced r (0 + ve_len e) (br_skip (ve_len e) r1)"
        by (rule advanced_trans [OF r1(1) br_skip_spec [OF ok1 room1]]) (use True w assms(3) in simp)
      then show ?thesis using D H(2) [OF hit True] r1(2) hit True by (auto simp: used_bits_def)
    next
      case False
      have "stream r1 = stream r" using advanced_stream [OF r1(1)] by simp
      note vlc_decode_spec [OF ok1 room1 [OF assms(3)] assms(3), unfolded this]
      then show ?thesis using D r1(2) hit False advanced_trans [OF r1(1)] by auto
    qed
  qed
  then show ?thesis using w by blast
qed

theorem lookup_is_scan_witness:
  "\<exists>l. build_lookup (vlc_new [\<lparr>ve_code = 0, ve_len = 2, ve_symbol = 10\<rparr>,
          \<lparr>ve_code = 0, ve_len = 1, ve_symbol = 11\<rparr>]) 1 = Some l \<and>
      fst (lookup_decode l (br_new [0])) =
      fst (vlc_decode (vlc_new [\<lparr>ve_code = 0, ve_len = 2, ve_symbol = 10\<rparr>,
          \<lparr>ve_code = 0, ve_len = 1, ve_symbol = 11\<rparr>]) (br_new [0]))"
proof -
  let ?t = "vlc_new [\<lparr>ve_code = 0, ve_len = 2, ve_symbol = 10\<rparr>, \<lparr>ve_code = 0, ve_len = 1, ve_symbol = 11\<rparr>]"
  have m: "vt_max_len ?t = 2" by (simp add: vlc_new_def)
  then obtain l where l: "build_lookup ?t 1 = Some l" by (simp add: build_lookup_def)
  show ?thesis
    using lookup_is_scan [OF _ _ _ l, of "br_new [0]"] l m
    by (simp add: br_new_def br_start_ok room_def)
qed

text \<open>
  The excluded case: at width zero a 32-bit codeword other than zero marks no slot, so the
  release build's lookup finds nothing, whatever follows in the stream, where the scan decodes.
\<close>

lemma zero_width_lookup_misses:
  assumes "\<forall>e \<in> set es. ve_len e = 32 \<and> ve_code e \<noteq> 0" "build_lookup (vlc_new es) 0 = Some l"
  shows "fst (lookup_decode l r) = None"
proof -
  obtain v r1 where v: "br_peek 0 r = (v, r1)" by fastforce
  then have "unat v = 0" using br_peek_less [of 0 r v r1] by simp
  have "\<not> lookup_claims m 0 e 0" if "e \<in> set es" for m e
    using assms(1) that by (auto simp: lookup_claims_def shr_word_def word_eq_iff_unsigned [where ?'a = nat])
  then have "find (\<lambda>e. lookup_claims (vt_max_len (vlc_new es)) 0 e 0) es = None"
    by (simp add: find_None_iff)
  then have "get_at (vl_slots l) 0 = Some (0, 0)"
    using assms(2) lookup.filled_nth [of 0 1 "vt_max_len (vlc_new es)" 0 es 0]
    by (auto simp: build_lookup_def vlc_new_def one_shl_usize split: if_splits)
  moreover have "vl_width l = 0" using assms(2) by (auto simp: build_lookup_def split: if_splits)
  ultimately show ?thesis using v \<open>unat v = 0\<close> by (simp add: lookup_decode_def)
qed

lemma zero_width_lookup_differs:
  "\<exists>l. build_lookup (vlc_new [\<lparr>ve_code = 0x80000001, ve_len = 32, ve_symbol = 7\<rparr>]) 0 = Some l \<and>
     fst (lookup_decode l (br_new [0x80, 0, 0, 1])) = None \<and>
     fst (vlc_decode (vlc_new [\<lparr>ve_code = 0x80000001, ve_len = 32, ve_symbol = 7\<rparr>])
       (br_new [0x80, 0, 0, 1])) = Some 7"
proof -
  let ?e = "\<lparr>ve_code = 0x80000001, ve_len = 32, ve_symbol = 7\<rparr>"
  define t where "t = vlc_new [?e]"
  have m: "vt_max_len t = 32" "vt_entries t = [?e]" by (simp_all add: t_def vlc_new_def)
  then obtain l where l: "build_lookup t 0 = Some l" by (simp add: build_lookup_def)
  have "fst (lookup_decode l (br_new [0x80, 0, 0, 1])) = None"
    by (rule zero_width_lookup_misses [OF _ l [unfolded t_def]]) simp
  moreover have "fst (vlc_decode t (br_new [0x80, 0, 0, 1])) = Some 7"
  proof -
    have r: "reader_ok (br_new [0x80, 0, 0, 1])" "room (br_new [0x80, 0, 0, 1]) (vt_max_len t)"
      by (simp_all add: br_new_def br_start_ok room_def m)
    have "bits_val (window (sbit [0x80, 0, 0, 1]) 32) = 0x80000001"
      by (simp add: window_def upt_rec sbit_def bit_simps bits_val_def)
    then have "vlc_match t (stream (br_new [0x80, 0, 0, 1])) = Some ?e"
      by (simp add: vlc_match_def m br_new_def stream_start entry_claims_def candidate_def)
    then show ?thesis using vlc_decode_spec [OF r] m by simp
  qed
  ultimately show ?thesis using l unfolding t_def by blast
qed

section \<open>Prefix-free codes\<close>

definition entry_ok :: "vlc_entry \<Rightarrow> bool" where
  "entry_ok e \<longleftrightarrow> 1 \<le> ve_len e \<and> ve_len e \<le> 32 \<and> unat (ve_code e) < 2 ^ ve_len e"

text \<open>Where the shift does not overflow, entries clash when one codeword is a prefix of the other.\<close>

lemma entries_clash_prefix:
  assumes "ve_len s \<le> ve_len l" "ve_len s \<noteq> 0" "ve_len l \<le> 32"
  shows "entries_clash s l \<longleftrightarrow> unat (ve_code l) div 2 ^ (ve_len l - ve_len s) = unat (ve_code s)"
    and "ve_len s < ve_len l \<Longrightarrow> entries_clash l s \<longleftrightarrow> entries_clash s l"
  using assms by (auto simp: entries_clash_def shr_word_eq word_eq_iff_unsigned [where ?'a = nat] unat_drop
      simp del: unsigned_drop_bit_eq split: if_splits)

lemma no_clash_disjoint:
  assumes "m \<le> 32" "\<not> entries_clash a b" "entry_claims m a i" "entry_claims m b i"
  shows False
proof -
  have prefix: "unat (ve_code l) div 2 ^ (ve_len l - ve_len s) = unat (ve_code s)"
    if "entry_claims m s i" "entry_claims m l i" "ve_len s \<le> ve_len l" for s l
  proof -
    have len: "ve_len l \<le> m" and l: "i div 2 ^ (m - ve_len l) = unat (ve_code l)"
      and s: "i div 2 ^ (m - ve_len s) = unat (ve_code s)"
      using that by (simp_all add: entry_claims_def candidate_def)
    have "i div 2 ^ (m - ve_len l) div 2 ^ (ve_len l - ve_len s) = i div 2 ^ (m - ve_len s)"
      using len that(3) by (simp add: div_mult2_eq [symmetric] flip: power_add)
    then show ?thesis by (simp only: l s)
  qed
  have len: "ve_len a \<noteq> 0" "ve_len b \<noteq> 0" "ve_len a \<le> 32" "ve_len b \<le> 32"
    using assms by (simp_all add: entry_claims_def candidate_def)
  show False
  proof (cases "ve_len a \<le> ve_len b")
    case True
    then show ?thesis
      using prefix [OF assms(3,4) True] assms(2) entries_clash_prefix(1) [OF True len(1,4)] by blast
  next
    case False
    then have ba: "ve_len b \<le> ve_len a" "ve_len b < ve_len a" by simp_all
    show ?thesis
      using prefix [OF assms(4,3) ba(1)] assms(2) entries_clash_prefix [OF ba(1) len(2,3)] ba(2) by blast
  qed
qed

lemma prefix_free_unique:
  "m \<le> 32 \<Longrightarrow> is_prefix_free es \<Longrightarrow> e \<in> set es \<Longrightarrow> entry_claims m e i \<Longrightarrow>
     find (\<lambda>x. entry_claims m x i) es = Some e"
proof (induction es)
  case (Cons a es)
  show ?case
  proof (cases "e = a")
    case False
    then have "e \<in> set es" "\<not> entries_clash a e" using Cons.prems by (auto simp: list_all_iff)
    then show ?thesis using Cons no_clash_disjoint [of m a e i] by auto
  qed (use Cons.prems in simp)
qed simp

lemma vlc_new_max:
  "e \<in> set es \<Longrightarrow> ve_len e \<le> vt_max_len (vlc_new es)"
  "\<forall>e \<in> set es. ve_len e \<le> n \<Longrightarrow> vt_max_len (vlc_new es) \<le> n"
proof -
  have m: "vt_max_len (vlc_new es) = Max (insert 0 (ve_len ` set es))"
    using Max.set_eq_fold [of 0 "map ve_len es"] by (simp add: vlc_new_def)
  show "e \<in> set es \<Longrightarrow> ve_len e \<le> vt_max_len (vlc_new es)" unfolding m by (intro Max_ge) auto
  show "\<forall>e \<in> set es. ve_len e \<le> n \<Longrightarrow> vt_max_len (vlc_new es) \<le> n" unfolding m by (intro Max.boundedI) auto
qed

definition entry_bits :: "vlc_entry \<Rightarrow> bool list" where
  "entry_bits e = low_bits (ve_len e) (ve_code e)"

lemma vlc_match_codeword:
  assumes "is_prefix_free es" "e \<in> set es" "entry_ok e" "window str (ve_len e) = entry_bits e"
    "vt_max_len (vlc_new es) \<le> 32"
  shows "vlc_match (vlc_new es) str = Some e"
proof -
  let ?m = "vt_max_len (vlc_new es)"
  have len: "ve_len e \<le> ?m" using vlc_new_max(1) [OF assms(2)] .
  have "unat (take_bit (ve_len e) (ve_code e)) = unat (ve_code e)"
    using assms(3) by (simp add: entry_ok_def unsigned_take_bit_eq take_bit_nat_eq_self)
  then have "bits_val (window str (ve_len e)) = unat (ve_code e)"
    using assms(4) by (simp add: entry_bits_def unat_take_bit_low)
  then have "entry_claims ?m e (bits_val (window str ?m))"
    using window_prefix_val [OF len] len assms(3) by (simp add: entry_claims_def candidate_def entry_ok_def)
  then show ?thesis
    using prefix_free_unique [OF assms(5,1,2)] by (simp add: vlc_match_def) (simp add: vlc_new_def)
qed

fun vlc_decodes :: "nat \<Rightarrow> vlc_table \<Rightarrow> bit_reader \<Rightarrow> u32 option list \<times> bit_reader" where
  "vlc_decodes 0 t r = ([], r)"
| "vlc_decodes (Suc n) t r =
     (case vlc_decode t r of (s, r1) \<Rightarrow> (case vlc_decodes n t r1 of (ss, r2) \<Rightarrow> (s # ss, r2)))"

lemma vlc_decodes_written:
  assumes "is_prefix_free es" "list_all entry_ok es" "set xs \<subseteq> set es" "reader_ok r"
    "room r (length (concat (map entry_bits xs)) + 32)"
    "window (stream r) (length (concat (map entry_bits xs))) = concat (map entry_bits xs)"
  shows "\<exists>r'. vlc_decodes (length xs) (vlc_new es) r = (map (Some \<circ> ve_symbol) xs, r') \<and>
    advanced r (length (concat (map entry_bits xs))) r'"
  using assms(3-)
proof (induction xs arbitrary: r)
  case Nil
  then show ?case by (simp add: advanced_refl)
next
  case (Cons e xs)
  let ?n = "ve_len e" and ?k = "length (concat (map entry_bits xs))"
  have e: "e \<in> set es" "entry_ok e" using Cons.prems(1) assms(2) by (auto simp: list_all_iff)
  have max: "vt_max_len (vlc_new es) \<le> 32"
    using assms(2) by (intro vlc_new_max(2)) (auto simp: list_all_iff entry_ok_def)
  have len: "length (entry_bits e) = ?n" by (simp add: entry_bits_def)
  have "window (stream r) ?n @ window (\<lambda>i. stream r (i + ?n)) ?k = entry_bits e @ concat (map entry_bits xs)"
    using Cons.prems(4) len by (simp add: window_add)
  then have w: "window (stream r) ?n = entry_bits e"
      "window (\<lambda>i. stream r (i + ?n)) ?k = concat (map entry_bits xs)"
    using len by simp_all
  have "room r (vt_max_len (vlc_new es))" using room_mono [OF Cons.prems(3)] max by simp
  note D = vlc_decode_spec [OF Cons.prems(2) this max, unfolded vlc_match_codeword [OF assms(1) e w(1) max]]
  obtain s r1 where s: "vlc_decode (vlc_new es) r = (s, r1)" by fastforce
  then have 1: "s = Some (ve_symbol e)" "advanced r ?n r1" using D by (simp_all add: used_bits_def)
  have "room r1 (?k + 32)" using advanced_room [OF 1(2), of "?k + 32"] Cons.prems(3) len by (simp add: add.assoc)
  moreover have "window (stream r1) ?k = concat (map entry_bits xs)"
    using w(2) advanced_stream [OF 1(2)] by simp
  moreover have "reader_ok r1" using 1(2) by (simp add: advanced_def)
  ultimately obtain r2 where "vlc_decodes (length xs) (vlc_new es) r1 = (map (Some \<circ> ve_symbol) xs, r2)"
      "advanced r1 ?k r2"
    using Cons.IH [of r1] Cons.prems(1) by auto
  then show ?case using s 1 advanced_trans [OF 1(2)] len by simp
qed

definition write_codes :: "vlc_entry list \<Rightarrow> bit_writer" where
  "write_codes xs = fold (\<lambda>e. bw_put (ve_len e) (ve_code e)) xs bw_new"

lemma write_codes_bits:
  assumes "list_all entry_ok xs"
  shows "bytes_bits (bw_finish (write_codes xs)) =
    concat (map entry_bits xs) @ replicate (pad_bits (write_codes xs)) False"
proof -
  let ?es = "map (\<lambda>e. EBits (ve_len e) (ve_code e)) xs"
  have "list_all elem_ok ?es" using assms by (auto simp: list_all_iff entry_ok_def)
  note W = written_bits [OF this]
  have "write_codes xs = fold write_elem ?es bw_new"
    unfolding write_codes_def fold_map by (rule fold_cong) (simp_all add: fun_eq_iff)
  moreover have "map elem_bits ?es = map entry_bits xs" by (simp add: entry_bits_def)
  ultimately show ?thesis using bw_align_zero_ok(2) [OF W(2)] W(1) by (simp only:)
qed

text \<open>
  C23. Prefix-free tables decode uniquely: when \<^verbatim>\<open>is_prefix_free\<close> accepts a table of
  codewords of 1 to 32 bits, any sequence of its entries written with \<^verbatim>\<open>BitWriter::put\<close> and
  finished is decoded back to the same symbols, and the reader's final check succeeds.
\<close>

theorem vlc_round_trip:
  assumes "is_prefix_free es" "list_all entry_ok es" "set xs \<subseteq> set es"
    "8 * length (bw_finish (write_codes xs)) + 256 < 2 ^ 64"
  shows "\<exists>r'. vlc_decodes (length xs) (vlc_new es) (br_new (bw_finish (write_codes xs))) =
      (map (Some \<circ> ve_symbol) xs, r') \<and> br_check r' = Inr ()"
proof -
  have "list_all entry_ok xs" using assms(2,3) by (auto simp: list_all_iff)
  note B = write_codes_bits [OF this]
  note R = reader_over_bits [OF B assms(4)]
  have "room (br_new (bw_finish (write_codes xs))) (length (concat (map entry_bits xs)) + 32)"
    using R(2) by (rule room_mono) simp
  then obtain r' where
    "vlc_decodes (length xs) (vlc_new es) (br_new (bw_finish (write_codes xs))) = (map (Some \<circ> ve_symbol) xs, r')"
    "advanced (br_new (bw_finish (write_codes xs))) (length (concat (map entry_bits xs))) r'"
    using vlc_decodes_written [OF assms(1-3) R(1) _ R(3)] by blast
  moreover have "length (concat (map entry_bits xs)) \<le> 8 * length (bw_finish (write_codes xs))"
    using arg_cong [OF B, of length] by simp
  ultimately show ?thesis using check_within_bytes assms(4) by blast
qed

definition toy_code :: "vlc_entry list" where
  "toy_code = [\<lparr>ve_code = 0, ve_len = 1, ve_symbol = 0\<rparr>, \<lparr>ve_code = 2, ve_len = 2, ve_symbol = 1\<rparr>,
     \<lparr>ve_code = 3, ve_len = 2, ve_symbol = 2\<rparr>]"

lemma toy_code_ok: "is_prefix_free toy_code" "list_all entry_ok toy_code"
  by (simp_all add: toy_code_def entries_clash_def shr_word_def entry_ok_def)

lemma codes_length:
  "list_all entry_ok xs \<Longrightarrow> 8 * length (bw_finish (write_codes xs)) \<le> 32 * length xs + 8"
proof -
  assume ok: "list_all entry_ok xs"
  have "length (concat (map entry_bits xs)) \<le> 32 * length xs"
    using ok by (induction xs) (auto simp: entry_bits_def entry_ok_def)
  then show ?thesis
    using arg_cong [OF write_codes_bits [OF ok], of length] pad_bits_less(1) [of "write_codes xs"] by simp
qed

theorem vlc_round_trip_witness:
  "\<exists>r'. vlc_decodes 3 (vlc_new toy_code) (br_new (bw_finish (write_codes (rev toy_code)))) =
     ([Some 2, Some 1, Some 0], r') \<and> br_check r' = Inr ()"
proof -
  have "list_all entry_ok (rev toy_code)" using toy_code_ok(2) by (simp add: list_all_iff)
  then have "8 * length (bw_finish (write_codes (rev toy_code))) \<le> 104"
    using codes_length [of "rev toy_code"] by (simp add: toy_code_def)
  then have "8 * length (bw_finish (write_codes (rev toy_code))) + 256 < 2 ^ 64" by simp
  note R = vlc_round_trip [OF toy_code_ok _ this]
  have "length (rev toy_code) = 3" "map (Some \<circ> ve_symbol) (rev toy_code) = [Some 2, Some 1, Some 0]"
    by (simp_all add: toy_code_def)
  then show ?thesis using R by (simp only: set_rev subset_refl simp_thms)
qed

section \<open>The Kraft sum\<close>

definition claimed :: "nat \<Rightarrow> vlc_entry list \<Rightarrow> nat set" where
  "claimed m es = {i. i < 2 ^ m \<and> (\<exists>e \<in> set es. entry_claims m e i)}"

lemma card_claims:
  assumes "unat (ve_code e) < 2 ^ ve_len e" "candidate m e"
  shows "card {i. i < 2 ^ m \<and> entry_claims m e i} = 2 ^ (m - ve_len e)"
proof -
  let ?k = "m - ve_len e" and ?c = "unat (ve_code e)"
  have m: "(2 :: nat) ^ m = 2 ^ ve_len e * 2 ^ ?k" using assms(2) by (simp add: candidate_def flip: power_add)
  have "{i. i < 2 ^ m \<and> entry_claims m e i} = {?c * 2 ^ ?k ..< ?c * 2 ^ ?k + 2 ^ ?k}"
  proof (intro set_eqI iffI)
    fix i assume "i \<in> {?c * 2 ^ ?k ..< ?c * 2 ^ ?k + 2 ^ ?k}"
    then have i: "?c * 2 ^ ?k \<le> i" "i < ?c * 2 ^ ?k + 2 ^ ?k" by simp_all
    have "Suc ?c * 2 ^ ?k \<le> 2 ^ ve_len e * 2 ^ ?k" using assms(1) by (intro mult_le_mono1) simp
    then have "i < 2 ^ m" using i(2) m by simp
    then show "i \<in> {i. i < 2 ^ m \<and> entry_claims m e i}"
      using span_iff [of ?c ?k i] i assms(2) by (simp add: entry_claims_def)
  qed (use span_iff [of ?c ?k] in \<open>simp add: entry_claims_def\<close>)
  then show ?thesis by simp
qed

lemma claimed_Cons:
  assumes "is_prefix_free (e # es)" "m \<le> 32"
  shows "card (claimed m (e # es)) = card {i. i < 2 ^ m \<and> entry_claims m e i} + card (claimed m es)"
proof -
  have "claimed m (e # es) = {i. i < 2 ^ m \<and> entry_claims m e i} \<union> claimed m es"
    by (auto simp: claimed_def)
  moreover have "{i. i < 2 ^ m \<and> entry_claims m e i} \<inter> claimed m es = {}"
    using assms(1) no_clash_disjoint [OF assms(2)] by (fastforce simp: claimed_def list_all_iff)
  ultimately show ?thesis by (simp add: card_Un_disjoint claimed_def)
qed

lemma card_claimed_le: "card (claimed m es) \<le> 2 ^ m"
  using card_mono [of "{i. i < 2 ^ m}" "claimed m es"] by (auto simp: claimed_def)

lemma kraft_is_card:
  assumes "is_prefix_free es" "list_all entry_ok es" "m \<le> 32" "acc + card (claimed m es) < 2 ^ 64"
  shows "fold (kraft_step m) es acc = acc + card (claimed m es)"
  using assms
proof (induction es arbitrary: acc)
  case Nil
  then show ?case by (simp add: claimed_def)
next
  case (Cons e es)
  note split = claimed_Cons [OF Cons.prems(1,3)]
  have free: "is_prefix_free es" "list_all entry_ok es" using Cons.prems(1,2) by simp_all
  have kstep: "kraft_step m e acc = acc + card {i. i < 2 ^ m \<and> entry_claims m e i}"
  proof (cases "candidate m e")
    case True
    then have c: "card {i. i < 2 ^ m \<and> entry_claims m e i} = 2 ^ (m - ve_len e)"
      using card_claims Cons.prems(2) by (simp add: entry_ok_def)
    then have "fits_u 64 (acc + 2 ^ (m - ve_len e))" using split Cons.prems(4) by (simp add: fits_u_def)
    moreover have "m - ve_len e < 64" using Cons.prems(3) by simp
    ultimately show ?thesis using True c by (simp add: kraft_step_def candidate_def one_shl_usize sat_u_id)
  next
    case False
    then have "{i. i < 2 ^ m \<and> entry_claims m e i} = {}" by (auto simp: entry_claims_def)
    then show ?thesis using False by (auto simp: kraft_step_def candidate_def)
  qed
  then show ?case using Cons.IH [OF free Cons.prems(3)] split Cons.prems(4) by simp
qed

text \<open>
  C27. The Kraft check decides completeness: for a prefix-free table of codewords of 1 to 32
  bits, \<^verbatim>\<open>kraft_numerator\<close> never exceeds \<open>2^max_len\<close> (Kraft's inequality, so the saturating
  sum is exact), and it equals \<open>2^max_len\<close>, the test the source asks for, exactly when
  every possible peek matches an entry; then \<^verbatim>\<open>decode\<close> returns a symbol on every input.
\<close>

theorem kraft_decides_completeness:
  assumes "is_prefix_free es" "list_all entry_ok es" "m = vt_max_len (vlc_new es)"
  shows "kraft_numerator es m \<le> 2 ^ m \<and>
    (kraft_numerator es m = 2 ^ m \<longleftrightarrow> (\<forall>p. unat p < 2 ^ m \<longrightarrow> vlc_scan m p es \<noteq> None)) \<and>
    (kraft_numerator es m = 2 ^ m \<and> 0 < m \<longrightarrow> fst (vlc_decode (vlc_new es) r) \<noteq> None)"
proof -
  have m: "m \<le> 32"
    unfolding assms(3) using assms(2) by (intro vlc_new_max(2)) (auto simp: list_all_iff entry_ok_def)
  have "(2 :: nat) ^ m \<le> 2 ^ 32" using m by (intro power_increasing) simp_all
  then have "card (claimed m es) < 2 ^ 64" using card_claimed_le [of m es] by simp
  then have k: "kraft_numerator es m = card (claimed m es)"
    using kraft_is_card [OF assms(1,2) m, of 0] by (simp add: kraft_numerator_def)
  have full: "card (claimed m es) = 2 ^ m \<longleftrightarrow> (\<forall>i < 2 ^ m. \<exists>e \<in> set es. entry_claims m e i)"
  proof
    assume "card (claimed m es) = 2 ^ m"
    then have "claimed m es = {i. i < 2 ^ m}"
      by (intro card_subset_eq) (auto simp: claimed_def)
    then show "\<forall>i < 2 ^ m. \<exists>e \<in> set es. entry_claims m e i" unfolding claimed_def by blast
  next
    assume "\<forall>i < 2 ^ m. \<exists>e \<in> set es. entry_claims m e i"
    then have "claimed m es = {..< 2 ^ m}" by (auto simp: claimed_def)
    then show "card (claimed m es) = 2 ^ m" by simp
  qed
  have scan: "vlc_scan m p es \<noteq> None \<longleftrightarrow> (\<exists>e \<in> set es. entry_claims m e (unat p))" for p
    by (auto simp: vlc_scan_find [OF m] find_None_iff)
  have word: "\<exists>p :: u32. unat p = i" if "i < 2 ^ m" for i
  proof
    have "i < 2 ^ 32" using that \<open>(2 :: nat) ^ m \<le> 2 ^ 32\<close> by linarith
    then show "unat (word_of_nat i :: u32) = i" by (simp add: unat_of_nat take_bit_nat_eq_self)
  qed
  have iff: "kraft_numerator es m = 2 ^ m \<longleftrightarrow> (\<forall>p. unat p < 2 ^ m \<longrightarrow> vlc_scan m p es \<noteq> None)"
    unfolding k full scan using word by metis
  moreover have "fst (vlc_decode (vlc_new es) r) \<noteq> None" if "kraft_numerator es m = 2 ^ m" "0 < m"
  proof -
    obtain p r1 where p: "br_peek m r = (p, r1)" by fastforce
    then have "vlc_scan m p es \<noteq> None" using iff that(1) br_peek_less [OF m p] by blast
    then show ?thesis using p that(2) assms(3) by (auto simp: vlc_decode_def) (auto simp: vlc_new_def)
  qed
  ultimately show ?thesis using k card_claimed_le [of m es] by simp
qed

theorem kraft_decides_completeness_witness:
  "kraft_numerator toy_code 2 = 4 \<and> vlc_scan 2 3 toy_code \<noteq> None \<and>
    fst (vlc_decode (vlc_new toy_code) (br_new [0xC0])) \<noteq> None"
proof -
  have m: "2 = vt_max_len (vlc_new toy_code)" by (simp add: vlc_new_def toy_code_def)
  have k: "kraft_numerator toy_code 2 = 4"
    by (simp add: kraft_numerator_def toy_code_def kraft_step_def sat_u_def one_shl_usize)
  then have "kraft_numerator toy_code 2 = 2 ^ 2" "(0 :: nat) < 2" by simp_all
  moreover have "unat (3 :: u32) < 2 ^ 2" by simp
  ultimately show ?thesis
    using kraft_decides_completeness [OF toy_code_ok m, of "br_new [0xC0]"] k by blast
qed

end
