(* ===== verification/Signal_Cabac.thy ===== *)
theory Signal_Cabac
  imports Bits_Writer
begin

text \<open>
  The CABAC arithmetic coder of H.264 and HEVC: \<^verbatim>\<open>crates/signal/vaco-codec-cabac\<close>
  (\<^verbatim>\<open>tables.rs\<close>, \<^verbatim>\<open>context.rs\<close>, \<^verbatim>\<open>decode.rs\<close>, \<^verbatim>\<open>encode.rs\<close>).

  This theory holds the model, the safety of the engine on arbitrary input and the context
  tables; the round trip of encoder and decoder is in \<open>Signal_Cabac_Coding\<close>.

  The registers of the engine (\<^verbatim>\<open>u32\<close>) are natural numbers: the invariants \<open>cd_ok\<close> and
  \<open>ce_ok\<close> keep them below 1024, so no operation on them wraps or underflows. The
  renormalisation loops are \<open>partial_function\<close>s: that they return is proved, not assumed.
\<close>

section \<open>Tables and contexts\<close>

definition RANGE_TAB_LPS :: "nat list list" where
  "RANGE_TAB_LPS =
     [[128, 176, 208, 240], [128, 167, 197, 227], [128, 158, 187, 216], [123, 150, 178, 205],
      [116, 142, 169, 195], [111, 135, 160, 185], [105, 128, 152, 175], [100, 122, 144, 166],
      [95, 116, 137, 158], [90, 110, 130, 150], [85, 104, 123, 142], [81, 99, 117, 135],
      [77, 94, 111, 128], [73, 89, 105, 122], [69, 85, 100, 116], [66, 80, 95, 110],
      [62, 76, 90, 104], [59, 72, 86, 99], [56, 69, 81, 94], [53, 65, 77, 89],
      [51, 62, 73, 85], [48, 59, 69, 80], [46, 56, 66, 76], [43, 53, 63, 72],
      [41, 50, 59, 69], [39, 48, 56, 65], [37, 45, 54, 62], [35, 43, 51, 59],
      [33, 41, 48, 56], [32, 39, 46, 53], [30, 37, 43, 50], [29, 35, 41, 48],
      [27, 33, 39, 45], [26, 31, 37, 43], [24, 30, 35, 41], [23, 28, 33, 39],
      [22, 27, 32, 37], [21, 26, 30, 35], [20, 24, 29, 33], [19, 23, 27, 31],
      [18, 22, 26, 30], [17, 21, 25, 28], [16, 20, 23, 27], [15, 19, 22, 25],
      [14, 18, 21, 24], [14, 17, 20, 23], [13, 16, 19, 22], [12, 15, 18, 21],
      [12, 14, 17, 20], [11, 14, 16, 19], [11, 13, 15, 18], [10, 12, 15, 17],
      [10, 12, 14, 16], [9, 11, 13, 15], [9, 11, 12, 14], [8, 10, 12, 14],
      [8, 9, 11, 13], [7, 9, 11, 12], [7, 9, 10, 12], [7, 8, 10, 11],
      [6, 8, 9, 11], [6, 7, 9, 10], [6, 7, 8, 9], [2, 2, 2, 2]]"

definition TRANS_IDX_LPS :: "nat list" where
  "TRANS_IDX_LPS =
     [0, 0, 1, 2, 2, 4, 4, 5, 6, 7, 8, 9, 9, 11, 11, 12, 13, 13, 15, 15, 16, 16,
      18, 18, 19, 19, 21, 21, 22, 22, 23, 24, 24, 25, 26, 26, 27, 27, 28, 29, 29, 30, 30, 30,
      31, 32, 32, 33, 33, 33, 34, 34, 35, 35, 35, 36, 36, 36, 37, 37, 37, 38, 38, 63]"

definition TRANS_IDX_MPS :: "nat list" where
  "TRANS_IDX_MPS =
     [1, 2, 3, 4, 5, 6, 7, 8, 9, 10, 11, 12, 13, 14, 15, 16, 17, 18, 19, 20, 21, 22,
      23, 24, 25, 26, 27, 28, 29, 30, 31, 32, 33, 34, 35, 36, 37, 38, 39, 40, 41, 42, 43, 44,
      45, 46, 47, 48, 49, 50, 51, 52, 53, 54, 55, 56, 57, 58, 59, 60, 61, 62, 62, 63]"

text \<open>\<^verbatim>\<open>derive::trans\<close> and \<^verbatim>\<open>derive::lps_range\<close>; \<open>tab\<close> is \<^verbatim>\<open>get(i).copied().unwrap_or_default()\<close>.\<close>

definition TRANS :: "nat list" where
  "TRANS =
     map (\<lambda>i. let s = i AND 127; p = drop_bit 1 s; mps = s AND 1
              in push_bit 1 (TRANS_IDX_MPS ! p) OR mps) [0..<256] @
     map (\<lambda>i. let s = i AND 127; p = drop_bit 1 s; mps = s AND 1;
                  new_mps = (if p = 0 then 1 - mps else mps)
              in push_bit 1 (TRANS_IDX_LPS ! p) OR new_mps) [0..<256]"

definition LPS_RANGE :: "nat list" where
  "LPS_RANGE = concat (map (\<lambda>i. map (\<lambda>q. RANGE_TAB_LPS ! (i AND 63) ! q) [0..<4]) [0..<128])"

definition tab :: "nat list \<Rightarrow> nat \<Rightarrow> nat" where
  "tab xs i = (case get_at xs i of Some x \<Rightarrow> x | None \<Rightarrow> 0)"

text \<open>A context model is its packed byte, \<^verbatim>\<open>(pStateIdx << 1) | valMPS\<close>.\<close>

type_synonym context_model = nat

definition cm_new :: "nat \<Rightarrow> bool \<Rightarrow> context_model" where
  "cm_new state_idx mps = push_bit 1 (if state_idx > 63 then 63 else state_idx) OR of_bool mps"

definition cm_state_idx :: "context_model \<Rightarrow> nat" where
  "cm_state_idx c = drop_bit 1 c"

definition cm_mps :: "context_model \<Rightarrow> bool" where
  "cm_mps c \<longleftrightarrow> c AND 1 = 1"

definition cm_from_packed :: "nat \<Rightarrow> context_model" where
  "cm_from_packed byte = byte AND 127"

definition is_terminal_state :: "nat \<Rightarrow> bool" where
  "is_terminal_state state_idx \<longleftrightarrow> state_idx = 63"

definition clip3_i32 :: "int \<Rightarrow> int \<Rightarrow> int \<Rightarrow> int" where
  "clip3_i32 lo hi x = (if x < lo then lo else if x > hi then hi else x)"

definition init_h264 :: "int \<Rightarrow> int \<Rightarrow> int \<Rightarrow> context_model" where
  "init_h264 m n slice_qp =
     (let qp = clip3_i32 0 51 slice_qp;
          pre = clip3_i32 1 126 (drop_bit 4 (m * qp) + n)
      in if pre \<le> 63 then push_bit 1 (nat (63 - pre)) else push_bit 1 (nat (pre - 64)) OR 1)"

definition init_hevc :: "nat \<Rightarrow> int \<Rightarrow> context_model" where
  "init_hevc init_value slice_qp =
     (let slope_idx = int (drop_bit 4 init_value);
          offset_idx = int (init_value AND 15)
      in init_h264 (slope_idx * 5 - 45) (push_bit 3 offset_idx - 16) slice_qp)"

definition init_contexts :: "context_model list \<Rightarrow> (int \<times> int) list \<Rightarrow> int \<Rightarrow> context_model list \<times> nat" where
  "init_contexts dst inits slice_qp =
     (let n = min (length dst) (length inits)
      in (map (\<lambda>(m, k). init_h264 m k slice_qp) (take n inits) @ drop n dst, n))"

definition init_contexts_hevc :: "context_model list \<Rightarrow> nat list \<Rightarrow> int \<Rightarrow> context_model list \<times> nat" where
  "init_contexts_hevc dst init_values slice_qp =
     (let n = min (length dst) (length init_values)
      in (map (\<lambda>iv. init_hevc iv slice_qp) (take n init_values) @ drop n dst, n))"

definition lps_range_of :: "context_model \<Rightarrow> nat \<Rightarrow> nat" where
  "lps_range_of state rng = tab LPS_RANGE (drop_bit 1 state * 4 + (drop_bit 6 rng AND 3))"

section \<open>The decoder\<close>

definition INITIAL_RANGE :: nat where "INITIAL_RANGE = 510"
definition OFFSET_BITS :: nat where "OFFSET_BITS = 9"
definition MAX_EGK_PREFIX :: nat where "MAX_EGK_PREFIX = 32"

record cabac_decoder =
  cd_range :: nat
  cd_offset :: nat
  cd_reader :: bit_reader
  cd_malformed :: bool
  cd_terminated :: bool

definition cd_from_reader :: "bit_reader \<Rightarrow> cabac_decoder" where
  "cd_from_reader reader =
     (case br_get OFFSET_BITS (br_align reader) of (offset, r) \<Rightarrow>
        let malformed = unat offset \<ge> INITIAL_RANGE
        in \<lparr>cd_range = INITIAL_RANGE,
            cd_offset = (if malformed then INITIAL_RANGE - 1 else unat offset),
            cd_reader = r, cd_malformed = malformed, cd_terminated = False\<rparr>)"

definition cd_new :: "u8 list \<Rightarrow> cabac_decoder" where
  "cd_new bytes = cd_from_reader (br_new bytes)"

definition cd_new_padded :: "padded \<Rightarrow> cabac_decoder" where
  "cd_new_padded p = cd_from_reader (br_new_padded p)"

definition cd_is_malformed :: "cabac_decoder \<Rightarrow> bool" where
  "cd_is_malformed d \<longleftrightarrow> cd_malformed d \<or> br_overrun (cd_reader d)"

definition cd_shift_in :: "cabac_decoder \<Rightarrow> cabac_decoder" where
  "cd_shift_in d =
     (case br_get_bit (cd_reader d) of (b, r) \<Rightarrow>
        d\<lparr>cd_offset := push_bit 1 (cd_offset d) OR unat b, cd_reader := r\<rparr>)"

partial_function (option) cd_renorm :: "cabac_decoder \<Rightarrow> cabac_decoder option" where
  "cd_renorm d =
     (if cd_range d < 256 then cd_renorm (cd_shift_in (d\<lparr>cd_range := push_bit 1 (cd_range d)\<rparr>))
      else Some d)"

definition cd_decision :: "context_model \<Rightarrow> cabac_decoder \<Rightarrow> (nat \<times> context_model \<times> cabac_decoder) option" where
  "cd_decision ctx d =
     (let lps_range = lps_range_of ctx (cd_range d);
          rng = cd_range d - lps_range;
          mps = ctx AND 1
      in if cd_offset d \<ge> rng
         then map_option (\<lambda>d'. (1 - mps, tab TRANS (256 + ctx), d'))
                (cd_renorm (d\<lparr>cd_offset := cd_offset d - rng, cd_range := lps_range\<rparr>))
         else map_option (\<lambda>d'. (mps, tab TRANS ctx, d')) (cd_renorm (d\<lparr>cd_range := rng\<rparr>)))"

text \<open>\<^verbatim>\<open>range & 0u32.wrapping_sub(bin)\<close> is the mask written on words.\<close>

definition masked_range :: "nat \<Rightarrow> nat \<Rightarrow> nat" where
  "masked_range rng bin = unat ((word_of_nat rng :: u32) AND (0 - word_of_nat bin))"

definition cd_bypass :: "cabac_decoder \<Rightarrow> nat \<times> cabac_decoder" where
  "cd_bypass d =
     (let d1 = cd_shift_in d;
          bin = (if cd_offset d1 \<ge> cd_range d1 then 1 else 0)
      in (bin, d1\<lparr>cd_offset := cd_offset d1 - masked_range (cd_range d1) bin\<rparr>))"

primrec cd_bypass_loop :: "nat \<Rightarrow> nat \<Rightarrow> cabac_decoder \<Rightarrow> nat \<times> cabac_decoder" where
  "cd_bypass_loop 0 val d = (val, d)"
| "cd_bypass_loop (Suc n) val d =
     (case cd_bypass d of (bin, d1) \<Rightarrow> cd_bypass_loop n (push_bit 1 val OR bin) d1)"

definition cd_bypass_bits :: "nat \<Rightarrow> cabac_decoder \<Rightarrow> nat \<times> cabac_decoder" where
  "cd_bypass_bits n d = cd_bypass_loop (min n 32) 0 d"

definition cd_terminate :: "cabac_decoder \<Rightarrow> (nat \<times> cabac_decoder) option" where
  "cd_terminate d =
     (let reduced = cd_range d - 2
      in if cd_offset d \<ge> reduced then Some (1, d\<lparr>cd_terminated := True\<rparr>)
         else map_option (Pair 0) (cd_renorm (d\<lparr>cd_range := reduced\<rparr>)))"

text \<open>The loop of \<^verbatim>\<open>decode_tu\<close>; its first argument is \<^verbatim>\<open>c_max - n\<close>.\<close>

primrec cd_tu_loop ::
  "nat \<Rightarrow> nat \<Rightarrow> context_model \<Rightarrow> cabac_decoder \<Rightarrow> (nat \<times> context_model \<times> cabac_decoder) option" where
  "cd_tu_loop 0 n ctx d = Some (n, ctx, d)"
| "cd_tu_loop (Suc left) n ctx d =
     Option.bind (cd_decision ctx d) (\<lambda>(bin, ctx1, d1).
       if bin = 0 then Some (n, ctx1, d1) else cd_tu_loop left (n + 1) ctx1 d1)"

definition cd_tu :: "context_model \<Rightarrow> nat \<Rightarrow> cabac_decoder \<Rightarrow> (nat \<times> context_model \<times> cabac_decoder) option" where
  "cd_tu ctx c_max d = cd_tu_loop c_max 0 ctx d"

text \<open>\<^verbatim>\<open>1u32.checked_shl(k)\<close>.\<close>

definition checked_shl :: "nat \<Rightarrow> nat option" where
  "checked_shl k = (if k < 32 then Some (push_bit k 1) else None)"

function cd_egk_loop :: "nat \<Rightarrow> nat \<Rightarrow> nat \<Rightarrow> cabac_decoder \<Rightarrow> nat \<times> cabac_decoder" where
  "cd_egk_loop run k val d =
     (case cd_bypass d of (bin, d1) \<Rightarrow>
        if bin = 1 then
          (let val1 = sat_u 32 (val + (case checked_shl k of Some x \<Rightarrow> x | None \<Rightarrow> 0))
           in if run + 1 \<ge> MAX_EGK_PREFIX \<or> k + 1 > 31 then (val1, d1\<lparr>cd_malformed := True\<rparr>)
              else cd_egk_loop (run + 1) (k + 1) val1 d1)
        else (case cd_bypass_bits k d1 of (bits, d2) \<Rightarrow> (sat_u 32 (val + bits), d2)))"
  by pat_completeness auto
termination
  by (relation "measure (\<lambda>(run, k, val, d). MAX_EGK_PREFIX - run)") auto

declare cd_egk_loop.simps [simp del]

definition cd_bypass_egk :: "nat \<Rightarrow> cabac_decoder \<Rightarrow> nat \<times> cabac_decoder" where
  "cd_bypass_egk k d = cd_egk_loop 0 (min k 31) 0 d"

definition cd_uegk ::
  "context_model \<Rightarrow> nat \<Rightarrow> nat \<Rightarrow> bool \<Rightarrow> cabac_decoder \<Rightarrow> (int \<times> context_model \<times> cabac_decoder) option" where
  "cd_uegk ctx u_coff k signed_val_flag d =
     Option.bind (cd_tu ctx u_coff d) (\<lambda>(prefix, ctx1, d1).
       let (val, d2) =
             (if prefix \<ge> u_coff
              then (case cd_bypass_egk k d1 of (suffix, d2) \<Rightarrow> (sat_u 32 (prefix + suffix), d2))
              else (prefix, d1));
           magnitude = int (min val (2 ^ 31 - 1))
       in if signed_val_flag \<and> magnitude \<noteq> 0
          then (case cd_bypass d2 of (bin, d3) \<Rightarrow>
                  Some (if bin = 1 then - magnitude else magnitude, ctx1, d3))
          else Some (magnitude, ctx1, d2))"

section \<open>The encoder\<close>

definition DEFAULT_MAX_BYTES :: nat where "DEFAULT_MAX_BYTES = push_bit 20 16"

record cabac_encoder =
  ce_low :: nat
  ce_range :: nat
  ce_outstanding :: nat
  ce_first_bit :: bool
  ce_out :: "u8 list"
  ce_partial :: u8
  ce_bit_count :: nat
  ce_max_bytes :: nat
  ce_overflowed :: bool

definition ce_with_limit :: "nat \<Rightarrow> cabac_encoder" where
  "ce_with_limit max_bytes =
     \<lparr>ce_low = 0, ce_range = INITIAL_RANGE, ce_outstanding = 0, ce_first_bit = True, ce_out = [],
      ce_partial = 0, ce_bit_count = 0, ce_max_bytes = max_bytes, ce_overflowed = False\<rparr>"

definition ce_new :: cabac_encoder where
  "ce_new = ce_with_limit DEFAULT_MAX_BYTES"

definition ce_bit_len :: "cabac_encoder \<Rightarrow> nat" where
  "ce_bit_len e = sat_u 64 (sat_u 64 (length (ce_out e) * 8) + ce_bit_count e)"

definition ce_write_bit :: "nat \<Rightarrow> cabac_encoder \<Rightarrow> cabac_encoder" where
  "ce_write_bit b e =
     (if length (ce_out e) \<ge> ce_max_bytes e then e\<lparr>ce_overflowed := True\<rparr>
      else let partial = push_bit 1 (ce_partial e) OR word_of_nat (b AND 1)
           in if ce_bit_count e + 1 = 8
              then e\<lparr>ce_out := ce_out e @ [partial], ce_partial := 0, ce_bit_count := 0\<rparr>
              else e\<lparr>ce_partial := partial, ce_bit_count := ce_bit_count e + 1\<rparr>)"

lemma ce_write_bit_frame [simp]:
  "ce_low (ce_write_bit b e) = ce_low e" "ce_range (ce_write_bit b e) = ce_range e"
  "ce_outstanding (ce_write_bit b e) = ce_outstanding e"
  "ce_first_bit (ce_write_bit b e) = ce_first_bit e"
  "ce_max_bytes (ce_write_bit b e) = ce_max_bytes e"
  by (simp_all add: ce_write_bit_def Let_def)

text \<open>The loop of \<^verbatim>\<open>put_bit\<close> over the outstanding bits.\<close>

function ce_drain :: "nat \<Rightarrow> cabac_encoder \<Rightarrow> cabac_encoder" where
  "ce_drain b e =
     (if ce_outstanding e > 0 then
        (let e1 = ce_write_bit (1 - (b AND 1)) e;
             e2 = e1\<lparr>ce_outstanding := ce_outstanding e1 - 1\<rparr>
         in if ce_overflowed e2 then e2\<lparr>ce_outstanding := 0\<rparr> else ce_drain b e2)
      else e)"
  by pat_completeness auto
termination
  by (relation "measure (\<lambda>(b, e). ce_outstanding e)") auto

declare ce_drain.simps [simp del]

definition ce_put_bit :: "nat \<Rightarrow> cabac_encoder \<Rightarrow> cabac_encoder" where
  "ce_put_bit b e =
     ce_drain b (if ce_first_bit e then e\<lparr>ce_first_bit := False\<rparr> else ce_write_bit b e)"

definition ce_renorm_step :: "cabac_encoder \<Rightarrow> cabac_encoder" where
  "ce_renorm_step e =
     (let e1 = (if ce_low e < 256 then ce_put_bit 0 e
                else if ce_low e \<ge> 512 then ce_put_bit 1 (e\<lparr>ce_low := ce_low e - 512\<rparr>)
                else e\<lparr>ce_low := ce_low e - 256, ce_outstanding := sat_u 64 (ce_outstanding e + 1)\<rparr>)
      in e1\<lparr>ce_range := push_bit 1 (ce_range e1), ce_low := push_bit 1 (ce_low e1)\<rparr>)"

partial_function (option) ce_renorm :: "cabac_encoder \<Rightarrow> cabac_encoder option" where
  "ce_renorm e = (if ce_range e < 256 then ce_renorm (ce_renorm_step e) else Some e)"

definition ce_decision :: "context_model \<Rightarrow> nat \<Rightarrow> cabac_encoder \<Rightarrow> (context_model \<times> cabac_encoder) option" where
  "ce_decision ctx bin e =
     (let lps_range = lps_range_of ctx (ce_range e);
          e1 = e\<lparr>ce_range := ce_range e - lps_range\<rparr>;
          mps = ctx AND 1;
          is_lps = (if bin AND 1 \<noteq> mps then 1 else 0);
          e2 = (if is_lps = 1 then e1\<lparr>ce_low := ce_low e1 + ce_range e1, ce_range := lps_range\<rparr> else e1)
      in map_option (Pair (tab TRANS (push_bit 8 is_lps OR ctx))) (ce_renorm e2))"

definition ce_bypass :: "nat \<Rightarrow> cabac_encoder \<Rightarrow> cabac_encoder" where
  "ce_bypass bin e =
     (let low = push_bit 1 (ce_low e) + (if bin AND 1 \<noteq> 0 then ce_range e else 0);
          e1 = e\<lparr>ce_low := low\<rparr>
      in if low \<ge> 1024 then (let e2 = ce_put_bit 1 e1 in e2\<lparr>ce_low := ce_low e2 - 1024\<rparr>)
         else if low < 512 then ce_put_bit 0 e1
         else e1\<lparr>ce_low := low - 512, ce_outstanding := sat_u 64 (ce_outstanding e1 + 1)\<rparr>)"

definition ce_bypass_bits :: "nat \<Rightarrow> nat \<Rightarrow> cabac_encoder \<Rightarrow> cabac_encoder" where
  "ce_bypass_bits n val e = fold (\<lambda>i. ce_bypass (drop_bit i val AND 1)) (rev [0..<min n 32]) e"

definition ce_flush :: "cabac_encoder \<Rightarrow> cabac_encoder option" where
  "ce_flush e =
     map_option (\<lambda>e1.
       let e2 = ce_put_bit (drop_bit 9 (ce_low e1) AND 1) e1;
           two = (drop_bit 7 (ce_low e2) AND 3) OR 1
       in ce_write_bit (two AND 1) (ce_write_bit (drop_bit 1 two) e2))
     (ce_renorm (e\<lparr>ce_range := 2\<rparr>))"

definition ce_terminate :: "nat \<Rightarrow> cabac_encoder \<Rightarrow> cabac_encoder option" where
  "ce_terminate bin e =
     (let e1 = e\<lparr>ce_range := ce_range e - 2\<rparr>
      in if bin AND 1 \<noteq> 0 then ce_flush (e1\<lparr>ce_low := ce_low e1 + ce_range e1\<rparr>) else ce_renorm e1)"

text \<open>The loop of \<^verbatim>\<open>encode_bypass_egk\<close>; \<^verbatim>\<open>u32::MAX\<close> stands for an oversized shift.\<close>

definition shl_or_max :: "nat \<Rightarrow> nat" where
  "shl_or_max k = (case checked_shl k of Some x \<Rightarrow> x | None \<Rightarrow> 2 ^ 32 - 1)"

function ce_egk_loop :: "nat \<Rightarrow> nat \<Rightarrow> nat \<Rightarrow> cabac_encoder \<Rightarrow> cabac_encoder" where
  "ce_egk_loop run k remaining e =
     (if remaining \<ge> shl_or_max k \<and> run < 32 then
        (let e1 = ce_bypass 1 e
         in if k + 1 > 31 then e1 else ce_egk_loop (run + 1) (k + 1) (remaining - shl_or_max k) e1)
      else ce_bypass_bits k remaining (ce_bypass 0 e))"
  by pat_completeness auto
termination
  by (relation "measure (\<lambda>(run, k, remaining, e). 32 - run)") auto

declare ce_egk_loop.simps [simp del]

definition ce_bypass_egk :: "nat \<Rightarrow> nat \<Rightarrow> cabac_encoder \<Rightarrow> cabac_encoder" where
  "ce_bypass_egk k val e = ce_egk_loop 0 (min k 31) val e"

definition ce_finish :: "cabac_encoder \<Rightarrow> u8 list" where
  "ce_finish e =
     (if ce_bit_count e > 0 then ce_out e @ [push_bit (8 - ce_bit_count e) (ce_partial e)] else ce_out e)"

section \<open>Reading the tables\<close>

lemma and_low_mask: "(n :: nat) AND (2 ^ k - 1) = n mod 2 ^ k"
  by (simp add: take_bit_eq_mod [symmetric] take_bit_eq_mask mask_eq_exp_minus_1)

lemma and_masks:
  "(n :: nat) AND 127 = n mod 128" "(n :: nat) AND 63 = n mod 64" "(n :: nat) AND 15 = n mod 16"
  "(n :: nat) AND 3 = n mod 4"
  using and_low_mask [of n 7] and_low_mask [of n 6] and_low_mask [of n 4] and_low_mask [of n 2] by simp_all

lemma shl_or: "b \<le> 1 \<Longrightarrow> n * 2 OR b = 2 * n + (b :: nat)" "b \<le> 1 \<Longrightarrow> push_bit 1 n OR b = 2 * n + (b :: nat)"
proof -
  show "b \<le> 1 \<Longrightarrow> n * 2 OR b = 2 * n + b" by (cases b) (simp_all add: or_Suc_0_eq)
  then show "b \<le> 1 \<Longrightarrow> push_bit 1 n OR b = 2 * n + b" by (simp add: push_bit_eq_mult)
qed

lemma drop_bit_nat_div: "drop_bit k (n :: nat) = n div 2 ^ k"
  by (rule drop_bit_eq_div)

lemmas bit_arith = and_masks shl_or and_one_eq drop_bit_nat_div

lemma tables_length [simp]:
  "length RANGE_TAB_LPS = 64" "length TRANS_IDX_LPS = 64" "length TRANS_IDX_MPS = 64"
  by (simp_all add: RANGE_TAB_LPS_def TRANS_IDX_LPS_def TRANS_IDX_MPS_def)

lemma tables_ranges:
  "list_all (\<lambda>x. x < 64) TRANS_IDX_LPS" "list_all (\<lambda>x. x < 64) TRANS_IDX_MPS"
  "list_all (\<lambda>row. length row = 4 \<and> list_all (\<lambda>x. 2 \<le> x) row \<and>
     row ! 0 \<le> 128 \<and> row ! 1 \<le> 176 \<and> row ! 2 \<le> 208 \<and> row ! 3 \<le> 240) RANGE_TAB_LPS"
  by (simp_all add: RANGE_TAB_LPS_def TRANS_IDX_LPS_def TRANS_IDX_MPS_def)

lemma TRANS_eq:
  assumes "s < 256"
  shows "tab TRANS s = 2 * TRANS_IDX_MPS ! (s mod 128 div 2) + s mod 2"
    and "tab TRANS (256 + s) = 2 * TRANS_IDX_LPS ! (s mod 128 div 2) +
      (if s mod 128 div 2 = 0 then 1 - s mod 2 else s mod 2)"
proof -
  have m: "s mod 128 mod 2 = s mod 2" by (simp add: mod_mod_cancel)
  have b: "s mod 2 \<le> 1" "1 - s mod 2 \<le> (1 :: nat)" by simp_all
  have "tab TRANS s = push_bit 1 (TRANS_IDX_MPS ! (s mod 128 div 2)) OR (s mod 2)"
    using assms by (simp add: tab_def get_at_def TRANS_def nth_append and_masks and_one_eq
        drop_bit_nat_div Let_def m del: push_bit_numeral)
  then show "tab TRANS s = 2 * TRANS_IDX_MPS ! (s mod 128 div 2) + s mod 2"
    using shl_or(2) [OF b(1)] by simp
  have "TRANS ! (256 + s) = (let q = drop_bit 1 (s AND 127); v = (s AND 127) AND 1;
        w = (if q = 0 then 1 - v else v) in push_bit 1 (TRANS_IDX_LPS ! q) OR w)"
    using assms by (simp only: TRANS_def nth_append length_map length_upt) simp
  moreover have "256 + s < length TRANS" using assms by (simp add: TRANS_def)
  ultimately have "tab TRANS (256 + s) = push_bit 1 (TRANS_IDX_LPS ! (s mod 128 div 2)) OR
      (if s mod 128 div 2 = 0 then 1 - s mod 2 else s mod 2)"
    by (simp only: tab_def get_at_def if_True option.case and_masks and_one_eq drop_bit_nat_div
        power_one_right Let_def m)
  then show "tab TRANS (256 + s) = 2 * TRANS_IDX_LPS ! (s mod 128 div 2) +
      (if s mod 128 div 2 = 0 then 1 - s mod 2 else s mod 2)"
    using shl_or(2) b by (simp only: split: if_split) simp
qed

lemma TRANS_less:
  assumes "s < 256"
  shows "tab TRANS s < 128" "tab TRANS (256 + s) < 128"
proof -
  have p: "s mod 128 div 2 < 64" by (rule less_mult_imp_div_less) simp
  then have "TRANS_IDX_LPS ! (s mod 128 div 2) < 64" "TRANS_IDX_MPS ! (s mod 128 div 2) < 64"
    using tables_ranges(1,2) by (simp_all only: list_all_length tables_length)
  moreover have "s mod 2 \<le> 1" "(if s mod 128 div 2 = 0 then 1 - s mod 2 else s mod 2) \<le> 1"
    using mod_less_divisor [of 2 s] by (simp, simp only: split: if_split, linarith)
  ultimately show "tab TRANS s < 128" "tab TRANS (256 + s) < 128"
    unfolding TRANS_eq [OF assms] by linarith+
qed

lemma nth_concat_rows:
  "(\<And>i. i < n \<Longrightarrow> length (f i) = k) \<Longrightarrow> i < n \<Longrightarrow> q < k \<Longrightarrow> concat (map f [0..<n]) ! (i * k + q) = f i ! q"
proof (induction n)
  case (Suc n)
  have len: "length (concat (map f [0..<n])) = n * k"
    using Suc.prems(1) by (induction n) auto
  show ?case
  proof (cases "i = n")
    case True
    then show ?thesis using len by (simp add: nth_append)
  next
    case False
    then have "i < n" using Suc.prems(2) by simp
    have "Suc i * k \<le> n * k" using \<open>i < n\<close> by (intro mult_le_mono1) simp
    then have "i * k + q < n * k" using Suc.prems(3) by simp
    then show ?thesis using Suc \<open>i < n\<close> len by (simp add: nth_append)
  qed
qed simp

lemma lps_range_eq:
  assumes "s < 256" "256 \<le> r" "r < 512"
  shows "lps_range_of s r = RANGE_TAB_LPS ! (s div 2 mod 64) ! (r div 64 - 4)"
proof -
  have q: "r div 64 < 8" "4 \<le> r div 64" using assms by (simp_all add: less_mult_imp_div_less div_le_mono)
  then have m: "r div 64 mod 4 = r div 64 - 4" by (simp add: mod_if)
  have s: "s div 2 < 128" using assms by simp
  have "r div 64 - 4 < 4" using q by simp
  then have row: "LPS_RANGE ! (s div 2 * 4 + (r div 64 - 4)) = RANGE_TAB_LPS ! (s div 2 mod 64) ! (r div 64 - 4)"
    unfolding LPS_RANGE_def using s by (subst nth_concat_rows) (simp_all add: and_masks)
  have len: "length LPS_RANGE = 512" by (simp add: LPS_RANGE_def length_concat comp_def sum_list_triv)
  have "s div 2 * 4 + (r div 64 - 4) < 512" using s \<open>r div 64 - 4 < 4\<close> by linarith
  then have "tab LPS_RANGE (s div 2 * 4 + (r div 64 - 4)) = RANGE_TAB_LPS ! (s div 2 mod 64) ! (r div 64 - 4)"
    unfolding tab_def get_at_def len row by simp
  then show ?thesis by (simp add: lps_range_of_def and_masks drop_bit_nat_div m)
qed

lemma lps_range_bounds:
  assumes "s < 256" "256 \<le> r" "r < 512"
  shows "2 \<le> lps_range_of s r" "lps_range_of s r \<le> 240" "lps_range_of s r + 128 \<le> r"
proof -
  let ?row = "RANGE_TAB_LPS ! (s div 2 mod 64)"
  have "s div 2 mod 64 < 64" by simp
  then have row: "length ?row = 4 \<and> list_all (\<lambda>x. 2 \<le> x) ?row \<and>
     ?row ! 0 \<le> 128 \<and> ?row ! 1 \<le> 176 \<and> ?row ! 2 \<le> 208 \<and> ?row ! 3 \<le> 240"
    using tables_ranges(3) unfolding list_all_length [of _ RANGE_TAB_LPS] tables_length by blast
  then have two: "2 \<le> ?row ! i" if "i < 4" for i using that by (simp add: list_all_length)
  have m: "64 * (r div 64) \<le> r" by simp
  have "r div 64 < 8" "4 \<le> r div 64" using assms by (simp_all add: less_mult_imp_div_less div_le_mono)
  then consider "r div 64 = 4" | "r div 64 = 5" | "r div 64 = 6" | "r div 64 = 7" by linarith
  then have "2 \<le> lps_range_of s r \<and> lps_range_of s r \<le> 240 \<and> lps_range_of s r + 128 \<le> r"
  proof cases
    case 1 then show ?thesis using row m two [of 0] by (simp add: lps_range_eq [OF assms])
  next
    case 2 then show ?thesis using row m two [of 1] by (simp add: lps_range_eq [OF assms])
  next
    case 3 then show ?thesis using row m two [of 2] by (simp add: lps_range_eq [OF assms])
  next
    case 4 then show ?thesis using row m two [of 3] by (simp add: lps_range_eq [OF assms])
  qed
  then show "2 \<le> lps_range_of s r" "lps_range_of s r \<le> 240" "lps_range_of s r + 128 \<le> r" by blast+
qed

section \<open>Safety of the engine\<close>

definition cd_ok :: "cabac_decoder \<Rightarrow> bool" where
  "cd_ok d \<longleftrightarrow> 256 \<le> cd_range d \<and> cd_range d \<le> 510 \<and> cd_offset d < cd_range d"

text \<open>Before renormalisation the range may be down to 2.\<close>

definition cd_raw_ok :: "cabac_decoder \<Rightarrow> bool" where
  "cd_raw_ok d \<longleftrightarrow> 2 \<le> cd_range d \<and> cd_range d \<le> 510 \<and> cd_offset d < cd_range d"

lemma cd_shift_in_eq:
  obtains b r where "br_get_bit (cd_reader d) = (b, r)" "unat b \<le> 1"
    "cd_shift_in d = d\<lparr>cd_offset := 2 * cd_offset d + unat b, cd_reader := r\<rparr>"
proof -
  obtain b r where g: "br_get_bit (cd_reader d) = (b, r)" by fastforce
  then have "unat b < 2 ^ 1" unfolding br_get_bit_def by (rule br_get_less [rotated]) simp
  then have "unat b \<le> 1" by simp
  with g show thesis by (intro that) (simp_all add: cd_shift_in_def shl_or del: push_bit_numeral)
qed

lemma cd_renorm_ok:
  "cd_raw_ok d \<Longrightarrow> \<exists>d'. cd_renorm d = Some d' \<and> cd_ok d'"
proof (induction "256 - cd_range d" arbitrary: d rule: less_induct)
  case less
  show ?case
  proof (cases "cd_range d < 256")
    case True
    define d1 where "d1 = d\<lparr>cd_range := push_bit 1 (cd_range d)\<rparr>"
    obtain b r where b: "br_get_bit (cd_reader d1) = (b, r)" "unat b \<le> 1"
      "cd_shift_in d1 = d1\<lparr>cd_offset := 2 * cd_offset d1 + unat b, cd_reader := r\<rparr>"
      by (rule cd_shift_in_eq [of d1])
    have "cd_raw_ok (cd_shift_in d1)"
      using less.prems True b by (simp add: cd_raw_ok_def d1_def push_bit_eq_mult)
    moreover have "256 - cd_range (cd_shift_in d1) < 256 - cd_range d"
      using less.prems True b by (simp add: cd_raw_ok_def d1_def push_bit_eq_mult) linarith
    ultimately have "\<exists>d'. cd_renorm (cd_shift_in d1) = Some d' \<and> cd_ok d'" by (intro less.hyps)
    then show ?thesis using True by (simp add: cd_renorm.simps [of d] d1_def)
  next
    case False
    then show ?thesis using less.prems by (simp add: cd_renorm.simps [of d] cd_ok_def cd_raw_ok_def)
  qed
qed

lemma cd_decision_ok:
  assumes "cd_ok d" "ctx < 256"
  shows "\<exists>bin ctx' d'. cd_decision ctx d = Some (bin, ctx', d') \<and> bin \<le> 1 \<and> ctx' < 128 \<and> cd_ok d'"
proof -
  let ?l = "lps_range_of ctx (cd_range d)"
  have d: "256 \<le> cd_range d" "cd_range d < 512" "cd_offset d < cd_range d"
    using assms(1) by (simp_all add: cd_ok_def)
  note L = lps_range_bounds [OF assms(2) d(1,2)]
  have lps: "cd_offset d \<ge> cd_range d - ?l \<Longrightarrow>
      cd_raw_ok (d\<lparr>cd_offset := cd_offset d - (cd_range d - ?l), cd_range := ?l\<rparr>)"
    using L d by (simp add: cd_raw_ok_def)
  have mps: "cd_offset d < cd_range d - ?l \<Longrightarrow> cd_raw_ok (d\<lparr>cd_range := cd_range d - ?l\<rparr>)"
    using L assms(1) by (simp add: cd_raw_ok_def cd_ok_def) linarith
  have "ctx AND 1 \<le> 1" by (simp add: and_one_eq)
  then show ?thesis
    using cd_renorm_ok [OF lps] cd_renorm_ok [OF mps] TRANS_less [OF assms(2)]
    by (cases "cd_offset d \<ge> cd_range d - ?l") (auto simp: cd_decision_def Let_def)
qed

lemma masked_range_eq: "r \<le> 510 \<Longrightarrow> bin \<le> 1 \<Longrightarrow> masked_range r bin = (if bin = 1 then r else 0)"
  by (cases bin) (auto simp: masked_range_def unat_of_nat take_bit_nat_eq_self)

lemma cd_bypass_eq:
  assumes "cd_range d \<le> 510"
  shows "cd_bypass d = (let d1 = cd_shift_in d in
    if cd_offset d1 \<ge> cd_range d then (1, d1\<lparr>cd_offset := cd_offset d1 - cd_range d\<rparr>) else (0, d1))"
proof -
  have "cd_range (cd_shift_in d) = cd_range d"
    by (simp add: cd_shift_in_def split: prod.split)
  then show ?thesis using assms by (simp add: cd_bypass_def Let_def masked_range_eq)
qed

lemma cd_bypass_ok:
  assumes "cd_ok d"
  shows "\<exists>bin d'. cd_bypass d = (bin, d') \<and> bin \<le> 1 \<and> cd_ok d'"
proof -
  have r: "cd_range d \<le> 510" using assms by (simp add: cd_ok_def)
  obtain b r where b: "br_get_bit (cd_reader d) = (b, r)" "unat b \<le> 1"
    "cd_shift_in d = d\<lparr>cd_offset := 2 * cd_offset d + unat b, cd_reader := r\<rparr>"
    by (rule cd_shift_in_eq [of d])
  then show ?thesis using assms unfolding cd_bypass_eq [OF r] by (auto simp: cd_ok_def Let_def)
qed

lemma cd_bypass_loop_ok:
  "cd_ok d \<Longrightarrow> \<exists>v d'. cd_bypass_loop n val d = (v, d') \<and> v < (val + 1) * 2 ^ n \<and> cd_ok d'"
proof (induction n arbitrary: val d)
  case (Suc n)
  obtain bin d1 where b: "cd_bypass d = (bin, d1)" "bin \<le> 1" "cd_ok d1"
    using cd_bypass_ok [OF Suc.prems] by blast
  obtain v d2 where v: "cd_bypass_loop n (2 * val + bin) d1 = (v, d2)"
    "v < (2 * val + bin + 1) * 2 ^ n" "cd_ok d2"
    using Suc.IH [OF b(3)] by blast
  have "(2 * val + bin + 1) * 2 ^ n \<le> (2 * val + 2) * 2 ^ n" using b(2) by (intro mult_le_mono1) simp
  also have "\<dots> = (val + 1) * 2 ^ Suc n" by (simp add: algebra_simps)
  finally have "v < (val + 1) * 2 ^ Suc n" using v(2) by (rule less_le_trans [rotated])
  then show ?case using b v by (simp add: shl_or del: push_bit_numeral)
qed simp

lemma cd_bypass_bits_ok:
  assumes "cd_ok d"
  shows "\<exists>v d'. cd_bypass_bits n d = (v, d') \<and> v < 2 ^ min n 32 \<and> cd_ok d'"
  using cd_bypass_loop_ok [OF assms, of "min n 32" 0] by (simp add: cd_bypass_bits_def)

lemma cd_terminate_ok:
  assumes "cd_ok d"
  shows "\<exists>b d'. cd_terminate d = Some (b, d') \<and> b \<le> 1 \<and> cd_ok d' \<and> (b = 1 \<longrightarrow> cd_reader d' = cd_reader d)"
proof (cases "cd_offset d \<ge> cd_range d - 2")
  case False
  then have "cd_raw_ok (d\<lparr>cd_range := cd_range d - 2\<rparr>)"
    using assms by (simp add: cd_raw_ok_def cd_ok_def) linarith
  then show ?thesis using cd_renorm_ok False by (fastforce simp: cd_terminate_def Let_def)
qed (use assms in \<open>simp add: cd_terminate_def Let_def cd_ok_def\<close>)

lemma cd_tu_loop_ok:
  "cd_ok d \<Longrightarrow> ctx < 256 \<Longrightarrow>
     \<exists>v ctx' d'. cd_tu_loop left n ctx d = Some (v, ctx', d') \<and> v \<le> n + left \<and> ctx' < 256 \<and> cd_ok d'"
proof (induction left arbitrary: n ctx d)
  case (Suc left)
  obtain bin c d1 where b: "cd_decision ctx d = Some (bin, c, d1)" "c < 128" "cd_ok d1"
    using cd_decision_ok Suc.prems by blast
  then show ?case using Suc.IH [of d1 c "n + 1"] by (cases "bin = 0") fastforce+
qed simp

lemma cd_egk_loop_ok:
  "cd_ok d \<Longrightarrow> val < 2 ^ 32 \<Longrightarrow> \<exists>v d'. cd_egk_loop run k val d = (v, d') \<and> v < 2 ^ 32 \<and> cd_ok d'"
proof (induction run k val d rule: cd_egk_loop.induct)
  case (1 run k val d)
  obtain bin d1 where b: "cd_bypass d = (bin, d1)" "bin \<le> 1" "cd_ok d1"
    using cd_bypass_ok "1.prems"(1) by blast
  have sat: "sat_u 32 x < 2 ^ 32" for x using fits_u_sat_u [of 32 x] by (simp add: fits_u_def)
  obtain v d2 where v: "cd_bypass_bits k d1 = (v, d2)" "cd_ok d2"
    using cd_bypass_bits_ok [OF b(3)] by blast
  have m: "cd_ok (d1\<lparr>cd_malformed := True\<rparr>)" using b(3) by (simp add: cd_ok_def)
  show ?case
    using "1.IH" [OF b(1) [symmetric] _ refl] b v m sat by (simp add: cd_egk_loop.simps [of run] Let_def)
qed

lemma cd_bypass_egk_ok:
  "cd_ok d \<Longrightarrow> \<exists>v d'. cd_bypass_egk k d = (v, d') \<and> v < 2 ^ 32 \<and> cd_ok d'"
  unfolding cd_bypass_egk_def by (rule cd_egk_loop_ok) simp_all

section \<open>Sequences of operations\<close>

text \<open>
  The calls a codec makes, each context named by its index in the codec's context set. The
  result of a call is an integer; a missing context is no call of the engine.
\<close>

datatype cabac_op =
    Decision nat | Bypass_bin | Bypass_bits nat | Terminate | Unary nat nat | Egk nat
  | Uegk nat nat nat bool

primrec dec_op ::
  "cabac_op \<Rightarrow> context_model list \<Rightarrow> cabac_decoder \<Rightarrow> (int \<times> context_model list \<times> cabac_decoder) option" where
  "dec_op (Decision i) cs d =
     map_option (\<lambda>(b, c, d'). (int b, cs[i := c], d')) (cd_decision (cs ! i) d)"
| "dec_op Bypass_bin cs d = (case cd_bypass d of (b, d') \<Rightarrow> Some (int b, cs, d'))"
| "dec_op (Bypass_bits n) cs d = (case cd_bypass_bits n d of (v, d') \<Rightarrow> Some (int v, cs, d'))"
| "dec_op Terminate cs d = map_option (\<lambda>(b, d'). (int b, cs, d')) (cd_terminate d)"
| "dec_op (Unary i c_max) cs d =
     map_option (\<lambda>(v, c, d'). (int v, cs[i := c], d')) (cd_tu (cs ! i) c_max d)"
| "dec_op (Egk k) cs d = (case cd_bypass_egk k d of (v, d') \<Rightarrow> Some (int v, cs, d'))"
| "dec_op (Uegk i u_coff k sf) cs d =
     map_option (\<lambda>(v, c, d'). (v, cs[i := c], d')) (cd_uegk (cs ! i) u_coff k sf d)"

primrec dec_ops ::
  "cabac_op list \<Rightarrow> context_model list \<Rightarrow> cabac_decoder \<Rightarrow>
     (int list \<times> context_model list \<times> cabac_decoder) option" where
  "dec_ops [] cs d = Some ([], cs, d)"
| "dec_ops (x # xs) cs d =
     Option.bind (dec_op x cs d) (\<lambda>(v, cs1, d1).
       map_option (\<lambda>(vs, cs2, d2). (v # vs, cs2, d2)) (dec_ops xs cs1 d1))"

primrec op_contexts :: "nat \<Rightarrow> cabac_op \<Rightarrow> bool" where
  "op_contexts n (Decision i) \<longleftrightarrow> i < n"
| "op_contexts n Bypass_bin \<longleftrightarrow> True"
| "op_contexts n (Bypass_bits k) \<longleftrightarrow> True"
| "op_contexts n Terminate \<longleftrightarrow> True"
| "op_contexts n (Unary i c_max) \<longleftrightarrow> i < n"
| "op_contexts n (Egk k) \<longleftrightarrow> True"
| "op_contexts n (Uegk i u_coff k sf) \<longleftrightarrow> i < n"

primrec op_result :: "cabac_op \<Rightarrow> int \<Rightarrow> bool" where
  "op_result (Decision i) v \<longleftrightarrow> v = 0 \<or> v = 1"
| "op_result Bypass_bin v \<longleftrightarrow> v = 0 \<or> v = 1"
| "op_result (Bypass_bits n) v \<longleftrightarrow> 0 \<le> v \<and> v < 2 ^ min n 32"
| "op_result Terminate v \<longleftrightarrow> v = 0 \<or> v = 1"
| "op_result (Unary i c_max) v \<longleftrightarrow> 0 \<le> v \<and> v \<le> int c_max"
| "op_result (Egk k) v \<longleftrightarrow> 0 \<le> v \<and> v < 2 ^ 32"
| "op_result (Uegk i u_coff k sf) v \<longleftrightarrow> \<bar>v\<bar> < 2 ^ 31 \<and> (\<not> sf \<longrightarrow> 0 \<le> v)"

lemma cd_uegk_ok:
  assumes "cd_ok d" "ctx < 256"
  shows "\<exists>v c d'. cd_uegk ctx u k sf d = Some (v, c, d') \<and> \<bar>v\<bar> < 2 ^ 31 \<and> (\<not> sf \<longrightarrow> 0 \<le> v) \<and>
    c < 256 \<and> cd_ok d'"
proof -
  obtain p c d1 where t: "cd_tu ctx u d = Some (p, c, d1)" "c < 256" "cd_ok d1"
    using cd_tu_loop_ok [OF assms] unfolding cd_tu_def by blast
  obtain x d2 where e: "cd_bypass_egk k d1 = (x, d2)" "cd_ok d2"
    using cd_bypass_egk_ok [OF t(3)] by blast
  obtain q qd where q: "(if p \<ge> u then (sat_u 32 (p + x), d2) else (p, d1)) = (q, qd)" by fastforce
  then have "cd_ok qd" using t e by (auto split: if_splits)
  then obtain b d3 where b: "cd_bypass qd = (b, d3)" "cd_ok d3" using cd_bypass_ok by blast
  have "cd_uegk ctx u k sf d =
      (let magnitude = int (min q (2 ^ 31 - 1)) in
       if sf \<and> magnitude \<noteq> 0 then Some (if b = 1 then - magnitude else magnitude, c, d3)
       else Some (magnitude, c, qd))"
    by (simp only: cd_uegk_def t e prod.case q Let_def bind.bind_lunit b)
  then show ?thesis using t b \<open>cd_ok qd\<close> by (auto simp: Let_def)
qed

lemma dec_op_ok:
  assumes "cd_ok d" "op_contexts (length cs) x" "list_all (\<lambda>c. c < 256) cs"
  shows "\<exists>v cs' d'. dec_op x cs d = Some (v, cs', d') \<and> op_result x v \<and> cd_ok d' \<and>
    length cs' = length cs \<and> list_all (\<lambda>c. c < 256) cs'"
proof -
  have upd: "c < 256 \<Longrightarrow> list_all (\<lambda>c. c < 256) (cs[i := c])" for c i
    using assms(3) set_update_subset_insert [of cs i c] by (auto simp: list_all_iff)
  have nth: "i < length cs \<Longrightarrow> cs ! i < 256" for i using assms(3) by (simp add: list_all_length)
  have one: "b \<le> 1 \<Longrightarrow> int b = 0 \<or> int b = 1" for b by (cases b) auto
  show ?thesis
  proof (cases x)
    case (Decision i)
    then show ?thesis
      using cd_decision_ok [OF assms(1) nth, of i] assms(2) upd one by fastforce
  next
    case (Unary i c_max)
    then show ?thesis
      using cd_tu_loop_ok [OF assms(1) nth, of i c_max 0] assms(2) upd by (fastforce simp: cd_tu_def)
  next
    case (Uegk i u k sf)
    then have "cs ! i < 256" using assms(2) nth by simp
    then show ?thesis using cd_uegk_ok [OF assms(1), of "cs ! i" u k sf] Uegk upd by fastforce
  next
    case Bypass_bin
    then show ?thesis using cd_bypass_ok [OF assms(1)] assms(3) one by fastforce
  next
    case (Bypass_bits n)
    obtain v d' where "cd_bypass_bits n d = (v, d')" "v < 2 ^ min n 32" "cd_ok d'"
      using cd_bypass_bits_ok [OF assms(1)] by blast
    moreover from this(2) have "int v < 2 ^ min n 32" by (metis of_nat_less_iff of_nat_numeral of_nat_power)
    ultimately show ?thesis using Bypass_bits assms(3) by simp
  next
    case Terminate
    then show ?thesis using cd_terminate_ok [OF assms(1)] assms(3) one by fastforce
  next
    case (Egk k)
    obtain v d' where "cd_bypass_egk k d = (v, d')" "v < 2 ^ 32" "cd_ok d'"
      using cd_bypass_egk_ok [OF assms(1)] by blast
    then show ?thesis using Egk assms(3) by simp
  qed
qed

lemma dec_ops_ok:
  "cd_ok d \<Longrightarrow> list_all (op_contexts (length cs)) xs \<Longrightarrow> list_all (\<lambda>c. c < 256) cs \<Longrightarrow>
     \<exists>vs cs' d'. dec_ops xs cs d = Some (vs, cs', d') \<and> list_all2 op_result xs vs \<and> cd_ok d'"
proof (induction xs arbitrary: cs d)
  case (Cons x xs)
  then obtain v cs1 d1 where 1: "dec_op x cs d = Some (v, cs1, d1)" "op_result x v" "cd_ok d1"
    "length cs1 = length cs" "list_all (\<lambda>c. c < 256) cs1"
    using dec_op_ok [of d cs x] by auto
  then show ?case using Cons.IH [of d1 cs1] Cons.prems by fastforce
qed simp

lemma cd_from_reader_ok: "cd_ok (cd_from_reader r)"
  by (auto simp: cd_from_reader_def cd_ok_def INITIAL_RANGE_def Let_def split: prod.split)

text \<open>
  C22. The engine is safe on any input: over arbitrary bytes, from any context bytes and for any
  sequence of engine calls and binarizations, every call returns (no renormalisation loop and no
  prefix run hangs), its result is in the range of its type, and \<open>offset < range\<close> with
  \<open>256 \<le> range \<le> 510\<close> holds afterwards, so no register wraps.
\<close>

theorem cabac_engine_safe:
  assumes "list_all (\<lambda>c. c < 256) cs" "list_all (op_contexts (length cs)) xs"
  shows "\<exists>vs cs' d. dec_ops xs cs (cd_new bytes) = Some (vs, cs', d) \<and> list_all2 op_result xs vs \<and>
    256 \<le> cd_range d \<and> cd_range d \<le> 510 \<and> cd_offset d < cd_range d"
proof -
  have "cd_ok (cd_new bytes)" by (simp add: cd_new_def cd_from_reader_ok)
  from dec_ops_ok [OF this assms(2,1)] show ?thesis unfolding cd_ok_def by blast
qed

theorem cabac_engine_safe_witness:
  "\<exists>vs cs' d. dec_ops [Egk 0, Decision 0, Uegk 1 14 3 True, Terminate] [0, 124] (cd_new [0xFF, 0xFF, 0xFF]) =
     Some (vs, cs', d) \<and> cd_offset d < cd_range d"
  using cabac_engine_safe [of "[0, 124]" "[Egk 0, Decision 0, Uegk 1 14 3 True, Terminate]" "[0xFF, 0xFF, 0xFF]"]
  by simp blast

section \<open>The packed context byte\<close>

text \<open>Clause 9.3.3.2.1.1 on the two variables \<open>pStateIdx\<close> and \<open>valMPS\<close>.\<close>

definition spec_next :: "bool \<Rightarrow> nat \<times> bool \<Rightarrow> nat \<times> bool" where
  "spec_next lps s = (case s of (p, mps) \<Rightarrow>
     if lps then (TRANS_IDX_LPS ! p, if p = 0 then \<not> mps else mps) else (TRANS_IDX_MPS ! p, mps))"

definition spec_init :: "int \<Rightarrow> int \<Rightarrow> int \<Rightarrow> nat \<times> bool" where
  "spec_init m n qp =
     (let pre = max 1 (min 126 (m * max 0 (min 51 qp) div 16 + n))
      in if pre \<le> 63 then (nat (63 - pre), False) else (nat (pre - 64), True))"

definition unpacked :: "context_model \<Rightarrow> nat \<times> bool" where
  "unpacked c = (cm_state_idx c, cm_mps c)"

lemma unpacked_pair: "b \<le> 1 \<Longrightarrow> unpacked (2 * p + b) = (p, b = 1)"
  by (cases b) (auto simp: unpacked_def cm_state_idx_def cm_mps_def bit_arith)

lemma init_h264_spec: "unpacked (init_h264 m n qp) = spec_init m n qp \<and> init_h264 m n qp < 128"
proof -
  have q: "clip3_i32 0 51 qp = max 0 (min 51 qp)" by (auto simp: clip3_i32_def)
  define pre where "pre = max 1 (min 126 (m * max 0 (min 51 qp) div 16 + n))"
  have "clip3_i32 1 126 (drop_bit 4 (m * clip3_i32 0 51 qp) + n) = pre"
    unfolding q by (auto simp: clip3_i32_def pre_def drop_bit_eq_div)
  then have i: "init_h264 m n qp = (if pre \<le> 63 then 2 * nat (63 - pre) + 0 else 2 * nat (pre - 64) + 1)"
    by (simp add: init_h264_def Let_def shl_or push_bit_eq_mult)
  have "1 \<le> pre" "pre \<le> 126" by (simp_all add: pre_def)
  then have "init_h264 m n qp < 128" unfolding i by (simp split: if_split) linarith
  moreover have "unpacked (init_h264 m n qp) = spec_init m n qp"
    unfolding i using unpacked_pair [of 0 "nat (63 - pre)"] unpacked_pair [of 1 "nat (pre - 64)"]
    by (simp add: spec_init_def flip: pre_def)
  ultimately show ?thesis by blast
qed

text \<open>
  One byte holds the context: for every byte, the folded table is the two-variable update
  of clause 9.3.3.2.1.1 on both outcomes (with the \<open>valMPS\<close> flip at state 0), bytes 128 to
  255 behave as their low seven bits, packing and unpacking are inverse, and both
  initialisation formulas are total and land on a valid state given by clause 9.3.1.1.
\<close>

theorem packed_context_exact:
  assumes "c < 256"
  shows "unpacked (tab TRANS c) = spec_next False (unpacked (cm_from_packed c)) \<and>
    unpacked (tab TRANS (256 + c)) = spec_next True (unpacked (cm_from_packed c)) \<and>
    tab TRANS c < 128 \<and> tab TRANS (256 + c) < 128 \<and>
    (\<forall>r. 256 \<le> r \<longrightarrow> r < 512 \<longrightarrow>
      lps_range_of c r = RANGE_TAB_LPS ! cm_state_idx (cm_from_packed c) ! (r div 64 - 4)) \<and>
    cm_new (cm_state_idx c mod 64) (cm_mps c) = cm_from_packed c \<and>
    unpacked (init_h264 m n qp) = spec_init m n qp \<and> init_h264 m n qp < 128 \<and>
    unpacked (init_hevc iv qp) =
      spec_init (int (iv div 16) * 5 - 45) (int (iv mod 16) * 8 - 16) qp"
proof -
  let ?p = "c mod 128 div 2"
  have split: "c mod 128 = 2 * (c div 2 mod 64) + c mod 2" using mod_mult2_eq [of c 2 64] by simp
  then have p: "c div 2 mod 64 = ?p" by simp
  have packed: "cm_from_packed c = 2 * ?p + c mod 2"
    using split unfolding p cm_from_packed_def and_masks .
  have b: "c mod 2 \<le> 1" "(if ?p = 0 then 1 - c mod 2 else c mod 2) \<le> 1"
    using mod_less_divisor [of 2 c] by (simp, simp only: split: if_split, linarith)
  have up: "unpacked (cm_from_packed c) = (?p, c mod 2 = 1)"
    unfolding packed by (rule unpacked_pair [OF b(1)])
  then have idx: "cm_state_idx (cm_from_packed c) = ?p" by (simp add: unpacked_def)
  have A: "unpacked (tab TRANS c) = spec_next False (unpacked (cm_from_packed c))"
    unfolding TRANS_eq(1) [OF assms] up unpacked_pair [OF b(1)] by (simp add: spec_next_def)
  have B: "unpacked (tab TRANS (256 + c)) = spec_next True (unpacked (cm_from_packed c))"
    unfolding TRANS_eq(2) [OF assms] up unpacked_pair [OF b(2)] using b(1) by (auto simp: spec_next_def)
  have C: "lps_range_of c r = RANGE_TAB_LPS ! cm_state_idx (cm_from_packed c) ! (r div 64 - 4)"
    if "256 \<le> r" "r < 512" for r
    unfolding idx lps_range_eq [OF assms that] p ..
  have D: "cm_new (cm_state_idx c mod 64) (cm_mps c) = cm_from_packed c"
  proof -
    have "cm_new (cm_state_idx c mod 64) (cm_mps c) = 2 * (c div 2 mod 64) + c mod 2"
    proof -
      have "c div 2 mod 64 \<le> 63" using mod_less_divisor [of 64 "c div 2"] by linarith
      moreover have "of_bool (c mod 2 = 1) = c mod 2" using b(1) by auto
      ultimately show ?thesis
        using shl_or(2) [OF b(1), of "c div 2 mod 64"]
        by (simp add: cm_new_def cm_state_idx_def cm_mps_def and_one_eq drop_bit_nat_div del: push_bit_numeral)
    qed
    then show ?thesis unfolding packed p .
  qed
  have E: "unpacked (init_hevc iv qp) = spec_init (int (iv div 16) * 5 - 45) (int (iv mod 16) * 8 - 16) qp"
    using init_h264_spec by (simp add: init_hevc_def Let_def and_masks drop_bit_nat_div push_bit_eq_mult)
  show ?thesis
    using A B C D E TRANS_less [OF assms] init_h264_spec [of m n qp] by (intro conjI allI impI) simp_all
qed

theorem packed_context_exact_witness:
  "unpacked (tab TRANS (256 + 1)) = spec_next True (unpacked (cm_from_packed 1)) \<and>
    unpacked (init_h264 20 30 26) = spec_init 20 30 26"
  using packed_context_exact [of 1 20 30 26] by simp

end
