(* ===== verification/Signal_Cabac_Coding.thy ===== *)
theory Signal_Cabac_Coding
  imports Signal_Cabac
begin

text \<open>
  The CABAC encoder and decoder are inverse: \<^verbatim>\<open>encode.rs\<close> and \<^verbatim>\<open>decode.rs\<close> of
  \<^verbatim>\<open>crates/signal/vaco-codec-cabac\<close>, modelled in \<open>Signal_Cabac\<close>.

  The specification both sides implement is an interval of unbounded integers
  (\<open>interval\<close>): a bin narrows it, renormalisation doubles it. The encoder's registers,
  pending outstanding bits and bytes represent the lower end exactly (\<open>enc_at\<close>); the
  decoder's offset is the distance of the stream's value from it (\<open>dec_at\<close>). A stream
  whose value lies in the final interval lies in all earlier ones, so every bin is recovered.
\<close>

section \<open>Intervals\<close>

record interval =
  iv_low :: nat
  iv_range :: nat
  iv_shift :: nat

definition iv_double :: "interval \<Rightarrow> interval" where
  "iv_double v = \<lparr>iv_low = 2 * iv_low v, iv_range = 2 * iv_range v, iv_shift = Suc (iv_shift v)\<rparr>"

function iv_norm :: "interval \<Rightarrow> interval" where
  "iv_norm v = (if iv_range v < 256 \<and> iv_range v \<noteq> 0 then iv_norm (iv_double v) else v)"
  by pat_completeness auto
termination
  by (relation "measure (\<lambda>v. 256 - iv_range v)") (auto simp: iv_double_def)

declare iv_norm.simps [simp del]

definition iv_split :: "context_model \<Rightarrow> bool \<Rightarrow> interval \<Rightarrow> interval" where
  "iv_split c b v =
     (let l = lps_range_of c (iv_range v); r = iv_range v - l
      in if b \<noteq> odd c then v\<lparr>iv_low := iv_low v + r, iv_range := l\<rparr> else v\<lparr>iv_range := r\<rparr>)"

definition iv_decide :: "context_model \<Rightarrow> bool \<Rightarrow> interval \<Rightarrow> interval" where
  "iv_decide c b v = iv_norm (iv_split c b v)"

definition iv_bypass :: "bool \<Rightarrow> interval \<Rightarrow> interval" where
  "iv_bypass b v =
     v\<lparr>iv_low := 2 * iv_low v + (if b then iv_range v else 0), iv_shift := Suc (iv_shift v)\<rparr>"

definition iv_continue :: "interval \<Rightarrow> interval" where
  "iv_continue v = iv_norm (v\<lparr>iv_range := iv_range v - 2\<rparr>)"

definition iv_raw :: "interval \<Rightarrow> bool" where
  "iv_raw v \<longleftrightarrow> 2 \<le> iv_range v \<and> iv_range v \<le> 510 \<and> iv_low v + iv_range v \<le> 2 ^ (9 + iv_shift v)"

definition iv_ok :: "interval \<Rightarrow> bool" where
  "iv_ok v \<longleftrightarrow> iv_raw v \<and> 256 \<le> iv_range v"

text \<open>The value of the first bits of a stream, and a stream whose value is in the interval.\<close>

definition stream_val :: "(nat \<Rightarrow> bool) \<Rightarrow> nat \<Rightarrow> nat" where
  "stream_val str n = bits_val (window str n)"

definition holds_in :: "(nat \<Rightarrow> bool) \<Rightarrow> interval \<Rightarrow> bool" where
  "holds_in str v \<longleftrightarrow> iv_low v \<le> stream_val str (9 + iv_shift v) \<and>
     stream_val str (9 + iv_shift v) < iv_low v + iv_range v"

lemma bits_val_single [simp]: "bits_val [b] = of_bool b"
  by (simp add: bits_val_def)

lemma stream_val_Suc: "stream_val str (Suc n) = 2 * stream_val str n + of_bool (str n)"
proof -
  have "window str (Suc n) = window str n @ [str n]"
    by (simp add: window_def)
  then show ?thesis by (simp add: stream_val_def bits_val_append)
qed

text \<open>Nine bits are read at the start: \<open>10 + s\<close> is the normal form of \<open>Suc (9 + s)\<close>.\<close>

lemma ten_step:
  "stream_val str (10 + s) = 2 * stream_val str (9 + s) + of_bool (str (9 + s))"
  "(2 :: nat) ^ (10 + s) = 2 * 2 ^ (9 + s)"
proof -
  show "stream_val str (10 + s) = 2 * stream_val str (9 + s) + of_bool (str (9 + s))"
    using stream_val_Suc [of str "9 + s"] by simp
  show "(2 :: nat) ^ (10 + s) = 2 * 2 ^ (9 + s)" by (simp only: power_Suc [symmetric] plus_nat.add_Suc [symmetric]) simp
qed

lemma iv_double_raw: "iv_raw v \<Longrightarrow> iv_range v < 256 \<Longrightarrow> iv_raw (iv_double v)"
  by (simp add: iv_raw_def iv_double_def ten_step)

lemma holds_double: "holds_in str (iv_double v) \<Longrightarrow> holds_in str v"
  by (cases "str (9 + iv_shift v)") (auto simp: holds_in_def iv_double_def ten_step)

lemma iv_norm_ok:
  "iv_raw v \<Longrightarrow> iv_ok (iv_norm v) \<and> iv_shift v \<le> iv_shift (iv_norm v) \<and>
     (holds_in str (iv_norm v) \<longrightarrow> holds_in str v)"
proof (induction v rule: iv_norm.induct)
  case (1 v)
  show ?case
  proof (cases "iv_range v < 256")
    case True
    have "iv_range v \<noteq> 0" using "1.prems" by (simp add: iv_raw_def)
    then show ?thesis
      using "1.IH" iv_double_raw [OF "1.prems" True] holds_double [of str v] True
      by (auto simp: iv_norm.simps [of v] iv_double_def)
  next
    case False
    then show ?thesis using "1.prems" by (simp add: iv_norm.simps [of v] iv_ok_def)
  qed
qed

lemma iv_norm_shift: "256 \<le> iv_range v * 2 ^ j \<Longrightarrow> iv_shift (iv_norm v) \<le> iv_shift v + j"
proof (induction j arbitrary: v)
  case 0
  then show ?case by (simp add: iv_norm.simps [of v])
next
  case (Suc j)
  then have "iv_shift (iv_norm (iv_double v)) \<le> iv_shift (iv_double v) + j"
    by (intro Suc.IH) (simp add: iv_double_def)
  then show ?case by (simp add: iv_norm.simps [of v] iv_double_def)
qed

lemma iv_norm_shift7: "iv_raw v \<Longrightarrow> iv_shift (iv_norm v) \<le> iv_shift v + 7"
  by (rule iv_norm_shift) (simp add: iv_raw_def)

lemma iv_split_raw:
  assumes "iv_ok v" "c < 256"
  shows "iv_raw (iv_split c b v)" "iv_shift (iv_split c b v) = iv_shift v"
    "holds_in str (iv_split c b v) \<Longrightarrow> holds_in str v"
proof -
  have v: "256 \<le> iv_range v" "iv_range v < 512" "iv_range v \<le> 510"
    "iv_low v + iv_range v \<le> 2 ^ (9 + iv_shift v)"
    using assms(1) by (simp_all add: iv_ok_def iv_raw_def)
  note L = lps_range_bounds [OF assms(2) v(1,2)]
  show "iv_raw (iv_split c b v)"
  proof (cases "b = odd c")
    case True
    then show ?thesis using v L by (simp add: iv_raw_def iv_split_def Let_def) linarith
  next
    case False
    then show ?thesis using v L by (simp add: iv_raw_def iv_split_def Let_def)
  qed
  show "iv_shift (iv_split c b v) = iv_shift v" by (simp add: iv_split_def Let_def)
  show "holds_in str (iv_split c b v) \<Longrightarrow> holds_in str v"
    using v L by (auto simp: holds_in_def iv_split_def Let_def split: if_splits)
qed

text \<open>Every operation keeps the interval well formed, shifts little and only narrows it.\<close>

definition narrows :: "(nat \<Rightarrow> bool) \<Rightarrow> nat \<Rightarrow> interval \<Rightarrow> interval \<Rightarrow> bool" where
  "narrows str k v w \<longleftrightarrow> iv_ok w \<and> iv_shift v \<le> iv_shift w \<and> iv_shift w \<le> iv_shift v + k \<and>
     (holds_in str w \<longrightarrow> holds_in str v)"

lemma narrows_refl: "iv_ok v \<Longrightarrow> narrows str 0 v v"
  by (simp add: narrows_def)

lemma narrows_trans: "narrows str j u v \<Longrightarrow> narrows str k v w \<Longrightarrow> narrows str (j + k) u w"
  by (auto simp: narrows_def)

lemma narrows_mono: "narrows str j v w \<Longrightarrow> j \<le> k \<Longrightarrow> narrows str k v w"
  by (simp add: narrows_def)

lemma iv_decide_narrows: "iv_ok v \<Longrightarrow> c < 256 \<Longrightarrow> narrows str 7 v (iv_decide c b v)"
  using iv_norm_ok [OF iv_split_raw(1), of v c b str] iv_norm_shift7 [OF iv_split_raw(1), of v c b]
    iv_split_raw(2,3) [of v c] by (auto simp: narrows_def iv_decide_def)

lemma iv_bypass_narrows: "iv_ok v \<Longrightarrow> narrows str 1 v (iv_bypass b v)"
  by (cases "str (9 + iv_shift v)")
    (auto simp: narrows_def iv_bypass_def iv_ok_def iv_raw_def holds_in_def ten_step)

lemma iv_bypasses_narrows: "iv_ok v \<Longrightarrow> narrows str (length bs) v (fold iv_bypass bs v)"
proof (induction bs arbitrary: v)
  case (Cons b bs)
  note B = iv_bypass_narrows [OF Cons.prems, of str b]
  then have "iv_ok (iv_bypass b v)" by (simp add: narrows_def)
  then show ?case using narrows_trans [OF B Cons.IH] by simp
qed (simp add: narrows_refl)

lemma iv_reduced_raw:
  assumes "iv_ok v"
  shows "iv_raw (v\<lparr>iv_range := iv_range v - 2\<rparr>)" "holds_in str (v\<lparr>iv_range := iv_range v - 2\<rparr>) \<Longrightarrow> holds_in str v"
  using assms by (auto simp: iv_ok_def iv_raw_def holds_in_def)

lemma iv_continue_narrows: "iv_ok v \<Longrightarrow> narrows str 7 v (iv_continue v)"
  using iv_norm_ok [OF iv_reduced_raw(1), of v str] iv_norm_shift7 [OF iv_reduced_raw(1), of v]
    iv_reduced_raw(2) [of v str] by (auto simp: narrows_def iv_continue_def)

section \<open>The decoder follows the interval\<close>

text \<open>
  After \<open>9 + s\<close> bits read from \<open>r0\<close>, the offset is the distance of the stream's value from
  the lower end. \<open>calm\<close>: no error or termination has been recorded.
\<close>

definition dec_at :: "bit_reader \<Rightarrow> interval \<Rightarrow> cabac_decoder \<Rightarrow> bool" where
  "dec_at r0 v d \<longleftrightarrow> cd_range d = iv_range v \<and>
     cd_offset d = stream_val (stream r0) (9 + iv_shift v) - iv_low v \<and>
     advanced r0 (9 + iv_shift v) (cd_reader d) \<and> \<not> cd_malformed d"

lemma cd_shift_in_at:
  assumes "advanced r0 (9 + s) (cd_reader d)" "room r0 (9 + Suc s)"
  shows "\<exists>r. cd_shift_in d = d\<lparr>cd_offset := 2 * cd_offset d + of_bool (stream r0 (9 + s)), cd_reader := r\<rparr> \<and>
    advanced r0 (9 + Suc s) r"
proof -
  obtain b r where b: "br_get_bit (cd_reader d) = (b, r)" "unat b \<le> 1"
    "cd_shift_in d = d\<lparr>cd_offset := 2 * cd_offset d + unat b, cd_reader := r\<rparr>"
    by (rule cd_shift_in_eq [of d])
  have ok: "reader_ok (cd_reader d)" using assms(1) by (simp add: advanced_def)
  have "room (cd_reader d) 1" using advanced_room [OF assms(1), of 1] assms(2) by simp
  then have G: "unat b = bits_val (window (stream (cd_reader d)) 1) \<and> advanced (cd_reader d) 1 r"
    using br_get_spec [OF ok _ _ b(1) [unfolded br_get_bit_def]] by simp
  have "window (stream (cd_reader d)) 1 = [stream r0 (9 + s)]"
    using advanced_stream [OF assms(1)] by (simp add: window_def)
  then have "unat b = of_bool (stream r0 (9 + s))" using G by simp
  then show ?thesis using b(3) advanced_trans [OF assms(1)] G by fastforce
qed

lemma dec_at_shift:
  assumes "dec_at r0 v d" "holds_in (stream r0) v" "room r0 (9 + Suc (iv_shift v))"
  shows "\<exists>r. cd_shift_in d = d\<lparr>cd_offset := stream_val (stream r0) (10 + iv_shift v) - 2 * iv_low v, cd_reader := r\<rparr> \<and>
    advanced r0 (9 + Suc (iv_shift v)) r"
proof -
  have a: "advanced r0 (9 + iv_shift v) (cd_reader d)" using assms(1) by (simp add: dec_at_def)
  have "2 * cd_offset d + of_bool (stream r0 (9 + iv_shift v)) =
      stream_val (stream r0) (10 + iv_shift v) - 2 * iv_low v"
    using assms(1,2) by (simp add: dec_at_def holds_in_def ten_step diff_mult_distrib2 Suc_diff_le)
  then show ?thesis using cd_shift_in_at [OF a assms(3)] by simp
qed

lemma cd_renorm_at:
  "dec_at r0 v d \<Longrightarrow> iv_raw v \<Longrightarrow> holds_in (stream r0) (iv_norm v) \<Longrightarrow> room r0 (9 + iv_shift (iv_norm v)) \<Longrightarrow>
     \<exists>d'. cd_renorm d = Some d' \<and> dec_at r0 (iv_norm v) d'"
proof (induction v arbitrary: d rule: iv_norm.induct)
  case (1 v)
  have rng: "cd_range d = iv_range v" "iv_range v \<noteq> 0"
    using "1.prems" by (simp_all add: dec_at_def iv_raw_def)
  show ?case
  proof (cases "iv_range v < 256")
    case False
    then show ?thesis using "1.prems"(1) rng by (simp add: cd_renorm.simps [of d] iv_norm.simps [of v])
  next
    case True
    have n: "iv_norm v = iv_norm (iv_double v)" using True rng by (simp add: iv_norm.simps [of v])
    note raw = iv_double_raw [OF "1.prems"(2) True]
    have shifts: "Suc (iv_shift v) \<le> iv_shift (iv_norm v)"
      using iv_norm_ok [OF raw] unfolding n by (simp add: iv_double_def)
    then have rm: "room r0 (9 + Suc (iv_shift v))" using room_mono [OF "1.prems"(4)] by simp
    have h: "holds_in (stream r0) v" using iv_norm_ok [OF "1.prems"(2)] "1.prems"(3) by blast
    let ?d = "d\<lparr>cd_range := push_bit 1 (cd_range d)\<rparr>"
    have "cd_shift_in ?d = (cd_shift_in d)\<lparr>cd_range := push_bit 1 (cd_range d)\<rparr>"
      by (simp add: cd_shift_in_def split: prod.split)
    moreover obtain r where "cd_shift_in d =
        d\<lparr>cd_offset := stream_val (stream r0) (10 + iv_shift v) - 2 * iv_low v, cd_reader := r\<rparr>"
      and a: "advanced r0 (9 + Suc (iv_shift v)) r"
      using dec_at_shift [OF "1.prems"(1) h rm] by blast
    ultimately have r: "cd_shift_in ?d = d\<lparr>cd_offset := stream_val (stream r0) (10 + iv_shift v) - 2 * iv_low v,
        cd_reader := r, cd_range := push_bit 1 (cd_range d)\<rparr>" by simp
    have "dec_at r0 (iv_double v) (cd_shift_in ?d)"
      using r a "1.prems"(1) rng by (simp add: dec_at_def iv_double_def)
    then show ?thesis
      using "1.IH" True rng raw "1.prems"(3,4) unfolding n by (simp add: cd_renorm.simps [of d])
  qed
qed

lemma cd_decision_at:
  assumes "dec_at r0 v d" "iv_ok v" "c < 256" "holds_in (stream r0) (iv_decide c b v)"
    "room r0 (9 + iv_shift (iv_decide c b v))"
  shows "\<exists>d'. cd_decision c d = Some (of_bool b, tab TRANS (if b \<noteq> odd c then 256 + c else c), d') \<and>
    dec_at r0 (iv_decide c b v) d'"
proof -
  note S = iv_split_raw [OF assms(2,3), where b = b]
  let ?l = "lps_range_of c (iv_range v)"
  have v: "256 \<le> iv_range v" "iv_range v < 512" using assms(2) by (simp_all add: iv_ok_def iv_raw_def)
  note L = lps_range_bounds [OF assms(3) v]
  have h: "holds_in (stream r0) (iv_split c b v)"
    using iv_norm_ok [OF S(1)] assms(4) by (simp add: iv_decide_def)
  have R: "dec_at r0 (iv_split c b v) d1 \<Longrightarrow> \<exists>d'. cd_renorm d1 = Some d' \<and> dec_at r0 (iv_decide c b v) d'" for d1
    using cd_renorm_at [OF _ S(1)] assms(4,5) by (simp add: iv_decide_def)
  have rng: "cd_range d = iv_range v" "cd_offset d = stream_val (stream r0) (9 + iv_shift v) - iv_low v"
    using assms(1) by (simp_all add: dec_at_def)
  show ?thesis
  proof (cases "b \<noteq> odd c")
    case True
    then have off: "cd_range d - ?l \<le> cd_offset d" using h rng by (auto simp: holds_in_def iv_split_def Let_def)
    have "dec_at r0 (iv_split c b v) (d\<lparr>cd_offset := cd_offset d - (cd_range d - ?l), cd_range := ?l\<rparr>)"
      using assms(1) True by (simp add: dec_at_def iv_split_def Let_def)
    moreover have "1 - (c AND 1) = (of_bool b :: nat)" using True by (cases "odd c") (simp_all add: and_one_eq odd_iff_mod_2_eq_one even_iff_mod_2_eq_zero)
    ultimately show ?thesis using R off True rng by (fastforce simp: cd_decision_def Let_def)
  next
    case False
    then have off: "\<not> cd_range d - ?l \<le> cd_offset d"
      using h rng L by (auto simp: holds_in_def iv_split_def Let_def)
    have "dec_at r0 (iv_split c b v) (d\<lparr>cd_range := cd_range d - ?l\<rparr>)"
      using assms(1) False by (simp add: dec_at_def iv_split_def Let_def)
    moreover have "c AND 1 = (of_bool b :: nat)" using False by (cases "odd c") (simp_all add: and_one_eq odd_iff_mod_2_eq_one even_iff_mod_2_eq_zero)
    ultimately show ?thesis using R off False rng by (fastforce simp: cd_decision_def Let_def)
  qed
qed

lemma cd_bypass_at:
  assumes "dec_at r0 v d" "iv_ok v" "holds_in (stream r0) (iv_bypass b v)" "room r0 (9 + iv_shift (iv_bypass b v))"
  shows "\<exists>d'. cd_bypass d = (of_bool b, d') \<and> dec_at r0 (iv_bypass b v) d'"
proof -
  have h: "holds_in (stream r0) v"
    using iv_bypass_narrows [OF assms(2), of "stream r0" b] assms(3) by (simp add: narrows_def)
  have "room r0 (9 + Suc (iv_shift v))" using assms(4) by (simp add: iv_bypass_def)
  from dec_at_shift [OF assms(1) h this]
  obtain r where r: "cd_shift_in d =
      d\<lparr>cd_offset := stream_val (stream r0) (10 + iv_shift v) - 2 * iv_low v, cd_reader := r\<rparr>"
    "advanced r0 (9 + Suc (iv_shift v)) r" by blast
  have "cd_range d = iv_range v" "cd_range d \<le> 510"
    using assms(1,2) by (simp_all add: dec_at_def iv_ok_def iv_raw_def)
  then show ?thesis
    using assms(1,3) r by (cases b) (auto simp: cd_bypass_eq dec_at_def iv_bypass_def holds_in_def Let_def)
qed

lemma cd_bypass_loop_at:
  "dec_at r0 v d \<Longrightarrow> iv_ok v \<Longrightarrow> holds_in (stream r0) (fold iv_bypass bs v) \<Longrightarrow>
     room r0 (9 + iv_shift (fold iv_bypass bs v)) \<Longrightarrow>
     \<exists>d'. cd_bypass_loop (length bs) acc d = (acc * 2 ^ length bs + bits_val bs, d') \<and>
       dec_at r0 (fold iv_bypass bs v) d'"
proof (induction bs arbitrary: v d acc)
  case Nil
  then show ?case by (simp add: bits_val_def)
next
  case (Cons b bs)
  note B = iv_bypass_narrows [OF Cons.prems(2), of "stream r0" b]
  then have ok: "iv_ok (iv_bypass b v)" by (simp add: narrows_def)
  note N = iv_bypasses_narrows [OF ok, of "stream r0" bs]
  have "holds_in (stream r0) (iv_bypass b v)" "room r0 (9 + iv_shift (iv_bypass b v))"
    using N Cons.prems(3) room_mono [OF Cons.prems(4)] by (simp_all add: narrows_def)
  then obtain d1 where d1: "cd_bypass d = (of_bool b, d1)" "dec_at r0 (iv_bypass b v) d1"
    using cd_bypass_at [OF Cons.prems(1,2)] by blast
  have "bits_val (b # bs) = of_bool b * 2 ^ length bs + bits_val bs"
    using bits_val_append [of "[b]" bs] by simp
  then show ?case
    using Cons.IH [OF d1(2) ok, of "2 * acc + of_bool b"] Cons.prems(3,4) d1(1)
    by (auto simp: shl_or algebra_simps simp del: push_bit_numeral)
qed

lemma cd_terminate_at:
  assumes "dec_at r0 v d" "iv_ok v" "holds_in (stream r0) (iv_continue v)" "room r0 (9 + iv_shift (iv_continue v))"
  shows "\<exists>d'. cd_terminate d = Some (0, d') \<and> dec_at r0 (iv_continue v) d'"
proof -
  let ?v = "v\<lparr>iv_range := iv_range v - 2\<rparr>"
  note raw = iv_reduced_raw(1) [OF assms(2)]
  have h: "holds_in (stream r0) ?v" using iv_norm_ok [OF raw] assms(3) by (simp add: iv_continue_def)
  have "dec_at r0 ?v (d\<lparr>cd_range := cd_range d - 2\<rparr>)" using assms(1) by (simp add: dec_at_def)
  then obtain d' where "cd_renorm (d\<lparr>cd_range := cd_range d - 2\<rparr>) = Some d'" "dec_at r0 (iv_continue v) d'"
    using cd_renorm_at [OF _ raw] assms(3,4) by (auto simp: iv_continue_def)
  moreover have "\<not> cd_range d - 2 \<le> cd_offset d"
    using h assms(1) by (auto simp: holds_in_def dec_at_def)
  ultimately show ?thesis by (simp add: cd_terminate_def Let_def)
qed

text \<open>The terminating bin: the stream is in the top two of the range.\<close>

lemma cd_terminate_end:
  assumes "dec_at r0 v d" "iv_ok v" "iv_low v + iv_range v - 2 \<le> stream_val (stream r0) (9 + iv_shift v)"
  shows "cd_terminate d = Some (1, d\<lparr>cd_terminated := True\<rparr>)"
  using assms by (auto simp: cd_terminate_def dec_at_def iv_ok_def Let_def)

section \<open>The bits the encoder writes\<close>

definition ce_bits :: "cabac_encoder \<Rightarrow> bool list" where
  "ce_bits e = bytes_bits (ce_out e) @ low_bits (ce_bit_count e) (ce_partial e)"

definition ce_bytes_ok :: "cabac_encoder \<Rightarrow> bool" where
  "ce_bytes_ok e \<longleftrightarrow> ce_bit_count e < 8 \<and> length (ce_out e) \<le> ce_max_bytes e \<and>
     (length (ce_out e) = ce_max_bytes e \<longrightarrow> ce_bit_count e = 0)"

lemma length_ce_bits: "length (ce_bits e) = 8 * length (ce_out e) + ce_bit_count e"
  by (simp add: ce_bits_def)

lemma low_bits_push:
  "n < 8 \<Longrightarrow> low_bits (Suc n) (push_bit 1 (p :: u8) OR word_of_nat (of_bool b AND 1)) = low_bits n p @ [b]"
proof -
  assume n: "n < 8"
  have one: "bit (word_of_nat (of_bool b AND 1) :: u8) j \<longleftrightarrow> b \<and> j = 0" for j
    by (cases b) (auto simp: bit_1_iff)
  have sh: "bit (push_bit 1 p) j \<longleftrightarrow> j \<noteq> 0 \<and> j < 8 \<and> bit p (j - 1)" for j
    unfolding bit_push_bit_iff by (auto dest: bit_imp_le_length)
  show ?thesis
  proof (rule nth_equalityI)
    fix i assume "i < length (low_bits (Suc n) (push_bit 1 p OR word_of_nat (of_bool b AND 1)))"
    then have i: "i \<le> n" by simp
    then have "low_bits (Suc n) (push_bit 1 p OR word_of_nat (of_bool b AND 1)) ! i \<longleftrightarrow>
        bit (push_bit 1 p) (n - i) \<or> bit (word_of_nat (of_bool b AND 1) :: u8) (n - i)"
      by (simp add: low_bits_def bit_or_iff del: upt_Suc)
    also have "\<dots> \<longleftrightarrow> (n - i \<noteq> 0 \<and> bit p (n - i - 1)) \<or> (b \<and> n - i = 0)"
      unfolding one sh using n by auto
    also have "\<dots> \<longleftrightarrow> (low_bits n p @ [b]) ! i"
      using i by (auto simp: nth_append low_bits_def)
    finally show "low_bits (Suc n) (push_bit 1 p OR word_of_nat (of_bool b AND 1)) ! i = (low_bits n p @ [b]) ! i" .
  qed simp
qed

lemma byte_bits_low: "byte_bits b = low_bits 8 b"
  by (simp add: byte_bits_def low_bits_def)

text \<open>A bit is appended as long as the ceiling allows it; otherwise the overflow is recorded.\<close>

lemma ce_write_bit_ok:
  assumes "ce_bytes_ok e"
  shows "ce_bytes_ok (ce_write_bit (of_bool b) e)"
    "length (ce_bits e) < 8 * ce_max_bytes e \<Longrightarrow>
       ce_overflowed (ce_write_bit (of_bool b) e) = ce_overflowed e \<and>
       ce_bits (ce_write_bit (of_bool b) e) = ce_bits e @ [b]"
    "8 * ce_max_bytes e \<le> length (ce_bits e) \<Longrightarrow> ce_overflowed (ce_write_bit (of_bool b) e)"
    "ce_overflowed e \<Longrightarrow> ce_overflowed (ce_write_bit (of_bool b) e)"
proof -
  let ?p = "push_bit 1 (ce_partial e) OR word_of_nat (of_bool b AND 1) :: u8"
  have c: "ce_bit_count e < 8" "length (ce_out e) \<le> ce_max_bytes e"
    "length (ce_out e) = ce_max_bytes e \<Longrightarrow> ce_bit_count e = 0"
    using assms by (simp_all add: ce_bytes_ok_def)
  note L = low_bits_push [OF c(1), of "ce_partial e" b]
  show "ce_bytes_ok (ce_write_bit (of_bool b) e)"
    using c by (simp add: ce_bytes_ok_def ce_write_bit_def Let_def)
  show "ce_overflowed (ce_write_bit (of_bool b) e) = ce_overflowed e \<and>
      ce_bits (ce_write_bit (of_bool b) e) = ce_bits e @ [b]"
    if "length (ce_bits e) < 8 * ce_max_bytes e"
  proof (cases "ce_bit_count e + 1 = 8")
    case True
    then have "byte_bits ?p = low_bits 7 (ce_partial e) @ [b]" "ce_bit_count e = 7"
      using L by (simp_all add: byte_bits_low)
    then show ?thesis
      using that by (simp add: ce_write_bit_def Let_def ce_bits_def low_bits_def [of 0] del: push_bit_numeral)
  next
    case False
    then show ?thesis
      using that L by (simp add: ce_write_bit_def Let_def ce_bits_def del: push_bit_numeral)
  qed
  show "ce_overflowed (ce_write_bit (of_bool b) e)" if "8 * ce_max_bytes e \<le> length (ce_bits e)"
  proof -
    have "ce_max_bytes e \<le> length (ce_out e)" using that c(1) by (simp add: length_ce_bits)
    then show ?thesis by (simp add: ce_write_bit_def)
  qed
  show "ce_overflowed e \<Longrightarrow> ce_overflowed (ce_write_bit (of_bool b) e)"
    by (simp add: ce_write_bit_def Let_def)
qed

text \<open>
  \<open>writes bs e e'\<close>: the registers are untouched, and either all of \<open>bs\<close> was appended or
  the ceiling was reached.
\<close>

definition writes :: "bool list \<Rightarrow> cabac_encoder \<Rightarrow> cabac_encoder \<Rightarrow> bool" where
  "writes bs e e' \<longleftrightarrow> ce_bytes_ok e' \<and> ce_low e' = ce_low e \<and> ce_range e' = ce_range e \<and>
     ce_max_bytes e' = ce_max_bytes e \<and>
     (if ce_overflowed e \<or> 8 * ce_max_bytes e < length (ce_bits e) + length bs then ce_overflowed e'
      else \<not> ce_overflowed e' \<and> ce_bits e' = ce_bits e @ bs)"

lemma writes_Nil: "ce_bytes_ok e \<Longrightarrow> writes [] e e"
  by (auto simp: writes_def ce_bytes_ok_def length_ce_bits)

lemma writes_Cons:
  assumes "ce_bytes_ok e" "writes bs (ce_write_bit (of_bool b) e) e'"
  shows "writes (b # bs) e e'"
proof (cases "ce_overflowed e \<or> 8 * ce_max_bytes e \<le> length (ce_bits e)")
  case True
  then have "ce_overflowed (ce_write_bit (of_bool b) e)" using ce_write_bit_ok(3,4) [OF assms(1)] by blast
  then show ?thesis using assms(2) True by (auto simp: writes_def)
next
  case False
  then have "ce_overflowed (ce_write_bit (of_bool b) e) = ce_overflowed e"
      "ce_bits (ce_write_bit (of_bool b) e) = ce_bits e @ [b]"
    using ce_write_bit_ok(2) [OF assms(1), of b] by simp_all
  then show ?thesis using assms(2) False by (simp add: writes_def)
qed

text \<open>The coding state beside the bytes does not matter to what is written.\<close>

lemma ce_frame [simp]:
  "ce_bits (e\<lparr>ce_outstanding := n\<rparr>) = ce_bits e" "ce_bits (e\<lparr>ce_first_bit := f\<rparr>) = ce_bits e"
  "ce_bits (e\<lparr>ce_low := k\<rparr>) = ce_bits e" "ce_bits (e\<lparr>ce_range := k\<rparr>) = ce_bits e"
  "ce_bytes_ok (e\<lparr>ce_outstanding := n\<rparr>) = ce_bytes_ok e" "ce_bytes_ok (e\<lparr>ce_first_bit := f\<rparr>) = ce_bytes_ok e"
  "ce_bytes_ok (e\<lparr>ce_low := k\<rparr>) = ce_bytes_ok e" "ce_bytes_ok (e\<lparr>ce_range := k\<rparr>) = ce_bytes_ok e"
  by (simp_all add: ce_bits_def ce_bytes_ok_def)

lemma writes_frame [simp]:
  "writes bs e (e'\<lparr>ce_outstanding := n\<rparr>) = writes bs e e'"
  "writes bs (e\<lparr>ce_outstanding := n\<rparr>) e' = writes bs e e'"
  "writes bs (e\<lparr>ce_first_bit := f\<rparr>) e' = writes bs e e'"
  by (simp_all add: writes_def)

lemma ce_drain_writes:
  "ce_bytes_ok e \<Longrightarrow> writes (replicate (ce_outstanding e) (\<not> b)) e (ce_drain (of_bool b) e) \<and>
     ce_outstanding (ce_drain (of_bool b) e) = 0 \<and> ce_first_bit (ce_drain (of_bool b) e) = ce_first_bit e"
proof (induction "ce_outstanding e" arbitrary: e)
  case 0
  then show ?case using writes_Nil [OF 0(2)] by (simp add: ce_drain.simps [of _ e])
next
  case (Suc n)
  let ?e1 = "ce_write_bit (of_bool (\<not> b)) e"
  let ?e2 = "?e1\<lparr>ce_outstanding := n\<rparr>"
  have nb: "1 - (of_bool b AND 1) = (of_bool (\<not> b) :: nat)" by (cases b) simp_all
  have o: "ce_outstanding e = Suc n" using Suc.hyps(2) by simp
  have ok: "ce_bytes_ok ?e1" using ce_write_bit_ok(1) [OF Suc.prems] .
  then have ok2: "ce_bytes_ok ?e2" by (simp add: ce_bytes_ok_def)
  have eq: "ce_drain (of_bool b) e =
      (if ce_overflowed ?e1 then ?e1\<lparr>ce_outstanding := 0\<rparr> else ce_drain (of_bool b) ?e2)"
    by (simp add: ce_drain.simps [of _ e] o nb Let_def)
  show ?case
  proof (cases "ce_overflowed ?e1")
    case True
    then have "writes (replicate n (\<not> b)) ?e1 ?e1" using ok by (simp add: writes_def)
    from writes_Cons [OF Suc.prems this]
    show ?thesis using True by (simp add: eq o)
  next
    case False
    have I: "writes (replicate n (\<not> b)) ?e1 (ce_drain (of_bool b) ?e2)"
        "ce_outstanding (ce_drain (of_bool b) ?e2) = 0" "ce_first_bit (ce_drain (of_bool b) ?e2) = ce_first_bit e"
      using Suc.hyps(1) [of ?e2] ok2 by simp_all
    from writes_Cons [OF Suc.prems I(1)] show ?thesis using False I(2,3) by (simp add: eq o)
  qed
qed

definition put_bits :: "bool \<Rightarrow> cabac_encoder \<Rightarrow> bool list" where
  "put_bits b e = (if ce_first_bit e then [] else [b]) @ replicate (ce_outstanding e) (\<not> b)"

lemma ce_put_bit_writes:
  assumes "ce_bytes_ok e"
  shows "writes (put_bits b e) e (ce_put_bit (of_bool b) e)"
    "ce_outstanding (ce_put_bit (of_bool b) e) = 0" "\<not> ce_first_bit (ce_put_bit (of_bool b) e)"
proof -
  let ?e = "e\<lparr>ce_first_bit := False\<rparr>" and ?w = "ce_write_bit (of_bool b) e"
  have "ce_bytes_ok ?e" using assms by simp
  note F = ce_drain_writes [OF this, of b]
  note W = ce_drain_writes [OF ce_write_bit_ok(1) [OF assms, of b], of b]
  show "writes (put_bits b e) e (ce_put_bit (of_bool b) e)"
    using F W writes_Cons [OF assms, of _ b] by (simp add: ce_put_bit_def put_bits_def)
  show "ce_outstanding (ce_put_bit (of_bool b) e) = 0" "\<not> ce_first_bit (ce_put_bit (of_bool b) e)"
    using F W by (simp_all add: ce_put_bit_def)
qed

section \<open>The encoder represents the interval\<close>

text \<open>
  \<open>ce_head\<close> are the bits put so far, the dropped first one included. With the outstanding
  bits they stand for \<open>ce_pending\<close>: the head, then \<open>0\<close> and ones, in units below the ten
  bits of \<^verbatim>\<open>low\<close>.
\<close>

definition ce_head :: "cabac_encoder \<Rightarrow> bool list" where
  "ce_head e = (if ce_first_bit e then [] else False # ce_bits e)"

definition head_ok :: "nat \<Rightarrow> cabac_encoder \<Rightarrow> bool" where
  "head_ok s e \<longleftrightarrow> (ce_first_bit e \<longrightarrow> ce_bits e = []) \<and> length (ce_head e) + ce_outstanding e = s"

definition ce_pending :: "cabac_encoder \<Rightarrow> nat" where
  "ce_pending e = bits_val (ce_head e) * 2 ^ (10 + ce_outstanding e) + 512 * (2 ^ ce_outstanding e - 1)"

lemma head_frame [simp]:
  "ce_head (e\<lparr>ce_low := k\<rparr>) = ce_head e" "ce_head (e\<lparr>ce_range := k\<rparr>) = ce_head e"
  "ce_head (e\<lparr>ce_outstanding := n\<rparr>) = ce_head e"
  "head_ok s (e\<lparr>ce_low := k\<rparr>) = head_ok s e" "head_ok s (e\<lparr>ce_range := k\<rparr>) = head_ok s e"
  "ce_pending (e\<lparr>ce_low := k\<rparr>) = ce_pending e" "ce_pending (e\<lparr>ce_range := k\<rparr>) = ce_pending e"
  by (simp_all add: ce_head_def head_ok_def ce_pending_def)

definition enc_at :: "nat \<Rightarrow> interval \<Rightarrow> cabac_encoder \<Rightarrow> bool" where
  "enc_at m v e \<longleftrightarrow> ce_bytes_ok e \<and> ce_max_bytes e = m \<and> ce_range e = iv_range v \<and>
     ce_low e + iv_range v \<le> 1024 \<and>
     (if ce_overflowed e then 8 * m < iv_shift v
      else head_ok (iv_shift v) e \<and> iv_low v = ce_pending e + ce_low e)"

lemma bits_val_Cons: "bits_val (b # bs) = of_bool b * 2 ^ length bs + bits_val bs"
  using bits_val_append [of "[b]" bs] by simp

lemma bits_val_ones: "bits_val (replicate n True) = 2 ^ n - 1"
  by (induction n) (simp_all add: bits_val_Cons, simp add: bits_val_def)

lemma bits_val_zeros: "bits_val (replicate n False) = 0"
  by (induction n) (simp_all add: bits_val_Cons, simp add: bits_val_def)

lemma ce_put_bit_head:
  assumes "ce_bytes_ok e" "\<not> ce_overflowed e" "head_ok s e" "b \<Longrightarrow> \<not> ce_first_bit e"
  defines "e' \<equiv> ce_put_bit (of_bool b) e"
  shows "ce_bytes_ok e'" "ce_low e' = ce_low e" "ce_range e' = ce_range e"
    "ce_max_bytes e' = ce_max_bytes e" "ce_overflowed e' \<longleftrightarrow> 8 * ce_max_bytes e < s"
    "\<not> ce_overflowed e' \<Longrightarrow> head_ok (Suc s) e' \<and> \<not> ce_first_bit e' \<and> ce_outstanding e' = 0 \<and>
       ce_pending e' = 2 * ce_pending e + (if b then 1024 else 0)"
proof -
  let ?o = "ce_outstanding e"
  note W = ce_put_bit_writes [OF assms(1), of b, folded e'_def]
  show "ce_bytes_ok e'" "ce_low e' = ce_low e" "ce_range e' = ce_range e" "ce_max_bytes e' = ce_max_bytes e"
    using W(1) by (simp_all add: writes_def)
  have len: "length (ce_bits e) + length (put_bits b e) = s"
    using assms(3) by (auto simp: head_ok_def ce_head_def put_bits_def)
  then show "ce_overflowed e' \<longleftrightarrow> 8 * ce_max_bytes e < s"
    using W(1) assms(2) by (auto simp: writes_def split: if_splits)
  assume "\<not> ce_overflowed e'"
  then have bits: "ce_bits e' = ce_bits e @ put_bits b e"
    using W(1) by (auto simp: writes_def split: if_splits)
  then have head: "ce_head e' = ce_head e @ b # replicate ?o (\<not> b)"
    using W(3) assms(3,4) by (auto simp: ce_head_def put_bits_def head_ok_def)
  have run: "bits_val (b # replicate ?o (\<not> b)) + (if b then 0 else 1) = 2 ^ ?o"
    by (cases b) (simp_all add: bits_val_Cons bits_val_ones bits_val_zeros)
  have "bits_val (ce_head e') = bits_val (ce_head e) * 2 ^ Suc ?o + bits_val (b # replicate ?o (\<not> b))"
    unfolding head bits_val_append by simp
  then have "ce_pending e' + (if b then 0 else 1024) = bits_val (ce_head e) * 2 ^ (11 + ?o) + 1024 * 2 ^ ?o"
    using run W(2) by (cases b) (simp_all add: ce_pending_def power_add algebra_simps)
  moreover have "2 * ce_pending e + 1024 = bits_val (ce_head e) * 2 ^ (11 + ?o) + 1024 * 2 ^ ?o"
  proof -
    obtain k where "(2 :: nat) ^ ?o = Suc k" by (metis Suc_pred zero_less_numeral zero_less_power)
    then show ?thesis by (simp add: ce_pending_def power_add algebra_simps)
  qed
  ultimately have "ce_pending e' = 2 * ce_pending e + (if b then 1024 else 0)" by (cases b) simp_all
  moreover have "length (ce_head e') + 0 = Suc s"
    using assms(3) unfolding head by (simp add: head_ok_def)
  ultimately show "head_ok (Suc s) e' \<and> \<not> ce_first_bit e' \<and> ce_outstanding e' = 0 \<and>
      ce_pending e' = 2 * ce_pending e + (if b then 1024 else 0)"
    using W(2,3) by (simp add: head_ok_def)
qed

lemma first_pending: "head_ok s e \<Longrightarrow> ce_first_bit e \<Longrightarrow> ce_pending e + 512 = 512 * 2 ^ s"
proof -
  assume "head_ok s e" "ce_first_bit e"
  then have "ce_head e = []" "ce_outstanding e = s" by (simp_all add: head_ok_def ce_head_def)
  moreover have "(1 :: nat) \<le> 2 ^ s" by simp
  ultimately show ?thesis by (simp add: ce_pending_def bits_val_def diff_mult_distrib2)
qed

lemma outstanding_pending:
  assumes "head_ok s e" "s < 2 ^ 64 - 1"
  defines "e' \<equiv> e\<lparr>ce_outstanding := sat_u 64 (ce_outstanding e + 1)\<rparr>"
  shows "head_ok (Suc s) e'" "ce_pending e' = 2 * ce_pending e + 512"
proof -
  have "ce_outstanding e \<le> s" using assms(1) by (simp add: head_ok_def)
  then have o: "sat_u 64 (Suc (ce_outstanding e)) = Suc (ce_outstanding e)"
    using assms(2) by (subst sat_u_id) (simp_all add: fits_u_def)
  show "head_ok (Suc s) e'" using assms(1) by (auto simp: e'_def o head_ok_def ce_head_def)
  obtain k where p: "(2 :: nat) ^ ce_outstanding e = Suc k" by (metis Suc_pred zero_less_numeral zero_less_power)
  have "ce_pending e' + 512 = bits_val (ce_head e) * 2 ^ (11 + ce_outstanding e) + 1024 * 2 ^ ce_outstanding e"
    by (simp add: e'_def o ce_pending_def power_add p)
  moreover have "2 * ce_pending e + 1024 = bits_val (ce_head e) * 2 ^ (11 + ce_outstanding e) + 1024 * 2 ^ ce_outstanding e"
    by (simp add: ce_pending_def power_add p algebra_simps)
  ultimately show "ce_pending e' = 2 * ce_pending e + 512" by simp
qed

text \<open>
  One digit: the encoder doubles and settles the top bit of \<open>l\<close> (the doubled \<^verbatim>\<open>low\<close>, with the
  range added for a bypass bin of one). The bypass code does this literally, a renormalisation
  step before the doubling.
\<close>

definition ce_digit :: "nat \<Rightarrow> cabac_encoder \<Rightarrow> cabac_encoder" where
  "ce_digit l e =
     (if l \<ge> 1024 then (ce_put_bit 1 e)\<lparr>ce_low := l - 1024\<rparr>
      else if l < 512 then (ce_put_bit 0 e)\<lparr>ce_low := l\<rparr>
      else e\<lparr>ce_outstanding := sat_u 64 (ce_outstanding e + 1), ce_low := l - 512\<rparr>)"

lemma ce_digit_ok:
  assumes "ce_bytes_ok e" "\<not> ce_overflowed e" "head_ok s e" "s < 2 ^ 64 - 1"
    "2 * ce_pending e + l < 2 ^ (10 + s)"
  defines "e' \<equiv> ce_digit l e"
  shows "if ce_overflowed e' then 8 * ce_max_bytes e < Suc s
    else head_ok (Suc s) e' \<and> ce_pending e' + ce_low e' = 2 * ce_pending e + l"
proof (cases "512 \<le> l \<and> l < 1024")
  case True
  then show ?thesis
    using assms(2) outstanding_pending [OF assms(3,4)] by (simp add: e'_def ce_digit_def)
next
  case False
  define b where "b \<longleftrightarrow> l \<ge> 1024"
  have "\<not> ce_first_bit e" if b
  proof
    assume "ce_first_bit e"
    from first_pending [OF assms(3) this] have "2 * ce_pending e + 1024 = 1024 * 2 ^ s" by simp
    then show False using assms(5) \<open>b\<close> by (simp add: b_def power_add)
  qed
  note P = ce_put_bit_head [OF assms(1-3) this]
  have "e' = (ce_put_bit (of_bool b) e)\<lparr>ce_low := l - (if b then 1024 else 0)\<rparr>"
    using False by (auto simp: e'_def ce_digit_def b_def)
  then show ?thesis using P(5,6) False by (auto simp: b_def)
qed

lemma ce_digit_frame:
  assumes "ce_bytes_ok e"
  shows "ce_bytes_ok (ce_digit l e)" "ce_range (ce_digit l e) = ce_range e"
    "ce_max_bytes (ce_digit l e) = ce_max_bytes e" "ce_overflowed e \<Longrightarrow> ce_overflowed (ce_digit l e)"
    "ce_low (ce_digit l e) = (if l \<ge> 1024 then l - 1024 else if l < 512 then l else l - 512)"
proof -
  note P = ce_put_bit_writes(1) [OF assms, unfolded writes_def]
  have "ce_overflowed e \<Longrightarrow> ce_overflowed (ce_put_bit (of_bool b) e)" for b
    using P [of b] by (auto split: if_splits)
  from this [of True] this [of False] P [of True] P [of False]
  show "ce_bytes_ok (ce_digit l e)" "ce_range (ce_digit l e) = ce_range e"
    "ce_max_bytes (ce_digit l e) = ce_max_bytes e" "ce_overflowed e \<Longrightarrow> ce_overflowed (ce_digit l e)"
    "ce_low (ce_digit l e) = (if l \<ge> 1024 then l - 1024 else if l < 512 then l else l - 512)"
    using assms by (simp_all add: ce_digit_def)
qed

text \<open>The low register does not influence what is put.\<close>

lemma ce_write_bit_low: "ce_write_bit b (e\<lparr>ce_low := k\<rparr>) = (ce_write_bit b e)\<lparr>ce_low := k\<rparr>"
  by (simp add: ce_write_bit_def Let_def)

lemma ce_drain_low: "ce_drain b (e\<lparr>ce_low := k\<rparr>) = (ce_drain b e)\<lparr>ce_low := k\<rparr>"
proof (induction "ce_outstanding e" arbitrary: e)
  case 0
  then show ?case by (simp add: ce_drain.simps)
next
  case (Suc n)
  define w where "w = ce_write_bit (1 - (b AND 1)) e"
  have wl: "ce_write_bit (1 - (b AND 1)) (e\<lparr>ce_low := k\<rparr>) = w\<lparr>ce_low := k\<rparr>"
    by (simp only: w_def ce_write_bit_low)
  have o: "ce_outstanding e = Suc n" "ce_outstanding w = Suc n" using Suc.hyps(2) by (simp_all add: w_def)
  have "ce_drain b e = (if ce_overflowed w then w\<lparr>ce_outstanding := 0\<rparr> else ce_drain b (w\<lparr>ce_outstanding := n\<rparr>))"
    using o by (simp only: ce_drain.simps [of b e] w_def [symmetric] Let_def) simp
  moreover have "ce_drain b (e\<lparr>ce_low := k\<rparr>) =
      (if ce_overflowed w then w\<lparr>ce_outstanding := 0, ce_low := k\<rparr> else ce_drain b (w\<lparr>ce_outstanding := n, ce_low := k\<rparr>))"
  proof -
    have "w\<lparr>ce_low := k, ce_outstanding := x\<rparr> = w\<lparr>ce_outstanding := x, ce_low := k\<rparr>" for x by simp
    then show ?thesis using o by (simp only: ce_drain.simps [of b "e\<lparr>ce_low := k\<rparr>"] wl Let_def) simp
  qed
  moreover have "ce_drain b (w\<lparr>ce_outstanding := n, ce_low := k\<rparr>) = (ce_drain b (w\<lparr>ce_outstanding := n\<rparr>))\<lparr>ce_low := k\<rparr>"
    using Suc.hyps(1) [of "w\<lparr>ce_outstanding := n\<rparr>"] by simp
  ultimately show ?case by simp
qed

lemma ce_put_bit_low: "ce_put_bit b (e\<lparr>ce_low := k\<rparr>) = (ce_put_bit b e)\<lparr>ce_low := k\<rparr>"
proof -
  have f: "e\<lparr>ce_low := k, ce_first_bit := False\<rparr> = e\<lparr>ce_first_bit := False, ce_low := k\<rparr>" by simp
  show ?thesis unfolding ce_put_bit_def f ce_write_bit_low by (simp add: ce_drain_low)
qed

lemma ce_put_bit_keeps_low [simp]: "ce_low (ce_put_bit b e) = ce_low e"
  using arg_cong [OF ce_put_bit_low [where b = b and e = e and k = "ce_low e"], of ce_low] by simp

lemma ce_bypass_digit:
  "ce_bypass (of_bool b) e = ce_digit (2 * ce_low e + (if b then ce_range e else 0)) e"
proof -
  let ?l = "2 * ce_low e + (if b then ce_range e else 0)"
  have l: "push_bit 1 (ce_low e) + (if (of_bool b :: nat) AND 1 \<noteq> 0 then ce_range e else 0) = ?l"
    by (cases b) (simp_all add: push_bit_eq_mult)
  have "(ce_put_bit x (e\<lparr>ce_low := ?l\<rparr>))\<lparr>ce_low := k\<rparr> = (ce_put_bit x e)\<lparr>ce_low := k\<rparr>" for x k
    by (simp add: ce_put_bit_low)
  moreover have "ce_low (ce_put_bit x (e\<lparr>ce_low := ?l\<rparr>)) = ?l" for x
    by (simp add: ce_put_bit_low)
  moreover have "e\<lparr>ce_low := k, ce_outstanding := n\<rparr> = e\<lparr>ce_outstanding := n, ce_low := k\<rparr>" for k n by simp
  ultimately show ?thesis
    unfolding ce_bypass_def l ce_digit_def Let_def by (simp add: ce_put_bit_low)
qed

lemma ce_renorm_step_digit:
  "ce_renorm_step e = (ce_digit (2 * ce_low e) e)\<lparr>ce_range := 2 * ce_range (ce_digit (2 * ce_low e) e)\<rparr>"
proof -
  have sw: "e\<lparr>ce_range := r, ce_low := k\<rparr> = e\<lparr>ce_low := k, ce_range := r\<rparr>" for e :: cabac_encoder and r k by simp
  have so: "e\<lparr>ce_low := k, ce_outstanding := n\<rparr> = e\<lparr>ce_outstanding := n, ce_low := k\<rparr>" for k n by simp
  show ?thesis
    unfolding ce_renorm_step_def ce_digit_def Let_def sw so
    by (simp add: ce_put_bit_low push_bit_eq_mult diff_mult_distrib2 mult.commute)
qed

lemma enc_at_digit:
  assumes "enc_at m v e" "iv_raw v" "iv_shift v < 2 ^ 64 - 1" "x = 0 \<or> x = iv_range v"
  defines "e' \<equiv> ce_digit (2 * ce_low e + x) e"
  shows "ce_bytes_ok e'" "ce_max_bytes e' = m" "ce_range e' = iv_range v"
    "ce_low e' = (let l = 2 * ce_low e + x in if l \<ge> 1024 then l - 1024 else if l < 512 then l else l - 512)"
    "if ce_overflowed e' then 8 * m < Suc (iv_shift v)
     else head_ok (Suc (iv_shift v)) e' \<and> 2 * iv_low v + x = ce_pending e' + ce_low e'"
proof -
  have ok: "ce_bytes_ok e" "ce_max_bytes e = m" "ce_range e = iv_range v"
    using assms(1) by (simp_all add: enc_at_def)
  note F = ce_digit_frame [OF ok(1), of "2 * ce_low e + x", folded e'_def]
  show "ce_bytes_ok e'" "ce_max_bytes e' = m" "ce_range e' = iv_range v"
    "ce_low e' = (let l = 2 * ce_low e + x in if l \<ge> 1024 then l - 1024 else if l < 512 then l else l - 512)"
    using F ok by (simp_all add: Let_def)
  show "if ce_overflowed e' then 8 * m < Suc (iv_shift v)
     else head_ok (Suc (iv_shift v)) e' \<and> 2 * iv_low v + x = ce_pending e' + ce_low e'"
  proof (cases "ce_overflowed e")
    case True
    then show ?thesis using F(4) assms(1) by (simp add: enc_at_def)
  next
    case False
    then have rep: "head_ok (iv_shift v) e" "iv_low v = ce_pending e + ce_low e"
      using assms(1) by (simp_all add: enc_at_def)
    have "x \<le> iv_range v" "0 < iv_range v" "iv_low v + iv_range v \<le> 2 ^ (9 + iv_shift v)"
      using assms(2,4) by (auto simp: iv_raw_def)
    then have "2 * ce_pending e + (2 * ce_low e + x) < 2 ^ (10 + iv_shift v)"
      using rep(2) unfolding ten_step by linarith
    from ce_digit_ok [OF ok(1) False rep(1) assms(3) this, folded e'_def]
    show ?thesis using rep(2) ok(2) by (simp split: if_splits)
  qed
qed

lemma enc_at_bypass:
  assumes "enc_at m v e" "iv_ok v" "iv_shift v < 2 ^ 64 - 1"
  shows "enc_at m (iv_bypass b v) (ce_bypass (of_bool b) e)"
proof -
  let ?x = "if b then iv_range v else 0"
  have raw: "iv_raw v" "iv_range v \<le> 510" using assms(2) by (simp_all add: iv_ok_def iv_raw_def)
  have e: "ce_low e + iv_range v \<le> 1024" "ce_range e = iv_range v" using assms(1) by (simp_all add: enc_at_def)
  have "?x = 0 \<or> ?x = iv_range v" by simp
  note D = enc_at_digit [OF assms(1) raw(1) assms(3) this]
  have "ce_low (ce_digit (2 * ce_low e + ?x) e) + iv_range v \<le> 1024"
    unfolding D(4) Let_def using e(1) raw(2) by (cases b) auto
  then show ?thesis
    using D unfolding ce_bypass_digit e(2) by (simp add: enc_at_def iv_bypass_def)
qed

lemma enc_at_step:
  assumes "enc_at m v e" "iv_raw v" "iv_range v < 256" "iv_shift v < 2 ^ 64 - 1"
  shows "enc_at m (iv_double v) (ce_renorm_step e)"
proof -
  have e: "ce_low e + iv_range v \<le> 1024" using assms(1) by (simp add: enc_at_def)
  note D = enc_at_digit [OF assms(1,2,4) disjI1 [OF refl], unfolded add_0_right]
  have "ce_low (ce_digit (2 * ce_low e) e) + 2 * iv_range v \<le> 1024"
    unfolding D(4) Let_def using e assms(3) by auto
  then show ?thesis
    using D unfolding ce_renorm_step_digit by (simp add: enc_at_def iv_double_def)
qed

lemma ce_renorm_at:
  "enc_at m v e \<Longrightarrow> iv_raw v \<Longrightarrow> iv_shift (iv_norm v) < 2 ^ 64 \<Longrightarrow>
     \<exists>e'. ce_renorm e = Some e' \<and> enc_at m (iv_norm v) e'"
proof (induction v arbitrary: e rule: iv_norm.induct)
  case (1 v)
  have rng: "ce_range e = iv_range v" "iv_range v \<noteq> 0"
    using "1.prems" by (simp_all add: enc_at_def iv_raw_def)
  show ?case
  proof (cases "iv_range v < 256")
    case False
    then show ?thesis using "1.prems"(1) rng by (simp add: ce_renorm.simps [of e] iv_norm.simps [of v])
  next
    case True
    have n: "iv_norm v = iv_norm (iv_double v)" using True rng by (simp add: iv_norm.simps [of v])
    note raw = iv_double_raw [OF "1.prems"(2) True]
    have "Suc (iv_shift v) \<le> iv_shift (iv_norm v)"
      using iv_norm_ok [OF raw] unfolding n by (simp add: iv_double_def)
    then have "iv_shift v < 2 ^ 64 - 1" using "1.prems"(3) by simp
    note step = enc_at_step [OF "1.prems"(1,2) True this]
    show ?thesis
      using "1.IH" [OF _ step raw] True rng "1.prems"(3) unfolding n by (simp add: ce_renorm.simps [of e])
  qed
qed

lemma enc_at_split:
  assumes "enc_at m v e" "iv_ok v" "c < 256"
  shows "enc_at m (iv_split c b v)
    (let l = lps_range_of c (ce_range e); e1 = e\<lparr>ce_range := ce_range e - l\<rparr>
     in if b \<noteq> odd c then e1\<lparr>ce_low := ce_low e1 + ce_range e1, ce_range := l\<rparr> else e1)"
proof -
  have v: "256 \<le> iv_range v" "iv_range v < 512" using assms(2) by (simp_all add: iv_ok_def iv_raw_def)
  note L = lps_range_bounds [OF assms(3) v]
  show ?thesis using assms(1) L by (auto simp: enc_at_def iv_split_def Let_def)
qed

lemma ce_decision_at:
  assumes "enc_at m v e" "iv_ok v" "c < 256" "iv_shift (iv_decide c b v) < 2 ^ 64"
  shows "\<exists>e'. ce_decision c (of_bool b) e = Some (tab TRANS (if b \<noteq> odd c then 256 + c else c), e') \<and>
    enc_at m (iv_decide c b v) e'"
proof -
  note S = iv_split_raw(1) [OF assms(2,3), where b = b]
  obtain e' where e': "ce_renorm (let l = lps_range_of c (ce_range e); e1 = e\<lparr>ce_range := ce_range e - l\<rparr>
      in if b \<noteq> odd c then e1\<lparr>ce_low := ce_low e1 + ce_range e1, ce_range := l\<rparr> else e1) = Some e'"
    "enc_at m (iv_decide c b v) e'"
    using ce_renorm_at [OF enc_at_split [OF assms(1-3)] S] assms(4) unfolding iv_decide_def by blast
  have bin: "(of_bool b :: nat) AND 1 \<noteq> c AND 1 \<longleftrightarrow> b \<noteq> odd c"
    by (cases b) (auto simp: and_one_eq odd_iff_mod_2_eq_one)
  have "push_bit 8 1 OR c = 256 + c"
  proof -
    have "push_bit 8 1 AND c = 0"
    proof (rule bit_eqI)
      fix n
      have "bit (push_bit 8 (1 :: nat)) n \<Longrightarrow> n = 8" unfolding bit_push_bit_iff bit_1_iff by auto
      moreover have "\<not> bit c 8" using assms(3) by (simp add: bit_iff_odd)
      ultimately show "bit (push_bit 8 1 AND c) n \<longleftrightarrow> bit 0 n" unfolding bit_and_iff bit_0_eq by blast
    qed
    from disjunctive_add_eq_or [OF this] show ?thesis by (simp add: push_bit_eq_mult)
  qed
  moreover have "push_bit 8 0 OR c = c" by simp
  ultimately have "ce_decision c (of_bool b) e = map_option (Pair (tab TRANS (if b \<noteq> odd c then 256 + c else c))) (Some e')"
    unfolding e'(1) [symmetric] ce_decision_def Let_def bin by (cases "b \<noteq> odd c") (simp_all del: push_bit_numeral)
  then show ?thesis using e'(2) by simp
qed

lemma ce_continue_at:
  assumes "enc_at m v e" "iv_ok v" "iv_shift (iv_continue v) < 2 ^ 64"
  shows "\<exists>e'. ce_terminate 0 e = Some e' \<and> enc_at m (iv_continue v) e'"
proof -
  let ?v = "v\<lparr>iv_range := iv_range v - 2\<rparr>"
  have "enc_at m ?v (e\<lparr>ce_range := ce_range e - 2\<rparr>)" using assms(1) by (auto simp: enc_at_def)
  then show ?thesis
    using ce_renorm_at [OF _ iv_reduced_raw(1) [OF assms(2)]] assms(3)
    by (auto simp: ce_terminate_def iv_continue_def Let_def)
qed

section \<open>Termination of the stream\<close>

lemma ce_finish_bits:
  assumes "ce_bytes_ok e"
  shows "\<exists>k < 8. bytes_bits (ce_finish e) = ce_bits e @ replicate k False"
proof (cases "ce_bit_count e = 0")
  case True
  then have "bytes_bits (ce_finish e) = ce_bits e @ replicate 0 False"
    by (simp add: ce_finish_def ce_bits_def low_bits_def)
  then show ?thesis by (intro exI [of _ 0]) simp
next
  case False
  let ?c = "ce_bit_count e" and ?p = "ce_partial e"
  have c: "?c < 8" using assms by (simp add: ce_bytes_ok_def)
  have "low_bits 8 (push_bit (8 - ?c) ?p) = low_bits ?c ?p @ replicate (8 - ?c) False"
  proof (rule nth_equalityI)
    fix i assume "i < length (low_bits 8 (push_bit (8 - ?c) ?p))"
    then have i: "i < 8" by simp
    have "low_bits 8 (push_bit (8 - ?c) ?p) ! i \<longleftrightarrow> bit (push_bit (8 - ?c) ?p) (7 - i)"
      using i by (simp add: low_bits_def)
    also have "\<dots> \<longleftrightarrow> 8 - ?c \<le> 7 - i \<and> bit ?p (7 - i - (8 - ?c))"
      using i by (auto simp: bit_push_bit_iff)
    also have "7 - i - (8 - ?c) = ?c - 1 - i" using c by simp
    also have "8 - ?c \<le> 7 - i \<longleftrightarrow> i < ?c" using c i by linarith
    finally show "low_bits 8 (push_bit (8 - ?c) ?p) ! i = (low_bits ?c ?p @ replicate (8 - ?c) False) ! i"
      using i c by (auto simp: nth_append low_bits_def)
  qed (use c in simp)
  then have "bytes_bits (ce_finish e) = ce_bits e @ replicate (8 - ?c) False"
    using False by (simp add: ce_finish_def ce_bits_def byte_bits_low)
  then show ?thesis using False by (intro exI [of _ "8 - ?c"]) simp
qed

lemma flush_digits:
  assumes "l < 1024"
  shows "drop_bit 9 l AND 1 = (of_bool (512 \<le> l) :: nat)"
    "drop_bit 1 ((drop_bit 7 l AND 3) OR 1) = (of_bool (2 \<le> l div 128 mod 4) :: nat)"
    "((drop_bit 7 l AND 3) OR 1) AND 1 = (of_bool True :: nat)"
proof -
  have "l div 512 < 2" using assms by simp
  then consider "l div 512 = 0" "\<not> 512 \<le> l" | "l div 512 = 1" "512 \<le> l" by (auto simp: less_2_cases_iff div_eq_0_iff)
  then show "drop_bit 9 l AND 1 = of_bool (512 \<le> l)" by cases (simp_all add: drop_bit_nat_div and_one_eq)
  have t: "drop_bit 7 l AND 3 = l div 128 mod 4" by (simp add: and_masks drop_bit_nat_div)
  have "l div 128 mod 4 < 4" by simp
  then consider "l div 128 mod 4 = 0" | "l div 128 mod 4 = 1" | "l div 128 mod 4 = 2" | "l div 128 mod 4 = 3" by linarith
  then show "drop_bit 1 ((drop_bit 7 l AND 3) OR 1) = (of_bool (2 \<le> l div 128 mod 4) :: nat)"
    "((drop_bit 7 l AND 3) OR 1) AND 1 = (of_bool True :: nat)"
    unfolding t by (cases; simp)+
qed

lemma flush_value:
  assumes "pend + low = 128 * x" "512 * head = pend + (if 512 \<le> low then 512 else 0)" "low < 1024"
  shows "4 * head + 2 * of_bool (2 \<le> low div 128 mod 4) + 1 = x \<or>
    4 * head + 2 * of_bool (2 \<le> low div 128 mod 4) + 1 = x + (1 :: nat)"
proof -
  have "low mod 128 = (low + 128 * (4 * head)) mod 128" by (simp only: mod_mult_self2)
  also have "low + 128 * (4 * head) = 128 * (x + (if 512 \<le> low then 4 else 0))" using assms(1,2) by simp
  finally have "low mod 128 = 0" by simp
  then obtain q where q: "low = 128 * q" by (metis mod_0_imp_dvd dvd_def)
  then have "q < 8" using assms(3) by simp
  then have "q = 0 \<or> q = 1 \<or> q = 2 \<or> q = 3 \<or> q = 4 \<or> q = 5 \<or> q = 6 \<or> q = 7" by linarith
  then show ?thesis using assms(1,2) q by auto
qed

lemma bits_val_two: "bits_val (bs @ [a, True]) = 4 * bits_val bs + 2 * of_bool a + 1"
  unfolding bits_val_append bits_val_Cons [of a] by simp

lemma writes_two:
  assumes "ce_bytes_ok e"
  shows "writes [a, b] e (ce_write_bit (of_bool b) (ce_write_bit (of_bool a) e))"
  using assms by (intro writes_Cons writes_Nil ce_write_bit_ok(1))

lemma iv_norm_two: "iv_norm \<lparr>iv_low = x, iv_range = 2, iv_shift = s\<rparr> = \<lparr>iv_low = 128 * x, iv_range = 256, iv_shift = s + 7\<rparr>"
  by (simp add: iv_norm.simps iv_double_def)

lemma enc_at_flush:
  assumes "enc_at m \<lparr>iv_low = 128 * x, iv_range = 256, iv_shift = s + 7\<rparr> e" "128 * x + 256 \<le> 2 ^ (16 + s)"
  defines "e3 \<equiv> ce_put_bit (drop_bit 9 (ce_low e) AND 1) e"
  defines "two \<equiv> (drop_bit 7 (ce_low e3) AND 3) OR 1"
  defines "e' \<equiv> ce_write_bit (two AND 1) (ce_write_bit (drop_bit 1 two) e3)"
  shows "ce_bytes_ok e' \<and> ce_max_bytes e' = m \<and>
    (if ce_overflowed e' then 8 * m < s + 9
     else length (ce_bits e') = s + 9 \<and> (bits_val (ce_bits e') = x \<or> bits_val (ce_bits e') = x + 1))"
proof -
  have ok: "ce_bytes_ok e" "ce_max_bytes e = m" and low: "ce_low e < 1024"
    using assms(1) by (auto simp: enc_at_def)
  let ?b = "512 \<le> ce_low e" and ?t = "2 \<le> ce_low e div 128 mod 4"
  note D = flush_digits [OF low]
  have e3: "e3 = ce_put_bit (of_bool ?b) e" by (simp only: e3_def D)
  note W = ce_put_bit_writes [OF ok(1), of ?b, folded e3]
  have ok3: "ce_bytes_ok e3" "ce_max_bytes e3 = m" "ce_low e3 = ce_low e"
    using W(1) ok(2) by (simp_all add: writes_def)
  have "e' = ce_write_bit (of_bool True) (ce_write_bit (of_bool ?t) e3)"
    by (simp only: e'_def two_def ok3(3) D)
  then have w: "writes [?t, True] e3 e'" using writes_two [OF ok3(1), of ?t True] by simp
  then have fin: "ce_bytes_ok e'" "ce_max_bytes e' = m" using ok3(2) by (simp_all add: writes_def)
  have sticky: "ce_overflowed e3 \<Longrightarrow> ce_overflowed e'" using w by (simp add: writes_def)
  show ?thesis
  proof (cases "ce_overflowed e3")
    case True
    have "8 * m < s + 7"
    proof (cases "ce_overflowed e")
      case False
      then show ?thesis
        using True W(1) ok(2) assms(1) by (auto simp: writes_def enc_at_def head_ok_def ce_head_def put_bits_def split: if_splits)
    qed (use assms(1) in \<open>simp add: enc_at_def\<close>)
    then show ?thesis using sticky [OF True] fin by simp
  next
    case False
    then have ne: "\<not> ce_overflowed e" using W(1) by (auto simp: writes_def)
    then have rep: "head_ok (s + 7) e" "128 * x = ce_pending e + ce_low e"
      using assms(1) by (simp_all add: enc_at_def)
    have "\<not> ce_first_bit e" if ?b
    proof
      assume "ce_first_bit e"
      from first_pending [OF rep(1) this] have "ce_pending e + 512 = 2 ^ (16 + s)" by (simp add: power_add)
      then show False using assms(2) rep(2) \<open>?b\<close> by linarith
    qed
    note P = ce_put_bit_head(6) [OF ok(1) ne rep(1), where b = ?b, folded e3, OF this False]
    have head: "ce_head e3 = False # ce_bits e3" "length (ce_bits e3) = s + 7"
      "ce_pending e3 = 1024 * bits_val (ce_bits e3)"
      using P by (auto simp: head_ok_def ce_head_def ce_pending_def bits_val_Cons)
    have "512 * bits_val (ce_bits e3) = ce_pending e + (if ?b then 512 else 0)"
      using P head(3) by auto
    from flush_value [OF rep(2) [symmetric] this low]
    have "bits_val (ce_bits e3 @ [?t, True]) = x \<or> bits_val (ce_bits e3 @ [?t, True]) = x + 1"
      unfolding bits_val_two .
    moreover have "if 8 * m < s + 9 then ce_overflowed e' else \<not> ce_overflowed e' \<and> ce_bits e' = ce_bits e3 @ [?t, True]"
      using w False head(2) ok3(2) by (simp add: writes_def)
    ultimately show ?thesis using fin head(2) by (auto split: if_splits)
  qed
qed

lemma ce_terminate_at:
  assumes "enc_at m v e" "iv_ok v" "iv_shift v + 7 < 2 ^ 64"
  shows "\<exists>e'. ce_terminate 1 e = Some e' \<and> ce_bytes_ok e' \<and> ce_max_bytes e' = m \<and>
    (if ce_overflowed e' then 8 * m < iv_shift v + 9
     else length (ce_bits e') = iv_shift v + 9 \<and>
       (bits_val (ce_bits e') = iv_low v + iv_range v - 2 \<or> bits_val (ce_bits e') = iv_low v + iv_range v - 1))"
proof -
  let ?x = "iv_low v + (iv_range v - 2)"
  let ?v = "\<lparr>iv_low = ?x, iv_range = 2, iv_shift = iv_shift v\<rparr>"
  let ?e = "e\<lparr>ce_range := ce_range e - 2, ce_low := ce_low e + (ce_range e - 2)\<rparr>"
  have v: "2 \<le> iv_range v" "iv_low v + iv_range v \<le> 2 ^ (9 + iv_shift v)"
    using assms(2) by (simp_all add: iv_ok_def iv_raw_def)
  then have raw: "iv_raw ?v" by (simp add: iv_raw_def)
  have "enc_at m ?v (?e\<lparr>ce_range := 2\<rparr>)" using assms(1) v by (auto simp: enc_at_def)
  then obtain e2 where e2: "ce_renorm (?e\<lparr>ce_range := 2\<rparr>) = Some e2"
    "enc_at m \<lparr>iv_low = 128 * ?x, iv_range = 256, iv_shift = iv_shift v + 7\<rparr> e2"
    using ce_renorm_at [OF _ raw] assms(3) unfolding iv_norm_two by auto
  have "128 * ?x + 256 \<le> 2 ^ (16 + iv_shift v)" using v by (simp add: power_add)
  note F = enc_at_flush [OF e2(2) this]
  have "ce_terminate 1 e = ce_flush ?e" by (simp add: ce_terminate_def Let_def)
  also have "\<dots> = Some (let e3 = ce_put_bit (drop_bit 9 (ce_low e2) AND 1) e2;
        two = (drop_bit 7 (ce_low e3) AND 3) OR 1 in ce_write_bit (two AND 1) (ce_write_bit (drop_bit 1 two) e3))"
    using e2(1) by (simp add: ce_flush_def)
  finally show ?thesis using F v by (auto simp: Let_def split: if_splits)
qed

section \<open>Runs of bypass bins\<close>

definition bits_of :: "nat \<Rightarrow> nat \<Rightarrow> bool list" where
  "bits_of n x = map (\<lambda>i. odd (x div 2 ^ i)) (rev [0..<n])"

lemma length_bits_of [simp]: "length (bits_of n x) = n"
  by (simp add: bits_of_def)

lemma bits_of_Suc: "bits_of (Suc n) x = odd (x div 2 ^ n) # bits_of n x"
  by (simp add: bits_of_def)

lemma bits_val_of: "bits_val (bits_of n x) = x mod 2 ^ n"
proof (induction n)
  case 0
  then show ?case by (simp add: bits_of_def bits_val_def)
next
  case (Suc n)
  have "x mod 2 ^ Suc n = 2 ^ n * (x div 2 ^ n mod 2) + x mod 2 ^ n"
    using mod_mult2_eq [of x "2 ^ n" 2] by (simp add: mult.commute)
  then show ?case by (simp add: bits_of_Suc bits_val_Cons Suc of_bool_odd_eq_mod_2 mult.commute)
qed

text \<open>The bins of an exp-Golomb suffix that fits 32 bits.\<close>

function egk_bins :: "nat \<Rightarrow> nat \<Rightarrow> bool list" where
  "egk_bins k x = (if k < 31 \<and> 2 ^ k \<le> x then True # egk_bins (Suc k) (x - 2 ^ k) else False # bits_of k x)"
  by pat_completeness auto
termination
  by (relation "measure (\<lambda>(k, x). 31 - k)") auto

declare egk_bins.simps [simp del]

lemma length_egk_bins: "k \<le> 31 \<Longrightarrow> length (egk_bins k x) + k \<le> 64"
proof (induction k x rule: egk_bins.induct)
  case (1 k x)
  then show ?case by (cases "k < 31 \<and> 2 ^ k \<le> x") (auto simp: egk_bins.simps [of k x])
qed

definition ce_bins :: "bool list \<Rightarrow> cabac_encoder \<Rightarrow> cabac_encoder" where
  "ce_bins bs = fold (\<lambda>b. ce_bypass (of_bool b)) bs"

lemma ce_bypass_bits_bins: "ce_bypass_bits n x e = ce_bins (bits_of (min n 32) x) e"
proof -
  have bin: "drop_bit i x AND 1 = (of_bool (odd (x div 2 ^ i)) :: nat)" for i
    by (simp add: and_one_eq drop_bit_nat_div of_bool_odd_eq_mod_2)
  have "fold (\<lambda>i. ce_bypass (of_bool (odd (x div 2 ^ i)))) is e = ce_bins (map (\<lambda>i. odd (x div 2 ^ i)) is) e" for "is"
    by (simp add: ce_bins_def fold_map comp_def)
  then show ?thesis unfolding ce_bypass_bits_def bits_of_def bin .
qed

lemma shl_or_max_eq: "k < 32 \<Longrightarrow> shl_or_max k = 2 ^ k"
  by (simp add: shl_or_max_def checked_shl_def push_bit_eq_mult)

lemma ce_egk_bins:
  "k \<le> 31 \<Longrightarrow> run \<le> k \<Longrightarrow> x + 2 ^ k < 2 ^ 32 \<Longrightarrow> ce_egk_loop run k x e = ce_bins (egk_bins k x) e"
proof (induction k x arbitrary: run e rule: egk_bins.induct)
  case (1 k x)
  show ?case
  proof (cases "k < 31 \<and> 2 ^ k \<le> x")
    case True
    then show ?thesis
      using "1.IH" [of "Suc run" "ce_bypass 1 e"] "1.prems"
      by (simp add: ce_egk_loop.simps [of run] egk_bins.simps [of k] ce_bins_def shl_or_max_eq)
  next
    case False
    then have "\<not> 2 ^ k \<le> x" using "1.prems" by (cases "k = 31") auto
    then show ?thesis
      using False "1.prems"(1) ce_bypass_bits_bins [of k x] 
      by (simp add: ce_egk_loop.simps [of run] egk_bins.simps [of k] ce_bins_def shl_or_max_eq min_def)
  qed
qed

lemma enc_at_bins:
  "enc_at m v e \<Longrightarrow> iv_ok v \<Longrightarrow> iv_shift v + length bs < 2 ^ 64 \<Longrightarrow> enc_at m (fold iv_bypass bs v) (ce_bins bs e)"
proof (induction bs arbitrary: v e)
  case (Cons b bs)
  have "iv_shift v < 2 ^ 64 - 1" using Cons.prems(3) by simp
  from enc_at_bypass [OF Cons.prems(1,2) this]
  have "enc_at m (iv_bypass b v) (ce_bypass (of_bool b) e)" .
  moreover have "iv_ok (iv_bypass b v)" using iv_bypass_narrows [OF Cons.prems(2)] by (simp add: narrows_def)
  ultimately show ?case using Cons.IH Cons.prems(3) by (simp add: ce_bins_def iv_bypass_def)
qed (simp add: ce_bins_def)

lemma cd_bypass_bits_at:
  assumes "dec_at r0 v d" "iv_ok v" "holds_in (stream r0) (fold iv_bypass (bits_of (min n 32) x) v)"
    "room r0 (9 + iv_shift (fold iv_bypass (bits_of (min n 32) x) v))" "x < 2 ^ min n 32"
  shows "\<exists>d'. cd_bypass_bits n d = (x, d') \<and> dec_at r0 (fold iv_bypass (bits_of (min n 32) x) v) d'"
  using cd_bypass_loop_at [OF assms(1-4), of 0] assms(5) by (simp add: cd_bypass_bits_def bits_val_of)

lemma cd_egk_at:
  "dec_at r0 v d \<Longrightarrow> iv_ok v \<Longrightarrow> holds_in (stream r0) (fold iv_bypass (egk_bins k x) v) \<Longrightarrow>
     room r0 (9 + iv_shift (fold iv_bypass (egk_bins k x) v)) \<Longrightarrow> k \<le> 31 \<Longrightarrow> run \<le> k \<Longrightarrow>
     x + 2 ^ k < 2 ^ 32 \<Longrightarrow> acc + x < 2 ^ 32 \<Longrightarrow>
     \<exists>d'. cd_egk_loop run k acc d = (acc + x, d') \<and> dec_at r0 (fold iv_bypass (egk_bins k x) v) d'"
proof (induction k x arbitrary: run acc v d rule: egk_bins.induct)
  case (1 k x)
  define more where "more \<longleftrightarrow> k < 31 \<and> 2 ^ k \<le> x"
  define rest where "rest = (if more then egk_bins (Suc k) (x - 2 ^ k) else bits_of k x)"
  have bins: "egk_bins k x = more # rest" by (simp add: egk_bins.simps [of k] more_def rest_def)
  let ?w = "iv_bypass more v"
  have ok: "iv_ok ?w" using iv_bypass_narrows [OF "1.prems"(2)] by (simp add: narrows_def)
  note N = iv_bypasses_narrows [OF ok, of "stream r0" rest]
  have h: "holds_in (stream r0) (fold iv_bypass rest ?w)" "room r0 (9 + iv_shift (fold iv_bypass rest ?w))"
    using "1.prems"(3,4) by (simp_all add: bins)
  then have "holds_in (stream r0) ?w" "room r0 (9 + iv_shift ?w)"
    using N room_mono [OF h(2)] by (simp_all add: narrows_def)
  then obtain d1 where d1: "cd_bypass d = (of_bool more, d1)" "dec_at r0 ?w d1"
    using cd_bypass_at [OF "1.prems"(1,2)] by blast
  show ?case
  proof (cases more)
    case True
    then have k: "k < 31" "2 ^ k \<le> x" by (simp_all add: more_def)
    have s: "sat_u 32 (acc + 2 ^ k) = acc + 2 ^ k" using "1.prems"(8) k(2) by (subst sat_u_id) (auto simp: fits_u_def)
    have "\<exists>d'. cd_egk_loop (Suc run) (Suc k) (acc + 2 ^ k) d1 = (acc + 2 ^ k + (x - 2 ^ k), d') \<and>
        dec_at r0 (fold iv_bypass (egk_bins (Suc k) (x - 2 ^ k)) ?w) d'"
      using h k "1.prems"(5-8) True by (intro "1.IH" d1(2) ok) (auto simp: rest_def)
    moreover have "cd_egk_loop run k acc d = cd_egk_loop (Suc run) (Suc k) (acc + 2 ^ k) d1"
      using d1(1) True k "1.prems"(6) by (simp add: cd_egk_loop.simps [of run] checked_shl_def push_bit_eq_mult s MAX_EGK_PREFIX_def)
    ultimately show ?thesis using k True bins by (simp add: rest_def)
  next
    case False
    then have x: "x < 2 ^ min k 32" using "1.prems"(5,7) unfolding more_def by (cases "k = 31") (auto simp: min_def)
    have n: "bits_of (min k 32) x = rest" using False "1.prems"(5) by (simp add: rest_def min_def)
    obtain d2 where "cd_bypass_bits k d1 = (x, d2)" "dec_at r0 (fold iv_bypass rest ?w) d2"
      using cd_bypass_bits_at [OF d1(2) ok, of k x] h x unfolding n by blast
    moreover have "sat_u 32 (acc + x) = acc + x" using "1.prems"(8) by (simp add: sat_u_id fits_u_def)
    ultimately show ?thesis using d1(1) False bins by (simp add: cd_egk_loop.simps [of run])
  qed
qed

section \<open>Sequences of encoder calls\<close>

text \<open>
  The calls a codec makes between the start and the terminating bin, each context named by its
  index, and the decoder calls that read them back.
\<close>

datatype bin_step =
    Code_decision nat bool | Code_bypass bool | Code_bits nat nat | Code_egk nat nat | Code_continue

primrec enc_step ::
  "bin_step \<Rightarrow> context_model list \<Rightarrow> cabac_encoder \<Rightarrow> (context_model list \<times> cabac_encoder) option" where
  "enc_step (Code_decision i b) cs e =
     map_option (\<lambda>(c, e'). (cs[i := c], e')) (ce_decision (cs ! i) (of_bool b) e)"
| "enc_step (Code_bypass b) cs e = Some (cs, ce_bypass (of_bool b) e)"
| "enc_step (Code_bits n x) cs e = Some (cs, ce_bypass_bits n x e)"
| "enc_step (Code_egk k x) cs e = Some (cs, ce_bypass_egk k x e)"
| "enc_step Code_continue cs e = map_option (Pair cs) (ce_terminate 0 e)"

primrec enc_steps ::
  "bin_step list \<Rightarrow> context_model list \<Rightarrow> cabac_encoder \<Rightarrow> (context_model list \<times> cabac_encoder) option" where
  "enc_steps [] cs e = Some (cs, e)"
| "enc_steps (x # xs) cs e = Option.bind (enc_step x cs e) (\<lambda>(cs1, e1). enc_steps xs cs1 e1)"

text \<open>A whole stream: start, the calls, the terminating bin.\<close>

definition cabac_encode ::
  "nat \<Rightarrow> bin_step list \<Rightarrow> context_model list \<Rightarrow> (context_model list \<times> cabac_encoder) option" where
  "cabac_encode max_bytes xs cs =
     Option.bind (enc_steps xs cs (ce_with_limit max_bytes)) (\<lambda>(cs', e).
       map_option (Pair cs') (ce_terminate 1 e))"

primrec op_of :: "bin_step \<Rightarrow> cabac_op" where
  "op_of (Code_decision i b) = Decision i"
| "op_of (Code_bypass b) = Bypass_bin"
| "op_of (Code_bits n x) = Bypass_bits n"
| "op_of (Code_egk k x) = Egk k"
| "op_of Code_continue = Terminate"

primrec val_of :: "bin_step \<Rightarrow> int" where
  "val_of (Code_decision i b) = of_bool b"
| "val_of (Code_bypass b) = of_bool b"
| "val_of (Code_bits n x) = int x"
| "val_of (Code_egk k x) = int x"
| "val_of Code_continue = 0"

primrec step_ok :: "nat \<Rightarrow> bin_step \<Rightarrow> bool" where
  "step_ok n (Code_decision i b) \<longleftrightarrow> i < n"
| "step_ok n (Code_bypass b) \<longleftrightarrow> True"
| "step_ok n (Code_bits k x) \<longleftrightarrow> x < 2 ^ min k 32"
| "step_ok n (Code_egk k x) \<longleftrightarrow> x + 2 ^ min k 31 < 2 ^ 32"
| "step_ok n Code_continue \<longleftrightarrow> True"

definition ctxs_ok :: "context_model list \<Rightarrow> bool" where
  "ctxs_ok cs \<longleftrightarrow> list_all (\<lambda>c. c < 256) cs"

primrec step_ctx :: "bin_step \<Rightarrow> context_model list \<Rightarrow> context_model list" where
  "step_ctx (Code_decision i b) cs = cs[i := tab TRANS (if b \<noteq> odd (cs ! i) then 256 + cs ! i else cs ! i)]"
| "step_ctx (Code_bypass b) cs = cs"
| "step_ctx (Code_bits n x) cs = cs"
| "step_ctx (Code_egk k x) cs = cs"
| "step_ctx Code_continue cs = cs"

primrec iv_step :: "bin_step \<Rightarrow> context_model list \<Rightarrow> interval \<Rightarrow> interval" where
  "iv_step (Code_decision i b) cs v = iv_decide (cs ! i) b v"
| "iv_step (Code_bypass b) cs v = iv_bypass b v"
| "iv_step (Code_bits n x) cs v = fold iv_bypass (bits_of (min n 32) x) v"
| "iv_step (Code_egk k x) cs v = fold iv_bypass (egk_bins (min k 31) x) v"
| "iv_step Code_continue cs v = iv_continue v"

primrec iv_steps :: "bin_step list \<Rightarrow> context_model list \<Rightarrow> interval \<Rightarrow> interval" where
  "iv_steps [] cs v = v"
| "iv_steps (x # xs) cs v = iv_steps xs (step_ctx x cs) (iv_step x cs v)"

lemma step_ctx_ok:
  "ctxs_ok cs \<Longrightarrow> step_ok (length cs) x \<Longrightarrow> ctxs_ok (step_ctx x cs) \<and> length (step_ctx x cs) = length cs"
proof (cases x)
  case (Code_decision i b)
  assume "ctxs_ok cs" "step_ok (length cs) x"
  moreover from this have "cs ! i < 256" using Code_decision by (simp add: ctxs_ok_def list_all_length)
  ultimately show ?thesis
    using Code_decision TRANS_less [of "cs ! i"] by (auto simp: ctxs_ok_def list_all_length nth_list_update)
qed simp_all

lemma ctx_less: "ctxs_ok cs \<Longrightarrow> i < length cs \<Longrightarrow> cs ! i < 256"
  by (simp add: ctxs_ok_def list_all_length)

lemma iv_step_narrows:
  assumes "iv_ok v" "ctxs_ok cs" "step_ok (length cs) x"
  shows "narrows str 64 v (iv_step x cs v)"
proof (cases x)
  case (Code_decision i b)
  then show ?thesis
    using narrows_mono [OF iv_decide_narrows [OF assms(1) ctx_less [OF assms(2)]]] assms(3) by simp
next
  case (Code_bypass b)
  then show ?thesis using narrows_mono [OF iv_bypass_narrows [OF assms(1)]] by simp
next
  case (Code_bits n x)
  then show ?thesis using narrows_mono [OF iv_bypasses_narrows [OF assms(1), of str "bits_of (min n 32) x"]] by simp
next
  case (Code_egk k x)
  have "length (egk_bins (min k 31) x) \<le> 64" using length_egk_bins [of "min k 31" x] by simp
  then show ?thesis using Code_egk narrows_mono [OF iv_bypasses_narrows [OF assms(1), of str "egk_bins (min k 31) x"]] by simp
next
  case Code_continue
  then show ?thesis using narrows_mono [OF iv_continue_narrows [OF assms(1)]] by simp
qed

lemma iv_steps_narrows:
  "iv_ok v \<Longrightarrow> ctxs_ok cs \<Longrightarrow> list_all (step_ok (length cs)) xs \<Longrightarrow> narrows str (64 * length xs) v (iv_steps xs cs v)"
proof (induction xs arbitrary: v cs)
  case (Cons x xs)
  then have s: "step_ok (length cs) x" by simp
  note N = iv_step_narrows [OF Cons.prems(1,2) s, of str]
  then have "narrows str (64 * length xs) (iv_step x cs v) (iv_steps xs (step_ctx x cs) (iv_step x cs v))"
    using step_ctx_ok [OF Cons.prems(2) s] Cons.prems(3) by (intro Cons.IH) (simp_all add: narrows_def)
  from narrows_trans [OF N this] show ?case by (simp add: add.commute)
qed (simp add: narrows_refl)

lemma enc_step_at:
  assumes "enc_at m v e" "iv_ok v" "ctxs_ok cs" "step_ok (length cs) x" "iv_shift v + 64 < 2 ^ 64"
  shows "\<exists>e'. enc_step x cs e = Some (step_ctx x cs, e') \<and> enc_at m (iv_step x cs v) e'"
proof (cases x)
  case (Code_decision i b)
  have c: "cs ! i < 256" using Code_decision assms(3,4) ctx_less by simp
  then have "iv_shift (iv_decide (cs ! i) b v) < 2 ^ 64"
    using iv_decide_narrows [OF assms(2) c, of "\<lambda>i. True" b] assms(5) by (simp add: narrows_def)
  from ce_decision_at [OF assms(1,2) c this] show ?thesis using Code_decision by auto
next
  case (Code_bypass b)
  then show ?thesis using enc_at_bypass [OF assms(1,2)] assms(5) by simp
next
  case (Code_bits n x)
  then show ?thesis
    using enc_at_bins [OF assms(1,2), of "bits_of (min n 32) x"] assms(5) by (simp add: ce_bypass_bits_bins)
next
  case (Code_egk k x)
  then have "ce_bypass_egk k x e = ce_bins (egk_bins (min k 31) x) e"
    using ce_egk_bins [of "min k 31" 0 x] assms(4) by (simp add: ce_bypass_egk_def)
  moreover have "iv_shift v + length (egk_bins (min k 31) x) < 2 ^ 64"
    using length_egk_bins [of "min k 31" x] assms(5) by simp
  ultimately show ?thesis using Code_egk enc_at_bins [OF assms(1,2)] by simp
next
  case Code_continue
  have "iv_shift (iv_continue v) < 2 ^ 64"
    using iv_continue_narrows [OF assms(2), of "\<lambda>i. True"] assms(5) by (simp add: narrows_def)
  from ce_continue_at [OF assms(1,2) this] show ?thesis using Code_continue by auto
qed

lemma enc_steps_at:
  "enc_at m v e \<Longrightarrow> iv_ok v \<Longrightarrow> ctxs_ok cs \<Longrightarrow> list_all (step_ok (length cs)) xs \<Longrightarrow>
     iv_shift v + 64 * length xs < 2 ^ 64 \<Longrightarrow>
     \<exists>e'. enc_steps xs cs e = Some (fold step_ctx xs cs, e') \<and> enc_at m (iv_steps xs cs v) e'"
proof (induction xs arbitrary: v cs e)
  case (Cons x xs)
  then have s: "step_ok (length cs) x" by simp
  have N: "narrows (\<lambda>i. True) 64 v (iv_step x cs v)" by (rule iv_step_narrows [OF Cons.prems(2,3) s])
  have "iv_shift v + 64 < 2 ^ 64" using Cons.prems(5) by simp
  from enc_step_at [OF Cons.prems(1-3) s this]
  obtain e1 where e1: "enc_step x cs e = Some (step_ctx x cs, e1)" "enc_at m (iv_step x cs v) e1" by blast
  have "\<exists>e'. enc_steps xs (step_ctx x cs) e1 = Some (fold step_ctx xs (step_ctx x cs), e') \<and>
      enc_at m (iv_steps xs (step_ctx x cs) (iv_step x cs v)) e'"
    using N step_ctx_ok [OF Cons.prems(3) s] Cons.prems(4,5)
    by (intro Cons.IH e1(2)) (simp_all add: narrows_def)
  then show ?case using e1(1) by simp
qed simp

lemma dec_step_at:
  assumes "dec_at r0 v d" "iv_ok v" "ctxs_ok cs" "step_ok (length cs) x"
    "holds_in (stream r0) (iv_step x cs v)" "room r0 (9 + iv_shift (iv_step x cs v))"
  shows "\<exists>d'. dec_op (op_of x) cs d = Some (val_of x, step_ctx x cs, d') \<and> dec_at r0 (iv_step x cs v) d'"
proof (cases x)
  case (Code_decision i b)
  then have c: "cs ! i < 256" using assms(3,4) ctx_less by simp
  show ?thesis using cd_decision_at [OF assms(1,2) c, of b] assms(5,6) Code_decision by auto
next
  case (Code_bypass b)
  then show ?thesis using cd_bypass_at [OF assms(1,2), of b] assms(5,6) by auto
next
  case (Code_bits n y)
  then show ?thesis using cd_bypass_bits_at [OF assms(1,2), of n y] assms(4-6) by auto
next
  case (Code_egk k y)
  then show ?thesis
    using cd_egk_at [OF assms(1,2), of "min k 31" y 0 0] assms(4-6) by (auto simp: cd_bypass_egk_def)
next
  case Code_continue
  then show ?thesis using cd_terminate_at [OF assms(1,2)] assms(5,6) by auto
qed

lemma dec_steps_at:
  "dec_at r0 v d \<Longrightarrow> iv_ok v \<Longrightarrow> ctxs_ok cs \<Longrightarrow> list_all (step_ok (length cs)) xs \<Longrightarrow>
     holds_in (stream r0) (iv_steps xs cs v) \<Longrightarrow> room r0 (9 + iv_shift (iv_steps xs cs v)) \<Longrightarrow>
     \<exists>d'. dec_ops (map op_of xs @ ys) cs d =
         map_option (\<lambda>(vs, cs', d2). (map val_of xs @ vs, cs', d2)) (dec_ops ys (fold step_ctx xs cs) d') \<and>
       dec_at r0 (iv_steps xs cs v) d'"
proof (induction xs arbitrary: v cs d)
  case Nil
  then show ?case by (auto simp: case_prod_unfold option.map_ident intro!: exI [of _ d])
next
  case (Cons x xs)
  then have s: "step_ok (length cs) x" by simp
  let ?w = "iv_step x cs v" and ?cs = "step_ctx x cs"
  note ctx = step_ctx_ok [OF Cons.prems(3) s]
  have ok: "iv_ok ?w" using iv_step_narrows [OF Cons.prems(2,3) s] by (simp add: narrows_def)
  have N: "narrows (stream r0) (64 * length xs) ?w (iv_steps xs ?cs ?w)"
    using iv_steps_narrows [OF ok, of ?cs] ctx Cons.prems(4) by simp
  have h: "holds_in (stream r0) (iv_steps xs ?cs ?w)" "room r0 (9 + iv_shift (iv_steps xs ?cs ?w))"
    using Cons.prems(5,6) by simp_all
  then have "holds_in (stream r0) ?w" "room r0 (9 + iv_shift ?w)"
    using N room_mono [OF h(2)] by (simp_all add: narrows_def)
  then obtain d1 where d1: "dec_op (op_of x) cs d = Some (val_of x, ?cs, d1)" "dec_at r0 ?w d1"
    using dec_step_at [OF Cons.prems(1-3) s] by blast
  obtain d' where "dec_ops (map op_of xs @ ys) ?cs d1 =
      map_option (\<lambda>(vs, cs', d2). (map val_of xs @ vs, cs', d2)) (dec_ops ys (fold step_ctx xs ?cs) d')"
    "dec_at r0 (iv_steps xs ?cs ?w) d'"
    using Cons.IH [OF d1(2) ok _ _ h] ctx Cons.prems(4) by auto
  then show ?case using d1(1) by (auto simp: option.map_comp comp_def case_prod_unfold)
qed

section \<open>The round trip\<close>

text \<open>Both sides start at the interval of the first nine bits.\<close>

definition iv_start :: interval where
  "iv_start = \<lparr>iv_low = 0, iv_range = 510, iv_shift = 0\<rparr>"

lemma iv_start_ok: "iv_ok iv_start" "iv_shift iv_start = 0"
  by (simp_all add: iv_start_def iv_ok_def iv_raw_def)

lemma enc_at_start: "enc_at m iv_start (ce_with_limit m)"
  by (simp add: enc_at_def iv_start_def ce_with_limit_def INITIAL_RANGE_def ce_bytes_ok_def ce_bits_def
      ce_head_def head_ok_def ce_pending_def bits_val_def bytes_bits_def low_bits_def)

lemma dec_at_start:
  assumes "reader_ok (br_new bs)" "room (br_new bs) 9" "holds_in (stream (br_new bs)) iv_start"
  shows "dec_at (br_new bs) iv_start (cd_new bs)"
proof -
  have align: "br_align (br_new bs) = br_new bs"
    by (simp add: br_align_def br_skip_def br_new_def br_start_def)
  obtain v r where g: "br_get 9 (br_new bs) = (v, r)" by fastforce
  have V: "unat v = stream_val (stream (br_new bs)) 9 \<and> advanced (br_new bs) 9 r"
    unfolding stream_val_def by (rule br_get_spec [OF assms(1,2) _ g]) simp
  have "stream_val (stream (br_new bs)) 9 < 510" using assms(3) by (simp add: holds_in_def iv_start_def)
  then show ?thesis
    using V g by (simp add: cd_new_def cd_from_reader_def align OFFSET_BITS_def INITIAL_RANGE_def dec_at_def iv_start_def)
qed

text \<open>What a whole encoding writes.\<close>

lemma cabac_encode_bits:
  assumes "ctxs_ok cs" "list_all (step_ok (length cs)) xs" "64 * length xs + 16 \<le> 8 * m"
    "64 * length xs + 512 < 2 ^ 64"
  defines "v \<equiv> iv_steps xs cs iv_start"
  shows "\<exists>e. cabac_encode m xs cs = Some (fold step_ctx xs cs, e) \<and> ce_bytes_ok e \<and> \<not> ce_overflowed e \<and>
    length (ce_bits e) = 9 + iv_shift v \<and> iv_low v + iv_range v - 2 \<le> bits_val (ce_bits e) \<and>
    bits_val (ce_bits e) < iv_low v + iv_range v"
proof -
  have N: "narrows (\<lambda>i. True) (64 * length xs) iv_start v"
    unfolding v_def by (rule iv_steps_narrows [OF iv_start_ok(1) assms(1,2)])
  then have ok: "iv_ok v" "iv_shift v \<le> 64 * length xs" using iv_start_ok(2) by (simp_all add: narrows_def)
  obtain e0 where e0: "enc_steps xs cs (ce_with_limit m) = Some (fold step_ctx xs cs, e0)" "enc_at m v e0"
    using enc_steps_at [OF enc_at_start iv_start_ok(1) assms(1,2)] iv_start_ok(2) assms(4) unfolding v_def by auto
  have "iv_shift v + 7 < 2 ^ 64" using ok(2) assms(4) by simp
  from ce_terminate_at [OF e0(2) ok(1) this]
  obtain e where e: "ce_terminate 1 e0 = Some e" "ce_bytes_ok e"
    "if ce_overflowed e then 8 * m < iv_shift v + 9
     else length (ce_bits e) = iv_shift v + 9 \<and>
       (bits_val (ce_bits e) = iv_low v + iv_range v - 2 \<or> bits_val (ce_bits e) = iv_low v + iv_range v - 1)"
    by blast
  have "\<not> ce_overflowed e" using e(3) ok(2) assms(3) by (cases "ce_overflowed e") simp_all
  moreover have "256 \<le> iv_range v" using ok(1) by (simp add: iv_ok_def)
  moreover have "cabac_encode m xs cs = Some (fold step_ctx xs cs, e)" using e0(1) e(1) by (simp add: cabac_encode_def)
  ultimately show ?thesis using e by auto
qed

lemma cd_stands_at:
  assumes "dec_at (br_new bs) v d" "9 + iv_shift v \<le> 8 * length bs" "8 * length bs + 256 < 2 ^ 64"
  shows "\<not> cd_is_malformed d" "br_bit_pos (cd_reader d) = 9 + iv_shift v"
proof -
  have a: "advanced (br_new bs) (9 + iv_shift v) (cd_reader d)" "\<not> cd_malformed d"
    using assms(1) by (simp_all add: dec_at_def)
  from check_within_bytes [OF a(1) assms(2,3)] a(2) show "\<not> cd_is_malformed d"
    by (simp add: cd_is_malformed_def br_check_def split: if_splits)
  have "cursor (br_new bs) = 0" by (simp add: br_new_def br_start_ok)
  then show "br_bit_pos (cd_reader d) = 9 + iv_shift v"
    using a(1) assms(2,3) bit_pos_cursor [of "cd_reader d"] by (simp add: advanced_def room_def)
qed

text \<open>
  C2. CABAC round trip: any sequence of context-coded decisions, bypass bins, bypass runs,
  exp-Golomb suffixes and non-final terminate bins that the encoder codes under its byte
  ceiling, closed by the terminating bin and the byte padding, is decoded back exactly: every
  call returns, on both sides; the decoder returns the coded values and then 1; both sides hold
  the same contexts; the decoder is terminated and not malformed, and its reader stands at the
  last bit the encoder wrote.
\<close>

theorem cabac_round_trip:
  assumes "ctxs_ok cs" "list_all (step_ok (length cs)) xs" "64 * length xs + 16 \<le> 8 * max_bytes"
    "64 * length xs + 512 < 2 ^ 64"
  shows "\<exists>cs' e d. cabac_encode max_bytes xs cs = Some (cs', e) \<and> \<not> ce_overflowed e \<and>
    dec_ops (map op_of xs @ [Terminate]) cs (cd_new (ce_finish e)) = Some (map val_of xs @ [1], cs', d) \<and>
    cd_terminated d \<and> \<not> cd_is_malformed d \<and> br_bit_pos (cd_reader d) = ce_bit_len e"
proof -
  let ?v = "iv_steps xs cs iv_start"
  obtain e where e: "cabac_encode max_bytes xs cs = Some (fold step_ctx xs cs, e)" "ce_bytes_ok e"
    "\<not> ce_overflowed e" "length (ce_bits e) = 9 + iv_shift ?v"
    "iv_low ?v + iv_range ?v - 2 \<le> bits_val (ce_bits e)" "bits_val (ce_bits e) < iv_low ?v + iv_range ?v"
    using cabac_encode_bits [OF assms] by blast
  let ?bs = "ce_finish e" and ?r = "br_new (ce_finish e)"
  have N: "narrows (stream ?r) (64 * length xs) iv_start ?v"
    by (rule iv_steps_narrows [OF iv_start_ok(1) assms(1,2)])
  then have v: "iv_ok ?v" "iv_shift ?v \<le> 64 * length xs" using iv_start_ok(2) by (simp_all add: narrows_def)
  obtain k where k: "k < 8" "bytes_bits ?bs = ce_bits e @ replicate k False" using ce_finish_bits [OF e(2)] by blast
  from arg_cong [OF k(2), of length] have len: "8 * length ?bs = 9 + iv_shift ?v + k" using e(4) by simp
  then have small: "8 * length ?bs + 256 < 2 ^ 64" using k(1) v(2) assms(4) by linarith
  note R = reader_over_bits [OF k(2) small, unfolded e(4)]
  have val: "stream_val (stream ?r) (9 + iv_shift ?v) = bits_val (ce_bits e)" using R(3) by (simp add: stream_val_def)
  have "256 \<le> iv_range ?v" using v(1) by (simp add: iv_ok_def)
  then have h: "holds_in (stream ?r) ?v" using e(5,6) val by (simp add: holds_in_def)
  have rm: "room ?r (9 + iv_shift ?v)" "room ?r 9" using R(2) by (auto intro: room_mono)
  have "holds_in (stream ?r) iv_start" using N h by (simp add: narrows_def)
  from dec_steps_at [OF dec_at_start [OF R(1) rm(2) this] iv_start_ok(1) assms(1,2) h rm(1)]
  obtain d where d: "dec_ops (map op_of xs @ [Terminate]) cs (cd_new ?bs) =
      map_option (\<lambda>(vs, cs', d2). (map val_of xs @ vs, cs', d2)) (dec_ops [Terminate] (fold step_ctx xs cs) d)"
    "dec_at ?r ?v d" by blast
  have t: "cd_terminate d = Some (1, d\<lparr>cd_terminated := True\<rparr>)"
    using cd_terminate_end [OF d(2) v(1)] e(5) val by simp
  have "9 + iv_shift ?v \<le> 8 * length ?bs" using len by simp
  note S = cd_stands_at [OF d(2) this small]
  have "ce_bit_len e = 9 + iv_shift ?v"
    using e(4) length_ce_bits [of e] v(2) assms(4) by (simp add: ce_bit_len_def sat_u_id fits_u_def mult.commute)
  then show ?thesis using e(1,3) d(1) t S by (simp add: cd_is_malformed_def)
qed

theorem cabac_round_trip_witness:
  "\<exists>cs' e d. cabac_encode 64 [Code_decision 0 True, Code_egk 1 9, Code_decision 1 False, Code_bits 3 5, Code_continue]
      [12, 124] = Some (cs', e) \<and>
    dec_ops [Decision 0, Egk 1, Decision 1, Bypass_bits 3, Terminate, Terminate] [12, 124] (cd_new (ce_finish e)) =
      Some ([1, 9, 0, 5, 0, 1], cs', d)"
  using cabac_round_trip [of "[12, 124]"
      "[Code_decision 0 True, Code_egk 1 9, Code_decision 1 False, Code_bits 3 5, Code_continue]" 64]
  by (simp add: ctxs_ok_def) blast

end
