(* ===== verification/Spec2Isabelle.thy ===== *)
theory Spec2Isabelle
  imports Core_Rational Core_Time Core_Dict Bits_Golomb Bits_Bytes Limits_Budget Codec_Protocol Io_Context Codec_Qoi_Image Signal_Vlc Signal_Cabac_Coding
begin

text \<open>
  A verification development for Vaco, a media toolkit written in Rust: exact time arithmetic,
  the bitstream layer, entropy coding, resource limits, buffers and packets, buffered input and output, the option
  grammar and the codec protocol. Everything above them (codecs, containers, filters, protocols, the command
  line) reaches its input, output and memory through these parts.

  \<^bold>\<open>How the parts interact.\<close> Containers and codecs count time in ticks of a rational time base;
  \<^verbatim>\<open>vaco-core\<close> rescales and compares them exactly. A demuxer cuts units out of a byte
  stream with the byte reader, the length-prefixed iterator or the Annex-B iterator of
  \<^verbatim>\<open>vaco-bitstream\<close>; a parser removes emulation prevention and reads syntax elements with
  the bit reader and its Exp-Golomb decoders; a muxer writes them with the bit writer and sends
  bytes and fields through the buffered writer of \<^verbatim>\<open>vaco-io\<close> into a sink; a demuxer
  reads them through the buffered reader, which also keeps running checksums. Every
  allocation and every input-derived loop is charged to a budget of \<^verbatim>\<open>vaco-limits\<close>. The bytes live
  in reference-counted buffers of \<^verbatim>\<open>vaco-pool\<close> and travel in the packets of \<^verbatim>\<open>vaco-packet\<close>. A codec
  is a send/receive state machine (\<^verbatim>\<open>vaco-codec-core\<close>) that a validator can watch. Options
  arrive as text in the escaping grammar and are kept in ordered dictionaries.

  \<^bold>\<open>Theories, sources and what is shown\<close> (paths under \<^verbatim>\<open>src/crates/\<close>).
  \<^item> \<open>Vaco_Prelude\<close>: Rust's machine integers (ranges, checked and saturating arithmetic),
    checked slicing, truncating division, ASCII case, the \<open>total_comparator\<close> contract.
  \<^item> \<open>Core_Rational\<close> (\<^verbatim>\<open>core/vaco-core/src/rational.rs\<close>): \<^verbatim>\<open>Rational\<close> is a record
    of two 32-bit words, its 128-bit intermediates are integers with explicit range checks. The
    value of a pair is an extended rational; comparison is its order, arithmetic is exact or
    refused, the operators return a nearest representable value, and the continued-fraction
    approximation is optimal within its budget.
  \<^item> \<open>Core_Time\<close> (\<^verbatim>\<open>core/vaco-core/src/time.rs\<close>): \<^verbatim>\<open>a * b / c\<close> with every
    rounding mode for all 128-bit operands, rescaling, comparison and conversion of timestamps
    and durations, decimal seconds.
  \<^item> \<open>Core_Escape\<close>, \<open>Core_Dict\<close> (\<^verbatim>\<open>core/vaco-core/src/escape.rs\<close>,
    \<^verbatim>\<open>dict.rs\<close>): escaping and its inverse, splitting before unescaping; the dictionary as
    an ordered finite map and its text form. The locale \<open>escaping\<close> is what the dictionary
    relies on; it is interpreted for both encodings and for \<^verbatim>\<open>escape\<close> itself.
  \<^item> \<open>Bits_Reader\<close>, \<open>Bits_Golomb\<close>, \<open>Bits_Writer\<close>, \<open>Bits_AnnexB\<close>,
    \<open>Bits_Bytes\<close> (\<^verbatim>\<open>core/vaco-bitstream/src\<close>: \<^verbatim>\<open>reader.rs\<close>, \<^verbatim>\<open>padded.rs\<close>,
    \<^verbatim>\<open>golomb.rs\<close>, \<^verbatim>\<open>writer.rs\<close>, \<^verbatim>\<open>annexb.rs\<close>, \<^verbatim>\<open>bytes.rs\<close>, \<^verbatim>\<open>avcc.rs\<close>):
    the cached reader refines the documented bit stream, zeros past the logical end, wherever
    the slice holds only zeros there (\<open>zero_tail\<close>); the writer appends bits; written
    syntax elements are read back, directly and through escaping and framing; the word-skipping
    start-code search is the naive one; byte fields and length-prefixed units. The locale
    \<open>bit_cursor\<close> is the reader contract the code decoders use.
  \<^item> \<open>Limits_Budget\<close> (\<^verbatim>\<open>core/vaco-limits/src\<close>): budgets, reservations, incremental
    buffers, fuel and the progress guard. The step relation \<open>budget_step\<close> is the life of a
    budget; the locale \<open>meter\<close> is interpreted for bytes and for fuel.
  \<^item> \<open>Io_Sink\<close>, \<open>Io_Writer\<close>, \<open>Io_Checksum\<close>, \<open>Io_Context\<close>
    (\<^verbatim>\<open>io/vaco-io/src\<close>: \<^verbatim>\<open>dynbuf.rs\<close>, \<^verbatim>\<open>memory.rs\<close>, \<^verbatim>\<open>writer.rs\<close>,
    \<^verbatim>\<open>checksum.rs\<close>, \<^verbatim>\<open>ctx.rs\<close>): the growable sink is a file within its limit and its
    budget; the buffered writer is transparent over every sink that keeps the contract of the
    locale \<open>media_sink\<close>, succeeds over one that keeps \<open>roomy_sink\<close>, and keeps its first error.
    The CRC registers satisfy \<open>crc_register\<close>, from which burst detection follows. The buffer of
    the reader is a window of its source (\<open>ctx_fine\<close>); over every source that keeps
    \<open>media_source\<close> reads, peeks within the limits, seeks and skips are those of a plain byte
    string (past its end only where seeks are cheap), and what the writer wrote is read back. All the locales are interpreted on the in-memory sink and
    source and on both registers.
  \<^item> \<open>Codec_Machine\<close>, \<open>Codec_Protocol\<close> (\<^verbatim>\<open>signal/vaco-codec-core/src\<close>:
    \<^verbatim>\<open>caps.rs\<close>, \<^verbatim>\<open>machine.rs\<close>, \<^verbatim>\<open>protocol.rs\<close>, \<^verbatim>\<open>mock.rs\<close>): the state machine
    with the relation \<open>machine_step\<close> of its disciplined use, the validator over any
    component, the locale \<open>send_receive\<close> with the rules of the protocol, and its
    interpretation on the reference codec, which refines its reference model.
  \<^item> \<open>Model_Pool\<close> (\<^verbatim>\<open>model/vaco-pool/src\<close>): aligned allocations, the bounded pool of
    one size class, and reference-counted handles in an explicit store with copy-on-write. The
    program over buffers is a sequence of events; it refines a specification in which every
    handle is a variable of its own (\<open>spec_step\<close>), and the pool stays within its caps.
  \<^item> \<open>Model_Packet\<close> (\<^verbatim>\<open>model/vaco-packet/src\<close>): packets over such values; of the packets a
    program can build (\<open>made\<close>) those that begin with padding stay padded for the bit reader,
    and side data is a map.
  \<^item> \<open>Model_Frame\<close> (\<^verbatim>\<open>model/vaco-pixfmt/src/lib.rs\<close>, \<^verbatim>\<open>model/vaco-frame/src\<close>: \<^verbatim>\<open>alloc.rs\<close>,
    \<^verbatim>\<open>plane.rs\<close>): descriptors, the layout of a frame, allocation under a budget, the check of
    foreign planes and the views of rows and bands; rows exist, are as long as the format says
    and do not overlap.
  \<^item> \<open>Codec_Oneshot\<close>: the locale \<open>one_shot\<close> of codecs that convert every input at once; it
    is a \<open>send_receive\<close> component and delivers its conversions in order.
  \<^item> \<open>Codec_Qoi\<close>, \<open>Codec_Qoi_Image\<close> (\<^verbatim>\<open>codec/vaco-codec-qoi/src\<close>): the QOI chunks and the
    running array, whose encoder and decoder stay in step; the image codec, lossless on checked
    frames and safe on every input; the decoder and encoder of the protocol, both interpreted in
    \<open>one_shot\<close>, and the chain of encoder, packet and decoder.
  \<^item> \<open>Signal_Vlc\<close> (\<^verbatim>\<open>signal/vaco-codec-vlc/src/lib.rs\<close>): variable-length code tables; both
    lookup tables are the linear scan wherever no shift overflows (the locale \<open>first_claim\<close>,
    interpreted for each of them), prefix-free tables decode what was written, the Kraft sum decides completeness.
  \<^item> \<open>Signal_Cabac\<close> (\<^verbatim>\<open>signal/vaco-codec-cabac/src\<close>): the arithmetic coder of H.264 and HEVC
    with its tables and contexts: the decoder is safe and returns on every input.
  \<^item> \<open>Signal_Cabac_Coding\<close>: the specification both sides of the arithmetic coder implement, an
    interval of unbounded integers that bins narrow; the encoder's registers, outstanding bits
    and bytes represent its lower end, the decoder's offset is the distance from it. Hence
    encoding and decoding are inverse for every sequence of calls.

  \<^bold>\<open>Conventions.\<close> Words are used where bit patterns or wrap-around matter; sizes and counters
  are natural numbers with the saturation or the 64-bit check of the code written out
  (\<^verbatim>\<open>usize\<close> is 64 bits). A shift whose amount can reach the width of its type is that of a
  release build, by the amount modulo the width (\<open>shr_word\<close>, \<open>shl_word\<close>, \<open>shl_usize\<close>). Debug
  assertions are either release semantics or, in the codec
  machine, explicit predicates. A \<^verbatim>\<open>Result\<close> is a sum, a panic of the validator is
  \<open>None\<close>. The allocator and the clock are arguments. Loops are recursive functions with
  termination proofs and no fuel, except \<open>receive_loop\<close>, a caller's loop whose fuel is
  proved sufficient as soon as it exceeds the queue, and the renormalisation loops of CABAC,
  which are partial functions proved to return on every state of the engine. Strings are lists of characters, so byte
  offsets are character positions.

  \<^bold>\<open>Not modelled.\<close> Floating point (the \<^verbatim>\<open>f64\<close> views of rationals and times), formatting and
  parsing of displayed values, capacity reservation of the bit writer, the delegating adapters
  of the codec protocol; and the crates listed as such in the manifest: the other codecs, containers,
  filters, protocols, hardware, generated registry and tools.
\<close>

end
